(* ===== verification/AIE_Prelude.thy ===== *)
theory AIE_Prelude
  imports Main "HOL-Library.Word" "HOL-Library.Signed_Division" "HOL-Library.Multiset"
begin

text \<open>
  Shared vocabulary of the development: the machine integer types of the C++ sources, the
  result type of operations that can fail, the insertion-ordered set of LLVM, and the
  generic lemmas on lists and options that the component theories use.

  Assertions are compiled out in the modelled (release) build. Where a failed assertion
  would be followed by an access out of bounds, a division by zero or a call of
  \<open>llvm::report_fatal_error\<close>, the model returns the error value of that event.
\<close>

section \<open>Integer types and results\<close>

type_synonym u8 = "8 word"
type_synonym u32 = "32 word"

text \<open>
  \<open>Failure\<close> is \<open>mlir::failure()\<close>, \<open>Fatal\<close> is \<open>llvm::report_fatal_error\<close>,
  \<open>DivByZero\<close> is an integer division or remainder by zero, and \<open>OutOfBounds\<close> is an access
  past the end of a vector, at a key a map does not have, or through a null pointer.
\<close>

datatype aie_error = Failure | Fatal | DivByZero | OutOfBounds

type_synonym 'a result = "aie_error + 'a"

text \<open>Sequencing of operations that can fail, and a check that fails.\<close>

fun res_bind :: "'a result \<Rightarrow> ('a \<Rightarrow> 'b result) \<Rightarrow> 'b result" where
  "res_bind (Inl e) f = Inl e"
| "res_bind (Inr x) f = f x"

fun res_of_option :: "aie_error \<Rightarrow> 'a option \<Rightarrow> 'a result" where
  "res_of_option e None = Inl e"
| "res_of_option e (Some x) = Inr x"

lemma res_bind_Inr_iff [simp]: "res_bind m f = Inr y \<longleftrightarrow> (\<exists>x. m = Inr x \<and> f x = Inr y)"
  by (cases m) auto

lemma res_of_option_Inr_iff [simp]: "res_of_option e m = Inr x \<longleftrightarrow> m = Some x"
  by (cases m) auto

named_theorems gen_simps "unfolding rules of the resource generators"
named_theorems addr_simps "rewriting rules of address sequences"
named_theorems heap_simps "facts about positions in the d-ary heap"
named_theorems router_simps "rewriting rules of the router state"

section \<open>Insertion-ordered sets\<close>

text \<open>\<open>llvm::SetVector\<close>: a list without duplicates, in insertion order.\<close>

definition sv_insert :: "'a \<Rightarrow> 'a list \<Rightarrow> 'a list" where
  "sv_insert x xs = (if x \<in> set xs then xs else xs @ [x])"

definition sv_remove :: "'a \<Rightarrow> 'a list \<Rightarrow> 'a list" where
  "sv_remove x xs = remove1 x xs"

definition sv_insert_all :: "'a list \<Rightarrow> 'a list \<Rightarrow> 'a list" where
  "sv_insert_all ys xs = foldl (\<lambda>acc y. sv_insert y acc) xs ys"

lemma set_sv_insert [simp]: "set (sv_insert x xs) = insert x (set xs)"
  by (auto simp: sv_insert_def)

lemma distinct_sv_insert [simp]: "distinct xs \<Longrightarrow> distinct (sv_insert x xs)"
  by (auto simp: sv_insert_def)

lemma distinct_sv_remove [simp]: "distinct xs \<Longrightarrow> distinct (sv_remove x xs)"
  by (simp add: sv_remove_def)

lemma set_sv_remove [simp]: "distinct xs \<Longrightarrow> set (sv_remove x xs) = set xs - {x}"
  by (simp add: sv_remove_def)

lemma set_sv_insert_all [simp]: "set (sv_insert_all ys xs) = set xs \<union> set ys"
  by (induction ys arbitrary: xs) (auto simp: sv_insert_all_def)

lemma distinct_sv_insert_all [simp]: "distinct xs \<Longrightarrow> distinct (sv_insert_all ys xs)"
  by (induction ys arbitrary: xs) (auto simp: sv_insert_all_def)

section \<open>Generic lemmas\<close>

lemma find_Some_props: "find P xs = Some x \<Longrightarrow> x \<in> set xs \<and> P x"
  by (induction xs) (auto split: if_splits)

lemma find_None_props: "find P xs = None \<Longrightarrow> x \<in> set xs \<Longrightarrow> \<not> P x"
  by (induction xs) (auto split: if_splits)

lemma find_Some_first:
  "find P xs = Some x \<Longrightarrow> \<exists>pre post. xs = pre @ x # post \<and> (\<forall>y \<in> set pre. \<not> P y)"
proof (induction xs)
  case (Cons a xs)
  show ?case
  proof (cases "P a")
    case True
    with Cons.prems have "a # xs = [] @ x # xs \<and> (\<forall>y \<in> set []. \<not> P y)" by simp
    then show ?thesis by blast
  next
    case False
    with Cons obtain pre post where "xs = pre @ x # post" "\<forall>y \<in> set pre. \<not> P y" by auto
    with False have "a # xs = (a # pre) @ x # post \<and> (\<forall>y \<in> set (a # pre). \<not> P y)" by simp
    then show ?thesis by blast
  qed
qed simp

lemma card_filter_distinct:
  "distinct xs \<Longrightarrow> length (filter P xs) = card {x \<in> set xs. P x}"
  by (metis distinct_card distinct_filter set_filter)

lemma foldl_invariant:
  "I s \<Longrightarrow> (\<And>s x. x \<in> set xs \<Longrightarrow> I s \<Longrightarrow> I (f s x)) \<Longrightarrow> I (foldl f s xs)"
  by (induction xs arbitrary: s) auto

lemma list_update_concat_free: "i < length xs \<Longrightarrow> xs[i := x] = take i xs @ x # drop (Suc i) xs"
  by (rule upd_conv_take_nth_drop)

end
