(* ===== verification/Id_Pool.thy ===== *)
theory Id_Pool
  imports AIE_Prelude
begin

text \<open>
  The contract the resource generators share: every call hands out an identifier that is
  valid for its client (a DMA channel, a tile) and not in use, or reports that there is
  none and changes nothing. The lemmas about runs of calls are proved here once;
  the buffer descriptor, lock and circuit channel generators are interpretations.
\<close>

locale id_pool =
  fixes valid :: "'s \<Rightarrow> 'id set"
    and used :: "'s \<Rightarrow> 'id set"
    and alloc :: "'s \<Rightarrow> 'id option \<times> 's"
    and wf :: "'s \<Rightarrow> bool"
  assumes finite_valid: "wf s \<Longrightarrow> finite (valid s)"
    and alloc_SomeD: "wf s \<Longrightarrow> alloc s = (Some i, s') \<Longrightarrow>
          i \<in> valid s \<and> i \<notin> used s \<and> used s' = insert i (used s) \<and> valid s' = valid s \<and> wf s'"
    and alloc_NoneD: "wf s \<Longrightarrow> alloc s = (None, s') \<Longrightarrow> s' = s \<and> valid s \<subseteq> used s"
begin

text \<open>\<open>alloc_run n\<close> is \<open>n\<close> calls in a row; it stops at the first call that finds nothing.\<close>

fun alloc_run :: "nat \<Rightarrow> 's \<Rightarrow> 'id list \<times> 's" where
  "alloc_run 0 s = ([], s)"
| "alloc_run (Suc n) s =
     (case alloc s of
        (None, s') \<Rightarrow> ([], s')
      | (Some i, s') \<Rightarrow> (case alloc_run n s' of (is, t) \<Rightarrow> (i # is, t)))"

lemma alloc_run_props:
  assumes "wf s" and "alloc_run n s = (is, t)"
  shows "distinct is \<and> set is \<subseteq> valid s - used s \<and> used t = used s \<union> set is
         \<and> valid t = valid s \<and> wf t"
  using assms
proof (induction n arbitrary: s "is" t)
  case 0
  then show ?case by simp
next
  case (Suc n)
  show ?case
  proof (cases "alloc s")
    case (Pair r s')
    show ?thesis
    proof (cases r)
      case None
      with Pair Suc.prems alloc_NoneD show ?thesis by fastforce
    next
      case (Some i)
      with Pair alloc_SomeD Suc.prems(1)
      have i: "i \<in> valid s" "i \<notin> used s" "used s' = insert i (used s)" "valid s' = valid s" "wf s'"
        by blast+
      from Suc.prems(2) Pair Some obtain js where js: "alloc_run n s' = (js, t)" "is = i # js"
        by (auto split: prod.splits)
      from Suc.IH [OF i(5) js(1)] i js(2) show ?thesis by auto
    qed
  qed
qed

text \<open>A run of calls is exactly as long as the number of free identifiers allows.\<close>

lemma alloc_run_length:
  assumes "wf s" and "alloc_run n s = (is, t)"
  shows "length is = min n (card (valid s - used s))"
  using assms
proof (induction n arbitrary: s "is" t)
  case 0
  then show ?case by simp
next
  case (Suc n)
  show ?case
  proof (cases "alloc s")
    case (Pair r s')
    show ?thesis
    proof (cases r)
      case None
      with Pair Suc.prems alloc_NoneD [of s s'] have "card (valid s - used s) = 0" "is = []"
        by (auto simp: Diff_eq_empty_iff [THEN iffD2])
      then show ?thesis by simp
    next
      case (Some i)
      with Pair alloc_SomeD Suc.prems(1)
      have i: "i \<in> valid s" "i \<notin> used s" "used s' = insert i (used s)" "valid s' = valid s" "wf s'"
        by blast+
      from Suc.prems(2) Pair Some obtain js where js: "alloc_run n s' = (js, t)" "is = i # js"
        by (auto split: prod.splits)
      have "valid s - used s = insert i (valid s' - used s')" using i by auto
      moreover have "i \<notin> valid s' - used s'" "finite (valid s' - used s')"
        using i finite_valid [OF \<open>wf s'\<close>] by auto
      ultimately have "card (valid s - used s) = Suc (card (valid s' - used s'))" by simp
      with Suc.IH [OF i(5) js(1)] js(2) show ?thesis by simp
    qed
  qed
qed

end

end
