(* ===== verification/Channel_Generator.thy ===== *)
theory Channel_Generator
  imports Id_Pool
begin

text \<open>
  \<open>ChannelGenerator\<close> (\<open>aie_runtime/Utils/ChannelGenerator.h\<close> and \<open>.cpp\<close>): hands out the DMA
  channels of a tile to circuit flows, which own a channel, and to packet flows, which
  share channels. Producer and consumer sides have a copy of every operation, as in the
  source. The lemmas show that a circuit channel is never shared, over every sequence of
  requests, and that the round-robin mode visits the channels in turn.
\<close>

section \<open>Model\<close>

datatype ChannelAssignmentMode =
  FirstAvailableCircuitFlow | FirstAvailablePacketFlow | RoundRobinPacketFlow

record ChannelGenerator =
  numProducerChannels :: u8
  numConsumerChannels :: u8
  assignedCircuitProducerChannels :: "u8 list"
  assignedCircuitConsumerChannels :: "u8 list"
  assignedPacketProducerChannels :: "u8 list"
  assignedPacketConsumerChannels :: "u8 list"

definition mk_ChannelGenerator :: "u8 \<Rightarrow> u8 \<Rightarrow> ChannelGenerator" where
  "mk_ChannelGenerator numProducer numConsumer =
     \<lparr>numProducerChannels = numProducer, numConsumerChannels = numConsumer,
      assignedCircuitProducerChannels = [], assignedCircuitConsumerChannels = [],
      assignedPacketProducerChannels = [], assignedPacketConsumerChannels = []\<rparr>"

text \<open>The loop over \<open>uint8_t channel = 0; channel < numChannels; ++channel\<close>.\<close>

definition channel_range :: "u8 \<Rightarrow> u8 list" where
  "channel_range numChannels = map of_nat [0 ..< unat numChannels]"

definition findFirstAvailableChannel :: "u8 \<Rightarrow> u8 list list \<Rightarrow> u8 option" where
  "findFirstAvailableChannel numChannels excludeSets =
     find (\<lambda>channel. list_all (\<lambda>excludeSet. channel \<notin> set excludeSet) excludeSets)
          (channel_range numChannels)"

fun assignProducerDMAChannel ::
  "u8 \<Rightarrow> ChannelAssignmentMode \<Rightarrow> ChannelGenerator \<Rightarrow> ChannelGenerator" where
  "assignProducerDMAChannel channel FirstAvailableCircuitFlow g =
     g\<lparr>assignedCircuitProducerChannels := sv_insert channel (assignedCircuitProducerChannels g)\<rparr>"
| "assignProducerDMAChannel channel FirstAvailablePacketFlow g =
     g\<lparr>assignedPacketProducerChannels := sv_insert channel (assignedPacketProducerChannels g)\<rparr>"
| "assignProducerDMAChannel channel RoundRobinPacketFlow g =
     g\<lparr>assignedPacketProducerChannels :=
        sv_insert channel (sv_remove channel (assignedPacketProducerChannels g))\<rparr>"

fun assignConsumerDMAChannel ::
  "u8 \<Rightarrow> ChannelAssignmentMode \<Rightarrow> ChannelGenerator \<Rightarrow> ChannelGenerator" where
  "assignConsumerDMAChannel channel FirstAvailableCircuitFlow g =
     g\<lparr>assignedCircuitConsumerChannels := sv_insert channel (assignedCircuitConsumerChannels g)\<rparr>"
| "assignConsumerDMAChannel channel FirstAvailablePacketFlow g =
     g\<lparr>assignedPacketConsumerChannels := sv_insert channel (assignedPacketConsumerChannels g)\<rparr>"
| "assignConsumerDMAChannel channel RoundRobinPacketFlow g =
     g\<lparr>assignedPacketConsumerChannels :=
        sv_insert channel (sv_remove channel (assignedPacketConsumerChannels g))\<rparr>"

definition getAndAssignProducerDMAChannel ::
  "ChannelAssignmentMode \<Rightarrow> ChannelGenerator \<Rightarrow> u8 option \<times> ChannelGenerator" where
  "getAndAssignProducerDMAChannel mode g =
     (let channel =
        (case mode of
           FirstAvailableCircuitFlow \<Rightarrow>
             findFirstAvailableChannel (numProducerChannels g)
               [assignedCircuitProducerChannels g, assignedPacketProducerChannels g]
         | FirstAvailablePacketFlow \<Rightarrow>
             findFirstAvailableChannel (numProducerChannels g) [assignedCircuitProducerChannels g]
         | RoundRobinPacketFlow \<Rightarrow>
             (case findFirstAvailableChannel (numProducerChannels g)
                     [assignedCircuitProducerChannels g, assignedPacketProducerChannels g] of
                Some c \<Rightarrow> Some c
              | None \<Rightarrow> (case assignedPacketProducerChannels g of [] \<Rightarrow> None | c # _ \<Rightarrow> Some c)))
      in (channel,
          case channel of Some c \<Rightarrow> assignProducerDMAChannel c mode g | None \<Rightarrow> g))"

definition getAndAssignConsumerDMAChannel ::
  "ChannelAssignmentMode \<Rightarrow> ChannelGenerator \<Rightarrow> u8 option \<times> ChannelGenerator" where
  "getAndAssignConsumerDMAChannel mode g =
     (let channel =
        (case mode of
           FirstAvailableCircuitFlow \<Rightarrow>
             findFirstAvailableChannel (numConsumerChannels g)
               [assignedCircuitConsumerChannels g, assignedPacketConsumerChannels g]
         | FirstAvailablePacketFlow \<Rightarrow>
             findFirstAvailableChannel (numConsumerChannels g) [assignedCircuitConsumerChannels g]
         | RoundRobinPacketFlow \<Rightarrow>
             (case findFirstAvailableChannel (numConsumerChannels g)
                     [assignedCircuitConsumerChannels g, assignedPacketConsumerChannels g] of
                Some c \<Rightarrow> Some c
              | None \<Rightarrow> (case assignedPacketConsumerChannels g of [] \<Rightarrow> None | c # _ \<Rightarrow> Some c)))
      in (channel,
          case channel of Some c \<Rightarrow> assignConsumerDMAChannel c mode g | None \<Rightarrow> g))"

section \<open>Requests to one side\<close>

text \<open>
  A client's requests, to the producer or to the consumer side, and the answers a
  sequence of requests gets.
\<close>

datatype side = Producer | Consumer

fun request :: "side \<Rightarrow> ChannelAssignmentMode \<Rightarrow> ChannelGenerator \<Rightarrow> u8 option \<times> ChannelGenerator" where
  "request Producer mode g = getAndAssignProducerDMAChannel mode g"
| "request Consumer mode g = getAndAssignConsumerDMAChannel mode g"

fun serve ::
  "(side \<times> ChannelAssignmentMode) list \<Rightarrow> ChannelGenerator \<Rightarrow> u8 option list \<times> ChannelGenerator" where
  "serve [] g = ([], g)"
| "serve ((s, mode) # reqs) g =
     (case request s mode g of (c, g') \<Rightarrow> (case serve reqs g' of (cs, g'') \<Rightarrow> (c # cs, g'')))"

fun circuits :: "side \<Rightarrow> ChannelGenerator \<Rightarrow> u8 list" where
  "circuits Producer g = assignedCircuitProducerChannels g"
| "circuits Consumer g = assignedCircuitConsumerChannels g"

fun packets :: "side \<Rightarrow> ChannelGenerator \<Rightarrow> u8 list" where
  "packets Producer g = assignedPacketProducerChannels g"
| "packets Consumer g = assignedPacketConsumerChannels g"

fun channels :: "side \<Rightarrow> ChannelGenerator \<Rightarrow> u8" where
  "channels Producer g = numProducerChannels g"
| "channels Consumer g = numConsumerChannels g"

definition gen_ok :: "ChannelGenerator \<Rightarrow> bool" where
  "gen_ok g \<longleftrightarrow> (\<forall>s. distinct (circuits s g) \<and> distinct (packets s g)
      \<and> set (circuits s g) \<inter> set (packets s g) = {}
      \<and> set (circuits s g) \<union> set (packets s g) \<subseteq> {c. c < channels s g})"

lemma set_channel_range [simp]: "set (channel_range n) = {c. c < n}"
proof -
  have "c \<in> of_nat ` {0 ..< unat n}" if "c < n" for c
    using that by (intro image_eqI [of _ _ "unat c"]) (simp_all add: word_less_nat_alt)
  moreover have "of_nat m < n" if "m < unat n" for m
    using that by (simp add: word_less_nat_alt unsigned_of_nat order_le_less_trans [OF take_bit_nat_less_eq_self])
  ultimately show ?thesis by (auto simp: channel_range_def)
qed

lemma findFirst_Some:
  "findFirstAvailableChannel n ex = Some c \<Longrightarrow> c < n \<and> (\<forall>e \<in> set ex. c \<notin> set e)"
  by (auto simp: findFirstAvailableChannel_def list_all_iff dest: find_Some_props)

lemma findFirst_None:
  "findFirstAvailableChannel n ex = None \<Longrightarrow> c < n \<Longrightarrow> \<exists>e \<in> set ex. c \<in> set e"
  unfolding findFirstAvailableChannel_def list_all_iff by (drule find_None_props [of _ _ c]) auto

text \<open>What one request does, on either side, in the terms of that side.\<close>

definition choice :: "ChannelAssignmentMode \<Rightarrow> u8 \<Rightarrow> u8 list \<Rightarrow> u8 list \<Rightarrow> u8 option" where
  "choice mode n cs ps =
     (case mode of
        FirstAvailableCircuitFlow \<Rightarrow> findFirstAvailableChannel n [cs, ps]
      | FirstAvailablePacketFlow \<Rightarrow> findFirstAvailableChannel n [cs]
      | RoundRobinPacketFlow \<Rightarrow>
          (case findFirstAvailableChannel n [cs, ps] of
             Some c \<Rightarrow> Some c | None \<Rightarrow> (case ps of [] \<Rightarrow> None | c # _ \<Rightarrow> Some c)))"

lemma request_None:
  "request s mode g = (None, g') \<Longrightarrow> g' = g \<and> choice mode (channels s g) (circuits s g) (packets s g) = None"
  by (cases s; cases mode)
     (auto simp: getAndAssignProducerDMAChannel_def getAndAssignConsumerDMAChannel_def choice_def Let_def
       split: option.splits)

lemma request_Some:
  assumes "request s mode g = (Some c, g')"
  shows "choice mode (channels s g) (circuits s g) (packets s g) = Some c"
    and "circuits s g' = (if mode = FirstAvailableCircuitFlow then sv_insert c (circuits s g) else circuits s g)"
    and "packets s g' =
       (case mode of FirstAvailableCircuitFlow \<Rightarrow> packets s g
        | FirstAvailablePacketFlow \<Rightarrow> sv_insert c (packets s g)
        | RoundRobinPacketFlow \<Rightarrow> sv_insert c (sv_remove c (packets s g)))"
    and "channels s g' = channels s g"
    and "t \<noteq> s \<Longrightarrow> circuits t g' = circuits t g \<and> packets t g' = packets t g \<and> channels t g' = channels t g"
  using assms
  by (cases s; cases mode; cases t;
      auto simp: getAndAssignProducerDMAChannel_def getAndAssignConsumerDMAChannel_def choice_def Let_def
       split: option.splits)+

section \<open>Exclusive circuit channels\<close>

lemma choice_Some:
  assumes "choice mode n cs ps = Some c"
  shows "(c < n \<and> c \<notin> set cs \<and> (mode = FirstAvailableCircuitFlow \<longrightarrow> c \<notin> set ps))
       \<or> (mode = RoundRobinPacketFlow \<and> ps \<noteq> [] \<and> c = hd ps)"
  using assms
  by (auto simp: choice_def dest: findFirst_Some
      split: ChannelAssignmentMode.splits option.splits list.splits)

lemma gen_ok_request:
  assumes "gen_ok g" and "request s mode g = (r, g')"
  shows "gen_ok g'"
proof (cases r)
  case None
  with assms show ?thesis using request_None by blast
next
  case (Some c)
  note req = request_Some [OF assms(2) [unfolded Some]]
  have side: "distinct (circuits s g)" "distinct (packets s g)"
      "set (circuits s g) \<inter> set (packets s g) = {}"
      "set (circuits s g) \<union> set (packets s g) \<subseteq> {c. c < channels s g}"
    using assms(1) by (auto simp: gen_ok_def)
  have "distinct (circuits s g') \<and> distinct (packets s g')
      \<and> set (circuits s g') \<inter> set (packets s g') = {}
      \<and> set (circuits s g') \<union> set (packets s g') \<subseteq> {c. c < channels s g'}"
    using choice_Some [OF req(1)] side unfolding req(2-4)
    by (cases mode; cases "packets s g") auto
  with assms(1) req(5) show ?thesis unfolding gen_ok_def by metis
qed

lemma gen_ok_mk [simp]: "gen_ok (mk_ChannelGenerator np nc)"
  unfolding gen_ok_def
proof
  fix s show "distinct (circuits s (mk_ChannelGenerator np nc)) \<and> distinct (packets s (mk_ChannelGenerator np nc))
      \<and> set (circuits s (mk_ChannelGenerator np nc)) \<inter> set (packets s (mk_ChannelGenerator np nc)) = {}
      \<and> set (circuits s (mk_ChannelGenerator np nc)) \<union> set (packets s (mk_ChannelGenerator np nc))
         \<subseteq> {c. c < channels s (mk_ChannelGenerator np nc)}"
    by (cases s) (simp_all add: mk_ChannelGenerator_def)
qed

text \<open>The channels in use on a side only grow, and an answer joins them.\<close>

lemma request_grows:
  assumes "gen_ok g" and "request s mode g = (r, g')"
  shows "set (circuits t g) \<subseteq> set (circuits t g') \<and> set (packets t g) \<subseteq> set (packets t g')"
proof (cases r)
  case None
  with assms show ?thesis using request_None by blast
next
  case (Some c)
  note req = request_Some [OF assms(2) [unfolded Some]]
  have "distinct (packets s g)" using assms(1) by (simp add: gen_ok_def)
  then show ?thesis
    using req(2,3) req(5) [of t] by (cases "t = s"; cases mode) auto
qed

lemma request_joins:
  assumes "gen_ok g" and "request s mode g = (Some c, g')"
  shows "(mode = FirstAvailableCircuitFlow \<longrightarrow> c \<in> set (circuits s g') \<and> c \<notin> set (circuits s g) \<union> set (packets s g))
       \<and> (mode \<noteq> FirstAvailableCircuitFlow \<longrightarrow> c \<in> set (packets s g') \<and> c \<notin> set (circuits s g))"
proof -
  note req = request_Some [OF assms(2)]
  have "distinct (packets s g)" "set (circuits s g) \<inter> set (packets s g) = {}"
    using assms(1) by (simp_all add: gen_ok_def)
  with choice_Some [OF req(1)] req(2,3) show ?thesis
    by (cases mode; cases "packets s g") auto
qed

lemma serve_avoids:
  assumes "gen_ok g" and "serve reqs g = (rs, g')" and "j < length reqs"
    and "reqs ! j = (s, m)" and "rs ! j = Some c"
  shows "c \<notin> set (circuits s g) \<and> (m = FirstAvailableCircuitFlow \<longrightarrow> c \<notin> set (packets s g))"
  using assms
proof (induction reqs arbitrary: g rs j)
  case (Cons q reqs)
  obtain t mode where q: "q = (t, mode)" by fastforce
  obtain r g1 where r: "request t mode g = (r, g1)" by fastforce
  with q Cons.prems(2) obtain rs' where rs: "serve reqs g1 = (rs', g')" "rs = r # rs'"
    by (auto split: prod.splits)
  show ?case
  proof (cases j)
    case 0
    with Cons.prems q rs r request_joins [OF Cons.prems(1), of s m c g1] show ?thesis
      by (cases "m = FirstAvailableCircuitFlow") auto
  next
    case (Suc k)
    have ok1: "gen_ok g1" by (rule gen_ok_request [OF Cons.prems(1) r])
    from Cons.IH [OF ok1 rs(1), of k] Suc Cons.prems rs(2)
    have "c \<notin> set (circuits s g1) \<and> (m = FirstAvailableCircuitFlow \<longrightarrow> c \<notin> set (packets s g1))"
      by simp
    with request_grows [OF Cons.prems(1) r, of s] show ?thesis by blast
  qed
qed simp

lemma serve_exclusive:
  assumes "gen_ok g" and "serve reqs g = (rs, g')" and "i < j" and "j < length reqs"
    and "reqs ! i = (s, m)" and "reqs ! j = (s, m')" and "rs ! i = Some c" and "rs ! j = Some c"
  shows "m \<noteq> FirstAvailableCircuitFlow \<and> m' \<noteq> FirstAvailableCircuitFlow"
  using assms
proof (induction reqs arbitrary: g rs i j)
  case (Cons q reqs)
  obtain t mode where q: "q = (t, mode)" by fastforce
  obtain r g1 where r: "request t mode g = (r, g1)" by fastforce
  with q Cons.prems(2) obtain rs' where rs: "serve reqs g1 = (rs', g')" "rs = r # rs'"
    by (auto split: prod.splits)
  have ok1: "gen_ok g1" by (rule gen_ok_request [OF Cons.prems(1) r])
  obtain k where k: "j = Suc k" using Cons.prems(3) by (cases j) auto
  show ?case
  proof (cases i)
    case 0
    have joined: "request s m g = (Some c, g1)" using 0 Cons.prems q rs r by simp
    have "c \<notin> set (circuits s g1) \<and> (m' = FirstAvailableCircuitFlow \<longrightarrow> c \<notin> set (packets s g1))"
      using serve_avoids [OF ok1 rs(1), of k s m' c] k Cons.prems rs(2) by simp
    with request_joins [OF Cons.prems(1) joined] show ?thesis by auto
  next
    case (Suc h)
    with Cons.IH [OF ok1 rs(1), of h k] k Cons.prems rs(2) show ?thesis by simp
  qed
qed simp

section \<open>Circuit channels as a pool\<close>

lemma request_circuit_alloc:
  assumes "gen_ok g" and "request s FirstAvailableCircuitFlow g = (Some c, g')"
  shows "c < channels s g" and "c \<notin> set (circuits s g) \<union> set (packets s g)"
    and "set (circuits s g') \<union> set (packets s g') = insert c (set (circuits s g) \<union> set (packets s g))"
    and "channels s g' = channels s g"
proof -
  note req = request_Some [OF assms(2)]
  show "c < channels s g" "c \<notin> set (circuits s g) \<union> set (packets s g)"
    using choice_Some [OF req(1)] by auto
  show "set (circuits s g') \<union> set (packets s g') = insert c (set (circuits s g) \<union> set (packets s g))"
    unfolding req(2,3) by simp
  show "channels s g' = channels s g" by (rule req(4))
qed

lemma request_circuit_exhausted:
  assumes "request s FirstAvailableCircuitFlow g = (None, g')"
  shows "g' = g \<and> {c. c < channels s g} \<subseteq> set (circuits s g) \<union> set (packets s g)"
proof -
  from request_None [OF assms] have "g' = g"
    and none: "findFirstAvailableChannel (channels s g) [circuits s g, packets s g] = None"
    by (simp_all add: choice_def)
  moreover have "{c. c < channels s g} \<subseteq> set (circuits s g) \<union> set (packets s g)"
    using findFirst_None [OF none] by auto
  ultimately show ?thesis by simp
qed

interpretation circuit_pool: id_pool
  "\<lambda>g. {c. c < channels s g}" "\<lambda>g. set (circuits s g) \<union> set (packets s g)"
  "request s FirstAvailableCircuitFlow" gen_ok
proof
  fix g g' :: ChannelGenerator and c
  assume ok: "gen_ok g"
  show "finite {c. c < channels s g}" by simp
  show "request s FirstAvailableCircuitFlow g = (None, g') \<Longrightarrow>
      g' = g \<and> {c. c < channels s g} \<subseteq> set (circuits s g) \<union> set (packets s g)"
    by (rule request_circuit_exhausted)
  assume r: "request s FirstAvailableCircuitFlow g = (Some c, g')"
  note alloc = request_circuit_alloc [OF ok r]
  show "c \<in> {c. c < channels s g} \<and> c \<notin> set (circuits s g) \<union> set (packets s g)
      \<and> set (circuits s g') \<union> set (packets s g') = insert c (set (circuits s g) \<union> set (packets s g))
      \<and> {c. c < channels s g'} = {c. c < channels s g} \<and> gen_ok g'"
    using alloc gen_ok_request [OF ok r] by simp
qed

section \<open>Round robin\<close>

text \<open>
  The list of packet channels after \<open>k\<close> round-robin requests to a fresh side of \<open>n\<close> channels:
  first it fills up, then it rotates.
\<close>

definition rr_list :: "nat \<Rightarrow> nat \<Rightarrow> u8 list" where
  "rr_list n k = (if k \<le> n then map of_nat [0 ..< k] else rotate (k - n) (map of_nat [0 ..< n]))"

lemma find_upt_map:
  "(\<forall>j < k. \<not> P (f j)) \<Longrightarrow> k < n \<Longrightarrow> P (f k) \<Longrightarrow> find P (map f [0 ..< n]) = Some (f k)"
proof -
  assume a: "\<forall>j < k. \<not> P (f j)" "k < n" "P (f k)"
  have "[0 ..< n] = [0 ..< k] @ k # [Suc k ..< n]"
    using a(2) by (metis less_imp_add_positive upt_add_eq_append upt_conv_Cons le0 zero_less_Suc
      less_imp_le_nat)
  moreover have "find P (map f [0 ..< k]) = None" using a(1) by (auto simp: find_None_iff)
  moreover have "find P (xs @ ys) = (case find P xs of None \<Rightarrow> find P ys | Some x \<Rightarrow> Some x)" for xs ys
    by (induction xs) auto
  ultimately show ?thesis using a(3) by simp
qed

lemma of_nat_u8_inj:
  "i < unat (n :: u8) \<Longrightarrow> j < unat n \<Longrightarrow> (of_nat i :: u8) = of_nat j \<longleftrightarrow> i = j"
proof -
  assume "i < unat n" "j < unat n"
  moreover have "unat n < 2 ^ LENGTH(8)" by (rule unsigned_less)
  ultimately have "i < 2 ^ LENGTH(8)" "j < 2 ^ LENGTH(8)" by linarith+
  then show ?thesis by (metis of_nat_inverse)
qed

lemma rr_list_Suc_fill:
  assumes "k < unat n"
  shows "findFirstAvailableChannel n [[], rr_list (unat n) k] = Some (of_nat k)"
    and "sv_insert (of_nat k) (sv_remove (of_nat k) (rr_list (unat n) k)) = rr_list (unat n) (Suc k)"
proof -
  have lst: "rr_list (unat n) k = map of_nat [0 ..< k]" using assms by (simp add: rr_list_def)
  have "(of_nat k :: u8) \<noteq> of_nat j" if "j < k" for j
    using that assms of_nat_u8_inj [of j n k] by force
  then have fresh: "of_nat k \<notin> set (map of_nat [0 ..< k] :: u8 list)" by fastforce
  have used: "\<forall>j < k. \<not> list_all (\<lambda>e. (of_nat j :: u8) \<notin> set e) [[], map of_nat [0 ..< k]]"
    by simp
  show "findFirstAvailableChannel n [[], rr_list (unat n) k] = Some (of_nat k)"
    unfolding findFirstAvailableChannel_def channel_range_def lst
    by (rule find_upt_map [where f = of_nat]) (use used fresh assms in simp_all)
  show "sv_insert (of_nat k) (sv_remove (of_nat k) (rr_list (unat n) k)) = rr_list (unat n) (Suc k)"
    using fresh assms by (simp add: lst sv_remove_def sv_insert_def remove1_idem rr_list_def)
qed

lemma set_rr_list_full: "unat (n :: u8) \<le> k \<Longrightarrow> set (rr_list (unat n) k) = {c. c < n}"
  using set_channel_range [of n] by (auto simp: rr_list_def channel_range_def)

lemma rr_list_Suc_rotate:
  assumes "unat (n :: u8) \<le> k" and "0 < unat n"
  shows "rr_list (unat n) k \<noteq> []" and "hd (rr_list (unat n) k) = of_nat (k mod unat n)"
    and "sv_insert (hd (rr_list (unat n) k)) (sv_remove (hd (rr_list (unat n) k)) (rr_list (unat n) k))
         = rr_list (unat n) (Suc k)"
proof -
  let ?all = "map of_nat [0 ..< unat n] :: u8 list"
  have lst: "rr_list (unat n) k = rotate (k - unat n) ?all" using assms(1) by (simp add: rr_list_def)
  then show ne: "rr_list (unat n) k \<noteq> []" using assms(2) by simp
  have "hd (rotate (k - unat n) ?all) = ?all ! ((k - unat n) mod unat n)"
    using assms(2) by (simp add: hd_rotate_conv_nth)
  also have "(k - unat n) mod unat n = k mod unat n" using assms(1) by (simp add: le_mod_geq)
  finally show "hd (rr_list (unat n) k) = of_nat (k mod unat n)" using assms(2) by (simp add: lst)
  have "inj_on (of_nat :: nat \<Rightarrow> u8) {0 ..< unat n}"
    by (rule inj_onI) (simp add: of_nat_u8_inj [of _ n])
  then have "distinct (rr_list (unat n) k)" by (simp add: lst distinct_map)
  with ne have "sv_insert (hd (rr_list (unat n) k)) (sv_remove (hd (rr_list (unat n) k)) (rr_list (unat n) k))
      = rotate1 (rr_list (unat n) k)"
    by (cases "rr_list (unat n) k") (auto simp: sv_insert_def sv_remove_def)
  also have "\<dots> = rr_list (unat n) (Suc k)"
    using assms by (simp add: lst rr_list_def Suc_diff_le rotate_Suc)
  finally show "sv_insert (hd (rr_list (unat n) k)) (sv_remove (hd (rr_list (unat n) k)) (rr_list (unat n) k))
         = rr_list (unat n) (Suc k)" .
qed

lemma rr_request:
  assumes "0 < unat (channels s g)" and "circuits s g = []" and "packets s g = rr_list (unat (channels s g)) k"
  shows "\<exists>g'. request s RoundRobinPacketFlow g = (Some (of_nat (k mod unat (channels s g))), g')
     \<and> channels s g' = channels s g \<and> circuits s g' = [] \<and> packets s g' = rr_list (unat (channels s g)) (Suc k)"
proof -
  let ?n = "channels s g"
  have chosen: "choice RoundRobinPacketFlow ?n [] (packets s g) = Some (of_nat (k mod unat ?n))
     \<and> sv_insert (of_nat (k mod unat ?n)) (sv_remove (of_nat (k mod unat ?n)) (packets s g))
        = rr_list (unat ?n) (Suc k)"
  proof (cases "k < unat ?n")
    case True
    with rr_list_Suc_fill [OF True] assms(3) show ?thesis by (simp add: choice_def)
  next
    case False
    have "findFirstAvailableChannel ?n [[], packets s g] = None"
      using False set_rr_list_full [of ?n k] findFirst_Some [of ?n "[[], packets s g]"]
      by (cases "findFirstAvailableChannel ?n [[], packets s g]") (auto simp: assms(3))
    moreover have "packets s g \<noteq> []" "hd (packets s g) = of_nat (k mod unat ?n)"
      using False rr_list_Suc_rotate(1,2) [of ?n k] assms(1,3) by simp_all
    then obtain ps where "packets s g = of_nat (k mod unat ?n) # ps" by (cases "packets s g") auto
    ultimately have "choice RoundRobinPacketFlow ?n [] (packets s g) = Some (of_nat (k mod unat ?n))"
      by (simp add: choice_def)
    with False rr_list_Suc_rotate(2,3) [of ?n k] assms(1,3) show ?thesis by simp
  qed
  obtain r g' where r: "request s RoundRobinPacketFlow g = (r, g')" by fastforce
  have "r = Some (of_nat (k mod unat ?n))"
  proof (cases r)
    case None
    with request_None [of s RoundRobinPacketFlow g g'] r chosen assms(2) show ?thesis by simp
  next
    case (Some c)
    with request_Some(1) [of s RoundRobinPacketFlow g c g'] r chosen assms(2) show ?thesis by simp
  qed
  with r request_Some(2-4) [of s RoundRobinPacketFlow g _ g'] chosen assms(2) show ?thesis by simp
qed

lemma rr_serve:
  assumes "0 < unat (channels s g)" and "circuits s g = []" and "packets s g = rr_list (unat (channels s g)) k"
  shows "fst (serve (replicate m (s, RoundRobinPacketFlow)) g)
     = map (\<lambda>i. Some (of_nat (i mod unat (channels s g)))) [k ..< k + m]"
  using assms
proof (induction m arbitrary: g k)
  case (Suc m)
  obtain g' where g': "request s RoundRobinPacketFlow g = (Some (of_nat (k mod unat (channels s g))), g')"
      "channels s g' = channels s g" "circuits s g' = []"
      "packets s g' = rr_list (unat (channels s g)) (Suc k)"
    using rr_request [OF Suc.prems] by blast
  have "fst (serve (replicate m (s, RoundRobinPacketFlow)) g')
      = map (\<lambda>i. Some (of_nat (i mod unat (channels s g)))) [Suc k ..< Suc k + m]"
    using Suc.IH [of g' "Suc k"] Suc.prems(1) g'(2-4) by simp
  moreover have "[k ..< k + Suc m] = k # [Suc k ..< Suc k + m]" by (simp add: upt_rec)
  ultimately show ?case using g'(1)
    by (cases "serve (replicate m (s, RoundRobinPacketFlow)) g'") simp
qed simp

section \<open>Properties\<close>

text \<open>
  C32. Over every sequence of requests to a new generator, on both sides and in every mode:
  two requests to one side are answered with the same channel only if both are for packet
  flows. A channel given to a circuit flow is never given out again, and no channel in use
  by a packet flow is given to a circuit flow.
\<close>

theorem circuit_channels_exclusive:
  assumes "serve reqs (mk_ChannelGenerator np nc) = (rs, g')"
    and "i < j" and "j < length reqs"
    and "reqs ! i = (s, m)" and "reqs ! j = (s, m')" and "rs ! i = Some c" and "rs ! j = Some c"
  shows "m \<noteq> FirstAvailableCircuitFlow \<and> m' \<noteq> FirstAvailableCircuitFlow"
  using serve_exclusive [OF gen_ok_mk assms] .

theorem circuit_channels_exclusive_witness:
  "\<exists>g'. serve [(Producer, FirstAvailableCircuitFlow), (Producer, RoundRobinPacketFlow),
               (Producer, RoundRobinPacketFlow)] (mk_ChannelGenerator 2 2)
        = ([Some 0, Some 1, Some 1], g')
     \<and> RoundRobinPacketFlow \<noteq> FirstAvailableCircuitFlow"
proof -
  obtain g' where run: "serve [(Producer, FirstAvailableCircuitFlow), (Producer, RoundRobinPacketFlow),
      (Producer, RoundRobinPacketFlow)] (mk_ChannelGenerator 2 2) = ([Some 0, Some 1, Some 1], g')"
    by (simp add: mk_ChannelGenerator_def getAndAssignProducerDMAChannel_def
        findFirstAvailableChannel_def channel_range_def sv_insert_def sv_remove_def upt_rec Let_def)
  from circuit_channels_exclusive [OF run, of 1 2 Producer RoundRobinPacketFlow RoundRobinPacketFlow 1] run
  show ?thesis by simp
qed

text \<open>
  On a new generator, successive circuit requests to one side get distinct channels
  below that side's count, and exactly as many requests succeed as the side has channels.
\<close>

theorem circuit_channels_all_used:
  assumes "id_pool.alloc_run (request s FirstAvailableCircuitFlow) k (mk_ChannelGenerator np nc) = (cs, g')"
  shows "distinct cs \<and> (\<forall>c \<in> set cs. c < (case s of Producer \<Rightarrow> np | Consumer \<Rightarrow> nc))
    \<and> length cs = min k (unat (case s of Producer \<Rightarrow> np | Consumer \<Rightarrow> nc))"
proof -
  let ?n = "case s of Producer \<Rightarrow> np | Consumer \<Rightarrow> nc"
  have mk: "channels s (mk_ChannelGenerator np nc) = ?n" "circuits s (mk_ChannelGenerator np nc) = []"
    "packets s (mk_ChannelGenerator np nc) = []"
    by (cases s; simp add: mk_ChannelGenerator_def)+
  have "inj_on (of_nat :: nat \<Rightarrow> u8) {0 ..< unat ?n}"
    by (rule inj_onI) (simp add: of_nat_u8_inj [of _ ?n])
  then have "card {c. c < ?n} = unat ?n"
    using set_channel_range [of ?n] by (simp add: channel_range_def card_image flip: set_channel_range)
  with circuit_pool.alloc_run_props [OF gen_ok_mk assms] circuit_pool.alloc_run_length [OF gen_ok_mk assms]
  show ?thesis by (auto simp: mk)
qed

theorem circuit_channels_all_used_witness:
  "\<exists>g'. id_pool.alloc_run (request Consumer FirstAvailableCircuitFlow) 3 (mk_ChannelGenerator 0 2)
         = ([0, 1], g') \<and> length [0, 1 :: u8] = min 3 2"
proof -
  obtain g' where run: "id_pool.alloc_run (request Consumer FirstAvailableCircuitFlow) 3
      (mk_ChannelGenerator 0 2) = ([0, 1], g')"
    by (simp add: numeral_3_eq_3 circuit_pool.alloc_run.simps mk_ChannelGenerator_def
        getAndAssignConsumerDMAChannel_def findFirstAvailableChannel_def channel_range_def
        sv_insert_def sv_remove_def upt_rec Let_def)
  from circuit_channels_all_used [OF run] run show ?thesis by simp
qed

text \<open>
  On a side without circuit flows, the \<open>k\<close>-th round-robin request gets channel \<open>k\<close>
  modulo the number of channels: the load is spread evenly, whatever the number of requests.
\<close>

theorem round_robin_in_turn:
  assumes "n = (case s of Producer \<Rightarrow> np | Consumer \<Rightarrow> nc)" and "n \<noteq> 0"
  shows "fst (serve (replicate m (s, RoundRobinPacketFlow)) (mk_ChannelGenerator np nc))
     = map (\<lambda>k. Some (of_nat (k mod unat n))) [0 ..< m]"
proof -
  let ?g = "mk_ChannelGenerator np nc"
  have "channels s ?g = n" "circuits s ?g = []" "packets s ?g = rr_list (unat n) 0"
    using assms(1) by (cases s; simp add: mk_ChannelGenerator_def rr_list_def)+
  with rr_serve [of s ?g 0 m] assms(2) show ?thesis by (simp add: unat_gt_0)
qed

theorem round_robin_in_turn_witness:
  "fst (serve (replicate 5 (Consumer, RoundRobinPacketFlow)) (mk_ChannelGenerator 0 3))
   = [Some 0, Some 1, Some 2, Some 0, Some 1]"
  using round_robin_in_turn [where n = 3 and s = Consumer and np = 0 and nc = 3 and m = 5] by (simp add: upt_rec)

end
