(* ===== verification/Device_Types.thy ===== *)
theory Device_Types
  imports AIE_Prelude "HOL-Library.Product_Lexorder"
begin

text \<open>
  The enumerations and small structs the runtime and the router share
  (\<open>AMDAIEEnums.td\<close>, \<open>iree_aie_runtime.h\<close>, \<open>iree_aie_router.h\<close>). The structs that the
  source orders with \<open>TUPLE_LIKE_STRUCT_RELATIONAL_OPS\<close> are instances of \<open>linorder\<close>, with
  the lexicographic order of their tuples.
\<close>

section \<open>Enumerations\<close>

datatype AMDAIEDevice =
  xcvc1902 | xcve2302 | xcve2802 | npu1 | npu1_1col | npu1_2col | npu1_3col | npu1_4col | npu4

datatype DMAChannelDir = S2MM | MM2S

datatype StrmSwPortType =
  CORE | DMA | CTRL | FIFO | SOUTH | WEST | NORTH | EAST | TRACE | UCTRLR
  | SS_PORT_TYPE_MAX | NOC

datatype AMDAIETileType = AIETILE | SHIMNOC | SHIMPL | MEMTILE | TILE_MAX

text \<open>The numeric values of the enumerators, as the source compares them.\<close>

fun strm_num :: "StrmSwPortType \<Rightarrow> nat" where
  "strm_num CORE = 0" | "strm_num DMA = 1" | "strm_num CTRL = 2" | "strm_num FIFO = 3"
| "strm_num SOUTH = 4" | "strm_num WEST = 5" | "strm_num NORTH = 6" | "strm_num EAST = 7"
| "strm_num TRACE = 8" | "strm_num UCTRLR = 9" | "strm_num SS_PORT_TYPE_MAX = 10"
| "strm_num NOC = 11"

lemma strm_num_inj [simp]: "strm_num a = strm_num b \<longleftrightarrow> a = b"
  by (cases a; cases b) simp_all

fun getConnectingBundle :: "StrmSwPortType \<Rightarrow> StrmSwPortType" where
  "getConnectingBundle NORTH = SOUTH"
| "getConnectingBundle SOUTH = NORTH"
| "getConnectingBundle EAST = WEST"
| "getConnectingBundle WEST = EAST"
| "getConnectingBundle dir = dir"

lemma getConnectingBundle_involution [simp]: "getConnectingBundle (getConnectingBundle b) = b"
  by (cases b) simp_all

fun isNPUDevice :: "AMDAIEDevice \<Rightarrow> bool" where
  "isNPUDevice d \<longleftrightarrow> d = npu1 \<or> d = npu1_1col \<or> d = npu1_2col \<or> d = npu1_3col \<or> d = npu1_4col \<or> d = npu4"

section \<open>Ordered structs\<close>

datatype TileLoc = TileLoc (col: int) (row: int)

datatype Port = Port (portBundle: StrmSwPortType) (portChannel: int)

datatype PortDirection = SRC | DST

datatype PhysPort = PhysPort (tileLoc: TileLoc) (port: Port) (direction: PortDirection)

datatype PhysPortAndID = PhysPortAndID (physPort: PhysPort) (pktId: int)

datatype Interconnect = SHIMMUX | SWB | NOCARE

datatype Connect =
  Connect (csrc: Port) (cdst: Port) (interconnect: Interconnect) (ccol: u8) (crow: u8)

instantiation StrmSwPortType :: linorder
begin
definition less_eq_StrmSwPortType :: "StrmSwPortType \<Rightarrow> StrmSwPortType \<Rightarrow> bool" where
  "less_eq_StrmSwPortType a b \<longleftrightarrow> strm_num a \<le> strm_num b"
definition less_StrmSwPortType :: "StrmSwPortType \<Rightarrow> StrmSwPortType \<Rightarrow> bool" where
  "less_StrmSwPortType a b \<longleftrightarrow> strm_num a < strm_num b"
instance
proof
  fix x y :: StrmSwPortType
  assume "x \<le> y" "y \<le> x"
  then have "strm_num x = strm_num y" unfolding less_eq_StrmSwPortType_def by (rule antisym)
  then show "x = y" by simp
qed (auto simp: less_eq_StrmSwPortType_def less_StrmSwPortType_def)
end

fun dir_num :: "PortDirection \<Rightarrow> nat" where
  "dir_num SRC = 0" | "dir_num DST = 1"

fun ic_num :: "Interconnect \<Rightarrow> nat" where
  "ic_num SHIMMUX = 0" | "ic_num SWB = 1" | "ic_num NOCARE = 2"

fun tile_tuple :: "TileLoc \<Rightarrow> int \<times> int" where
  "tile_tuple (TileLoc c r) = (c, r)"

fun port_tuple :: "Port \<Rightarrow> StrmSwPortType \<times> int" where
  "port_tuple (Port b c) = (b, c)"

lemma tile_tuple_inj [simp]: "tile_tuple a = tile_tuple b \<longleftrightarrow> a = b"
  by (cases a; cases b) simp

lemma port_tuple_inj [simp]: "port_tuple a = port_tuple b \<longleftrightarrow> a = b"
  by (cases a; cases b) simp

lemma dir_num_inj [simp]: "dir_num a = dir_num b \<longleftrightarrow> a = b"
  by (cases a; cases b) simp_all

lemma ic_num_inj [simp]: "ic_num a = ic_num b \<longleftrightarrow> a = b"
  by (cases a; cases b) simp_all

instantiation TileLoc :: linorder
begin
definition less_eq_TileLoc :: "TileLoc \<Rightarrow> TileLoc \<Rightarrow> bool" where
  "less_eq_TileLoc a b \<longleftrightarrow> tile_tuple a \<le> tile_tuple b"
definition less_TileLoc :: "TileLoc \<Rightarrow> TileLoc \<Rightarrow> bool" where
  "less_TileLoc a b \<longleftrightarrow> tile_tuple a < tile_tuple b"
instance
proof
  fix x y :: TileLoc
  assume "x \<le> y" "y \<le> x"
  then have "tile_tuple x = tile_tuple y" unfolding less_eq_TileLoc_def by (rule antisym)
  then show "x = y" by simp
qed (auto simp: less_eq_TileLoc_def less_TileLoc_def intro: order_trans)
end

instantiation Port :: linorder
begin
definition less_eq_Port :: "Port \<Rightarrow> Port \<Rightarrow> bool" where
  "less_eq_Port a b \<longleftrightarrow> port_tuple a \<le> port_tuple b"
definition less_Port :: "Port \<Rightarrow> Port \<Rightarrow> bool" where
  "less_Port a b \<longleftrightarrow> port_tuple a < port_tuple b"
instance
proof
  fix x y :: Port
  assume "x \<le> y" "y \<le> x"
  then have "port_tuple x = port_tuple y" unfolding less_eq_Port_def by (rule antisym)
  then show "x = y" by simp
qed (auto simp: less_eq_Port_def less_Port_def intro: order_trans)
end

fun phys_tuple :: "PhysPort \<Rightarrow> TileLoc \<times> Port \<times> nat" where
  "phys_tuple (PhysPort t p d) = (t, p, dir_num d)"

lemma phys_tuple_inj [simp]: "phys_tuple a = phys_tuple b \<longleftrightarrow> a = b"
  by (cases a; cases b) simp

instantiation PhysPort :: linorder
begin
definition less_eq_PhysPort :: "PhysPort \<Rightarrow> PhysPort \<Rightarrow> bool" where
  "less_eq_PhysPort a b \<longleftrightarrow> phys_tuple a \<le> phys_tuple b"
definition less_PhysPort :: "PhysPort \<Rightarrow> PhysPort \<Rightarrow> bool" where
  "less_PhysPort a b \<longleftrightarrow> phys_tuple a < phys_tuple b"
instance
proof
  fix x y :: PhysPort
  assume "x \<le> y" "y \<le> x"
  then have "phys_tuple x = phys_tuple y" unfolding less_eq_PhysPort_def by (rule antisym)
  then show "x = y" by simp
qed (auto simp: less_eq_PhysPort_def less_PhysPort_def intro: order_trans)
end

fun phys_id_tuple :: "PhysPortAndID \<Rightarrow> PhysPort \<times> int" where
  "phys_id_tuple (PhysPortAndID p i) = (p, i)"

lemma phys_id_tuple_inj [simp]: "phys_id_tuple a = phys_id_tuple b \<longleftrightarrow> a = b"
  by (cases a; cases b) simp

instantiation PhysPortAndID :: linorder
begin
definition less_eq_PhysPortAndID :: "PhysPortAndID \<Rightarrow> PhysPortAndID \<Rightarrow> bool" where
  "less_eq_PhysPortAndID a b \<longleftrightarrow> phys_id_tuple a \<le> phys_id_tuple b"
definition less_PhysPortAndID :: "PhysPortAndID \<Rightarrow> PhysPortAndID \<Rightarrow> bool" where
  "less_PhysPortAndID a b \<longleftrightarrow> phys_id_tuple a < phys_id_tuple b"
instance
proof
  fix x y :: PhysPortAndID
  assume "x \<le> y" "y \<le> x"
  then have "phys_id_tuple x = phys_id_tuple y" unfolding less_eq_PhysPortAndID_def by (rule antisym)
  then show "x = y" by simp
qed (auto simp: less_eq_PhysPortAndID_def less_PhysPortAndID_def intro: order_trans)
end

fun connect_tuple :: "Connect \<Rightarrow> Port \<times> Port \<times> nat \<times> u8 \<times> u8" where
  "connect_tuple (Connect s d i c r) = (s, d, ic_num i, c, r)"

lemma connect_tuple_inj [simp]: "connect_tuple a = connect_tuple b \<longleftrightarrow> a = b"
  by (cases a; cases b) simp

instantiation Connect :: linorder
begin
definition less_eq_Connect :: "Connect \<Rightarrow> Connect \<Rightarrow> bool" where
  "less_eq_Connect a b \<longleftrightarrow> connect_tuple a \<le> connect_tuple b"
definition less_Connect :: "Connect \<Rightarrow> Connect \<Rightarrow> bool" where
  "less_Connect a b \<longleftrightarrow> connect_tuple a < connect_tuple b"
instance
proof
  fix x y :: Connect
  assume "x \<le> y" "y \<le> x"
  then have "connect_tuple x = connect_tuple y" unfolding less_eq_Connect_def by (rule antisym)
  then show "x = y" by simp
qed (auto simp: less_eq_Connect_def less_Connect_def intro: order_trans)
end

text \<open>The orders unfold to the comparison of tuples, so that \<open>simp\<close> decides closed instances.\<close>

lemmas struct_order_defs =
  less_eq_StrmSwPortType_def less_StrmSwPortType_def less_eq_TileLoc_def less_TileLoc_def
  less_eq_Port_def less_Port_def less_eq_PhysPort_def less_PhysPort_def
  less_eq_PhysPortAndID_def less_PhysPortAndID_def less_eq_Connect_def less_Connect_def
  less_eq_prod_def less_prod_def

end
