(* ===== verification/Legacy_Target.thy ===== *)
theory Legacy_Target
  imports Device_Types
begin

text \<open>
  The switch tables of the legacy devices (\<open>aie_runtime/mlir_aie_legacy.cc\<close>, namespaces
  \<open>VC1902TargetModel\<close> and \<open>VE2802TargetModel\<close>): how many ports a tile has in each
  direction and which connections its switch box can make. The locale \<open>switch_tables\<close>
  states what the router relies on; both tables are interpretations of it.
\<close>

section \<open>VC1902\<close>

definition VC1902_nocColumns :: "int list" where
  "VC1902_nocColumns = [2, 3, 6, 7, 10, 11, 18, 19, 26, 27, 34, 35, 42, 43, 46, 47]"

definition VC1902_columns :: int where "VC1902_columns = 50"

definition VC1902_rows :: int where "VC1902_rows = 9"

definition VC1902_isShimNOCTile :: "int \<Rightarrow> int \<Rightarrow> bool" where
  "VC1902_isShimNOCTile c r \<longleftrightarrow> r = 0 \<and> c \<in> set VC1902_nocColumns"

definition VC1902_isShimPLTile :: "int \<Rightarrow> int \<Rightarrow> bool" where
  "VC1902_isShimPLTile c r \<longleftrightarrow> r = 0 \<and> c \<notin> set VC1902_nocColumns"

definition VC1902_isShimNOCorPLTile :: "int \<Rightarrow> int \<Rightarrow> bool" where
  "VC1902_isShimNOCorPLTile c r \<longleftrightarrow> VC1902_isShimNOCTile c r \<or> VC1902_isShimPLTile c r"

definition VC1902_getNumDestSwitchBoxConnections :: "int \<Rightarrow> int \<Rightarrow> StrmSwPortType \<Rightarrow> nat" where
  "VC1902_getNumDestSwitchBoxConnections c r bundle =
     (if VC1902_isShimNOCTile c r \<or> VC1902_isShimPLTile c r then
        (case bundle of
           FIFO \<Rightarrow> 2
         | NORTH \<Rightarrow> 6
         | WEST \<Rightarrow> if c = 0 then 0 else 4
         | SOUTH \<Rightarrow> 6
         | EAST \<Rightarrow> if c = VC1902_columns - 1 then 0 else 4
         | CTRL \<Rightarrow> if VC1902_isShimNOCTile c r then 1 else 0
         | _ \<Rightarrow> 0)
      else
        (case bundle of
           CORE \<Rightarrow> 2 | DMA \<Rightarrow> 2 | FIFO \<Rightarrow> 2
         | NORTH \<Rightarrow> if r = VC1902_rows - 1 then 0 else 6
         | WEST \<Rightarrow> if c = 0 then 0 else 4
         | SOUTH \<Rightarrow> 4
         | EAST \<Rightarrow> if c = VC1902_columns - 1 then 0 else 4
         | CTRL \<Rightarrow> 1
         | _ \<Rightarrow> 0))"

definition VC1902_getNumSourceSwitchBoxConnections :: "int \<Rightarrow> int \<Rightarrow> StrmSwPortType \<Rightarrow> nat" where
  "VC1902_getNumSourceSwitchBoxConnections c r bundle =
     (if VC1902_isShimNOCTile c r \<or> VC1902_isShimPLTile c r then
        (case bundle of
           FIFO \<Rightarrow> 2
         | NORTH \<Rightarrow> 4
         | WEST \<Rightarrow> if c = 0 then 0 else 4
         | SOUTH \<Rightarrow> 8
         | EAST \<Rightarrow> if c = VC1902_columns - 1 then 0 else 4
         | TRACE \<Rightarrow> 1
         | CTRL \<Rightarrow> if VC1902_isShimNOCTile c r then 1 else 0
         | _ \<Rightarrow> 0)
      else
        (case bundle of
           CORE \<Rightarrow> 2 | DMA \<Rightarrow> 2 | FIFO \<Rightarrow> 2
         | NORTH \<Rightarrow> if r = VC1902_rows - 1 then 0 else 4
         | WEST \<Rightarrow> if c = 0 then 0 else 4
         | SOUTH \<Rightarrow> 6
         | EAST \<Rightarrow> if c = VC1902_columns - 1 then 0 else 4
         | TRACE \<Rightarrow> 2
         | CTRL \<Rightarrow> 1
         | _ \<Rightarrow> 0))"

definition VC1902_getNumDestShimMuxConnections :: "int \<Rightarrow> int \<Rightarrow> StrmSwPortType \<Rightarrow> nat" where
  "VC1902_getNumDestShimMuxConnections c r bundle =
     (if VC1902_isShimNOCorPLTile c r then
        (case bundle of DMA \<Rightarrow> 2 | NOC \<Rightarrow> 4 | SOUTH \<Rightarrow> 8 | _ \<Rightarrow> 0)
      else 0)"

definition VC1902_getNumSourceShimMuxConnections :: "int \<Rightarrow> int \<Rightarrow> StrmSwPortType \<Rightarrow> nat" where
  "VC1902_getNumSourceShimMuxConnections c r bundle =
     (if VC1902_isShimNOCorPLTile c r then
        (case bundle of DMA \<Rightarrow> 2 | NOC \<Rightarrow> 4 | SOUTH \<Rightarrow> 6 | _ \<Rightarrow> 0)
      else 0)"

definition VC1902_isCoreTile :: "int \<Rightarrow> int \<Rightarrow> bool" where
  "VC1902_isCoreTile c r \<longleftrightarrow> r > 0"

definition VC1902_isMemTile :: "int \<Rightarrow> int \<Rightarrow> bool" where
  "VC1902_isMemTile c r \<longleftrightarrow> False"

definition VC1902_isLegalTileConnection ::
  "int \<Rightarrow> int \<Rightarrow> StrmSwPortType \<Rightarrow> int \<Rightarrow> StrmSwPortType \<Rightarrow> int \<Rightarrow> bool" where
  "VC1902_isLegalTileConnection c r srcBundle srcChan dstBundle dstChan =
     (if srcChan \<ge> int (VC1902_getNumSourceSwitchBoxConnections c r srcBundle) then False
      else if dstChan \<ge> int (VC1902_getNumDestSwitchBoxConnections c r dstBundle) then False
      else if VC1902_isMemTile c r then False
      else if VC1902_isShimNOCorPLTile c r then
        (if srcBundle = TRACE then dstBundle = SOUTH else True)
      else if VC1902_isCoreTile c r then
        (if srcBundle = TRACE then dstBundle = SOUTH else True)
      else False)"

section \<open>VE2802\<close>

definition VE2802_nocColumns :: "int list" where
  "VE2802_nocColumns = [2, 3, 6, 7, 14, 15, 22, 23, 30, 31, 34, 35]"

definition VE2802_isShimNOCTile :: "int \<Rightarrow> int \<Rightarrow> bool" where
  "VE2802_isShimNOCTile c r \<longleftrightarrow> r = 0 \<and> c \<in> set VE2802_nocColumns"

definition VE2802_isShimPLTile :: "int \<Rightarrow> int \<Rightarrow> bool" where
  "VE2802_isShimPLTile c r \<longleftrightarrow> r = 0 \<and> c \<notin> set VE2802_nocColumns"

definition VE2802_isShimNOCorPLTile :: "int \<Rightarrow> int \<Rightarrow> bool" where
  "VE2802_isShimNOCorPLTile c r \<longleftrightarrow> VE2802_isShimNOCTile c r \<or> VE2802_isShimPLTile c r"

definition VE2802_columns :: int where "VE2802_columns = 38"

definition VE2802_rows :: int where "VE2802_rows = 11"

definition VE2802_isCoreTile :: "int \<Rightarrow> int \<Rightarrow> bool" where
  "VE2802_isCoreTile c r \<longleftrightarrow> r > 2"

definition VE2802_isMemTile :: "int \<Rightarrow> int \<Rightarrow> bool" where
  "VE2802_isMemTile c r \<longleftrightarrow> r = 1 \<or> r = 2"

definition VE2802_getNumDestShimMuxConnections :: "int \<Rightarrow> int \<Rightarrow> StrmSwPortType \<Rightarrow> nat" where
  "VE2802_getNumDestShimMuxConnections c r bundle =
     (if VE2802_isShimNOCorPLTile c r then
        (case bundle of DMA \<Rightarrow> 2 | NOC \<Rightarrow> 4 | SOUTH \<Rightarrow> 8 | _ \<Rightarrow> 0)
      else 0)"

definition VE2802_getNumSourceShimMuxConnections :: "int \<Rightarrow> int \<Rightarrow> StrmSwPortType \<Rightarrow> nat" where
  "VE2802_getNumSourceShimMuxConnections c r bundle =
     (if VE2802_isShimNOCorPLTile c r then
        (case bundle of DMA \<Rightarrow> 2 | NOC \<Rightarrow> 4 | SOUTH \<Rightarrow> 6 | _ \<Rightarrow> 0)
      else 0)"

definition VE2802_getNumDestSwitchBoxConnections :: "int \<Rightarrow> int \<Rightarrow> StrmSwPortType \<Rightarrow> nat" where
  "VE2802_getNumDestSwitchBoxConnections c r bundle =
     (if VE2802_isMemTile c r then
        (case bundle of DMA \<Rightarrow> 6 | NORTH \<Rightarrow> 6 | SOUTH \<Rightarrow> 4 | CTRL \<Rightarrow> 1 | _ \<Rightarrow> 0)
      else if VE2802_isShimNOCTile c r \<or> VE2802_isShimPLTile c r then
        (case bundle of
           FIFO \<Rightarrow> 1
         | NORTH \<Rightarrow> 6
         | WEST \<Rightarrow> if c = 0 then 0 else 4
         | SOUTH \<Rightarrow> 6
         | EAST \<Rightarrow> if c = VE2802_columns - 1 then 0 else 4
         | CTRL \<Rightarrow> if VE2802_isShimNOCTile c r then 1 else 0
         | _ \<Rightarrow> 0)
      else
        (case bundle of
           CORE \<Rightarrow> 1 | DMA \<Rightarrow> 2 | FIFO \<Rightarrow> 1
         | NORTH \<Rightarrow> if r = VE2802_rows - 1 then 0 else 6
         | WEST \<Rightarrow> if c = 0 then 0 else 4
         | SOUTH \<Rightarrow> 4
         | EAST \<Rightarrow> if c = VE2802_columns - 1 then 0 else 4
         | CTRL \<Rightarrow> 1
         | _ \<Rightarrow> 0))"

definition VE2802_getNumSourceSwitchBoxConnections :: "int \<Rightarrow> int \<Rightarrow> StrmSwPortType \<Rightarrow> nat" where
  "VE2802_getNumSourceSwitchBoxConnections c r bundle =
     (if VE2802_isMemTile c r then
        (case bundle of DMA \<Rightarrow> 6 | NORTH \<Rightarrow> 4 | SOUTH \<Rightarrow> 6 | TRACE \<Rightarrow> 1 | CTRL \<Rightarrow> 1 | _ \<Rightarrow> 0)
      else if VE2802_isShimNOCTile c r \<or> VE2802_isShimPLTile c r then
        (case bundle of
           FIFO \<Rightarrow> 1
         | NORTH \<Rightarrow> 4
         | WEST \<Rightarrow> if c = 0 then 0 else 4
         | SOUTH \<Rightarrow> 8
         | EAST \<Rightarrow> if c = VE2802_columns - 1 then 0 else 4
         | TRACE \<Rightarrow> 1
         | CTRL \<Rightarrow> if VE2802_isShimNOCTile c r then 1 else 0
         | _ \<Rightarrow> 0)
      else
        (case bundle of
           CORE \<Rightarrow> 1 | DMA \<Rightarrow> 2 | FIFO \<Rightarrow> 1
         | NORTH \<Rightarrow> if r = VE2802_rows - 1 then 0 else 4
         | WEST \<Rightarrow> if c = 0 then 0 else 4
         | SOUTH \<Rightarrow> 6
         | EAST \<Rightarrow> if c = VE2802_columns - 1 then 0 else 4
         | TRACE \<Rightarrow> 2
         | CTRL \<Rightarrow> 1
         | _ \<Rightarrow> 0))"

text \<open>
  The legality rules per tile kind. In the source a rule that does not decide falls through
  to the next \<open>if\<close> and at last to \<open>return false\<close>.
\<close>

definition VE2802_legalMemTile :: "StrmSwPortType \<Rightarrow> int \<Rightarrow> StrmSwPortType \<Rightarrow> int \<Rightarrow> bool" where
  "VE2802_legalMemTile srcBundle srcChan dstBundle dstChan =
     (if srcBundle = DMA \<and> dstBundle = DMA then srcChan = dstChan
      else if srcBundle = DMA \<and> dstBundle \<in> {CTRL, SOUTH, NORTH} then True
      else if srcBundle = CTRL \<and> dstBundle = DMA then dstChan = 5
      else if srcBundle = CTRL \<and> dstBundle \<in> {SOUTH, NORTH} then True
      else if srcBundle \<in> {SOUTH, NORTH} \<and> dstBundle \<in> {DMA, CTRL} then True
      else if srcBundle \<in> {SOUTH, NORTH} \<and> dstBundle \<in> {SOUTH, NORTH} then srcChan = dstChan
      else if srcBundle = TRACE \<and> dstBundle = DMA then dstChan = 5
      else if srcBundle = TRACE \<and> dstBundle = SOUTH then True
      else False)"

definition VE2802_legalShimTile :: "StrmSwPortType \<Rightarrow> int \<Rightarrow> StrmSwPortType \<Rightarrow> int \<Rightarrow> bool" where
  "VE2802_legalShimTile srcBundle srcChan dstBundle dstChan =
     (if srcBundle = CTRL then dstBundle \<noteq> CTRL
      else if srcBundle \<in> {FIFO, SOUTH} then dstBundle \<in> {CTRL, FIFO, SOUTH, WEST, NORTH, EAST}
      else if srcBundle \<in> {WEST, NORTH, EAST} then
        (if srcBundle = dstBundle then srcChan = dstChan
         else dstBundle \<in> {CTRL, FIFO, SOUTH, WEST, NORTH, EAST})
      else if srcBundle = TRACE \<and> dstBundle \<in> {FIFO, SOUTH} then True
      else if srcBundle = TRACE \<and> dstBundle \<in> {WEST, EAST} then dstChan = 0
      else False)"

definition VE2802_legalCoreTile :: "StrmSwPortType \<Rightarrow> int \<Rightarrow> StrmSwPortType \<Rightarrow> int \<Rightarrow> bool" where
  "VE2802_legalCoreTile srcBundle srcChan dstBundle dstChan =
     (if srcBundle \<in> {DMA, FIFO, SOUTH, WEST, NORTH, EAST}
         \<and> dstBundle \<in> {CORE, DMA, CTRL, FIFO, SOUTH, WEST, NORTH, EAST} then
        (if srcBundle = dstBundle then srcChan = dstChan else True)
      else if srcBundle = CORE then dstBundle \<noteq> CORE
      else if srcBundle = CTRL then dstBundle \<noteq> CTRL \<and> dstBundle \<noteq> DMA
      else if srcBundle = TRACE \<and> dstBundle = DMA then dstChan = 0
      else if srcBundle = TRACE \<and> dstBundle \<in> {FIFO, SOUTH} then True
      else False)"

definition VE2802_isLegalTileConnection ::
  "int \<Rightarrow> int \<Rightarrow> StrmSwPortType \<Rightarrow> int \<Rightarrow> StrmSwPortType \<Rightarrow> int \<Rightarrow> bool" where
  "VE2802_isLegalTileConnection c r srcBundle srcChan dstBundle dstChan =
     (if srcChan \<ge> int (VE2802_getNumSourceSwitchBoxConnections c r srcBundle) then False
      else if dstChan \<ge> int (VE2802_getNumDestSwitchBoxConnections c r dstBundle) then False
      else if VE2802_isMemTile c r then VE2802_legalMemTile srcBundle srcChan dstBundle dstChan
      else if VE2802_isShimNOCorPLTile c r then
        VE2802_legalShimTile srcBundle srcChan dstBundle dstChan
      else if VE2802_isCoreTile c r then
        VE2802_legalCoreTile srcBundle srcChan dstBundle dstChan
      else False)"

lemmas VC1902_defs = VC1902_columns_def VC1902_rows_def VC1902_isShimNOCTile_def
  VC1902_isShimPLTile_def VC1902_isShimNOCorPLTile_def VC1902_isCoreTile_def VC1902_isMemTile_def

lemmas VE2802_defs = VE2802_columns_def VE2802_rows_def VE2802_isShimNOCTile_def
  VE2802_isShimPLTile_def VE2802_isShimNOCorPLTile_def VE2802_isCoreTile_def VE2802_isMemTile_def

section \<open>What the router relies on\<close>

text \<open>The neighbour of a tile in a direction.\<close>

fun neighbour :: "int \<Rightarrow> int \<Rightarrow> StrmSwPortType \<Rightarrow> int \<times> int" where
  "neighbour c r NORTH = (c, r + 1)"
| "neighbour c r SOUTH = (c, r - 1)"
| "neighbour c r EAST = (c + 1, r)"
| "neighbour c r WEST = (c - 1, r)"
| "neighbour c r _ = (c, r)"

definition in_array :: "int \<Rightarrow> int \<Rightarrow> int \<Rightarrow> int \<Rightarrow> bool" where
  "in_array cols rws c r \<longleftrightarrow> 0 \<le> c \<and> c < cols \<and> 0 \<le> r \<and> r < rws"

text \<open>
  The contract of a set of switch tables: a legal connection uses existing ports, a tile at
  the border has no port that leads out of the array (the south side of the shim row
  apart), and the ports on the two sides of a tile boundary are equally many.
\<close>

locale switch_tables =
  fixes cols :: int and rws :: int
    and numSource :: "int \<Rightarrow> int \<Rightarrow> StrmSwPortType \<Rightarrow> nat"
    and numDest :: "int \<Rightarrow> int \<Rightarrow> StrmSwPortType \<Rightarrow> nat"
    and legal :: "int \<Rightarrow> int \<Rightarrow> StrmSwPortType \<Rightarrow> int \<Rightarrow> StrmSwPortType \<Rightarrow> int \<Rightarrow> bool"
  assumes legal_ports: "legal c r sb sc db dc \<Longrightarrow>
        sc < int (numSource c r sb) \<and> dc < int (numDest c r db)"
    and closed_border: "in_array cols rws c r \<Longrightarrow> db \<in> {NORTH, EAST, WEST} \<Longrightarrow> numDest c r db \<noteq> 0 \<Longrightarrow>
        in_array cols rws (fst (neighbour c r db)) (snd (neighbour c r db))"
    and facing_ports: "in_array cols rws c r \<Longrightarrow> db \<in> {NORTH, SOUTH, EAST, WEST} \<Longrightarrow>
        in_array cols rws (fst (neighbour c r db)) (snd (neighbour c r db)) \<Longrightarrow>
        numDest c r db = numSource (fst (neighbour c r db)) (snd (neighbour c r db)) (getConnectingBundle db)"
begin

text \<open>A connection that leaves a tile arrives at an existing port of an existing tile.\<close>

lemma hop_arrives:
  assumes "in_array cols rws c r" and "legal c r sb sc db dc" and "0 \<le> dc"
    and "db \<in> {NORTH, EAST, WEST} \<or> (db = SOUTH \<and> 0 < r)"
  shows "in_array cols rws (fst (neighbour c r db)) (snd (neighbour c r db))
    \<and> dc < int (numSource (fst (neighbour c r db)) (snd (neighbour c r db)) (getConnectingBundle db))"
proof -
  have dc: "dc < int (numDest c r db)" using legal_ports [OF assms(2)] ..
  with assms(3) have nz: "numDest c r db \<noteq> 0" by linarith
  have inside: "in_array cols rws (fst (neighbour c r db)) (snd (neighbour c r db))"
  proof (cases "db = SOUTH")
    case True
    with assms(1,4) show ?thesis by (auto simp: in_array_def)
  next
    case False
    with assms(4) have "db \<in> {NORTH, EAST, WEST}" by simp
    then show ?thesis by (rule closed_border [OF assms(1) _ nz])
  qed
  have "db \<in> {NORTH, SOUTH, EAST, WEST}" using assms(4) by auto
  from facing_ports [OF assms(1) this inside] inside dc show ?thesis by simp
qed

end

lemma VC1902_facing:
  assumes "in_array VC1902_columns VC1902_rows c r" and "db \<in> {NORTH, SOUTH, EAST, WEST}"
    and "in_array VC1902_columns VC1902_rows (fst (neighbour c r db)) (snd (neighbour c r db))"
  shows "VC1902_getNumDestSwitchBoxConnections c r db
    = VC1902_getNumSourceSwitchBoxConnections (fst (neighbour c r db)) (snd (neighbour c r db)) (getConnectingBundle db)"
proof -
  have shim: "VC1902_isShimNOCTile c r \<or> VC1902_isShimPLTile c r \<longleftrightarrow> r = 0" for c r
    by (auto simp: VC1902_isShimNOCTile_def VC1902_isShimPLTile_def)
  note tables = shim VC1902_getNumDestSwitchBoxConnections_def VC1902_getNumSourceSwitchBoxConnections_def
    VC1902_columns_def VC1902_rows_def in_array_def
  from assms(2) consider "db = NORTH" | "db = SOUTH" | "db = EAST" | "db = WEST" by auto
  then show ?thesis using assms(1,3) by cases (simp_all add: tables)
qed

lemma VE2802_facing:
  assumes "in_array VE2802_columns VE2802_rows c r" and "db \<in> {NORTH, SOUTH, EAST, WEST}"
    and "in_array VE2802_columns VE2802_rows (fst (neighbour c r db)) (snd (neighbour c r db))"
  shows "VE2802_getNumDestSwitchBoxConnections c r db
    = VE2802_getNumSourceSwitchBoxConnections (fst (neighbour c r db)) (snd (neighbour c r db)) (getConnectingBundle db)"
proof -
  have shim: "VE2802_isShimNOCTile c r \<or> VE2802_isShimPLTile c r \<longleftrightarrow> r = 0" for c r
    by (auto simp: VE2802_isShimNOCTile_def VE2802_isShimPLTile_def)
  note tables = shim VE2802_getNumDestSwitchBoxConnections_def VE2802_getNumSourceSwitchBoxConnections_def
    VE2802_columns_def VE2802_rows_def VE2802_isMemTile_def in_array_def
  from assms(2) consider "db = NORTH" | "db = SOUTH" | "db = EAST" | "db = WEST" by auto
  then show ?thesis using assms(1,3) by cases (simp_all add: tables)
qed

interpretation vc1902: switch_tables VC1902_columns VC1902_rows
  VC1902_getNumSourceSwitchBoxConnections VC1902_getNumDestSwitchBoxConnections
  VC1902_isLegalTileConnection
proof
  fix c r :: int and sb db sc dc
  show "VC1902_isLegalTileConnection c r sb sc db dc \<Longrightarrow>
      sc < int (VC1902_getNumSourceSwitchBoxConnections c r sb) \<and>
      dc < int (VC1902_getNumDestSwitchBoxConnections c r db)"
    by (simp add: VC1902_isLegalTileConnection_def split: if_splits)
  show "in_array VC1902_columns VC1902_rows c r \<Longrightarrow> db \<in> {NORTH, EAST, WEST} \<Longrightarrow>
      VC1902_getNumDestSwitchBoxConnections c r db \<noteq> 0 \<Longrightarrow>
      in_array VC1902_columns VC1902_rows (fst (neighbour c r db)) (snd (neighbour c r db))"
    by (auto simp: VC1902_getNumDestSwitchBoxConnections_def VC1902_defs in_array_def split: if_splits)
qed (rule VC1902_facing)

interpretation ve2802: switch_tables VE2802_columns VE2802_rows
  VE2802_getNumSourceSwitchBoxConnections VE2802_getNumDestSwitchBoxConnections
  VE2802_isLegalTileConnection
proof
  fix c r :: int and sb db sc dc
  show "VE2802_isLegalTileConnection c r sb sc db dc \<Longrightarrow>
      sc < int (VE2802_getNumSourceSwitchBoxConnections c r sb) \<and>
      dc < int (VE2802_getNumDestSwitchBoxConnections c r db)"
    by (simp add: VE2802_isLegalTileConnection_def split: if_splits)
  show "in_array VE2802_columns VE2802_rows c r \<Longrightarrow> db \<in> {NORTH, EAST, WEST} \<Longrightarrow>
      VE2802_getNumDestSwitchBoxConnections c r db \<noteq> 0 \<Longrightarrow>
      in_array VE2802_columns VE2802_rows (fst (neighbour c r db)) (snd (neighbour c r db))"
    by (auto simp: VE2802_getNumDestSwitchBoxConnections_def VE2802_defs in_array_def split: if_splits)
qed (rule VE2802_facing)

end
