(* ===== verification/Bd_Id_Generator.thy ===== *)
theory Bd_Id_Generator
  imports Id_Pool "HOL-Library.Sublist"
begin

text \<open>
  \<open>ChannelBdIdGenerator\<close> (\<open>aie_runtime/Utils/ChannelBdIdGenerator.h\<close> and \<open>.cpp\<close>): hands out
  buffer descriptor ids per DMA channel. The state is the struct's three fields; every
  method is a function that returns the new state. A \<open>DenseMap\<close> is a partial map, a
  \<open>DenseSet\<close> a set.
\<close>

section \<open>Model\<close>

datatype BdIdAssignmentMode = Incremental | Smallest

record ChannelBdIdGenerator =
  channelToValidBdIds :: "u32 \<Rightarrow> u32 list option"
  assignedBdIds :: "u32 set"
  lastUsedBdId :: u32

definition mk_ChannelBdIdGenerator :: "(u32 \<Rightarrow> u32 list option) \<Rightarrow> ChannelBdIdGenerator" where
  "mk_ChannelBdIdGenerator valid =
     \<lparr>channelToValidBdIds = valid, assignedBdIds = {}, lastUsedBdId = - 1\<rparr>"

definition assignBdId :: "u32 \<Rightarrow> ChannelBdIdGenerator \<Rightarrow> ChannelBdIdGenerator" where
  "assignBdId bdId g =
     g\<lparr>assignedBdIds := insert bdId (assignedBdIds g), lastUsedBdId := bdId\<rparr>"

definition isBdIdAssigned :: "ChannelBdIdGenerator \<Rightarrow> u32 \<Rightarrow> bool" where
  "isBdIdAssigned g bdId \<longleftrightarrow> bdId \<in> assignedBdIds g"

definition releaseBdId :: "u32 \<Rightarrow> ChannelBdIdGenerator \<Rightarrow> ChannelBdIdGenerator" where
  "releaseBdId bdId g = g\<lparr>assignedBdIds := assignedBdIds g - {bdId}\<rparr>"

definition getNumAvailableBdIds :: "ChannelBdIdGenerator \<Rightarrow> u32 \<Rightarrow> nat" where
  "getNumAvailableBdIds g channel =
     (case channelToValidBdIds g channel of
        None \<Rightarrow> 0
      | Some valid \<Rightarrow> length (filter (\<lambda>bdId. \<not> isBdIdAssigned g bdId) valid))"

text \<open>A range-for loop that assigns and returns the first id with a property.\<close>

definition assignFirst ::
  "(u32 \<Rightarrow> bool) \<Rightarrow> u32 list \<Rightarrow> ChannelBdIdGenerator \<Rightarrow> u32 option \<times> ChannelBdIdGenerator" where
  "assignFirst P valid g =
     (case find P valid of
        Some bdId \<Rightarrow> (Some bdId, assignBdId bdId g)
      | None \<Rightarrow> (None, g))"

definition getAndAssignBdId ::
  "u32 \<Rightarrow> BdIdAssignmentMode \<Rightarrow> ChannelBdIdGenerator \<Rightarrow> u32 option \<times> ChannelBdIdGenerator" where
  "getAndAssignBdId channel mode g =
     (case channelToValidBdIds g channel of
        None \<Rightarrow> (None, g)
      | Some valid \<Rightarrow>
          if valid = [] then (None, g)
          else (case mode of
             Smallest \<Rightarrow> assignFirst (\<lambda>bdId. \<not> isBdIdAssigned g bdId) valid g
           | Incremental \<Rightarrow>
               (case assignFirst (\<lambda>bdId. bdId > lastUsedBdId g \<and> \<not> isBdIdAssigned g bdId) valid g of
                  (Some bdId, g') \<Rightarrow> (Some bdId, g')
                | (None, _) \<Rightarrow>
                    assignFirst (\<lambda>bdId. bdId \<le> lastUsedBdId g \<and> \<not> isBdIdAssigned g bdId) valid g)))"

text \<open>
  The scan of \<open>getAndAssignConsecutiveBdIds\<close>: \<open>cur\<close> is the run that ends at the last id seen,
  \<open>best\<close> the longest run so far; the loop breaks when \<open>best\<close> reaches \<open>num\<close>.
\<close>

fun scanRuns :: "ChannelBdIdGenerator \<Rightarrow> nat \<Rightarrow> u32 list \<Rightarrow> u32 list \<Rightarrow> u32 list \<Rightarrow> u32 list" where
  "scanRuns g num [] cur best = best"
| "scanRuns g num (i # ids) cur best =
     (if isBdIdAssigned g i then scanRuns g num ids [] best
      else
        let cur' = (if cur \<noteq> [] \<and> i = last cur + 1 then cur @ [i] else [i]);
            best' = (if length cur' > length best then cur' else best)
        in if length best' \<ge> num then best' else scanRuns g num ids cur' best')"

definition getAndAssignConsecutiveBdIds ::
  "u32 \<Rightarrow> u32 \<Rightarrow> ChannelBdIdGenerator \<Rightarrow> u32 list \<times> ChannelBdIdGenerator" where
  "getAndAssignConsecutiveBdIds channel num g =
     (if num = 0 then ([], g)
      else (case channelToValidBdIds g channel of
              None \<Rightarrow> ([], g)
            | Some valid \<Rightarrow>
                let best = scanRuns g (unat num) valid [] [];
                    n = min (length best) (unat num);
                    res = take n best
                in (res, foldl (\<lambda>g bdId. assignBdId bdId g) g res)))"

lemmas [gen_simps] = assignBdId_def isBdIdAssigned_def releaseBdId_def getNumAvailableBdIds_def
  assignFirst_def getAndAssignBdId_def

section \<open>Single allocations\<close>

text \<open>The ids a channel may use.\<close>

definition validIds :: "u32 \<Rightarrow> ChannelBdIdGenerator \<Rightarrow> u32 set" where
  "validIds channel g = (case channelToValidBdIds g channel of None \<Rightarrow> {} | Some v \<Rightarrow> set v)"

lemma assignFirst_Some:
  "assignFirst P valid g = (Some i, g') \<Longrightarrow> i \<in> set valid \<and> P i \<and> g' = assignBdId i g"
  by (auto simp: assignFirst_def dest: find_Some_props split: option.splits)

lemma assignFirst_None: "assignFirst P valid g = (None, g') \<Longrightarrow> g' = g \<and> (\<forall>i \<in> set valid. \<not> P i)"
  by (auto simp: assignFirst_def dest: find_None_props split: option.splits)

lemma getAndAssignBdId_Some:
  assumes "getAndAssignBdId c mode g = (Some i, g')"
  shows "i \<in> validIds c g \<and> i \<notin> assignedBdIds g \<and> g' = assignBdId i g"
  using assms
  by (auto simp: getAndAssignBdId_def validIds_def isBdIdAssigned_def
      dest!: assignFirst_Some split: option.splits if_splits BdIdAssignmentMode.splits prod.splits)

lemma getAndAssignBdId_None:
  assumes "getAndAssignBdId c mode g = (None, g')"
  shows "g' = g \<and> validIds c g \<subseteq> assignedBdIds g"
proof -
  have split_last: "\<not> (bdId > lastUsedBdId g \<and> \<not> bdId \<in> assignedBdIds g) \<Longrightarrow>
      \<not> (bdId \<le> lastUsedBdId g \<and> \<not> bdId \<in> assignedBdIds g) \<Longrightarrow> bdId \<in> assignedBdIds g" for bdId
    by auto
  from assms show ?thesis
    by (auto simp: getAndAssignBdId_def validIds_def isBdIdAssigned_def
        dest!: assignFirst_None intro: split_last
        split: option.splits if_splits BdIdAssignmentMode.splits prod.splits)
qed

lemma validIds_assignBdId [simp]: "validIds c (assignBdId i g) = validIds c g"
  by (simp add: validIds_def assignBdId_def)

lemma assignedBdIds_assignBdId [simp]:
  "assignedBdIds (assignBdId i g) = insert i (assignedBdIds g)"
  by (simp add: assignBdId_def)

lemma finite_validIds: "finite (validIds c g)"
  by (simp add: validIds_def split: option.split)

interpretation bdids: id_pool "validIds c" assignedBdIds "getAndAssignBdId c mode" "\<lambda>_. True"
proof
  fix s s' :: ChannelBdIdGenerator and i
  show "finite (validIds c s)" by (rule finite_validIds)
  show "getAndAssignBdId c mode s = (None, s') \<Longrightarrow> s' = s \<and> validIds c s \<subseteq> assignedBdIds s"
    by (rule getAndAssignBdId_None)
  assume "getAndAssignBdId c mode s = (Some i, s')"
  then show "i \<in> validIds c s \<and> i \<notin> assignedBdIds s \<and> assignedBdIds s' = insert i (assignedBdIds s)
      \<and> validIds c s' = validIds c s \<and> True"
    using getAndAssignBdId_Some by force
qed

lemma getNumAvailableBdIds_card:
  assumes "\<And>v. channelToValidBdIds g c = Some v \<Longrightarrow> distinct v"
  shows "getNumAvailableBdIds g c = card (validIds c g - assignedBdIds g)"
proof (cases "channelToValidBdIds g c")
  case None
  then show ?thesis by (simp add: getNumAvailableBdIds_def validIds_def)
next
  case (Some v)
  have "{x \<in> set v. x \<notin> assignedBdIds g} = set v - assignedBdIds g" by auto
  with Some assms [OF Some] show ?thesis
    by (simp add: getNumAvailableBdIds_def validIds_def isBdIdAssigned_def card_filter_distinct)
qed

section \<open>Consecutive allocations\<close>

text \<open>A run of consecutive values, none of them assigned.\<close>

definition free_run :: "ChannelBdIdGenerator \<Rightarrow> u32 list \<Rightarrow> bool" where
  "free_run g r \<longleftrightarrow> successively (\<lambda>a b. b = a + 1) r \<and> (\<forall>i \<in> set r. i \<notin> assignedBdIds g)"

text \<open>\<open>first_run g r xs\<close>: \<open>r\<close> occurs in \<open>xs\<close> and no run of its length ends before it does.\<close>

definition first_run :: "ChannelBdIdGenerator \<Rightarrow> u32 list \<Rightarrow> u32 list \<Rightarrow> bool" where
  "first_run g r xs \<longleftrightarrow>
     (\<exists>a b. xs = a @ r @ b \<and>
        (\<forall>r'. free_run g r' \<and> sublist r' (butlast (a @ r)) \<longrightarrow> length r' < length r))"

definition scan_inv :: "ChannelBdIdGenerator \<Rightarrow> u32 list \<Rightarrow> u32 list \<Rightarrow> u32 list \<Rightarrow> bool" where
  "scan_inv g xs cur best \<longleftrightarrow>
     free_run g cur \<and> suffix cur xs \<and> free_run g best \<and> (best \<noteq> [] \<longrightarrow> first_run g best xs) \<and>
     (\<forall>r. free_run g r \<and> suffix r xs \<longrightarrow> length r \<le> length cur) \<and>
     (\<forall>r. free_run g r \<and> sublist r xs \<longrightarrow> length r \<le> length best)"

lemma free_run_Nil [simp]: "free_run g []"
  by (simp add: free_run_def)

lemma free_run_snoc:
  "free_run g (r @ [i]) \<longleftrightarrow>
     free_run g r \<and> i \<notin> assignedBdIds g \<and> (r \<noteq> [] \<longrightarrow> i = last r + 1)"
  by (auto simp: free_run_def successively_append_iff)

lemma first_run_append: "first_run g r xs \<Longrightarrow> first_run g r (xs @ ys)"
  unfolding first_run_def by (metis append.assoc)

lemma sublist_snoc_split: "sublist r (xs @ [i]) \<longleftrightarrow> sublist r xs \<or> suffix r (xs @ [i])"
  by (auto simp: sublist_snoc)

lemma scan_inv_Nil: "scan_inv g [] [] []"
  by (simp add: scan_inv_def)

lemma scan_inv_assigned:
  assumes "scan_inv g xs cur best" and "i \<in> assignedBdIds g"
  shows "scan_inv g (xs @ [i]) [] best"
proof -
  have "r = []" if "free_run g r" "suffix r (xs @ [i])" for r
    using that assms(2) by (auto simp: free_run_snoc)
  with assms(1) show ?thesis
    unfolding scan_inv_def sublist_snoc_split by (auto intro: first_run_append)
qed

lemma scan_inv_free:
  assumes inv: "scan_inv g xs cur best" and i: "i \<notin> assignedBdIds g"
    and cur': "cur' = (if cur \<noteq> [] \<and> i = last cur + 1 then cur @ [i] else [i])"
    and best': "best' = (if length cur' > length best then cur' else best)"
  shows "scan_inv g (xs @ [i]) cur' best'" and "length best' \<le> Suc (length best)"
proof -
  have run: "free_run g cur'" "suffix cur' (xs @ [i])"
    using inv i cur' free_run_snoc [of g cur i] free_run_snoc [of g "[]" i]
    by (auto simp: scan_inv_def)
  have longest: "length r \<le> length cur'" if r: "free_run g r" "suffix r (xs @ [i])" for r
  proof (cases r rule: rev_cases)
    case (snoc r' j)
    with r have r': "free_run g r'" "suffix r' xs" "j = i" and step: "r' \<noteq> [] \<longrightarrow> i = last r' + 1"
      by (auto simp: free_run_snoc)
    with inv have le: "length r' \<le> length cur" by (simp add: scan_inv_def)
    show ?thesis
    proof (cases "r' = []")
      case False
      with le have "cur \<noteq> []" by auto
      moreover have "suffix cur xs" using inv by (simp add: scan_inv_def)
      ultimately have "last cur = last r'" using r'(2) False
        by (metis last_appendR suffixE)
      with False step \<open>cur \<noteq> []\<close> have "cur' = cur @ [i]" using cur' by simp
      with le snoc show ?thesis by simp
    qed (use snoc cur' in simp)
  qed (use cur' in simp)
  have "length cur' \<le> Suc (length cur)" using cur' by (cases cur) auto
  moreover have "length cur \<le> length best" using inv by (simp add: scan_inv_def)
  ultimately show "length best' \<le> Suc (length best)" using best' by auto
  have first: "first_run g cur' (xs @ [i])" if "length cur' > length best"
  proof -
    from run(2) obtain a where "xs @ [i] = a @ cur'" by (auto elim: suffixE)
    moreover have "\<forall>r'. free_run g r' \<and> sublist r' (butlast (a @ cur')) \<longrightarrow> length r' < length cur'"
      using inv that calculation [symmetric] by (auto simp: scan_inv_def)
    ultimately show ?thesis unfolding first_run_def by (metis append.right_neutral append.assoc)
  qed
  have le: "length best \<le> length best'" "length cur' \<le> length best'" using best' by auto
  have best_run: "free_run g best'" "best' \<noteq> [] \<longrightarrow> first_run g best' (xs @ [i])"
    using inv run(1) first best' by (auto simp: scan_inv_def intro: first_run_append)
  have all: "length r \<le> length best'" if "free_run g r" "sublist r (xs @ [i])" for r
    using that(2) unfolding sublist_snoc_split
  proof
    assume "sublist r xs"
    with inv that(1) have "length r \<le> length best" by (simp add: scan_inv_def)
    with le(1) show ?thesis by linarith
  next
    assume "suffix r (xs @ [i])"
    with longest that(1) le(2) show ?thesis by (meson order_trans)
  qed
  show "scan_inv g (xs @ [i]) cur' best'"
    unfolding scan_inv_def using run longest best_run all by blast
qed

lemma scanRuns_correct:
  assumes "scan_inv g xs cur best" and "length best < num"
    and "res = scanRuns g num ys cur best"
  shows "free_run g res \<and> (res \<noteq> [] \<longrightarrow> first_run g res (xs @ ys)) \<and> length res \<le> num \<and>
         (\<forall>r. free_run g r \<and> sublist r (xs @ ys) \<longrightarrow> min num (length r) \<le> length res)"
  using assms
proof (induction ys arbitrary: xs cur best)
  case Nil
  then show ?case by (auto simp: scan_inv_def)
next
  case (Cons i ys)
  show ?case
  proof (cases "i \<in> assignedBdIds g")
    case True
    with Cons.IH [of "xs @ [i]" "[]" best] Cons.prems scan_inv_assigned [of g xs cur best i]
    show ?thesis by (simp add: isBdIdAssigned_def)
  next
    case False
    define cur' where "cur' = (if cur \<noteq> [] \<and> i = last cur + 1 then cur @ [i] else [i])"
    define best' where "best' = (if length cur' > length best then cur' else best)"
    note step = scan_inv_free [OF Cons.prems(1) False cur'_def best'_def]
    have res: "res = (if length best' \<ge> num then best' else scanRuns g num ys cur' best')"
      using Cons.prems(3) False by (simp add: isBdIdAssigned_def Let_def cur'_def best'_def)
    show ?thesis
    proof (cases "length best' \<ge> num")
      case True
      have "free_run g best'" "best' \<noteq> [] \<longrightarrow> first_run g best' (xs @ i # ys)"
        using step(1) first_run_append [of g best' "xs @ [i]" ys] by (simp_all add: scan_inv_def)
      moreover have "length best' = num" using step(2) True Cons.prems(2) by simp
      ultimately show ?thesis using res by simp
    next
      case False
      with res Cons.IH [of "xs @ [i]" cur' best'] step(1) show ?thesis by simp
    qed
  qed
qed

lemma foldl_assignBdId:
  "assignedBdIds (foldl (\<lambda>g i. assignBdId i g) g is) = assignedBdIds g \<union> set is"
  "channelToValidBdIds (foldl (\<lambda>g i. assignBdId i g) g is) = channelToValidBdIds g"
  by (induction "is" arbitrary: g) (auto simp: assignBdId_def)

section \<open>Properties\<close>

text \<open>
  C27. Allocating buffer descriptor ids one after the other, in either mode, hands out
  distinct ids that are valid for the channel and were free, exactly as many as
  \<open>getNumAvailableBdIds\<close> reports (or as many as asked for), and marks them, and only
  them, as assigned.
\<close>

theorem bd_ids_handed_out:
  assumes "channelToValidBdIds g c = Some valid" and "distinct valid"
    and "id_pool.alloc_run (getAndAssignBdId c mode) n g = (ids, g')"
  shows "distinct ids \<and> set ids \<subseteq> set valid - assignedBdIds g
    \<and> length ids = min n (getNumAvailableBdIds g c)
    \<and> assignedBdIds g' = assignedBdIds g \<union> set ids"
proof -
  have V: "validIds c g = set valid" using assms(1) by (simp add: validIds_def)
  have "getNumAvailableBdIds g c = card (validIds c g - assignedBdIds g)"
    using assms(1,2) by (intro getNumAvailableBdIds_card) auto
  with V bdids.alloc_run_props [OF TrueI assms(3)] bdids.alloc_run_length [OF TrueI assms(3)]
  show ?thesis by simp
qed

definition shim_bd_generator :: ChannelBdIdGenerator where
  "shim_bd_generator = mk_ChannelBdIdGenerator [0 \<mapsto> [0, 1, 2, 3]]"

theorem bd_ids_handed_out_witness:
  "\<exists>g'. id_pool.alloc_run (getAndAssignBdId 0 Incremental) 3 (assignBdId 1 shim_bd_generator)
        = ([2, 3, 0], g')
      \<and> length [2, 3, 0 :: u32] = min 3 (getNumAvailableBdIds (assignBdId 1 shim_bd_generator) 0)"
proof -
  let ?g = "assignBdId 1 shim_bd_generator"
  obtain g' where run: "id_pool.alloc_run (getAndAssignBdId 0 Incremental) 3 ?g = ([2, 3, 0], g')"
    by (simp add: numeral_3_eq_3 bdids.alloc_run.simps gen_simps shim_bd_generator_def
        mk_ChannelBdIdGenerator_def)
  have "channelToValidBdIds ?g 0 = Some [0, 1, 2, 3]"
    by (simp add: assignBdId_def shim_bd_generator_def mk_ChannelBdIdGenerator_def)
  from bd_ids_handed_out [OF this _ run] run show ?thesis by simp
qed

text \<open>
  C28. \<open>getAndAssignConsecutiveBdIds\<close> returns ids that are consecutive in value, valid for the
  channel, free before the call and assigned after it; at most \<open>num\<close> of them, and as many
  as the longest run of free consecutive ids allows; and no earlier run is as long (the
  lowest-offset promise of the header).
\<close>

theorem consecutive_bd_ids:
  assumes "channelToValidBdIds g c = Some valid" and "num \<noteq> 0"
    and "getAndAssignConsecutiveBdIds c num g = (res, g')"
  shows "free_run g res \<and> length res \<le> unat num
    \<and> (\<forall>r. free_run g r \<and> sublist r valid \<longrightarrow> min (unat num) (length r) \<le> length res)
    \<and> (res \<noteq> [] \<longrightarrow> first_run g res valid)
    \<and> assignedBdIds g' = assignedBdIds g \<union> set res"
proof -
  define best where "best = scanRuns g (unat num) valid [] []"
  have pos: "0 < unat num" using assms(2) by (simp add: unat_gt_0)
  note best_props = scanRuns_correct [OF scan_inv_Nil [of g] _ best_def, simplified, OF pos]
  from assms best_props have "res = best"
    by (simp add: getAndAssignConsecutiveBdIds_def best_def Let_def split: if_splits)
  moreover from assms have "g' = foldl (\<lambda>g i. assignBdId i g) g res"
    by (auto simp: getAndAssignConsecutiveBdIds_def Let_def split: if_splits)
  ultimately show ?thesis using best_props foldl_assignBdId(1) [of g res] by auto
qed

theorem consecutive_bd_ids_witness:
  "fst (getAndAssignConsecutiveBdIds 0 2 (assignBdId 1 shim_bd_generator)) = [2, 3]
   \<and> free_run (assignBdId 1 shim_bd_generator) [2, 3]"
proof -
  let ?g = "assignBdId 1 shim_bd_generator"
  have v: "channelToValidBdIds ?g 0 = Some [0, 1, 2, 3]"
    by (simp add: assignBdId_def shim_bd_generator_def mk_ChannelBdIdGenerator_def)
  obtain g' where run: "getAndAssignConsecutiveBdIds 0 2 ?g = ([2, 3], g')"
    by (simp add: getAndAssignConsecutiveBdIds_def v)
       (simp add: isBdIdAssigned_def Let_def assignBdId_def shim_bd_generator_def
         mk_ChannelBdIdGenerator_def)
  from consecutive_bd_ids [OF v _ run] run show ?thesis by simp
qed

end
