(* ===== verification/Device_Ops.thy ===== *)
theory Device_Ops
  imports Device_Model Bd_Id_Generator
begin

text \<open>
  The second half of \<open>AMDAIEDeviceModel\<close>: packet and control headers, register addresses,
  switch box and shim multiplexer queries (with the legacy dispatch), the table of devices
  and the matrix multiplication instruction sizes.
\<close>

section \<open>Headers\<close>

definition popcount :: "u32 \<Rightarrow> nat" where
  "popcount w = length (filter (bit w) [0 ..< 32])"

definition setOddParityBit :: "u32 \<Rightarrow> u32" where
  "setOddParityBit w =
     (let lower31Bits = w AND 0x7FFFFFFF;
          parity = of_nat ((popcount lower31Bits + 1) mod 2)
      in push_bit 31 parity OR lower31Bits)"

definition getPacketIdMaxIdx :: "AMDAIEDeviceModel \<Rightarrow> u8" where
  "getPacketIdMaxIdx m = packetIdMaxIdx (deviceConfig m)"

definition getpacketTypeMax :: "AMDAIEDeviceModel \<Rightarrow> u8" where
  "getpacketTypeMax m = packetTypeMax (deviceConfig m)"

definition getPacketIdMaskWidth :: "AMDAIEDeviceModel \<Rightarrow> u8" where
  "getPacketIdMaskWidth m = packetIdMaskWidth (deviceConfig m)"

definition getPacketHeader :: "AMDAIEDeviceModel \<Rightarrow> u32 \<Rightarrow> u32 \<Rightarrow> u32 \<Rightarrow> u32 \<Rightarrow> u32 result" where
  "getPacketHeader m streamId packetType srcRow srcCol =
     res_bind (rows m) (\<lambda>nRows. res_bind (columns m) (\<lambda>nCols.
       if uint srcRow \<ge> nRows \<or> uint srcCol \<ge> nCols then Inl Failure
       else if streamId > ucast (getPacketIdMaxIdx m) then Inl Failure
       else if packetType > ucast (getpacketTypeMax m) then Inl Failure
       else Inr (setOddParityBit
         (push_bit (unat (srcColShift (packetHeaderFormat m))) srcCol
          OR push_bit (unat (srcRowShift (packetHeaderFormat m))) srcRow
          OR push_bit (unat (packetTypeShift (packetHeaderFormat m))) packetType
          OR push_bit (unat (streamIdShift (packetHeaderFormat m))) streamId))))"

definition getCtrlPktMaxAddress :: "AMDAIEDeviceModel \<Rightarrow> u32" where
  "getCtrlPktMaxAddress m =
     push_bit (unat (ctrlBeatShift (controlHeaderFormat m) - ctrlAddressShift (controlHeaderFormat m))) 1 - 1"

definition getCtrlPktMaxLength :: "AMDAIEDeviceModel \<Rightarrow> u32" where
  "getCtrlPktMaxLength m =
     push_bit (unat (ctrlOperationShift (controlHeaderFormat m) - ctrlBeatShift (controlHeaderFormat m))) 1"

definition getCtrlPktMaxOpcode :: "AMDAIEDeviceModel \<Rightarrow> u32" where
  "getCtrlPktMaxOpcode m =
     push_bit (unat (ctrlStreamIdShift (controlHeaderFormat m) - ctrlOperationShift (controlHeaderFormat m))) 1 - 1"

definition getControlHeader :: "AMDAIEDeviceModel \<Rightarrow> u32 \<Rightarrow> u32 \<Rightarrow> u32 \<Rightarrow> u32 \<Rightarrow> u32 result" where
  "getControlHeader m address len opcode streamId =
     (if address > getCtrlPktMaxAddress m then Inl Failure
      else if len > getCtrlPktMaxLength m \<or> len = 0 then Inl Failure
      else if opcode > getCtrlPktMaxOpcode m then Inl Failure
      else if streamId > ucast (getPacketIdMaxIdx m) then Inl Failure
      else Inr (setOddParityBit
        (push_bit (unat (ctrlStreamIdShift (controlHeaderFormat m))) streamId
         OR push_bit (unat (ctrlOperationShift (controlHeaderFormat m))) opcode
         OR push_bit (unat (ctrlBeatShift (controlHeaderFormat m))) (len - 1)
         OR push_bit (unat (ctrlAddressShift (controlHeaderFormat m))) address)))"

section \<open>Register addresses\<close>

definition getColumnShift :: "AMDAIEDeviceModel \<Rightarrow> u32" where
  "getColumnShift m = ucast (ColShift (configPtr m))"

definition getRowShift :: "AMDAIEDeviceModel \<Rightarrow> u32" where
  "getRowShift m = ucast (RowShift (configPtr m))"

definition getCoreTileRowStart :: "AMDAIEDeviceModel \<Rightarrow> u32" where
  "getCoreTileRowStart m = ucast (AieTileRowStart (configPtr m))"

definition getColumnFromAddress :: "AMDAIEDeviceModel \<Rightarrow> u32 \<Rightarrow> u32" where
  "getColumnFromAddress m address =
     (let columnMask = push_bit (unat (getColumnShift m - getRowShift m)) 1 - 1
      in drop_bit (unat (getColumnShift m)) address AND columnMask)"

definition getRowFromAddress :: "AMDAIEDeviceModel \<Rightarrow> u32 \<Rightarrow> u32" where
  "getRowFromAddress m address =
     (let rowMask = push_bit (unat (getColumnShift m - getRowShift m)) 1 - 1
      in drop_bit (unat (getRowShift m)) address AND rowMask)"

definition getOffsetFromAddress :: "AMDAIEDeviceModel \<Rightarrow> u32 \<Rightarrow> u32" where
  "getOffsetFromAddress m address =
     (let offsetMask = push_bit (unat (getRowShift m)) 1 - 1
      in address AND offsetMask)"

section \<open>Switch boxes\<close>

text \<open>\<open>::StrmSwPortType::SS_PORT_TYPE_MAX\<close> has the value of the enumerator of that name.\<close>

definition isAieRtCompatStrmSwPortType :: "StrmSwPortType \<Rightarrow> bool" where
  "isAieRtCompatStrmSwPortType t \<longleftrightarrow> strm_num t \<le> strm_num SS_PORT_TYPE_MAX"

definition isLegalTileConnection ::
  "AMDAIEDeviceModel \<Rightarrow> u8 \<Rightarrow> u8 \<Rightarrow> StrmSwPortType \<Rightarrow> u8 \<Rightarrow> StrmSwPortType \<Rightarrow> u8 \<Rightarrow> bool result" where
  "isLegalTileConnection m c r srcBundle srcChan dstBundle dstChan =
     (if device m = xcvc1902 \<or> device m = xcve2802 then
        legacy_isLegalTileConnection (uint c) (uint r) srcBundle (uint srcChan) dstBundle (uint dstChan)
          (device m)
      else let tileType = getTileType m c r
        in if tileType = TILE_MAX then Inl OutOfBounds
           else if \<not> isAieRtCompatStrmSwPortType srcBundle \<or> \<not> isAieRtCompatStrmSwPortType dstBundle
           then Inr False
           else if srcChan \<ge> SlvConfig_NumPorts (devInst m) tileType srcBundle then Inr False
           else if dstChan \<ge> MstrConfig_NumPorts (devInst m) tileType dstBundle then Inr False
           else Inr (PortVerify (devInst m) tileType srcBundle srcChan dstBundle dstChan))"

text \<open>
  The part of \<open>getNumSourceSwitchBoxConnections\<close> and \<open>getNumDestSwitchBoxConnections\<close> after the
  test for the legacy devices; the two functions of the same names in \<open>MLIRAIELegacy\<close> come
  back to it for the other devices.
\<close>

definition no_switch_ports :: "AMDAIEDeviceModel \<Rightarrow> int \<Rightarrow> int \<Rightarrow> u8 \<Rightarrow> u8 \<Rightarrow> StrmSwPortType \<Rightarrow> bool" where
  "no_switch_ports m nRows nCols c r bundle \<longleftrightarrow>
     (bundle = NORTH \<and> uint r = nRows - 1) \<or> (bundle = WEST \<and> c = 0)
     \<or> (bundle = EAST \<and> uint c = nCols - 1)
     \<or> \<not> isAieRtCompatStrmSwPortType bundle \<or> getTileType m c r = TILE_MAX"

definition npu_getNumSourceSwitchBoxConnections ::
  "AMDAIEDeviceModel \<Rightarrow> u8 \<Rightarrow> u8 \<Rightarrow> StrmSwPortType \<Rightarrow> nat result" where
  "npu_getNumSourceSwitchBoxConnections m c r bundle =
     res_bind (rows m) (\<lambda>nRows. res_bind (columns m) (\<lambda>nCols.
       Inr (if no_switch_ports m nRows nCols c r bundle then 0
            else unat (SlvConfig_NumPorts (devInst m) (getTileType m c r) bundle))))"

definition npu_getNumDestSwitchBoxConnections ::
  "AMDAIEDeviceModel \<Rightarrow> u8 \<Rightarrow> u8 \<Rightarrow> StrmSwPortType \<Rightarrow> nat result" where
  "npu_getNumDestSwitchBoxConnections m c r bundle =
     res_bind (rows m) (\<lambda>nRows. res_bind (columns m) (\<lambda>nCols.
       Inr (if no_switch_ports m nRows nCols c r bundle then 0
            else unat (MstrConfig_NumPorts (devInst m) (getTileType m c r) bundle))))"

definition legacy_getNumSourceSwitchBoxConnections ::
  "AMDAIEDeviceModel \<Rightarrow> int \<Rightarrow> int \<Rightarrow> StrmSwPortType \<Rightarrow> nat result" where
  "legacy_getNumSourceSwitchBoxConnections m c r bundle =
     (if device m = xcvc1902 then Inr (VC1902_getNumSourceSwitchBoxConnections c r bundle)
      else if device m = xcve2802 then Inr (VE2802_getNumSourceSwitchBoxConnections c r bundle)
      else npu_getNumSourceSwitchBoxConnections m (word_of_int c) (word_of_int r) bundle)"

definition legacy_getNumDestSwitchBoxConnections ::
  "AMDAIEDeviceModel \<Rightarrow> int \<Rightarrow> int \<Rightarrow> StrmSwPortType \<Rightarrow> nat result" where
  "legacy_getNumDestSwitchBoxConnections m c r bundle =
     (if device m = xcvc1902 then Inr (VC1902_getNumDestSwitchBoxConnections c r bundle)
      else if device m = xcve2802 then Inr (VE2802_getNumDestSwitchBoxConnections c r bundle)
      else npu_getNumDestSwitchBoxConnections m (word_of_int c) (word_of_int r) bundle)"

definition getNumSourceSwitchBoxConnections ::
  "AMDAIEDeviceModel \<Rightarrow> u8 \<Rightarrow> u8 \<Rightarrow> StrmSwPortType \<Rightarrow> nat result" where
  "getNumSourceSwitchBoxConnections m c r bundle =
     (if device m = xcvc1902 \<or> device m = xcve2802
      then legacy_getNumSourceSwitchBoxConnections m (uint c) (uint r) bundle
      else npu_getNumSourceSwitchBoxConnections m c r bundle)"

definition getNumDestSwitchBoxConnections ::
  "AMDAIEDeviceModel \<Rightarrow> u8 \<Rightarrow> u8 \<Rightarrow> StrmSwPortType \<Rightarrow> nat result" where
  "getNumDestSwitchBoxConnections m c r bundle =
     (if device m = xcvc1902 \<or> device m = xcve2802
      then legacy_getNumDestSwitchBoxConnections m (uint c) (uint r) bundle
      else npu_getNumDestSwitchBoxConnections m c r bundle)"

definition legacy_isShimNOCTile :: "AMDAIEDeviceModel \<Rightarrow> int \<Rightarrow> int \<Rightarrow> bool" where
  "legacy_isShimNOCTile m c r \<longleftrightarrow>
     (if device m = xcvc1902 then VC1902_isShimNOCTile c r
      else if device m = xcve2802 then VE2802_isShimNOCTile c r
      else getTileType m (word_of_int c) (word_of_int r) = SHIMNOC)"

definition legacy_isShimPLTile :: "AMDAIEDeviceModel \<Rightarrow> int \<Rightarrow> int \<Rightarrow> bool" where
  "legacy_isShimPLTile m c r \<longleftrightarrow>
     (if device m = xcvc1902 then VC1902_isShimPLTile c r
      else if device m = xcve2802 then VE2802_isShimPLTile c r
      else getTileType m (word_of_int c) (word_of_int r) = SHIMPL)"

definition legacy_isShimNOCorPLTile :: "AMDAIEDeviceModel \<Rightarrow> int \<Rightarrow> int \<Rightarrow> bool" where
  "legacy_isShimNOCorPLTile m c r \<longleftrightarrow>
     (if device m = xcvc1902 then VC1902_isShimNOCorPLTile c r
      else if device m = xcve2802 then VE2802_isShimNOCorPLTile c r
      else isShimNOCTile m (word_of_int c) (word_of_int r) \<or> isShimPLTile m (word_of_int c) (word_of_int r))"

definition getNumShimMuxConnections :: "AMDAIEDeviceModel \<Rightarrow> int \<Rightarrow> int \<Rightarrow> StrmSwPortType \<Rightarrow> nat" where
  "getNumShimMuxConnections m c r bundle =
     (if legacy_isShimNOCorPLTile m c r then
        (case bundle of DMA \<Rightarrow> 2 | NOC \<Rightarrow> 4 | SOUTH \<Rightarrow> 6 | _ \<Rightarrow> 0)
      else 0)"

definition getNumSourceShimMuxConnections :: "AMDAIEDeviceModel \<Rightarrow> int \<Rightarrow> int \<Rightarrow> StrmSwPortType \<Rightarrow> nat" where
  "getNumSourceShimMuxConnections m c r bundle =
     (if device m = xcvc1902 then VC1902_getNumSourceShimMuxConnections c r bundle
      else if device m = xcve2802 then VE2802_getNumSourceShimMuxConnections c r bundle
      else getNumShimMuxConnections m c r bundle)"

definition getNumDestShimMuxConnections :: "AMDAIEDeviceModel \<Rightarrow> int \<Rightarrow> int \<Rightarrow> StrmSwPortType \<Rightarrow> nat" where
  "getNumDestShimMuxConnections m c r bundle =
     (if device m = xcvc1902 then VC1902_getNumDestShimMuxConnections c r bundle
      else if device m = xcve2802 then VE2802_getNumDestShimMuxConnections c r bundle
      else getNumShimMuxConnections m c r bundle)"

section \<open>Shim multiplexer\<close>

type_synonym mux_map = "((StrmSwPortType \<times> u8) \<times> (StrmSwPortType \<times> u8)) list"

definition mm2sDmaNocToSpecialShimPortMap :: mux_map where
  "mm2sDmaNocToSpecialShimPortMap =
     [((DMA, 0), (NORTH, 3)), ((DMA, 1), (NORTH, 7)), ((NOC, 0), (NORTH, 2)),
      ((NOC, 1), (NORTH, 3)), ((NOC, 2), (NORTH, 6)), ((NOC, 3), (NORTH, 7))]"

definition s2mmDmaNocToSpecialShimPortMap :: mux_map where
  "s2mmDmaNocToSpecialShimPortMap =
     [((DMA, 0), (NORTH, 2)), ((DMA, 1), (NORTH, 3)), ((NOC, 0), (NORTH, 2)),
      ((NOC, 1), (NORTH, 3)), ((NOC, 2), (NORTH, 4)), ((NOC, 3), (NORTH, 5))]"

fun shim_map :: "DMAChannelDir \<Rightarrow> mux_map" where
  "shim_map MM2S = mm2sDmaNocToSpecialShimPortMap"
| "shim_map S2MM = s2mmDmaNocToSpecialShimPortMap"

definition getShimMuxPortMappingForDmaOrNoc ::
  "StrmSwPortType \<Rightarrow> u8 \<Rightarrow> DMAChannelDir \<Rightarrow> (StrmSwPortType \<times> u8) option" where
  "getShimMuxPortMappingForDmaOrNoc prt channel dir = map_of (shim_map dir) (prt, channel)"

text \<open>
  The reverse lookup iterates over the hash map, in an order the source does not fix:
  \<open>entries\<close> is the map's entries in that order.
\<close>

definition reverse_lookup :: "mux_map \<Rightarrow> StrmSwPortType \<times> u8 \<Rightarrow> (StrmSwPortType \<times> u8) option" where
  "reverse_lookup entries key =
     map_option fst (find (\<lambda>entry. fst (fst entry) = DMA \<and> snd entry = key) entries)"

definition getDmaFromShimMuxPortMapping ::
  "StrmSwPortType \<Rightarrow> u8 \<Rightarrow> DMAChannelDir \<Rightarrow> (StrmSwPortType \<times> u8) option" where
  "getDmaFromShimMuxPortMapping prt channel dir = reverse_lookup (shim_map dir) (prt, channel)"

section \<open>Device constants\<close>

definition getNPUVersionString :: "Hw \<Rightarrow> AMDAIEDeviceModel \<Rightarrow> string option" where
  "getNPUVersionString hw m =
     (if AieGen (configPtr m) = GEN_AIE2IPU hw then Some ''npu1''
      else if AieGen (configPtr m) = GEN_AIE2P_STRIX_B0 hw then Some ''npu4''
      else None)"

definition getTargetArchString :: "Hw \<Rightarrow> AMDAIEDeviceModel \<Rightarrow> string option" where
  "getTargetArchString hw m =
     (if AieGen (configPtr m) = GEN_AIE hw then Some ''AIE''
      else if AieGen (configPtr m) = GEN_AIE2IPU hw then Some ''AIE2''
      else if AieGen (configPtr m) = GEN_AIE2P_STRIX_B0 hw then Some ''AIE2P''
      else None)"

definition getNumPacketRuleSlots :: "AMDAIEDeviceModel \<Rightarrow> u8 \<Rightarrow> u8 \<Rightarrow> u8 result" where
  "getNumPacketRuleSlots m c r =
     (let tileType = getTileType m c r
      in if tileType = TILE_MAX then Inl OutOfBounds else Inr (NumSlaveSlots (devInst m) tileType))"

definition getCtrlPktTlastErrorDisabled :: "AMDAIEDeviceModel \<Rightarrow> bool" where
  "getCtrlPktTlastErrorDisabled m = ctrlPktTlastErrorDisabled (deviceConfig m)"

definition getStreamSwitchArbiterMax :: "AMDAIEDeviceModel \<Rightarrow> u8 \<Rightarrow> u8 \<Rightarrow> u8" where
  "getStreamSwitchArbiterMax m c r =
     (if isCoreTile m c r then streamSwitchCoreArbiterMax (deviceConfig m)
      else if isMemTile m c r then streamSwitchMemTileArbiterMax (deviceConfig m)
      else if isShimTile m c r then streamSwitchShimArbiterMax (deviceConfig m)
      else 0)"

definition getStreamSwitchMSelMax :: "AMDAIEDeviceModel \<Rightarrow> u8 \<Rightarrow> u8 \<Rightarrow> u8" where
  "getStreamSwitchMSelMax m c r =
     (if isCoreTile m c r then streamSwitchCoreMSelMax (deviceConfig m)
      else if isMemTile m c r then streamSwitchMemTileMSelMax (deviceConfig m)
      else if isShimTile m c r then streamSwitchShimMSelMax (deviceConfig m)
      else 0)"

definition iota :: "nat \<Rightarrow> nat \<Rightarrow> u32 list" where
  "iota n start = map of_nat [start ..< start + n]"

definition getChannelToValidBdIds :: "AMDAIETileType \<Rightarrow> (u32 \<Rightarrow> u32 list option) result" where
  "getChannelToValidBdIds tileType =
     (case tileType of
        MEMTILE \<Rightarrow>
          (let evenRange = iota 24 0; oddRange = iota 24 24
           in Inr [0 \<mapsto> evenRange, 1 \<mapsto> oddRange, 2 \<mapsto> evenRange, 3 \<mapsto> oddRange, 4 \<mapsto> evenRange, 5 \<mapsto> oddRange])
      | SHIMNOC \<Rightarrow> (let range = iota 16 0 in Inr [0 \<mapsto> range, 1 \<mapsto> range])
      | _ \<Rightarrow> Inl Fatal)"

text \<open>The fields of \<open>deviceConfig\<close> every case of \<open>getDeviceModel\<close> sets from its generation's constants.\<close>

definition genDeviceConfig :: "HwCfg \<Rightarrow> AMDAIEDeviceConfig" where
  "genDeviceConfig g = defaultDeviceConfig
     \<lparr>shimTileNumRows := SHIM_NUM_ROWS g, packetIdMaxIdx := PACKET_ID_MAX g,
      packetTypeMax := PACKET_TYPE_MAX g,
      streamSwitchCoreArbiterMax := SS_ARBITER_MAX, streamSwitchCoreMSelMax := SS_MSEL_MAX,
      streamSwitchMemTileArbiterMax := SS_ARBITER_MAX, streamSwitchMemTileMSelMax := SS_MSEL_MAX,
      streamSwitchShimArbiterMax := SS_ARBITER_MAX, streamSwitchShimMSelMax := SS_MSEL_MAX\<rparr>"

text \<open>\<open>partitionNumCols\<close> and \<open>partitionStartCol\<close> of the npu1 variants.\<close>

definition npu1Partition :: "AMDAIEDevice \<Rightarrow> (int \<times> int) result" where
  "npu1Partition d =
     (case d of
        npu1 \<Rightarrow> Inr (5, 0) | npu1_1col \<Rightarrow> Inr (1, 1) | npu1_2col \<Rightarrow> Inr (2, 1)
      | npu1_3col \<Rightarrow> Inr (3, 1) | npu1_4col \<Rightarrow> Inr (4, 1) | _ \<Rightarrow> Inl Fatal)"

definition npu1Model :: "AieRt \<Rightarrow> Hw \<Rightarrow> AMDAIEDevice \<Rightarrow> AMDAIEDeviceModel result" where
  "npu1Model rt hw d =
     (let g = XAIE2IPU hw
      in res_bind (npu1Partition d) (\<lambda>(partitionNumCols, partitionStartCol).
           mk_AMDAIEDeviceModel rt (GEN_AIE2IPU hw) (BASE_ADDR g) (COL_SHIFT g) (ROW_SHIFT g)
             (NUM_COLS g) (NUM_ROWS g) (MEM_TILE_ROW_START g) (MEM_TILE_NUM_ROWS g) (SHIM_NUM_ROWS g)
             partitionNumCols partitionStartCol (PARTITION_BASE_ADDR g) (NPI_BASEADDR g) False False d
             (genDeviceConfig g)))"

definition getDeviceModel :: "AieRt \<Rightarrow> Hw \<Rightarrow> AMDAIEDevice \<Rightarrow> AMDAIEDeviceModel result" where
  "getDeviceModel rt hw d =
     (case d of
        xcvc1902 \<Rightarrow>
          (let g = XAIE1 hw
           in mk_AMDAIEDeviceModel rt (GEN_AIE hw) (BASE_ADDR g) (COL_SHIFT g) (ROW_SHIFT g)
                (NUM_COLS g) (NUM_ROWS g) (MEM_TILE_ROW_START g) (MEM_TILE_NUM_ROWS g) 0
                50 0 (PARTITION_BASE_ADDR g) (NPI_BASEADDR g) False False d (genDeviceConfig g))
      | xcve2302 \<Rightarrow>
          (let g = XAIEML hw
           in mk_AMDAIEDeviceModel rt (GEN_AIEML hw) (BASE_ADDR g) (COL_SHIFT g) (ROW_SHIFT g)
                17 4 1 1 1
                17 0 (PARTITION_BASE_ADDR g) (NPI_BASEADDR g) False False d (genDeviceConfig g))
      | xcve2802 \<Rightarrow>
          (let g = XAIEML hw
           in mk_AMDAIEDeviceModel rt (GEN_AIEML hw) (BASE_ADDR g) (COL_SHIFT g) (ROW_SHIFT g)
                (NUM_COLS g) (NUM_ROWS g) (MEM_TILE_ROW_START g) (MEM_TILE_NUM_ROWS g) (SHIM_NUM_ROWS g)
                38 0 (PARTITION_BASE_ADDR g) (NPI_BASEADDR g) False False d (genDeviceConfig g))
      | npu1 \<Rightarrow> npu1Model rt hw d | npu1_1col \<Rightarrow> npu1Model rt hw d
      | npu1_2col \<Rightarrow> npu1Model rt hw d | npu1_3col \<Rightarrow> npu1Model rt hw d
      | npu1_4col \<Rightarrow> npu1Model rt hw d
      | npu4 \<Rightarrow>
          (let g = XAIE_STRIXB0 hw
           in mk_AMDAIEDeviceModel rt (GEN_AIE2P_STRIX_B0 hw) (BASE_ADDR g) (COL_SHIFT g) (ROW_SHIFT g)
                (NUM_COLS g) (NUM_ROWS g) (MEM_TILE_ROW_START g) (MEM_TILE_NUM_ROWS g) (SHIM_NUM_ROWS g)
                8 0 (PARTITION_BASE_ADDR g) (NPI_BASEADDR g) False False d
                ((genDeviceConfig g)\<lparr>shimTileNumRows := MEM_TILE_NUM_ROWS g,
                                    ctrlPktTlastErrorDisabled := True\<rparr>)))"

section \<open>Matrix multiplication instructions\<close>

text \<open>An MLIR type, as far as \<open>getAIEMatmulInstructionSize\<close> looks at it.\<close>

datatype mlirType = FloatType u32 | IntegerType u32 | OtherType

definition getElementTypeKey :: "u32 \<Rightarrow> u32 \<Rightarrow> u32 \<Rightarrow> u32" where
  "getElementTypeKey a b c = a + push_bit 8 b + push_bit 16 c"

type_synonym size_map = "(u32 \<times> (u32 \<times> u32 \<times> u32)) list"

definition getNpu1IntegerMatmulInstructionSizeMap :: size_map where
  "getNpu1IntegerMatmulInstructionSizeMap =
     [(getElementTypeKey 8 4 32, (4, 8, 16)), (getElementTypeKey 8 8 32, (4, 8, 8)),
      (getElementTypeKey 16 8 32, (4, 8, 4)), (getElementTypeKey 16 16 32, (4, 8, 2)),
      (getElementTypeKey 16 8 64, (2, 8, 8)), (getElementTypeKey 16 16 64, (2, 8, 4)),
      (getElementTypeKey 32 16 64, (4, 4, 2))]"

definition getNpu4IntegerMatmulInstructionSizeMap :: size_map where
  "getNpu4IntegerMatmulInstructionSizeMap = [(getElementTypeKey 8 8 32, (8, 8, 8))]"

definition getIntegerMatmulInstructionSize ::
  "u32 \<Rightarrow> u32 \<Rightarrow> u32 \<Rightarrow> size_map \<Rightarrow> (u32 \<times> u32 \<times> u32) result" where
  "getIntegerMatmulInstructionSize nBitsLhs nBitsRhs nBitsAcc mapForIntTypes =
     res_of_option Failure (map_of mapForIntTypes (getElementTypeKey nBitsLhs nBitsRhs nBitsAcc))"

fun getAIEMatmulInstructionSize ::
  "AMDAIEDeviceModel \<Rightarrow> mlirType \<Rightarrow> mlirType \<Rightarrow> mlirType \<Rightarrow> (u32 \<times> u32 \<times> u32) result" where
  "getAIEMatmulInstructionSize m (FloatType l) (FloatType r) (FloatType a) =
     (if l = 16 \<and> r = 16 \<and> a = 32 then
        (if device m = npu4 then Inr (8, 8, 8) else Inr (4, 4, 8))
      else Inl Failure)"
| "getAIEMatmulInstructionSize m (IntegerType l) (IntegerType r) (IntegerType a) =
     (if device m = npu1_4col \<or> device m = npu1_3col \<or> device m = npu1_2col \<or> device m = npu1_1col
         \<or> device m = npu1
      then getIntegerMatmulInstructionSize l r a getNpu1IntegerMatmulInstructionSizeMap
      else if device m = npu4
      then getIntegerMatmulInstructionSize l r a getNpu4IntegerMatmulInstructionSizeMap
      else Inl Failure)"
| "getAIEMatmulInstructionSize m _ _ _ = Inl Failure"

section \<open>Header fields\<close>

lemma mask31: "(0x7FFFFFFF :: u32) = mask 31"
  by (simp add: mask_eq_exp_minus_1)

lemma bit_setOddParityBit:
  "bit (setOddParityBit w) n \<longleftrightarrow>
     (n < 31 \<and> bit w n) \<or> (n = 31 \<and> even (popcount (w AND mask 31)))"
proof -
  have "bit (push_bit 31 (of_nat ((k + 1) mod 2)) :: u32) n \<longleftrightarrow> n = 31 \<and> even k" for k
  proof (cases "even k")
    case True
    then have "(k + 1) mod 2 = 1" by presburger
    then show ?thesis using True
      unfolding bit_push_bit_iff by (auto simp: bit_1_iff possible_bit_def)
  next
    case False
    then have "(k + 1) mod 2 = 0" by presburger
    then show ?thesis using False by simp
  qed
  then show ?thesis
    unfolding setOddParityBit_def Let_def mask31 bit_or_iff bit_and_iff bit_mask_iff
    by (auto simp: possible_bit_def)
qed

lemma odd_popcount_setOddParityBit: "odd (popcount (setOddParityBit w))"
proof -
  let ?P = "\<lambda>v. length (filter (bit (v :: u32)) [0 ..< 31])"
  have split: "popcount v = ?P v + (if bit v 31 then 1 else 0)" for v
  proof -
    have "[0 ..< 32] = [0 ..< 31] @ [31 :: nat]" by (simp add: upt_rec)
    then show ?thesis by (simp add: popcount_def del: upt_rec_numeral)
  qed
  have low: "?P (setOddParityBit w) = ?P (w AND mask 31)"
    by (rule arg_cong [where f = length], rule filter_cong)
       (auto simp: bit_setOddParityBit bit_and_iff bit_mask_iff possible_bit_def)
  have "\<not> bit (w AND mask 31) 31" by (simp add: bit_and_iff bit_mask_iff)
  with split [of "w AND mask 31"] have "popcount (w AND mask 31) = ?P (w AND mask 31)" by simp
  with split [of "setOddParityBit w"] low show ?thesis by (auto simp: bit_setOddParityBit)
qed

text \<open>A field of the header below the parity bit is read back from the combined word.\<close>

lemma less_pow_bits: "(w :: u32) < 2 ^ k \<Longrightarrow> k < 32 \<Longrightarrow> bit w n \<Longrightarrow> n < k"
  by (metis bit_take_bit_iff less_mask_eq take_bit_eq_mask)


text \<open>Sufficient room for the fields of a packet header.\<close>

definition packet_fields_fit :: "AMDAIEDeviceModel \<Rightarrow> bool" where
  "packet_fields_fit m \<longleftrightarrow>
     packetHeaderFormat m = packetHeaderFormatInit
     \<and> getPacketIdMaxIdx m \<le> 31 \<and> getpacketTypeMax m \<le> 7
     \<and> (\<exists>nr nc. rows m = Inr nr \<and> columns m = Inr nc \<and> nr \<le> 32 \<and> nc \<le> 128)"

lemma uint_bits: "uint (w :: u32) < 2 ^ k \<Longrightarrow> bit w n \<Longrightarrow> n < k"
proof (rule ccontr)
  assume w: "uint w < 2 ^ k" and b: "bit w n" and "\<not> n < k"
  then have "k \<le> n" by simp
  have "bit (uint w) n" using b bit_imp_le_length [OF b] by (simp add: bit_uint_iff)
  moreover have "take_bit k (uint w) = uint w" using w by (simp add: take_bit_int_eq_self_iff)
  ultimately show False using \<open>k \<le> n\<close> by (metis bit_take_bit_iff leD)
qed

lemma le_ucast_uint: "(w :: u32) \<le> ucast (v :: u8) \<Longrightarrow> uint w \<le> uint v"
  using take_bit_int_less_eq_self_iff [of 32 "uint v"] by (simp add: word_le_def unsigned_ucast_eq)

lemmas hdr_bits = bit_setOddParityBit bit_or_iff bit_and_iff bit_push_bit_iff bit_drop_bit_eq
  bit_take_bit_iff possible_bit_def

text \<open>A field of width \<open>k\<close> at position \<open>p\<close>.\<close>

lemma field_eqI:
  fixes h v :: u32
  assumes "\<And>n. bit v n \<Longrightarrow> n < k" and "\<And>n. n < k \<Longrightarrow> bit h (p + n) \<longleftrightarrow> bit v n"
  shows "take_bit k (drop_bit p h) = v"
proof (rule bit_eqI)
  fix n
  show "bit (take_bit k (drop_bit p h)) n \<longleftrightarrow> bit v n"
    using assms by (cases "n < k") (auto simp: bit_take_bit_iff bit_drop_bit_eq)
qed

lemma packet_header_fields:
  assumes "\<And>n. bit c n \<Longrightarrow> n < 7" and "\<And>n. bit r n \<Longrightarrow> n < 5"
    and "\<And>n. bit t n \<Longrightarrow> n < 3" and "\<And>n. bit s n \<Longrightarrow> n < 5"
    and "h = setOddParityBit (push_bit 21 c OR push_bit 16 r OR push_bit 12 t OR push_bit 0 s)"
  shows "take_bit 5 h = s" and "take_bit 3 (drop_bit 12 h) = t"
    and "take_bit 5 (drop_bit 16 h) = r" and "take_bit 7 (drop_bit 21 h) = c"
    and "take_bit 7 (drop_bit 5 h) = 0" and "\<not> bit h 15" and "take_bit 3 (drop_bit 28 h) = 0"
proof -
  have h: "bit h n \<longleftrightarrow> 21 \<le> n \<and> bit c (n - 21) \<or> 16 \<le> n \<and> bit r (n - 16)
      \<or> 12 \<le> n \<and> bit t (n - 12) \<or> bit s n" if "n < 31" for n
    using that unfolding assms(5) by (auto simp: hdr_bits)
  show "take_bit 5 h = s"
    using field_eqI [of s 5 h 0] h by (auto dest: assms(1-4))
  show "take_bit 3 (drop_bit 12 h) = t"
    by (rule field_eqI) (use h in \<open>auto dest: assms(1-4)\<close>)
  show "take_bit 5 (drop_bit 16 h) = r"
    by (rule field_eqI) (use h in \<open>auto dest: assms(1-4)\<close>)
  show "take_bit 7 (drop_bit 21 h) = c"
    by (rule field_eqI) (use h in \<open>auto dest: assms(1-4)\<close>)
  show "take_bit 7 (drop_bit 5 h) = 0"
    by (rule field_eqI) (use h in \<open>auto dest: assms(1-4)\<close>)
  show "\<not> bit h 15" by (subst h) (auto dest: assms(1-4))
  show "take_bit 3 (drop_bit 28 h) = 0"
    by (rule field_eqI) (use h in \<open>auto dest: assms(1-4)\<close>)
qed


lemma control_header_fields:
  assumes "\<And>n. bit s n \<Longrightarrow> n < 5" and "\<And>n. bit p n \<Longrightarrow> n < 2"
    and "\<And>n. bit l n \<Longrightarrow> n < 2" and "\<And>n. bit a n \<Longrightarrow> n < 20"
    and "h = setOddParityBit (push_bit 24 s OR push_bit 22 p OR push_bit 20 l OR push_bit 0 a)"
  shows "take_bit 20 h = a" and "take_bit 2 (drop_bit 20 h) = l"
    and "take_bit 2 (drop_bit 22 h) = p" and "take_bit 5 (drop_bit 24 h) = s"
    and "take_bit 2 (drop_bit 29 h) = 0"
proof -
  have h: "bit h n \<longleftrightarrow> 24 \<le> n \<and> bit s (n - 24) \<or> 22 \<le> n \<and> bit p (n - 22)
      \<or> 20 \<le> n \<and> bit l (n - 20) \<or> bit a n" if "n < 31" for n
    using that unfolding assms(5) by (auto simp: hdr_bits)
  show "take_bit 20 h = a"
    using field_eqI [of a 20 h 0] h by (auto dest: assms(1-4))
  show "take_bit 2 (drop_bit 20 h) = l"
    by (rule field_eqI) (use h in \<open>auto dest: assms(1-4)\<close>)
  show "take_bit 2 (drop_bit 22 h) = p"
    by (rule field_eqI) (use h in \<open>auto dest: assms(1-4)\<close>)
  show "take_bit 5 (drop_bit 24 h) = s"
    by (rule field_eqI) (use h in \<open>auto dest: assms(1-4)\<close>)
  show "take_bit 2 (drop_bit 29 h) = 0"
    by (rule field_eqI) (use h in \<open>auto dest: assms(1-4)\<close>)
qed

section \<open>Register addresses\<close>

lemma address_pieces:
  fixes w :: u32
  assumes "q \<le> p" and "k + q = 2 * p"
  shows "push_bit p (take_bit (p - q) (drop_bit p w)) OR push_bit q (take_bit (p - q) (drop_bit q w)) OR take_bit q w
    = take_bit k w"
proof (rule bit_eqI)
  fix n
  consider "n < q" | "q \<le> n" "n < p" | "p \<le> n" "n < k" | "k \<le> n" using assms by linarith
  then show "bit (push_bit p (take_bit (p - q) (drop_bit p w)) OR push_bit q (take_bit (p - q) (drop_bit q w))
      OR take_bit q w) n \<longleftrightarrow> bit (take_bit k w) n"
    using assms by cases (auto simp: bit_or_iff bit_push_bit_iff bit_take_bit_iff bit_drop_bit_eq
        possible_bit_def dest: bit_imp_le_length)
qed

lemma and_low_mask: "(w :: u32) AND (push_bit k 1 - 1) = take_bit k w"
  by (simp add: take_bit_eq_mask mask_eq_exp_minus_1 push_bit_eq_mult)


section \<open>A concrete device\<close>

text \<open>
  A device of five columns and six rows (shim, memory tile, four core rows), for the closed
  examples below.
\<close>

definition sampleInst :: XAie_DevInst where
  "sampleInst =
     \<lparr>instNumRows = 6, instNumCols = 5,
      GetTTypefromLoc = (\<lambda>c r. if c \<ge> 5 \<or> r \<ge> 6 then TILE_MAX else if r = 0 then SHIMNOC
                              else if r = 1 then MEMTILE else AIETILE),
      LockMod_NumLocks = (\<lambda>t. if t = MEMTILE then 64 else 16),
      CoreMod_DataMemSize = (\<lambda>t. if t = AIETILE then Some 0x10000 else None),
      MemMod_Size = (\<lambda>t. if t = MEMTILE then Some 0x80000 else if t = AIETILE then Some 0x10000 else None),
      SlvConfig_NumPorts = (\<lambda>t b. 4), MstrConfig_NumPorts = (\<lambda>t b. 4),
      PortVerify = (\<lambda>t sb sc db dc. True), NumSlaveSlots = (\<lambda>t. 4),
      DmaGetMaxQueueSize = (\<lambda>c r. Some 4), DmaMod = (\<lambda>t p. 4), DmaMod_BdProp = (\<lambda>t b p. 1024),
      ChProp_MaxRepeatCount = (\<lambda>t. 256)\<rparr>"

definition sampleModel :: "AMDAIEDevice \<Rightarrow> AMDAIEDeviceModel" where
  "sampleModel d =
     \<lparr>configPtr = \<lparr>AieGen = 4, BaseAddr = 0, ColShift = 25, RowShift = 20, NumRows = 6, NumCols = 5,
        ShimRowNum = 0, MemTileRowStart = 1, MemTileNumRows = 1, AieTileRowStart = 2, AieTileNumRows = 4\<rparr>,
      devInst = sampleInst,
      deviceConfig = defaultDeviceConfig\<lparr>packetIdMaxIdx := 31, packetTypeMax := 7\<rparr>,
      packetHeaderFormat = packetHeaderFormatInit, controlHeaderFormat = controlHeaderFormatInit,
      device = d\<rparr>"

lemmas sample_defs = sampleModel_def sampleInst_def defaultDeviceConfig_def

section \<open>Control headers\<close>

lemma control_header_some:
  assumes "controlHeaderFormat m = controlHeaderFormatInit"
  shows "(\<exists>h. getControlHeader m address len opcode streamId = Inr h) \<longleftrightarrow>
    uint address < 2 ^ 20 \<and> 1 \<le> uint len \<and> uint len \<le> 4 \<and> uint opcode < 4 \<and> streamId \<le> ucast (getPacketIdMaxIdx m)"
proof -
  have max: "uint (getCtrlPktMaxAddress m) = 2 ^ 20 - 1" "uint (getCtrlPktMaxLength m) = 4"
      "uint (getCtrlPktMaxOpcode m) = 3"
    using assms(1) by (simp_all add: getCtrlPktMaxAddress_def getCtrlPktMaxLength_def
        getCtrlPktMaxOpcode_def controlHeaderFormatInit_def)
  have zero: "len = 0 \<longleftrightarrow> uint len < 1" using uint_ge_0 [of len] uint_0_iff [of len] by linarith
  show ?thesis using zero max by (auto simp: getControlHeader_def word_less_def word_le_def not_less linorder_not_le)
qed

lemma control_header_read:
  assumes "controlHeaderFormat m = controlHeaderFormatInit" and "getPacketIdMaxIdx m \<le> 31"
    and h: "getControlHeader m address len opcode streamId = Inr h"
  shows "take_bit 20 h = address \<and> take_bit 2 (drop_bit 20 h) + 1 = len \<and> take_bit 2 (drop_bit 22 h) = opcode
    \<and> take_bit 5 (drop_bit 24 h) = streamId \<and> take_bit 2 (drop_bit 29 h) = 0 \<and> odd (popcount h) \<and> 1 \<le> uint len \<and> uint len \<le> 4"
proof -
  have range: "uint address < 2 ^ 20 \<and> 1 \<le> uint len \<and> uint len \<le> 4 \<and> uint opcode < 4 \<and> streamId \<le> ucast (getPacketIdMaxIdx m)"
    using control_header_some [OF assms(1)] h by blast
  have h_def: "h = setOddParityBit (push_bit 24 streamId OR push_bit 22 opcode OR push_bit 20 (len - 1) OR push_bit 0 address)"
    using h assms(1) by (auto simp: getControlHeader_def controlHeaderFormatInit_def split: if_splits)
  have "uint (len - 1) = uint len - 1" using range by (simp add: uint_sub_if')
  then have u: "uint streamId < 2 ^ 5" "uint opcode < 2 ^ 2" "uint (len - 1) < 2 ^ 2" "uint address < 2 ^ 20"
    using range assms(2) le_ucast_uint [of streamId "getPacketIdMaxIdx m"] by (simp_all add: word_le_def)
  have "odd (popcount h)" unfolding h_def by (rule odd_popcount_setOddParityBit)
  then show ?thesis
    using range control_header_fields [OF uint_bits [OF u(1)] uint_bits [OF u(2)] uint_bits [OF u(3)] uint_bits [OF u(4)] h_def] by simp
qed

section \<open>Properties\<close>



text \<open>
  C35. The control header: every request with an address below \<open>2\<^sup>2\<^sup>0\<close>, one to four data beats, a
  two-bit opcode and a valid stream id yields a word from which the fields are read back
  (the length as one less than itself), with an odd number of ones; any other is refused.
\<close>

theorem control_header_roundtrip:
  assumes "controlHeaderFormat m = controlHeaderFormatInit" and "getPacketIdMaxIdx m \<le> 31"
  shows "if uint address < 2 ^ 20 \<and> 1 \<le> uint len \<and> uint len \<le> 4 \<and> uint opcode < 4
          \<and> streamId \<le> ucast (getPacketIdMaxIdx m)
        then \<exists>h. getControlHeader m address len opcode streamId = Inr h
          \<and> take_bit 20 h = address \<and> take_bit 2 (drop_bit 20 h) + 1 = len
          \<and> take_bit 2 (drop_bit 22 h) = opcode \<and> take_bit 5 (drop_bit 24 h) = streamId
          \<and> take_bit 2 (drop_bit 29 h) = 0 \<and> odd (popcount h)
        else getControlHeader m address len opcode streamId = Inl Failure"
proof (cases "uint address < 2 ^ 20 \<and> 1 \<le> uint len \<and> uint len \<le> 4 \<and> uint opcode < 4 \<and> streamId \<le> ucast (getPacketIdMaxIdx m)")
  case True
  then obtain h where h: "getControlHeader m address len opcode streamId = Inr h"
    using control_header_some [OF assms(1), of address len opcode streamId] by blast
  show ?thesis using True h control_header_read [OF assms h] by simp
next
  case False
  have "getControlHeader m address len opcode streamId = Inl Failure"
  proof (cases "getControlHeader m address len opcode streamId")
    case (Inl e)
    then show ?thesis by (auto simp: getControlHeader_def split: if_splits)
  next
    case (Inr h)
    then show ?thesis using False control_header_some [OF assms(1), of address len opcode streamId] by blast
  qed
  then show ?thesis using False by simp
qed

theorem control_header_roundtrip_witness:
  "\<exists>h. getControlHeader (sampleModel npu4) 0x1D000 2 1 7 = Inr h \<and> take_bit 2 (drop_bit 20 h) + 1 = 2
     \<and> odd (popcount h)"
  using control_header_roundtrip [of "sampleModel npu4" "0x1D000" 2 1 7]
  by (auto simp: getPacketIdMaxIdx_def sample_defs)

text \<open>
  The three parts of a register address put back in their places give the address, cut to
  the bits the array uses; in particular the parts determine every address the array decodes.
\<close>

theorem address_parts:
  assumes "RowShift (configPtr m) \<le> ColShift (configPtr m)"
    and "k + unat (RowShift (configPtr m)) = 2 * unat (ColShift (configPtr m))"
  shows "push_bit (unat (getColumnShift m)) (getColumnFromAddress m address)
      OR push_bit (unat (getRowShift m)) (getRowFromAddress m address)
      OR getOffsetFromAddress m address = take_bit k address"
proof -
  have un: "unat (ucast v :: u32) = unat v" for v :: u8
  proof -
    have "unat v < 2 ^ LENGTH(8)" by (rule unsigned_less)
    then show ?thesis by (simp add: unsigned_ucast_eq take_bit_nat_eq_self_iff)
  qed
  have "unat (RowShift (configPtr m)) \<le> unat (ColShift (configPtr m))"
    using assms(1) by (simp add: word_le_nat_alt)
  then have d: "unat (getColumnShift m - getRowShift m) = unat (getColumnShift m) - unat (getRowShift m)"
    by (simp add: getColumnShift_def getRowShift_def un unat_sub word_le_nat_alt)
  show ?thesis
    unfolding getColumnFromAddress_def getRowFromAddress_def getOffsetFromAddress_def Let_def
      and_low_mask d
    using assms \<open>unat (RowShift (configPtr m)) \<le> unat (ColShift (configPtr m))\<close>
    by (intro address_pieces) (simp_all add: getColumnShift_def getRowShift_def un)
qed

theorem address_parts_witness:
  "push_bit 25 (getColumnFromAddress (sampleModel npu1) 0x0621D000)
   OR push_bit 20 (getRowFromAddress (sampleModel npu1) 0x0621D000)
   OR getOffsetFromAddress (sampleModel npu1) 0x0621D000 = take_bit 30 0x0621D000"
  using address_parts [of "sampleModel npu1" 30 "0x0621D000"]
  by (simp add: getColumnShift_def getRowShift_def sample_defs)

text \<open>
  The shim multiplexer maps are inverse to each other on DMA ports, in whatever order the
  reverse lookup visits the map: it finds the port a DMA channel is mapped to, and every
  port it finds is a DMA channel that is mapped there.
\<close>

theorem shim_mux_inverse:
  assumes "mset entries = mset (shim_map dir)"
  shows "reverse_lookup entries key = Some prt \<longleftrightarrow>
    fst prt = DMA \<and> getShimMuxPortMappingForDmaOrNoc (fst prt) (snd prt) dir = Some key"
proof -
  have set: "set entries = set (shim_map dir)" using assms by (metis set_mset_mset)
  have uniq: "distinct (map fst (shim_map dir))"
    by (cases dir) (simp_all add: mm2sDmaNocToSpecialShimPortMap_def s2mmDmaNocToSpecialShimPortMap_def)
  have key: "p1 = p2" if "(p1, key) \<in> set (shim_map dir)" "(p2, key) \<in> set (shim_map dir)"
      "fst p1 = DMA" "fst p2 = DMA" for p1 p2
    using that
    by (cases dir) (auto simp: mm2sDmaNocToSpecialShimPortMap_def s2mmDmaNocToSpecialShimPortMap_def)
  have "getShimMuxPortMappingForDmaOrNoc (fst prt) (snd prt) dir = Some key \<longleftrightarrow> (prt, key) \<in> set (shim_map dir)"
    using uniq by (simp add: getShimMuxPortMappingForDmaOrNoc_def)
  moreover have "reverse_lookup entries key = Some prt \<longleftrightarrow> fst prt = DMA \<and> (prt, key) \<in> set (shim_map dir)"
  proof
    assume "reverse_lookup entries key = Some prt"
    then obtain e where e: "find (\<lambda>e. fst (fst e) = DMA \<and> snd e = key) entries = Some e" "prt = fst e"
      by (auto simp: reverse_lookup_def)
    from find_Some_props [OF e(1)] e(2) have "fst prt = DMA" "(prt, key) \<in> set entries"
      by (cases e; simp)+
    then show "fst prt = DMA \<and> (prt, key) \<in> set (shim_map dir)" by (simp only: set)
  next
    assume p: "fst prt = DMA \<and> (prt, key) \<in> set (shim_map dir)"
    show "reverse_lookup entries key = Some prt"
    proof (cases "find (\<lambda>e. fst (fst e) = DMA \<and> snd e = key) entries")
      case None
      from p have "(prt, key) \<in> set entries" by (simp only: set)
      from find_None_props [OF None this] p show ?thesis by simp
    next
      case (Some e)
      from find_Some_props [OF Some] have "(fst e, key) \<in> set entries" "fst (fst e) = DMA"
        by (cases e; simp)+
      with p have "fst e = prt" unfolding set by (intro key) simp_all
      with Some show ?thesis by (simp add: reverse_lookup_def)
    qed
  qed
  ultimately show ?thesis by simp
qed

theorem shim_mux_inverse_witness:
  "getDmaFromShimMuxPortMapping NORTH 7 MM2S = Some (DMA, 1)
   \<and> getShimMuxPortMappingForDmaOrNoc DMA 1 MM2S = Some (NORTH, 7)"
proof -
  have "getShimMuxPortMappingForDmaOrNoc DMA 1 MM2S = Some (NORTH, 7)"
    by (simp add: getShimMuxPortMappingForDmaOrNoc_def mm2sDmaNocToSpecialShimPortMap_def)
  with shim_mux_inverse [of "shim_map MM2S" MM2S "(NORTH, 7)" "(DMA, 1)"] show ?thesis
    by (simp add: getDmaFromShimMuxPortMapping_def)
qed

text \<open>
  The memory neighbours of a core tile are memories the core may access: whatever
  \<open>getMemWest\<close>, \<open>getMemEast\<close>, \<open>getMemNorth\<close> and \<open>getMemSouth\<close> return for it passes
  \<open>hasLegalMemAffinity\<close>.
\<close>

theorem mem_neighbours_legal:
  assumes "\<not> isMemTile m c r"
    and "getMemWest m (TileLoc (uint c) (uint r)) = Some loc
       \<or> getMemEast m (TileLoc (uint c) (uint r)) = Some loc
       \<or> getMemNorth m (TileLoc (uint c) (uint r)) = Inr (Some loc)
       \<or> getMemSouth m (TileLoc (uint c) (uint r)) = Some loc"
    and "rows m = Inr n" and "n \<le> 256"
  shows "hasLegalMemAffinity m c r (word_of_int (col loc)) (word_of_int (row loc))"
proof -
  have dec: "uint (word_of_int (uint w - 1) :: u8) = uint w - 1" if "0 \<le> uint w - 1" for w :: u8
    using that by (simp add: uint_sub_if')
  have inc: "uint (word_of_int (uint w + 1) :: u8) = uint w + 1" if "uint w + 1 < 256" for w :: u8
    using that by (simp add: uint_plus_if')
  note defs = hasLegalMemAffinity_def hasMemSouth_def hasMemNorth_def hasMemWest_def hasMemEast_def
    isSouth_def isNorth_def isWest_def isSame_def narrowLoc_def wideLoc_def isMemTile_def
  from assms(2) show ?thesis
  proof (elim disjE)
    assume "getMemWest m (TileLoc (uint c) (uint r)) = Some loc"
    then show ?thesis using assms(1) dec [of c] by (auto simp: getMemWest_def defs Let_def split: if_splits)
  next
    assume "getMemEast m (TileLoc (uint c) (uint r)) = Some loc"
    then show ?thesis using assms(1) by (auto simp: getMemEast_def defs)
  next
    assume "getMemNorth m (TileLoc (uint c) (uint r)) = Inr (Some loc)"
    then show ?thesis using assms inc [of r]
      by (auto simp: getMemNorth_def defs Let_def split: if_splits)
  next
    assume "getMemSouth m (TileLoc (uint c) (uint r)) = Some loc"
    then show ?thesis using assms(1) dec [of r]
      by (auto simp: getMemSouth_def defs Let_def split: if_splits)
  qed
qed

theorem mem_neighbours_legal_witness:
  "getMemSouth (sampleModel npu1) (TileLoc 1 3) = Some (TileLoc 1 2)
   \<and> hasLegalMemAffinity (sampleModel npu1) 1 3 1 2"
proof -
  have s: "getMemSouth (sampleModel npu1) (TileLoc 1 3) = Some (TileLoc 1 2)"
    by (simp add: getMemSouth_def narrowLoc_def wideLoc_def getTileType_def sample_defs Let_def
        word_le_nat_alt)
  moreover have "rows (sampleModel npu1) = Inr 6" by (simp add: rows_def sample_defs)
  moreover have "\<not> isMemTile (sampleModel npu1) 1 3"
    by (simp add: isMemTile_def getTileType_def sample_defs)
  ultimately show ?thesis
    using mem_neighbours_legal [of "sampleModel npu1" 1 3 "TileLoc 1 2" 6] by simp
qed

text \<open>
  On the legacy devices, a legal switch box connection that leaves a tile through a side
  reaches a tile of the array, at a port that tile has on the facing side. (The shim row
  has no tile to its south.)
\<close>

theorem legacy_hop_arrives:
  assumes "device m = xcvc1902 \<and> nCols = VC1902_columns \<and> nRows = VC1902_rows
         \<or> device m = xcve2802 \<and> nCols = VE2802_columns \<and> nRows = VE2802_rows"
    and "in_array nCols nRows (uint c) (uint r)"
    and "isLegalTileConnection m c r srcBundle srcChan dstBundle dstChan = Inr True"
    and "dstBundle \<in> {NORTH, EAST, WEST} \<or> dstBundle = SOUTH \<and> r \<noteq> 0"
    and "neighbour (uint c) (uint r) dstBundle = (c', r')"
  shows "in_array nCols nRows c' r' \<and>
    (\<exists>n. getNumSourceSwitchBoxConnections m (word_of_int c') (word_of_int r')
            (getConnectingBundle dstBundle) = Inr n \<and> unat dstChan < n)"
proof -
  have side: "dstBundle \<in> {NORTH, EAST, WEST} \<or> dstBundle = SOUTH \<and> 0 < uint r"
    using assms(4) uint_0_iff [of r] uint_ge_0 [of r] by (auto simp: order.order_iff_strict)
  have small: "uint (word_of_int i :: u8) = i" if "0 \<le> i" "i < 100" for i
    using that by (simp add: uint_word_of_int_eq take_bit_int_eq_self_iff)
  have conv: "unat dstChan < n \<longleftrightarrow> uint dstChan < int n" for n
    by (simp flip: of_nat_less_iff [where 'a = int])
  from assms(1) show ?thesis
  proof
    assume d: "device m = xcvc1902 \<and> nCols = VC1902_columns \<and> nRows = VC1902_rows"
    then have leg: "VC1902_isLegalTileConnection (uint c) (uint r) srcBundle (uint srcChan) dstBundle (uint dstChan)"
      using assms(3) by (simp add: isLegalTileConnection_def legacy_isLegalTileConnection_def)
    from vc1902.hop_arrives [OF _ leg _ side] assms(2,5) d
    have "in_array nCols nRows c' r'"
      and "uint dstChan < int (VC1902_getNumSourceSwitchBoxConnections c' r' (getConnectingBundle dstBundle))"
      by auto
    moreover from this(1) d have "uint (word_of_int c' :: u8) = c'" "uint (word_of_int r' :: u8) = r'"
      by (auto intro!: small simp: in_array_def VC1902_columns_def VC1902_rows_def)
    ultimately show ?thesis using d
      by (simp add: getNumSourceSwitchBoxConnections_def legacy_getNumSourceSwitchBoxConnections_def conv)
  next
    assume d: "device m = xcve2802 \<and> nCols = VE2802_columns \<and> nRows = VE2802_rows"
    then have leg: "VE2802_isLegalTileConnection (uint c) (uint r) srcBundle (uint srcChan) dstBundle (uint dstChan)"
      using assms(3) by (simp add: isLegalTileConnection_def legacy_isLegalTileConnection_def)
    from ve2802.hop_arrives [OF _ leg _ side] assms(2,5) d
    have "in_array nCols nRows c' r'"
      and "uint dstChan < int (VE2802_getNumSourceSwitchBoxConnections c' r' (getConnectingBundle dstBundle))"
      by auto
    moreover from this(1) d have "uint (word_of_int c' :: u8) = c'" "uint (word_of_int r' :: u8) = r'"
      by (auto intro!: small simp: in_array_def VE2802_columns_def VE2802_rows_def)
    ultimately show ?thesis using d
      by (simp add: getNumSourceSwitchBoxConnections_def legacy_getNumSourceSwitchBoxConnections_def conv)
  qed
qed

theorem legacy_hop_arrives_witness:
  "in_array VE2802_columns VE2802_rows 4 4
   \<and> (\<exists>n. getNumSourceSwitchBoxConnections (sampleModel xcve2802) 4 4 SOUTH = Inr n \<and> unat (5 :: u8) < n)"
proof -
  have "isLegalTileConnection (sampleModel xcve2802) 4 3 DMA 0 NORTH 5 = Inr True"
    by (simp add: isLegalTileConnection_def legacy_isLegalTileConnection_def sample_defs
        VE2802_isLegalTileConnection_def VE2802_defs VE2802_legalCoreTile_def
        VE2802_getNumSourceSwitchBoxConnections_def VE2802_getNumDestSwitchBoxConnections_def)
  moreover have "in_array VE2802_columns VE2802_rows (uint (4 :: u8)) (uint (3 :: u8))"
    by (simp add: in_array_def VE2802_defs)
  ultimately show ?thesis
    using legacy_hop_arrives [of "sampleModel xcve2802" VE2802_columns VE2802_rows 4 3 DMA 0 NORTH 5 4 4]
    by (simp add: sampleModel_def)
qed

lemma set_iota: "n + start < 2 ^ 32 \<Longrightarrow> set (iota n start) = {w. start \<le> unat w \<and> unat w < start + n}"
proof -
  assume b: "n + start < 2 ^ 32"
  have "w \<in> of_nat ` {start ..< start + n}" if "start \<le> unat w" "unat w < start + n" for w :: u32
    using that by (intro image_eqI [of _ _ "unat w"]) simp_all
  moreover have "unat (of_nat k :: u32) = k" if "k < start + n" for k
    using that b by (intro of_nat_inverse [OF refl]) simp
  ultimately show ?thesis by (auto simp: iota_def)
qed

text \<open>
  The buffer descriptors of a memory tile: a generator built from
  \<open>getChannelToValidBdIds\<close> gives channels with even numbers ids below 24 and channels with odd
  numbers ids from 24 to 47, and serves the channels 0 to 5 only.
\<close>

theorem memtile_bd_ids:
  assumes "getChannelToValidBdIds MEMTILE = Inr table" and "channelToValidBdIds g = table"
    and "getAndAssignBdId channel mode g = (Some bdId, g')"
  shows "unat channel < 6 \<and> unat bdId < 48 \<and> (unat bdId < 24 \<longleftrightarrow> even (unat channel))"
proof -
  have t: "table = [0 \<mapsto> iota 24 0, 1 \<mapsto> iota 24 24, 2 \<mapsto> iota 24 0, 3 \<mapsto> iota 24 24,
      4 \<mapsto> iota 24 0, 5 \<mapsto> iota 24 24]"
    using assms(1) by (simp add: getChannelToValidBdIds_def Let_def)
  have v: "bdId \<in> validIds channel g" using getAndAssignBdId_Some [OF assms(3)] by simp
  then obtain ids where ids: "table channel = Some ids" "bdId \<in> set ids"
    using assms(2) by (auto simp: validIds_def split: option.splits)
  have e: "set (iota 24 0) = {w. unat w < 24}" and o: "set (iota 24 24) = {w. 24 \<le> unat w \<and> unat w < 48}"
    by (simp_all add: set_iota)
  from ids(1) t consider "channel \<in> {0, 2, 4}" "ids = iota 24 0" | "channel \<in> {1, 3, 5}" "ids = iota 24 24"
    by (auto split: if_splits)
  then show ?thesis using ids(2) by cases (auto simp: e o)
qed

theorem memtile_bd_ids_witness:
  "\<exists>table g'. getChannelToValidBdIds MEMTILE = Inr table
    \<and> getAndAssignBdId 3 Smallest (mk_ChannelBdIdGenerator table) = (Some 24, g')
    \<and> (unat (24 :: u32) < 24 \<longleftrightarrow> even (unat (3 :: u32)))"
proof -
  obtain table where t: "getChannelToValidBdIds MEMTILE = Inr table" and t3: "table 3 = Some (iota 24 24)"
    by (simp add: getChannelToValidBdIds_def Let_def)
  have "iota 24 24 = 24 # iota 23 25" by (simp add: iota_def upt_rec [of 24])
  with t3 obtain g' where "getAndAssignBdId 3 Smallest (mk_ChannelBdIdGenerator table) = (Some 24, g')"
    by (simp add: getAndAssignBdId_def assignFirst_def isBdIdAssigned_def mk_ChannelBdIdGenerator_def)
  with t memtile_bd_ids [OF t _ this] show ?thesis by (auto simp: mk_ChannelBdIdGenerator_def)
qed

text \<open>The documented table of integer instruction sizes, by bit widths.\<close>

definition npu1_int_rows :: "((u32 \<times> u32 \<times> u32) \<times> (u32 \<times> u32 \<times> u32)) list" where
  "npu1_int_rows =
     [((8, 4, 32), (4, 8, 16)), ((8, 8, 32), (4, 8, 8)), ((16, 8, 32), (4, 8, 4)),
      ((16, 16, 32), (4, 8, 2)), ((16, 8, 64), (2, 8, 8)), ((16, 16, 64), (2, 8, 4)),
      ((32, 16, 64), (4, 4, 2))]"

lemma uint_key:
  assumes "uint a < 256" and "uint b < 256" and "uint c < 256"
  shows "uint (getElementTypeKey a b c) = uint a + 256 * uint b + 65536 * uint c"
proof -
  have "getElementTypeKey a b c = word_of_int (uint a + 256 * uint b + 65536 * uint c)"
    by (simp add: getElementTypeKey_def push_bit_eq_mult mult.commute)
  moreover have "0 \<le> uint a + 256 * uint b + 65536 * uint c"
    "uint a + 256 * uint b + 65536 * uint c < 2 ^ 32" using assms by simp_all
  ultimately show ?thesis
    using take_bit_int_eq_self [of "uint a + 256 * uint b + 65536 * uint c" 32]
    by (simp only: uint_word_of_int_eq) simp
qed

lemma base256_digits:
  fixes a b c :: int
  assumes "0 \<le> a" "a < 256" "0 \<le> b" "b < 256"
  shows "(a + 256 * b + 65536 * c) mod 256 = a" and "(a + 256 * b + 65536 * c) div 256 mod 256 = b"
    and "(a + 256 * b + 65536 * c) div 65536 = c"
proof -
  have x: "a + 256 * b + 65536 * c = a + (b + 256 * c) * 256" by simp
  show "(a + 256 * b + 65536 * c) mod 256 = a" unfolding x using assms by (simp only: mod_mult_self1 mod_pos_pos_trivial)
  have d: "(a + 256 * b + 65536 * c) div 256 = b + c * 256"
    unfolding x using assms by (simp add: div_mult_self1)
  show "(a + 256 * b + 65536 * c) div 256 mod 256 = b"
    unfolding d using assms by (simp only: mod_mult_self1 mod_pos_pos_trivial)
  have "(a + 256 * b + 65536 * c) div 65536 = (a + 256 * b + 65536 * c) div 256 div 256"
    by (simp add: div_mult2_eq [symmetric] zdiv_zmult2_eq [symmetric])
  also have "\<dots> = c" unfolding d using assms by (simp add: div_mult_self1)
  finally show "(a + 256 * b + 65536 * c) div 65536 = c" .
qed

lemma key_inj:
  assumes "uint a < 256" "uint b < 256" "uint c < 256" "uint a' < 256" "uint b' < 256" "uint c' < 256"
  shows "getElementTypeKey a b c = getElementTypeKey a' b' c' \<longleftrightarrow> a = a' \<and> b = b' \<and> c = c'"
proof
  assume "getElementTypeKey a b c = getElementTypeKey a' b' c'"
  then have "uint a + 256 * uint b + 65536 * uint c = uint a' + 256 * uint b' + 65536 * uint c'"
    using uint_key [OF assms(1-3)] uint_key [OF assms(4-6)] by metis
  then have "uint a = uint a'" "uint b = uint b'" "uint c = uint c'"
    using base256_digits [of "uint a" "uint b" "uint c"] base256_digits [of "uint a'" "uint b'" "uint c'"] assms
    by (metis uint_ge_0)+
  then show "a = a' \<and> b = b' \<and> c = c'" by (simp add: word_uint_eq_iff)
qed simp

lemma map_of_keys:
  assumes "uint l < 256" "uint r < 256" "uint a < 256"
    and "\<forall>((l, r, a), s) \<in> set tab. uint l < 256 \<and> uint r < 256 \<and> uint a < 256"
  shows "map_of (map (\<lambda>((l, r, a), s). (getElementTypeKey l r a, s)) tab) (getElementTypeKey l r a)
    = map_of tab (l, r, a)"
  using assms(4)
proof (induction tab)
  case (Cons e tab)
  obtain l' r' a' s where e: "e = ((l', r', a'), s)" by (metis prod_cases3 surj_pair)
  with Cons key_inj [of l r a l' r' a'] assms(1-3) show ?case by auto
qed simp

text \<open>
  On the npu1 devices, for element types of less than 256 bits, the instruction size lookup
  succeeds exactly on the rows of the documented table: the packed key of the three
  bit widths does not confuse two combinations.
\<close>

theorem npu1_matmul_sizes:
  assumes "isNPUDevice (device m)" and "device m \<noteq> npu4"
    and "uint l < 256" and "uint r < 256" and "uint a < 256"
  shows "getAIEMatmulInstructionSize m (IntegerType l) (IntegerType r) (IntegerType a)
    = res_of_option Failure (map_of npu1_int_rows (l, r, a))"
proof -
  have "getNpu1IntegerMatmulInstructionSizeMap
      = map (\<lambda>((l, r, a), s). (getElementTypeKey l r a, s)) npu1_int_rows"
    by (simp add: getNpu1IntegerMatmulInstructionSizeMap_def npu1_int_rows_def)
  moreover have "\<forall>((l, r, a), s) \<in> set npu1_int_rows. uint l < 256 \<and> uint r < 256 \<and> uint a < 256"
    by (simp add: npu1_int_rows_def)
  ultimately show ?thesis
    using assms(1,2) map_of_keys [OF assms(3-5), of npu1_int_rows]
    by (simp add: getIntegerMatmulInstructionSize_def) blast
qed

theorem npu1_matmul_sizes_witness:
  "getAIEMatmulInstructionSize (sampleModel npu1_4col) (IntegerType 16) (IntegerType 8) (IntegerType 64)
   = Inr (2, 8, 8)"
  using npu1_matmul_sizes [of "sampleModel npu1_4col" 16 8 64]
  by (simp add: npu1_int_rows_def sampleModel_def)

text \<open>
  For \<open>xcve2802\<close> the row count is that of the columns (38, where the table has 11 rows), and
  the range check of \<open>getPacketHeader\<close> with it lets source rows through that do not fit their
  field: row 32 of column 0 and row 0 of column 1 get the same header.
\<close>

theorem xcve2802_row_count:
  assumes "device m = xcve2802" and "packetHeaderFormat m = packetHeaderFormatInit"
  shows "rows m = Inr 38 \<and> VE2802_rows = 11
    \<and> (\<exists>h. getPacketHeader m 0 0 32 0 = Inr h \<and> getPacketHeader m 0 0 0 1 = Inr h)"
  using assms
  by (simp add: rows_def columns_def legacy_rows_def legacy_columns_def VE2802_defs getPacketHeader_def
      packetHeaderFormatInit_def)

theorem xcve2802_row_count_witness:
  "\<exists>h. getPacketHeader (sampleModel xcve2802) 0 0 32 0 = Inr h
     \<and> getPacketHeader (sampleModel xcve2802) 0 0 0 1 = Inr h"
  using xcve2802_row_count [of "sampleModel xcve2802"] by (simp add: sampleModel_def)

end
