(* ===== verification/Lock_Id_Generator.thy ===== *)
theory Lock_Id_Generator
  imports Device_Ops
begin

text \<open>
  \<open>LockIdGenerator\<close> (\<open>aie_runtime/Utils/LockIdGenerator.h\<close> and \<open>.cpp\<close>): hands out lock ids per
  tile. The search runs over 32-bit numbers while the ids are kept in eight bits; the
  lemmas show that ids are fresh and in range, also for a tile with more than 256 locks, and
  that other tiles are not touched.
\<close>

section \<open>Model\<close>

record LockIdGenerator =
  deviceModel :: AMDAIEDeviceModel
  tileToAssignedLockIds :: "TileLoc \<Rightarrow> u8 set option"

definition mk_LockIdGenerator :: "AMDAIEDeviceModel \<Rightarrow> LockIdGenerator" where
  "mk_LockIdGenerator m = \<lparr>deviceModel = m, tileToAssignedLockIds = Map.empty\<rparr>"

text \<open>\<open>TileLoc(int, int)\<close> from unsigned coordinates.\<close>

definition lockTile :: "u32 \<Rightarrow> u32 \<Rightarrow> TileLoc" where
  "lockTile c r = TileLoc (sint c) (sint r)"

text \<open>\<open>operator[]\<close> of the map: the entry, created empty where there is none.\<close>

definition lockSet :: "LockIdGenerator \<Rightarrow> TileLoc \<Rightarrow> u8 set" where
  "lockSet g t = (case tileToAssignedLockIds g t of None \<Rightarrow> {} | Some s \<Rightarrow> s)"

definition assignLockId :: "u32 \<Rightarrow> u32 \<Rightarrow> u8 \<Rightarrow> LockIdGenerator \<Rightarrow> LockIdGenerator" where
  "assignLockId c r lockId g =
     g\<lparr>tileToAssignedLockIds :=
        (tileToAssignedLockIds g)(lockTile c r \<mapsto> insert lockId (lockSet g (lockTile c r)))\<rparr>"

definition isLockIdAssigned :: "LockIdGenerator \<Rightarrow> u32 \<Rightarrow> u32 \<Rightarrow> u8 \<Rightarrow> bool" where
  "isLockIdAssigned g c r lockId \<longleftrightarrow>
     (case tileToAssignedLockIds g (lockTile c r) of None \<Rightarrow> False | Some s \<Rightarrow> lockId \<in> s)"

definition releaseLockId :: "u32 \<Rightarrow> u32 \<Rightarrow> u8 \<Rightarrow> LockIdGenerator \<Rightarrow> LockIdGenerator" where
  "releaseLockId c r lockId g =
     g\<lparr>tileToAssignedLockIds :=
        (tileToAssignedLockIds g)(lockTile c r \<mapsto> lockSet g (lockTile c r) - {lockId})\<rparr>"

text \<open>The \<open>while\<close> loop: the first number from \<open>lockId\<close> on, below the limit, whose low byte is free.\<close>

function findLock :: "LockIdGenerator \<Rightarrow> u32 \<Rightarrow> u32 \<Rightarrow> nat \<Rightarrow> nat \<Rightarrow> nat" where
  "findLock g c r maxNumLocks lockId =
     (if lockId < maxNumLocks \<and> isLockIdAssigned g c r (of_nat lockId)
      then findLock g c r maxNumLocks (lockId + 1) else lockId)"
  by auto
termination
  by (relation "measure (\<lambda>(g, c, r, maxNumLocks, lockId). maxNumLocks - lockId)") auto

declare findLock.simps [simp del]

definition getAndAssignLockId :: "u32 \<Rightarrow> u32 \<Rightarrow> LockIdGenerator \<Rightarrow> u8 option \<times> LockIdGenerator" where
  "getAndAssignLockId c r g =
     (let maxNumLocks = unat (getNumLocks (deviceModel g) (ucast c) (ucast r));
          lockId = findLock g c r maxNumLocks 0
      in if lockId \<ge> maxNumLocks then (None, g)
         else (Some (of_nat lockId), assignLockId c r (of_nat lockId) g))"

section \<open>Search\<close>

lemma findLock_props:
  assumes "k \<le> n" and "res = findLock g c r n k"
  shows "k \<le> res \<and> res \<le> n \<and> (\<forall>j. k \<le> j \<and> j < res \<longrightarrow> isLockIdAssigned g c r (of_nat j))
    \<and> (res < n \<longrightarrow> \<not> isLockIdAssigned g c r (of_nat res))"
  using assms
proof (induction g c r n k rule: findLock.induct)
  case (1 g c r n k)
  show ?case
  proof (cases "k < n \<and> isLockIdAssigned g c r (of_nat k)")
    case True
    then have "res = findLock g c r n (k + 1)" using 1(3) by (simp add: findLock.simps [of g c r n k])
    with 1(1) [OF True] True have ih: "k + 1 \<le> res \<and> res \<le> n
        \<and> (\<forall>j. k + 1 \<le> j \<and> j < res \<longrightarrow> isLockIdAssigned g c r (of_nat j))
        \<and> (res < n \<longrightarrow> \<not> isLockIdAssigned g c r (of_nat res))" by simp
    have "isLockIdAssigned g c r (of_nat j)" if "k \<le> j \<and> j < res" for j
      using that ih True by (cases "j = k") auto
    with ih show ?thesis by simp
  next
    case False
    then have "res = k" using 1(3) by (subst (asm) findLock.simps) auto
    with False 1(2) show ?thesis by auto
  qed
qed

definition lockCount :: "u32 \<Rightarrow> u32 \<Rightarrow> LockIdGenerator \<Rightarrow> nat" where
  "lockCount c r g = unat (getNumLocks (deviceModel g) (ucast c) (ucast r))"

definition validLocks :: "u32 \<Rightarrow> u32 \<Rightarrow> LockIdGenerator \<Rightarrow> u8 set" where
  "validLocks c r g = {i. unat i < lockCount c r g}"

definition usedLocks :: "u32 \<Rightarrow> u32 \<Rightarrow> LockIdGenerator \<Rightarrow> u8 set" where
  "usedLocks c r g = lockSet g (lockTile c r)"

lemma isLockIdAssigned_used: "isLockIdAssigned g c r i \<longleftrightarrow> i \<in> usedLocks c r g"
  by (simp add: isLockIdAssigned_def usedLocks_def lockSet_def split: option.split)

lemma assignLockId_sets:
  "usedLocks c r (assignLockId c r i g) = insert i (usedLocks c r g)"
  "deviceModel (assignLockId c r i g) = deviceModel g"
  "lockTile c' r' \<noteq> lockTile c r \<Longrightarrow> usedLocks c' r' (assignLockId c r i g) = usedLocks c' r' g"
  by (simp_all add: usedLocks_def lockSet_def assignLockId_def)

lemma getAndAssignLockId_Some:
  assumes "getAndAssignLockId c r g = (Some i, g')"
  shows "i \<in> validLocks c r g \<and> i \<notin> usedLocks c r g \<and> g' = assignLockId c r i g
    \<and> (\<forall>j < i. j \<in> usedLocks c r g)"
proof -
  let ?k = "findLock g c r (lockCount c r g) 0"
  from assms have k: "?k < lockCount c r g" "i = of_nat ?k" "g' = assignLockId c r i g"
    by (auto simp: getAndAssignLockId_def lockCount_def Let_def split: if_splits)
  note props = findLock_props [OF le0 refl, of g c r "lockCount c r g"]
  have un: "unat i = ?k"
  proof (cases "?k < 256")
    case True
    then show ?thesis using k(2) by (simp add: unsigned_of_nat take_bit_nat_eq_self_iff)
  next
    case False
    then have "?k mod 256 < ?k" using mod_less_divisor [of 256 ?k] by linarith
    with props have "isLockIdAssigned g c r (of_nat (?k mod 256))" by blast
    moreover have "(of_nat (?k mod 256) :: u8) = of_nat ?k"
      by (rule unsigned_word_eqI) (simp add: unsigned_of_nat take_bit_eq_mod)
    ultimately show ?thesis using props k(1) by simp
  qed
  have "j \<in> usedLocks c r g" if "j < i" for j
  proof -
    have "unat j < ?k" using that un by (simp add: word_less_nat_alt)
    with props have "isLockIdAssigned g c r (of_nat (unat j))" by blast
    then show ?thesis by (simp add: isLockIdAssigned_used)
  qed
  with props k un show ?thesis by (auto simp: validLocks_def isLockIdAssigned_used)
qed

lemma getAndAssignLockId_None:
  assumes "getAndAssignLockId c r g = (None, g')"
  shows "g' = g \<and> validLocks c r g \<subseteq> usedLocks c r g"
proof -
  let ?k = "findLock g c r (lockCount c r g) 0"
  from assms have k: "lockCount c r g \<le> ?k" "g' = g"
    by (auto simp: getAndAssignLockId_def lockCount_def Let_def split: if_splits)
  have "isLockIdAssigned g c r (of_nat (unat i))" if "unat i < lockCount c r g" for i :: u8
    using that k findLock_props [OF le0 refl, of g c r "lockCount c r g"] by auto
  with k show ?thesis by (auto simp: validLocks_def isLockIdAssigned_used)
qed

lemma validLocks_assign [simp]: "validLocks c r (assignLockId c' r' i g) = validLocks c r g"
  by (simp add: validLocks_def lockCount_def assignLockId_sets)

interpretation locks: id_pool "validLocks c r" "usedLocks c r" "getAndAssignLockId c r" "\<lambda>_. True"
proof
  fix s s' :: LockIdGenerator and i
  show "finite (validLocks c r s)" by simp
  show "getAndAssignLockId c r s = (None, s') \<Longrightarrow> s' = s \<and> validLocks c r s \<subseteq> usedLocks c r s"
    by (rule getAndAssignLockId_None)
  assume "getAndAssignLockId c r s = (Some i, s')"
  then show "i \<in> validLocks c r s \<and> i \<notin> usedLocks c r s \<and> usedLocks c r s' = insert i (usedLocks c r s)
      \<and> validLocks c r s' = validLocks c r s \<and> True"
    using getAndAssignLockId_Some [of c r s i s'] by (auto simp: assignLockId_sets)
qed

section \<open>Properties\<close>

lemma fresh_run:
  assumes "usedLocks c r g = {i. unat i < k}" and "k \<le> min 256 (lockCount c r g)"
  shows "fst (locks.alloc_run c r n g) = map of_nat [k ..< min (k + n) (min 256 (lockCount c r g))]"
  using assms
proof (induction n arbitrary: g k)
  case 0
  then show ?case by simp
next
  case (Suc n)
  show ?case
  proof (cases "getAndAssignLockId c r g")
    case (Pair res g')
    show ?thesis
    proof (cases res)
      case None
      have "k = min 256 (lockCount c r g)"
      proof (rule ccontr)
        assume "k \<noteq> min 256 (lockCount c r g)"
        with Suc.prems(2) have "k < 256" "k < lockCount c r g"
          by (simp_all add: min_def split: if_splits)
        then have "of_nat k \<in> validLocks c r g" "of_nat k \<notin> usedLocks c r g"
          using take_bit_nat_eq_self [of k 8]
          by (simp_all add: validLocks_def Suc.prems(1) unsigned_of_nat)
        with getAndAssignLockId_None [OF Pair [unfolded None]] show False by auto
      qed
      with Pair None show ?thesis by simp
    next
      case (Some i)
      note i = getAndAssignLockId_Some [OF Pair [unfolded Some]]
      have ik: "unat i = k"
      proof -
        have "\<not> unat i < k" using i Suc.prems(1) by auto
        moreover have "\<not> k < unat i"
        proof
          assume lt: "k < unat i"
          also have "unat i < 2 ^ LENGTH(8)" by (rule unsigned_less)
          finally have "unat (of_nat k :: u8) = k" by (simp add: unsigned_of_nat take_bit_nat_eq_self_iff)
          moreover have "(of_nat k :: u8) \<in> usedLocks c r g"
            using i lt calculation by (simp add: word_less_nat_alt)
          ultimately show False by (simp add: Suc.prems(1))
        qed
        ultimately show ?thesis by simp
      qed
      have "unat i < 2 ^ LENGTH(8)" by (rule unsigned_less)
      with i ik have kb: "k < 256" "k < lockCount c r g" by (auto simp: validLocks_def)
      have "{j. unat j < Suc k} = insert i {j. unat j < k}"
        using ik by (auto simp: less_Suc_eq intro: unsigned_word_eqI)
      then have "usedLocks c r g' = {j. unat j < Suc k}" "lockCount c r g' = lockCount c r g"
        using i Suc.prems(1) by (simp_all add: assignLockId_sets lockCount_def)
      with Suc.IH [of g' "Suc k"] kb
      have "fst (locks.alloc_run c r n g') = map of_nat [Suc k ..< min (Suc k + n) (min 256 (lockCount c r g))]"
        by simp
      moreover have "[k ..< min (k + Suc n) (min 256 (lockCount c r g))]
          = k # [Suc k ..< min (Suc k + n) (min 256 (lockCount c r g))]"
        using kb by (simp add: upt_rec)
      moreover have "i = of_nat k" using ik by (simp flip: ik)
      ultimately show ?thesis using Pair Some by (cases "locks.alloc_run c r n g'") simp
    qed
  qed
qed

section \<open>Properties\<close>

text \<open>
  A new lock generator asked \<open>n\<close> times for a lock of one tile gives the ids 0, 1, 2 and so
  on, up to the number of locks of the tile (256 at most), and then none. A tile at other
  coordinates keeps its locks.
\<close>

theorem lock_ids_in_order:
  assumes "id_pool.alloc_run (getAndAssignLockId c r) n (mk_LockIdGenerator m) = (ids, g')"
  shows "ids = map of_nat [0 ..< min n (min 256 (unat (getNumLocks m (ucast c) (ucast r))))]
    \<and> (\<forall>t. t \<noteq> lockTile c r \<longrightarrow> lockSet g' t = {})"
proof -
  let ?g = "mk_LockIdGenerator m"
  have "usedLocks c r ?g = {i. unat i < 0}" "lockCount c r ?g = unat (getNumLocks m (ucast c) (ucast r))"
    by (simp_all add: usedLocks_def lockSet_def lockCount_def mk_LockIdGenerator_def)
  with fresh_run [of c r ?g 0 n] assms
  have ids: "ids = map of_nat [0 ..< min n (min 256 (unat (getNumLocks m (ucast c) (ucast r))))]" by simp
  have frame: "lockSet h t = lockSet g t" if "locks.alloc_run c r n g = (is, h)" "t \<noteq> lockTile c r" for n g "is" h t
    using that
  proof (induction n arbitrary: g "is")
    case (Suc n)
    obtain res g1 where r: "getAndAssignLockId c r g = (res, g1)" by fastforce
    have "lockSet g1 t = lockSet g t"
    proof (cases res)
      case None
      with r getAndAssignLockId_None show ?thesis by blast
    next
      case (Some i)
      with r getAndAssignLockId_Some [of c r g i g1] Suc.prems(2) show ?thesis
        by (auto simp: assignLockId_def lockSet_def)
    qed
    with r Suc show ?case by (auto split: prod.splits option.splits)
  qed simp
  have "lockSet g' t = {}" if "t \<noteq> lockTile c r" for t
    using frame [OF assms that] by (simp add: lockSet_def mk_LockIdGenerator_def)
  with ids show ?thesis by blast
qed

theorem lock_ids_in_order_witness:
  "\<exists>g'. id_pool.alloc_run (getAndAssignLockId 1 3) 2 (mk_LockIdGenerator (sampleModel npu1)) = ([0, 1], g')"
proof -
  obtain ids g' where run:
    "id_pool.alloc_run (getAndAssignLockId 1 3) 2 (mk_LockIdGenerator (sampleModel npu1)) = (ids, g')"
    by fastforce
  have "getNumLocks (sampleModel npu1) 1 3 = 16"
    by (simp add: getNumLocks_def getTileType_def sample_defs word_le_nat_alt Let_def)
  with lock_ids_in_order [OF run] have "ids = [0, 1]" by (simp add: upt_rec)
  with run show ?thesis by blast
qed

end
