(* ===== verification/Access_Pattern.thy ===== *)
theory Access_Pattern
  imports AIE_Prelude
begin

text \<open>
  The strided access patterns of \<open>Transforms/Utils/AMDAIEDmaUtils.cpp\<close> and the rewrites on
  them. A pattern is a list of dimensions, outermost first; the source keeps the offsets,
  sizes and strides in three vectors of the same length, which are the components of the
  dimensions here. A value of the pattern is an integer attribute or an SSA value, which
  may have a known constant (\<open>cenv\<close>). 64-bit integers are mathematical integers: the source's
  signed arithmetic is undefined where it overflows. The meaning of a pattern is the sequence
  of addresses it visits, given the values (\<open>\<rho>\<close>) of the SSA values.
\<close>

section \<open>Patterns and their addresses\<close>

datatype OpFoldResult = Attr int | Val nat

datatype dim = Dim (offset: OpFoldResult) (sz: OpFoldResult) (stride: OpFoldResult)

type_synonym pattern = "dim list"

type_synonym cenv = "nat \<Rightarrow> int option"

fun getConstantIntValue :: "cenv \<Rightarrow> OpFoldResult \<Rightarrow> int option" where
  "getConstantIntValue ce (Attr i) = Some i"
| "getConstantIntValue ce (Val v) = ce v"

definition isConstantIntValue :: "cenv \<Rightarrow> OpFoldResult \<Rightarrow> int \<Rightarrow> bool" where
  "isConstantIntValue ce x i \<longleftrightarrow> getConstantIntValue ce x = Some i"

fun getConstantIntValues :: "cenv \<Rightarrow> OpFoldResult list \<Rightarrow> int list option" where
  "getConstantIntValues ce [] = Some []"
| "getConstantIntValues ce (x # xs) =
     (case (getConstantIntValue ce x, getConstantIntValues ce xs) of
        (Some i, Some is) \<Rightarrow> Some (i # is) | _ \<Rightarrow> None)"

fun evl :: "(nat \<Rightarrow> int) \<Rightarrow> OpFoldResult \<Rightarrow> int" where
  "evl \<rho> (Attr i) = i"
| "evl \<rho> (Val v) = \<rho> v"

text \<open>The values agree with the constants the compiler knows.\<close>

definition agrees :: "cenv \<Rightarrow> (nat \<Rightarrow> int) \<Rightarrow> bool" where
  "agrees ce \<rho> \<longleftrightarrow> (\<forall>v i. ce v = Some i \<longrightarrow> \<rho> v = i)"

definition upto_size :: "int \<Rightarrow> int list" where
  "upto_size s = map int [0 ..< nat s]"

fun addrs :: "(nat \<Rightarrow> int) \<Rightarrow> pattern \<Rightarrow> int list" where
  "addrs \<rho> [] = [0]"
| "addrs \<rho> (d # ds) =
     concat (map (\<lambda>i. map (\<lambda>a. (i + evl \<rho> (offset d)) * evl \<rho> (stride d) + a) (addrs \<rho> ds))
                 (upto_size (evl \<rho> (sz d))))"

definition sizes_ok :: "(nat \<Rightarrow> int) \<Rightarrow> pattern \<Rightarrow> bool" where
  "sizes_ok \<rho> ds \<longleftrightarrow> (\<forall>d \<in> set ds. 0 \<le> evl \<rho> (sz d))"

section \<open>Merging two patterns\<close>

definition matchDim :: "cenv \<Rightarrow> dim \<Rightarrow> OpFoldResult \<Rightarrow> dim result" where
  "matchDim ce d strideY =
     (if stride d \<noteq> strideY \<and> getConstantIntValue ce (sz d) = Some 1 then
        (case (getConstantIntValue ce (offset d), getConstantIntValue ce (stride d),
               getConstantIntValue ce strideY) of
           (Some off, Some strideX, Some sY) \<Rightarrow>
             (let numerator = off * strideX; denominator = sY
              in if denominator = 0 then Inl DivByZero
                 else if numerator smod denominator = 0
                 then Inr (Dim (Attr (numerator sdiv denominator)) (sz d) strideY)
                 else Inr d)
         | _ \<Rightarrow> Inr d)
      else Inr d)"

fun matchStridesOfUnitDims :: "cenv \<Rightarrow> pattern \<Rightarrow> OpFoldResult list \<Rightarrow> pattern result" where
  "matchStridesOfUnitDims ce [] stridesY = Inr []"
| "matchStridesOfUnitDims ce (d # ds) [] = Inl OutOfBounds"
| "matchStridesOfUnitDims ce (d # ds) (y # stridesY) =
     res_bind (matchDim ce d y) (\<lambda>d'.
       res_bind (matchStridesOfUnitDims ce ds stridesY) (\<lambda>ds'. Inr (d' # ds')))"

text \<open>
  \<open>getGlobalOffsetDifference\<close>: \<open>valToConst\<close> and \<open>valPairs\<close> are association lists, in the order of
  insertion.
\<close>

record goState =
  valToConst :: "(nat \<times> int) list"
  valPairs :: "((nat \<times> nat) \<times> int) list"
  globalOffsetDifference :: int

fun bump :: "'k \<Rightarrow> int \<Rightarrow> ('k \<times> int) list \<Rightarrow> ('k \<times> int) list" where
  "bump k c [] = [(k, c)]"
| "bump k c ((k', c') # m) = (if k = k' then (k', c' + c) # m else (k', c') # bump k c m)"

definition incrementValPairs :: "nat \<Rightarrow> nat \<Rightarrow> int \<Rightarrow> ((nat \<times> nat) \<times> int) list \<Rightarrow> ((nat \<times> nat) \<times> int) list" where
  "incrementValPairs v0 v1 sign m =
     (if map_of m (v0, v1) \<noteq> None then bump (v0, v1) sign m
      else if map_of m (v1, v0) \<noteq> None then bump (v1, v0) sign m
      else bump (v0, v1) sign m)"

definition updateGlobalOffsetDifference ::
  "cenv \<Rightarrow> OpFoldResult \<Rightarrow> OpFoldResult \<Rightarrow> int \<Rightarrow> goState \<Rightarrow> goState" where
  "updateGlobalOffsetDifference ce off str sign st =
     (case (getConstantIntValue ce off, getConstantIntValue ce str) of
        (None, None) \<Rightarrow>
          (case (off, str) of
             (Val vOffset, Val vStride) \<Rightarrow>
               st\<lparr>valPairs := incrementValPairs vOffset vStride sign (valPairs st)\<rparr>
           | _ \<Rightarrow> st)
      | (Some cOffset, Some cStride) \<Rightarrow>
          st\<lparr>globalOffsetDifference := globalOffsetDifference st + sign * cOffset * cStride\<rparr>
      | (Some cOffset, None) \<Rightarrow>
          (case str of
             Val v \<Rightarrow> st\<lparr>valToConst := bump v (sign * cOffset) (valToConst st)\<rparr> | _ \<Rightarrow> st)
      | (None, Some cStride) \<Rightarrow>
          (case off of
             Val v \<Rightarrow> st\<lparr>valToConst := bump v (sign * cStride) (valToConst st)\<rparr> | _ \<Rightarrow> st))"

fun goLoop :: "cenv \<Rightarrow> (dim \<times> dim) list \<Rightarrow> goState \<Rightarrow> goState" where
  "goLoop ce [] st = st"
| "goLoop ce ((x, y) # xys) st =
     goLoop ce xys
       (updateGlobalOffsetDifference ce (offset y) (stride y) (- 1)
         (updateGlobalOffsetDifference ce (offset x) (stride x) 1 st))"

definition getGlobalOffsetDifference :: "cenv \<Rightarrow> pattern \<Rightarrow> pattern \<Rightarrow> int option" where
  "getGlobalOffsetDifference ce xs ys =
     (let st = goLoop ce (zip xs ys) \<lparr>valToConst = [], valPairs = [], globalOffsetDifference = 0\<rparr>
      in if list_ex (\<lambda>x. snd x \<noteq> 0) (valToConst st) then None
         else if list_ex (\<lambda>x. snd x \<noteq> 0) (valPairs st) then None
         else Some (globalOffsetDifference st))"

text \<open>The insertion of a unit dimension into the pattern with one dimension less.\<close>

fun unitIndex :: "OpFoldResult list \<Rightarrow> OpFoldResult list \<Rightarrow> nat \<Rightarrow> nat" where
  "unitIndex stridesX stridesY 0 = 0"
| "unitIndex stridesX stridesY (Suc i) =
     (if stridesY ! Suc i \<noteq> stridesX ! i then Suc i else unitIndex stridesX stridesY i)"

definition insert_at :: "nat \<Rightarrow> 'a \<Rightarrow> 'a list \<Rightarrow> 'a list" where
  "insert_at i x xs = take i xs @ x # drop i xs"

definition insertUnitDimension :: "pattern \<Rightarrow> OpFoldResult list \<Rightarrow> pattern" where
  "insertUnitDimension xs stridesY =
     (let index = unitIndex (map stride xs) stridesY (length xs)
      in insert_at index (Dim (Attr 0) (Attr 1) (stridesY ! index)) xs)"

text \<open>
  The end of \<open>mergeInFirst\<close>, with both patterns of the same rank and the strides matched: the
  seamless case extends the first dimension, the other inserts a new dimension.
\<close>

definition mergeMatched :: "cenv \<Rightarrow> pattern \<Rightarrow> pattern \<Rightarrow> pattern option" where
  "mergeMatched ce as bs =
     (if map stride as \<noteq> map stride bs then None
      else if map sz (tl as) \<noteq> map sz (tl bs) then None
      else case getGlobalOffsetDifference ce bs as of
        None \<Rightarrow> None
      | Some offsetDifference \<Rightarrow>
          (let a0 = hd as; b0 = hd bs;
               widen = (\<lambda>_ :: unit.
                 if sz a0 = sz b0 \<and> offsetDifference \<ge> 0 then
                   Some (insert_at (if getConstantIntValue ce (sz a0) = Some 1 then 1 else 0)
                           (Dim (Attr 0) (Attr 2) (Attr offsetDifference)) as)
                 else None)
           in case (getConstantIntValue ce (stride a0), getConstantIntValue ce (sz a0),
                    getConstantIntValue ce (sz b0)) of
                (Some cStrideA0, Some cSizeA0, Some cSizeB0) \<Rightarrow>
                  if offsetDifference = cSizeA0 * cStrideA0
                  then Some (Dim (offset a0) (Attr (cSizeA0 + cSizeB0)) (stride a0) # tl as)
                  else widen ()
              | _ \<Rightarrow> widen ()))"

text \<open>\<open>Inr None\<close> is the result \<open>false\<close>.\<close>

definition mergeInFirst :: "cenv \<Rightarrow> pattern \<Rightarrow> pattern \<Rightarrow> pattern option result" where
  "mergeInFirst ce as bs =
     (if as = [] \<and> bs = [] then Inr (Some as)
      else if length as + 1 = length bs \<or> length bs + 1 = length as \<or> length as = length bs then
        (let as1 = (if length as + 1 = length bs then insertUnitDimension as (map stride bs) else as);
             bs1 = (if length bs + 1 = length as then insertUnitDimension bs (map stride as) else bs)
         in res_bind (matchStridesOfUnitDims ce as1 (map stride bs1)) (\<lambda>as2.
            res_bind (matchStridesOfUnitDims ce bs1 (map stride as2)) (\<lambda>bs2.
              Inr (mergeMatched ce as2 bs2))))
      else Inr None)"

section \<open>Unit dimensions\<close>

fun mergeOffset :: "cenv \<Rightarrow> int \<Rightarrow> pattern \<Rightarrow> pattern option" where
  "mergeOffset ce offsetToMerge [] = (if offsetToMerge = 0 then Some [] else None)"
| "mergeOffset ce offsetToMerge (d # ds) =
     (if offsetToMerge = 0 then Some (d # ds)
      else
        (let next = map_option (\<lambda>r. d # r) (mergeOffset ce offsetToMerge ds)
         in case (getConstantIntValue ce (offset d), getConstantIntValue ce (stride d)) of
              (Some off, Some str) \<Rightarrow>
                if str \<noteq> 0 \<and> offsetToMerge smod str = 0
                then Some (Dim (Attr (off + offsetToMerge sdiv str)) (sz d) (stride d) # ds)
                else next
            | _ \<Rightarrow> next))"

text \<open>The first loop of \<open>foldUnitDims\<close>: the dimensions that stay, the offset of those that go, and
  the index for a unit dimension that holds it.\<close>

fun splitUnitDims :: "cenv \<Rightarrow> pattern \<Rightarrow> pattern \<times> int \<times> nat" where
  "splitUnitDims ce [] = ([], 0, 0)"
| "splitUnitDims ce (d # ds) =
     (case splitUnitDims ce ds of (kept, cumulativeOffset, insertionIndex) \<Rightarrow>
        (let isSizeOne = (getConstantIntValue ce (sz d) = Some 1);
             keep = (d # kept, cumulativeOffset, insertionIndex + (if isSizeOne then 1 else 0))
         in case (getConstantIntValue ce (offset d), getConstantIntValue ce (stride d)) of
              (Some off, Some str) \<Rightarrow>
                if isSizeOne then (kept, cumulativeOffset + off * str, insertionIndex) else keep
            | _ \<Rightarrow> keep))"

text \<open>\<open>None\<close> is \<open>failure()\<close>: the pattern is left as it is.\<close>

definition foldUnitDims :: "cenv \<Rightarrow> pattern \<Rightarrow> pattern option" where
  "foldUnitDims ce ds =
     (case splitUnitDims ce ds of (kept, cumulativeOffset, insertionIndex) \<Rightarrow>
        if length kept = length ds then None
        else case mergeOffset ce cumulativeOffset kept of
          Some merged \<Rightarrow> Some merged
        | None \<Rightarrow>
            if length kept + 1 = length ds then None
            else Some (insert_at insertionIndex (Dim (Attr 1) (Attr 1) (Attr cumulativeOffset)) kept))"

definition simplified :: "cenv \<Rightarrow> OpFoldResult \<Rightarrow> OpFoldResult" where
  "simplified ce x = (case getConstantIntValue ce x of Some c \<Rightarrow> Attr c | None \<Rightarrow> x)"

definition simplifiedDim :: "cenv \<Rightarrow> dim \<Rightarrow> dim" where
  "simplifiedDim ce d = Dim (simplified ce (offset d)) (simplified ce (sz d)) (simplified ce (stride d))"

definition combineAccessPatterns ::
  "cenv \<Rightarrow> pattern \<Rightarrow> pattern \<Rightarrow> (nat \<Rightarrow> bool) \<Rightarrow> pattern result" where
  "combineAccessPatterns ce as bs exceedsNbDims =
     res_bind (mergeInFirst ce (map (simplifiedDim ce) as) (map (simplifiedDim ce) bs)) (\<lambda>combined.
       case combined of
         None \<Rightarrow> Inl Failure
       | Some new \<Rightarrow>
           (let folded = (case foldUnitDims ce new of Some f \<Rightarrow> f | None \<Rightarrow> new)
            in if exceedsNbDims (length folded) then Inl Failure else Inr folded))"

section \<open>Address sequences\<close>

text \<open>
  The addresses of a pattern are those of its shape (sizes and strides), moved by the global
  offset.
\<close>

type_synonym shape = "(int \<times> int) list"

fun base :: "shape \<Rightarrow> int list" where
  "base [] = [0]"
| "base ((s, t) # r) = concat (map (\<lambda>i. map (\<lambda>a. i * t + a) (base r)) (upto_size s))"

definition shape_of :: "(nat \<Rightarrow> int) \<Rightarrow> pattern \<Rightarrow> shape" where
  "shape_of \<rho> ds = map (\<lambda>d. (evl \<rho> (sz d), evl \<rho> (stride d))) ds"

definition goff :: "(nat \<Rightarrow> int) \<Rightarrow> pattern \<Rightarrow> int" where
  "goff \<rho> ds = sum_list (map (\<lambda>d. evl \<rho> (offset d) * evl \<rho> (stride d)) ds)"

lemma shape_of_simps [simp]:
  "shape_of \<rho> [] = []"
  "shape_of \<rho> (d # ds) = (evl \<rho> (sz d), evl \<rho> (stride d)) # shape_of \<rho> ds"
  "shape_of \<rho> (xs @ ys) = shape_of \<rho> xs @ shape_of \<rho> ys"
  "length (shape_of \<rho> ds) = length ds"
  by (simp_all add: shape_of_def)

lemma goff_simps [simp]:
  "goff \<rho> [] = 0"
  "goff \<rho> (d # ds) = evl \<rho> (offset d) * evl \<rho> (stride d) + goff \<rho> ds"
  "goff \<rho> (xs @ ys) = goff \<rho> xs + goff \<rho> ys"
  by (simp_all add: goff_def)

lemma addrs_base: "addrs \<rho> ds = map (\<lambda>a. goff \<rho> ds + a) (base (shape_of \<rho> ds))"
  by (induction ds) (simp_all add: map_concat comp_def algebra_simps)

lemma upto_size_add: "0 \<le> a \<Longrightarrow> 0 \<le> b \<Longrightarrow> upto_size (a + b) = upto_size a @ map (\<lambda>i. a + i) (upto_size b)"
proof -
  assume "0 \<le> a" "0 \<le> b"
  then have "[0 ..< nat (a + b)] = [0 ..< nat a] @ map (\<lambda>i. i + nat a) [0 ..< nat b]"
    by (simp add: nat_add_distrib upt_add_eq_append [of 0, simplified] map_add_upt add.commute)
  then show ?thesis using \<open>0 \<le> a\<close> by (simp add: upto_size_def comp_def add.commute)
qed

lemma upto_size_small [simp]: "upto_size 0 = []" "upto_size 1 = [0]" "upto_size 2 = [0, 1]"
  by (simp_all add: upto_size_def upt_rec)

lemma map_plus_0 [simp]: "map ((+) (0 :: int)) xs = xs"
  by (simp add: map_idI)

lemma base_unit [addr_simps]: "base ((1, t) # r) = base r"
  by simp

lemma base_unit_mid [addr_simps]: "base (p @ (1, t) # r) = base (p @ r)"
  by (induction p) (auto simp: map_concat)

lemma base_two: "base ((2, t) # r) = base r @ map (\<lambda>a. t + a) (base r)"
  by simp

lemma base_extend:
  "0 \<le> a \<Longrightarrow> 0 \<le> b \<Longrightarrow>
     base ((a + b, t) # r) = base ((a, t) # r) @ map (\<lambda>x. a * t + x) (base ((b, t) # r))"
  by (simp add: upto_size_add map_concat comp_def distrib_right add.assoc [symmetric])

lemma base_linear:
  assumes "0 \<le> m" and "0 \<le> s"
  shows "base ((m, t * s) # (s, t) # r) = base ((m * s, t) # r)"
  using assms(1)
proof (induction m rule: int_ge_induct)
  case base
  then show ?case by simp
next
  case (step m)
  have "base ((m + 1, t * s) # (s, t) # r)
      = base ((m, t * s) # (s, t) # r) @ map (\<lambda>x. m * (t * s) + x) (base ((s, t) # r))"
    using base_extend [of m 1 "t * s" "(s, t) # r"] step.hyps by (simp add: base_unit)
  also have "\<dots> = base ((m * s + s, t) # r)"
    using base_extend [of "m * s" s t r] step assms(2) by (simp add: algebra_simps)
  finally show ?case by (simp add: algebra_simps)
qed

lemma agrees_const: "agrees ce \<rho> \<Longrightarrow> getConstantIntValue ce x = Some i \<Longrightarrow> evl \<rho> x = i"
  by (cases x) (auto simp: agrees_def)

lemma smod_zero_sdiv: "b \<noteq> 0 \<Longrightarrow> (a :: int) smod b = 0 \<Longrightarrow> (a sdiv b) * b = a"
  by (metis add.right_neutral signed_division_class.sdiv_mult_smod_eq mult.commute)

section \<open>Matching strides\<close>

lemma matchDim_sem:
  assumes "agrees ce \<rho>" and "matchDim ce d y = Inr d'"
  shows "sz d' = sz d \<and> evl \<rho> (offset d') * evl \<rho> (stride d') = evl \<rho> (offset d) * evl \<rho> (stride d)
    \<and> (evl \<rho> (stride d') = evl \<rho> (stride d) \<or> evl \<rho> (sz d) = 1)"
proof (cases "d' = d")
  case False
  with assms(2) obtain off sX sY where c: "getConstantIntValue ce (offset d) = Some off"
      "getConstantIntValue ce (stride d) = Some sX" "getConstantIntValue ce y = Some sY"
      "getConstantIntValue ce (sz d) = Some 1" "sY \<noteq> 0" "(off * sX) smod sY = 0"
      "d' = Dim (Attr ((off * sX) sdiv sY)) (sz d) y"
    unfolding matchDim_def by (auto split: if_splits option.splits simp: Let_def)
  note v = c(1-4) [THEN agrees_const [OF assms(1)]]
  from smod_zero_sdiv [OF c(5,6)] v c(7) show ?thesis by simp
qed simp

text \<open>Two shapes that visit the same addresses whatever surrounds them.\<close>

definition same_dim :: "(int \<times> int) \<Rightarrow> (int \<times> int) \<Rightarrow> bool" where
  "same_dim p q \<longleftrightarrow> fst p = fst q \<and> (snd p = snd q \<or> fst p = 1)"

lemma base_same_dims: "list_all2 same_dim p q \<Longrightarrow> base p = base q"
proof (induction rule: list_all2_induct)
  case (Cons x xs y ys)
  then show ?case by (cases x; cases y) (auto simp: same_dim_def)
qed simp

lemma matchStrides_sem:
  assumes "agrees ce \<rho>" and "matchStridesOfUnitDims ce ds ys = Inr ds'"
  shows "goff \<rho> ds' = goff \<rho> ds \<and> list_all2 same_dim (shape_of \<rho> ds') (shape_of \<rho> ds) \<and> map sz ds' = map sz ds"
  using assms(2)
proof (induction ds arbitrary: ys ds')
  case (Cons d ds)
  then obtain y ys' d1 ds1 where m: "matchDim ce d y = Inr d1" "matchStridesOfUnitDims ce ds ys' = Inr ds1"
      "ds' = d1 # ds1" by (cases ys) auto
  from matchDim_sem [OF assms(1) m(1)] Cons.IH [OF m(2)] m(3) show ?case by (auto simp: same_dim_def)
qed simp

lemma matchStrides_addrs:
  assumes "agrees ce \<rho>" and "matchStridesOfUnitDims ce ds ys = Inr ds'"
  shows "addrs \<rho> ds' = addrs \<rho> ds"
  using matchStrides_sem [OF assms] base_same_dims by (auto simp: addrs_base)

section \<open>Global offsets\<close>

text \<open>The terms the bookkeeping of \<open>getGlobalOffsetDifference\<close> stands for.\<close>

definition term_sum :: "('k \<Rightarrow> int) \<Rightarrow> ('k \<times> int) list \<Rightarrow> int" where
  "term_sum f m = sum_list (map (\<lambda>p. f (fst p) * snd p) m)"

definition pair_val :: "(nat \<Rightarrow> int) \<Rightarrow> nat \<times> nat \<Rightarrow> int" where
  "pair_val \<rho> p = \<rho> (fst p) * \<rho> (snd p)"

definition go_sum :: "(nat \<Rightarrow> int) \<Rightarrow> goState \<Rightarrow> int" where
  "go_sum \<rho> st = globalOffsetDifference st + term_sum \<rho> (valToConst st) + term_sum (pair_val \<rho>) (valPairs st)"

lemma term_sum_bump: "term_sum f (bump k c m) = f k * c + term_sum f m"
  by (induction k c m rule: bump.induct) (auto simp: term_sum_def algebra_simps)

lemma term_sum_zero: "\<forall>x \<in> set m. snd x = 0 \<Longrightarrow> term_sum f m = 0"
  by (induction m) (auto simp: term_sum_def)

lemma term_sum_incrementValPairs:
  "term_sum (pair_val \<rho>) (incrementValPairs v w c m) = \<rho> v * \<rho> w * c + term_sum (pair_val \<rho>) m"
  by (simp add: incrementValPairs_def term_sum_bump pair_val_def)

lemma go_sum_update:
  assumes "agrees ce \<rho>"
  shows "go_sum \<rho> (updateGlobalOffsetDifference ce off str sign st)
    = go_sum \<rho> st + sign * (evl \<rho> off * evl \<rho> str)"
proof -
  have c: "ce v = Some i \<Longrightarrow> \<rho> v = i" for v i using assms by (simp add: agrees_def)
  show ?thesis
    by (cases off; cases str)
       (auto simp: updateGlobalOffsetDifference_def go_sum_def term_sum_incrementValPairs
         term_sum_bump c algebra_simps split: option.splits)
qed

lemma go_sum_loop:
  assumes "agrees ce \<rho>"
  shows "go_sum \<rho> (goLoop ce xys st) = go_sum \<rho> st + goff \<rho> (map fst xys) - goff \<rho> (map snd xys)"
  by (induction xys arbitrary: st) (auto simp: go_sum_update [OF assms])

lemma globalOffsetDifference_sem:
  assumes "agrees ce \<rho>" and "length xs = length ys" and "getGlobalOffsetDifference ce xs ys = Some \<delta>"
  shows "goff \<rho> xs - goff \<rho> ys = \<delta>"
proof -
  define st where "st = goLoop ce (zip xs ys) \<lparr>valToConst = [], valPairs = [], globalOffsetDifference = 0\<rparr>"
  from assms(3) have z: "\<forall>x \<in> set (valToConst st). snd x = 0" "\<forall>x \<in> set (valPairs st). snd x = 0"
      "globalOffsetDifference st = \<delta>"
    by (auto simp: getGlobalOffsetDifference_def Let_def list_ex_iff simp flip: st_def split: if_splits)
  have "go_sum \<rho> st = \<delta>" using z by (simp add: go_sum_def term_sum_zero)
  moreover have "go_sum \<rho> st = goff \<rho> xs - goff \<rho> ys"
    unfolding st_def go_sum_loop [OF assms(1)] using assms(2) by (simp add: go_sum_def term_sum_def)
  ultimately show ?thesis by simp
qed

section \<open>Unit dimensions\<close>

lemma shape_insert_at: "shape_of \<rho> (insert_at i d ds)
    = shape_of \<rho> (take i ds) @ (evl \<rho> (sz d), evl \<rho> (stride d)) # shape_of \<rho> (drop i ds)"
  by (simp add: insert_at_def)

lemma shape_take_drop: "shape_of \<rho> (take i ds) @ shape_of \<rho> (drop i ds) = shape_of \<rho> ds"
  by (metis append_take_drop_id shape_of_simps(3))

lemma goff_take_drop: "goff \<rho> (take i ds) + goff \<rho> (drop i ds) = goff \<rho> ds"
  by (metis append_take_drop_id goff_simps(3))

lemma addrs_insert_unit:
  "evl \<rho> (sz d) = 1 \<Longrightarrow>
     addrs \<rho> (insert_at i d ds) = map (\<lambda>a. evl \<rho> (offset d) * evl \<rho> (stride d) + a) (addrs \<rho> ds)"
  using goff_take_drop [of \<rho> i ds]
  by (simp add: addrs_base shape_insert_at base_unit_mid shape_take_drop comp_def)
     (simp add: insert_at_def algebra_simps)

lemma mergeOffset_sem:
  assumes "agrees ce \<rho>" and "mergeOffset ce off ds = Some ds'"
  shows "goff \<rho> ds' = goff \<rho> ds + off \<and> shape_of \<rho> ds' = shape_of \<rho> ds \<and> length ds' = length ds"
  using assms(2)
proof (induction ds arbitrary: ds')
  case Nil
  then show ?case by (simp split: if_splits)
next
  case (Cons d ds)
  show ?case
  proof (cases "off = 0")
    case False
    show ?thesis
    proof (cases "\<exists>o1 t. getConstantIntValue ce (offset d) = Some o1 \<and> getConstantIntValue ce (stride d) = Some t
        \<and> t \<noteq> 0 \<and> off smod t = 0")
      case True
      then obtain o1 t where c: "getConstantIntValue ce (offset d) = Some o1"
          "getConstantIntValue ce (stride d) = Some t" "t \<noteq> 0" "off smod t = 0" by blast
      with Cons.prems False have "ds' = Dim (Attr (o1 + off sdiv t)) (sz d) (stride d) # ds" by simp
      moreover have "evl \<rho> (offset d) = o1" "evl \<rho> (stride d) = t"
        using c agrees_const [OF assms(1)] by blast+
      ultimately show ?thesis using smod_zero_sdiv [OF c(3,4)] by (simp add: distrib_right)
    next
      case no: False
      then obtain ds1 where "mergeOffset ce off ds = Some ds1" "ds' = d # ds1"
        using Cons.prems False by (auto simp: Let_def split: option.splits if_splits)
      with Cons.IH show ?thesis by simp
    qed
  qed (use Cons.prems in simp)
qed

lemma splitUnitDims_sem:
  assumes "agrees ce \<rho>" and "splitUnitDims ce ds = (kept, cum, idx)"
  shows "goff \<rho> kept + cum = goff \<rho> ds \<and> base (shape_of \<rho> kept) = base (shape_of \<rho> ds)
    \<and> length kept \<le> length ds \<and> idx \<le> length kept"
  using assms(2)
proof (induction ds arbitrary: kept cum idx)
  case (Cons d ds)
  obtain k c i where r: "splitUnitDims ce ds = (k, c, i)" by (metis prod_cases3)
  note ih = Cons.IH [OF r]
  show ?case
  proof (cases "\<exists>o1 t. getConstantIntValue ce (offset d) = Some o1 \<and> getConstantIntValue ce (stride d) = Some t
      \<and> getConstantIntValue ce (sz d) = Some 1")
    case True
    then obtain o1 t where t: "getConstantIntValue ce (offset d) = Some o1"
        "getConstantIntValue ce (stride d) = Some t" "getConstantIntValue ce (sz d) = Some 1" by blast
    note v = t [THEN agrees_const [OF assms(1)]]
    from t r Cons.prems have "kept = k" "cum = c + o1 * t" "idx = i" by auto
    with ih v show ?thesis by auto
  next
    case False
    with r Cons.prems have "kept = d # k" "cum = c" "idx \<le> Suc i"
      by (auto simp: Let_def split: option.splits if_splits)
    with ih show ?thesis by auto
  qed
qed simp

lemma foldUnitDims_sem:
  assumes "agrees ce \<rho>" and "foldUnitDims ce ds = Some ds'"
  shows "addrs \<rho> ds' = addrs \<rho> ds \<and> length ds' < length ds"
proof -
  obtain kept cum idx where s: "splitUnitDims ce ds = (kept, cum, idx)" by (metis prod_cases3)
  note sem = splitUnitDims_sem [OF assms(1) s]
  from assms(2) s have ne: "length kept \<noteq> length ds" by (auto simp: foldUnitDims_def split: if_splits)
  with sem have lt: "length kept < length ds" by linarith
  show ?thesis
  proof (cases "mergeOffset ce cum kept")
    case (Some m)
    with assms(2) s ne have "ds' = m" by (simp add: foldUnitDims_def)
    with mergeOffset_sem [OF assms(1) Some] sem lt show ?thesis by (simp add: addrs_base algebra_simps)
  next
    case None
    with assms(2) s ne have "length kept + 1 \<noteq> length ds"
      and new: "ds' = insert_at idx (Dim (Attr 1) (Attr 1) (Attr cum)) kept"
      by (auto simp: foldUnitDims_def split: if_splits)
    with lt sem have "length ds' < length ds" by (simp add: insert_at_def)
    moreover have "addrs \<rho> ds' = map (\<lambda>a. cum + a) (addrs \<rho> kept)"
      unfolding new by (simp add: addrs_insert_unit)
    ultimately show ?thesis using sem by (simp add: addrs_base comp_def add.assoc [symmetric] add.commute [of cum])
  qed
qed

section \<open>Combining patterns\<close>

lemma evl_simplified: "agrees ce \<rho> \<Longrightarrow> evl \<rho> (simplified ce x) = evl \<rho> x"
  by (auto simp: simplified_def agrees_const split: option.split)

lemma simplifiedDim_sem:
  assumes "agrees ce \<rho>"
  shows "addrs \<rho> (map (simplifiedDim ce) ds) = addrs \<rho> ds"
    and "sizes_ok \<rho> (map (simplifiedDim ce) ds) = sizes_ok \<rho> ds"
  by (induction ds) (simp_all add: simplifiedDim_def evl_simplified [OF assms] sizes_ok_def)

lemma shape_of_zip: "shape_of \<rho> xs = zip (map (evl \<rho>) (map sz xs)) (map (evl \<rho>) (map stride xs))"
  by (induction xs) simp_all

lemma shape_of_cong: "map sz xs = map sz ys \<Longrightarrow> map stride xs = map stride ys \<Longrightarrow> shape_of \<rho> xs = shape_of \<rho> ys"
  unfolding shape_of_zip by simp

lemma mergeMatched_sem:
  assumes "agrees ce \<rho>" and "mergeMatched ce as bs = Some new"
    and "as \<noteq> []" and "bs \<noteq> []" and "sizes_ok \<rho> as" and "sizes_ok \<rho> bs"
  shows "addrs \<rho> new = addrs \<rho> as @ addrs \<rho> bs"
proof -
  obtain a0 as' b0 bs' where ab: "as = a0 # as'" "bs = b0 # bs'" using assms(3,4) by (meson list.exhaust)
  from assms(2) obtain \<delta> where str: "map stride as = map stride bs" "map sz as' = map sz bs'"
    and \<delta>: "getGlobalOffsetDifference ce bs as = Some \<delta>"
    using ab by (auto simp: mergeMatched_def split: if_splits option.splits)
  have len: "length bs = length as" using str(1) by (metis length_map)
  have goff: "goff \<rho> bs = goff \<rho> as + \<delta>" using globalOffsetDifference_sem [OF assms(1) len \<delta>] by simp
  have st0: "stride a0 = stride b0" and tails: "shape_of \<rho> as' = shape_of \<rho> bs'"
  proof -
    show "stride a0 = stride b0" using str(1) ab by simp
    have "map stride as' = map stride bs'" using str(1) ab by simp
    with str(2) show "shape_of \<rho> as' = shape_of \<rho> bs'" by (rule shape_of_cong)
  qed
  let ?seamless = "\<lambda>cs ca cb. getConstantIntValue ce (stride a0) = Some cs \<and> getConstantIntValue ce (sz a0) = Some ca
      \<and> getConstantIntValue ce (sz b0) = Some cb \<and> \<delta> = ca * cs"
  consider (extend) cs ca cb where "?seamless cs ca cb" "new = Dim (offset a0) (Attr (ca + cb)) (stride a0) # as'"
    | (widen) i where "sz a0 = sz b0" "new = insert_at i (Dim (Attr 0) (Attr 2) (Attr \<delta>)) as"
      "i = 0 \<or> i = 1 \<and> getConstantIntValue ce (sz a0) = Some 1"
  proof (cases "\<exists>cs ca cb. ?seamless cs ca cb")
    case True
    then obtain cs ca cb where s: "?seamless cs ca cb" by blast
    with assms(2) str \<delta> have "new = Dim (offset a0) (Attr (ca + cb)) (stride a0) # as'"
      unfolding mergeMatched_def ab by simp
    with s show thesis by (rule extend)
  next
    case False
    with assms(2) str \<delta> have "(if sz a0 = sz b0 \<and> \<delta> \<ge> 0 then
        Some (insert_at (if getConstantIntValue ce (sz a0) = Some 1 then 1 else 0)
          (Dim (Attr 0) (Attr 2) (Attr \<delta>)) as) else None) = Some new"
      unfolding mergeMatched_def ab by (simp add: Let_def split: option.splits if_splits)
    then show thesis by (intro widen [of "if getConstantIntValue ce (sz a0) = Some 1 then 1 else 0"])
        (auto split: if_splits)
  qed
  then show ?thesis
  proof cases
    case extend
    have v: "evl \<rho> (stride a0) = cs" "evl \<rho> (sz a0) = ca" "evl \<rho> (sz b0) = cb"
      using extend(1) agrees_const [OF assms(1)] by blast+
    have nn: "0 \<le> ca" "0 \<le> cb" using assms(5,6) ab v by (auto simp: sizes_ok_def)
    have "shape_of \<rho> new = (ca + cb, cs) # shape_of \<rho> as'" "shape_of \<rho> as = (ca, cs) # shape_of \<rho> as'"
        "shape_of \<rho> bs = (cb, cs) # shape_of \<rho> as'" "goff \<rho> new = goff \<rho> as"
      using v st0 tails ab extend(2) by simp_all
    with base_extend [OF nn, of cs "shape_of \<rho> as'"] goff extend(1)
    show ?thesis unfolding addrs_base by (simp only: map_append map_map comp_def) (simp only: add.assoc [symmetric])
  next
    case widen
    have shapes: "shape_of \<rho> bs = shape_of \<rho> as" using ab st0 tails widen(1) by simp
    have "base (shape_of \<rho> new) = base (shape_of \<rho> as) @ map (\<lambda>a. \<delta> + a) (base (shape_of \<rho> as))"
    proof (cases "i = 0")
      case True
      with widen(2) show ?thesis by (simp add: insert_at_def)
    next
      case False
      with widen(3) have "i = 1" "evl \<rho> (sz a0) = 1" using agrees_const [OF assms(1)] by auto
      with widen(2) ab show ?thesis by (simp add: insert_at_def)
    qed
    moreover have "goff \<rho> new = goff \<rho> as"
      using widen(2) goff_take_drop [of \<rho> i as] by (simp add: insert_at_def)
    ultimately show ?thesis using shapes goff
      by (simp add: addrs_base comp_def add.assoc [symmetric])
  qed
qed

lemma insertUnitDimension_sem:
  "addrs \<rho> (insertUnitDimension xs ys) = addrs \<rho> xs"
  "sizes_ok \<rho> (insertUnitDimension xs ys) = sizes_ok \<rho> xs"
  "insertUnitDimension xs ys \<noteq> []"
proof -
  show "addrs \<rho> (insertUnitDimension xs ys) = addrs \<rho> xs"
    by (simp add: insertUnitDimension_def Let_def addrs_insert_unit)
  have "set xs = set (take i xs) \<union> set (drop i xs)" for i by (metis append_take_drop_id set_append)
  then show "sizes_ok \<rho> (insertUnitDimension xs ys) = sizes_ok \<rho> xs"
    unfolding insertUnitDimension_def Let_def insert_at_def sizes_ok_def by (simp add: ball_Un)
  show "insertUnitDimension xs ys \<noteq> []" by (simp add: insertUnitDimension_def Let_def insert_at_def)
qed

lemma sizes_ok_cong: "map sz xs = map sz ys \<Longrightarrow> sizes_ok \<rho> xs = sizes_ok \<rho> ys"
proof -
  assume m: "map sz xs = map sz ys"
  have "sizes_ok \<rho> zs \<longleftrightarrow> (\<forall>s \<in> set (map sz zs). 0 \<le> evl \<rho> s)" for zs by (simp add: sizes_ok_def)
  then show ?thesis by (simp only: m)
qed

lemma mergeInFirst_sem:
  assumes "agrees ce \<rho>" and "mergeInFirst ce as bs = Inr (Some new)"
    and "as \<noteq> []" and "bs \<noteq> []" and "sizes_ok \<rho> as" and "sizes_ok \<rho> bs"
  shows "addrs \<rho> new = addrs \<rho> as @ addrs \<rho> bs"
proof -
  define as1 where "as1 = (if length as + 1 = length bs then insertUnitDimension as (map stride bs) else as)"
  define bs1 where "bs1 = (if length bs + 1 = length as then insertUnitDimension bs (map stride as) else bs)"
  have 1: "addrs \<rho> as1 = addrs \<rho> as" "addrs \<rho> bs1 = addrs \<rho> bs" "as1 \<noteq> []" "bs1 \<noteq> []"
      "sizes_ok \<rho> as1" "sizes_ok \<rho> bs1"
    using assms(3-6) by (simp_all add: as1_def bs1_def insertUnitDimension_sem)
  from assms(2,3) obtain as2 bs2 where 2: "matchStridesOfUnitDims ce as1 (map stride bs1) = Inr as2"
      "matchStridesOfUnitDims ce bs1 (map stride as2) = Inr bs2" "mergeMatched ce as2 bs2 = Some new"
    unfolding mergeInFirst_def Let_def as1_def [symmetric] bs1_def [symmetric] by (auto split: if_splits)
  have 3: "map sz as2 = map sz as1" "map sz bs2 = map sz bs1"
    using matchStrides_sem [OF assms(1) 2(1)] matchStrides_sem [OF assms(1) 2(2)] by auto
  then have "as2 \<noteq> []" "bs2 \<noteq> []" using 1(3,4) by auto
  moreover have "sizes_ok \<rho> as2" "sizes_ok \<rho> bs2" using 1(5,6) 3 [THEN sizes_ok_cong] by simp_all
  ultimately show ?thesis
    using mergeMatched_sem [OF assms(1) 2(3)] matchStrides_addrs [OF assms(1)] 2(1,2) 1(1,2) by simp
qed

section \<open>Properties\<close>

text \<open>
  C30. When \<open>combineAccessPatterns\<close> succeeds on two patterns, the combined pattern visits the
  addresses of the first and then those of the second, for every value of the dynamic
  offsets, sizes and strides, and the number of its dimensions is accepted.
\<close>

theorem combine_concatenates:
  assumes "combineAccessPatterns ce as bs exceedsNbDims = Inr new" and "as \<noteq> []" and "bs \<noteq> []"
    and "agrees ce \<rho>" and "sizes_ok \<rho> as" and "sizes_ok \<rho> bs"
  shows "addrs \<rho> new = addrs \<rho> as @ addrs \<rho> bs \<and> \<not> exceedsNbDims (length new)"
proof -
  let ?s = "map (simplifiedDim ce)"
  from assms(1) obtain c where c: "mergeInFirst ce (?s as) (?s bs) = Inr c"
    by (auto simp: combineAccessPatterns_def)
  with assms(1) obtain m where "c = Some m"
    by (cases c) (simp_all add: combineAccessPatterns_def)
  with c have m: "mergeInFirst ce (?s as) (?s bs) = Inr (Some m)" by simp
  with assms(1) have new: "new = (case foldUnitDims ce m of Some f \<Rightarrow> f | None \<Rightarrow> m)" "\<not> exceedsNbDims (length new)"
    by (simp_all add: combineAccessPatterns_def Let_def split: if_splits)
  have "addrs \<rho> m = addrs \<rho> as @ addrs \<rho> bs"
    using mergeInFirst_sem [OF assms(4) m] assms(2,3,5,6) simplifiedDim_sem [OF assms(4)] by simp
  moreover have "addrs \<rho> new = addrs \<rho> m"
    using new(1) foldUnitDims_sem [OF assms(4)] by (auto split: option.splits)
  ultimately show ?thesis using new(2) by simp
qed

definition exampleA :: pattern where
  "exampleA = [Dim (Attr 0) (Attr 2) (Attr 8), Dim (Val 0) (Attr 4) (Attr 1)]"

definition exampleB :: pattern where
  "exampleB = [Dim (Attr 2) (Attr 3) (Attr 8), Dim (Val 0) (Attr 4) (Attr 1)]"

theorem combine_concatenates_witness:
  "\<exists>new. combineAccessPatterns (\<lambda>_. None) exampleA exampleB (\<lambda>n. n > 3) = Inr new
     \<and> addrs (\<lambda>_. 7) new = addrs (\<lambda>_. 7) exampleA @ addrs (\<lambda>_. 7) exampleB"
proof -
  have c: "combineAccessPatterns (\<lambda>_. None) exampleA exampleB (\<lambda>n. n > 3)
      = Inr [Dim (Attr 0) (Attr 5) (Attr 8), Dim (Val 0) (Attr 4) (Attr 1)]"
    by (simp add: combineAccessPatterns_def exampleA_def exampleB_def simplifiedDim_def simplified_def
        mergeInFirst_def matchDim_def mergeMatched_def getGlobalOffsetDifference_def
        updateGlobalOffsetDifference_def foldUnitDims_def)
  have "agrees (\<lambda>_. None) (\<lambda>_. 7)" "sizes_ok (\<lambda>_. 7) exampleA" "sizes_ok (\<lambda>_. 7) exampleB"
    by (simp_all add: agrees_def sizes_ok_def exampleA_def exampleB_def)
  with combine_concatenates [OF c] c show ?thesis by (simp add: exampleA_def exampleB_def)
qed

text \<open>
  \<open>foldUnitDims\<close>, when it succeeds, lowers the rank and visits the same addresses in the
  same order.
\<close>

theorem fold_unit_dims_preserves:
  assumes "foldUnitDims ce ds = Some ds'" and "agrees ce \<rho>"
  shows "addrs \<rho> ds' = addrs \<rho> ds \<and> length ds' < length ds"
  using foldUnitDims_sem [OF assms(2,1)] .

theorem fold_unit_dims_preserves_witness:
  "foldUnitDims (\<lambda>_. None) [Dim (Attr 3) (Attr 1) (Attr 4), Dim (Attr 1) (Attr 1) (Attr 6), Dim (Attr 15) (Attr 10) (Attr 10)]
     = Some [Dim (Attr 1) (Attr 1) (Attr 18), Dim (Attr 15) (Attr 10) (Attr 10)]
   \<and> addrs (\<lambda>_. 0) [Dim (Attr 1) (Attr 1) (Attr 18), Dim (Attr 15) (Attr 10) (Attr 10)]
     = addrs (\<lambda>_. 0) [Dim (Attr 3) (Attr 1) (Attr 4), Dim (Attr 1) (Attr 1) (Attr 6), Dim (Attr 15) (Attr 10) (Attr 10)]"
proof -
  have f: "foldUnitDims (\<lambda>_. None) [Dim (Attr 3) (Attr 1) (Attr 4), Dim (Attr 1) (Attr 1) (Attr 6), Dim (Attr 15) (Attr 10) (Attr 10)]
     = Some [Dim (Attr 1) (Attr 1) (Attr 18), Dim (Attr 15) (Attr 10) (Attr 10)]"
    by (simp add: foldUnitDims_def insert_at_def)
  have "agrees (\<lambda>_. None) (\<lambda>_. 0)" by (simp add: agrees_def)
  from fold_unit_dims_preserves [OF f this] f show ?thesis by simp
qed

text \<open>
  Combining a pattern whose first dimension is a single row with one that repeats its rows
  (stride zero) divides by zero: the matching of strides takes a remainder by the other
  pattern's stride without looking at it.
\<close>

theorem combine_divides_by_zero:
  "combineAccessPatterns (\<lambda>_. None) [Dim (Attr 0) (Attr 1) (Attr 64), Dim (Attr 0) (Attr 8) (Attr 1)]
     [Dim (Attr 0) (Attr 4) (Attr 0), Dim (Attr 0) (Attr 8) (Attr 1)] exceedsNbDims = Inl DivByZero"
  by (simp add: combineAccessPatterns_def simplifiedDim_def simplified_def mergeInFirst_def matchDim_def)

end
