(* ===== verification/Access_Folding.thy ===== *)
theory Access_Folding
  imports Access_Pattern
begin

text \<open>
  The rewrites of a single access pattern in \<open>Transforms/Utils/AMDAIEDmaUtils.cpp\<close>: splitting a
  dimension that is too large, folding linear dimensions, repetition counts and single
  dimensions. The locale \<open>pattern_pass\<close> is their contract (same addresses, sizes stay
  non-negative); every rewrite is an interpretation of it, and sequences of rewrites are
  covered by induction.
\<close>

section \<open>Model\<close>

text \<open>The \<open>for\<close> loop of \<open>findFactorResultingInSmallerSize\<close>.\<close>

function factorLoop :: "int \<Rightarrow> int \<Rightarrow> int \<Rightarrow> int" where
  "factorLoop siz maxSize i =
     (if i \<le> siz sdiv 2 then
        (if siz smod i = 0 \<and> siz sdiv i \<le> maxSize then i else factorLoop siz maxSize (i + 1))
      else siz)"
  by auto
termination
  by (relation "measure (\<lambda>(siz, maxSize, i). nat (siz sdiv 2 + 1 - i))") auto

declare factorLoop.simps [simp del]

definition findFactorResultingInSmallerSize :: "int \<Rightarrow> int \<Rightarrow> int" where
  "findFactorResultingInSmallerSize siz maxSize =
     (if siz = 0 \<or> maxSize = 0 \<or> siz = 1 \<or> maxSize = 1 then 1
      else if siz \<le> maxSize then 1
      else factorLoop siz maxSize 2)"

lemma sdiv_pos: "0 \<le> a \<Longrightarrow> 0 < b \<Longrightarrow> (a :: int) sdiv b = a div b"
  by (cases "a = 0") (auto simp: signed_divide_int_def sgn_if)

lemma smod_pos: "0 \<le> a \<Longrightarrow> 0 < b \<Longrightarrow> (a :: int) smod b = a mod b"
  by (cases "a = 0") (auto simp: signed_modulo_int_def sgn_if)

lemma factorLoop_cases:
  assumes "2 \<le> i"
  shows "factorLoop siz maxSize i = siz
    \<or> (i \<le> factorLoop siz maxSize i \<and> factorLoop siz maxSize i \<le> siz sdiv 2
       \<and> siz smod factorLoop siz maxSize i = 0 \<and> siz sdiv factorLoop siz maxSize i \<le> maxSize
       \<and> (\<forall>k. i \<le> k \<and> k < factorLoop siz maxSize i \<longrightarrow> \<not> (siz smod k = 0 \<and> siz sdiv k \<le> maxSize)))"
  using assms
proof (induction siz maxSize i rule: factorLoop.induct)
  case (1 siz maxSize i)
  show ?case
  proof (cases "i \<le> siz sdiv 2 \<and> \<not> (siz smod i = 0 \<and> siz sdiv i \<le> maxSize)")
    case True
    then have eq: "factorLoop siz maxSize i = factorLoop siz maxSize (i + 1)"
      by (subst factorLoop.simps) auto
    have "i \<le> k \<longleftrightarrow> k = i \<or> i + 1 \<le> k" for k by linarith
    with 1(1) True 1(2) show ?thesis unfolding eq by auto
  next
    case False
    then show ?thesis by (subst factorLoop.simps) (auto simp: factorLoop.simps [of siz maxSize i])
  qed
qed

lemma findFactor_smaller:
  "findFactorResultingInSmallerSize siz maxSize \<noteq> 1 \<Longrightarrow> findFactorResultingInSmallerSize siz maxSize \<noteq> siz \<Longrightarrow>
     2 \<le> findFactorResultingInSmallerSize siz maxSize
     \<and> findFactorResultingInSmallerSize siz maxSize < siz
     \<and> siz = findFactorResultingInSmallerSize siz maxSize * (siz sdiv findFactorResultingInSmallerSize siz maxSize)
     \<and> siz sdiv findFactorResultingInSmallerSize siz maxSize \<le> maxSize
     \<and> 0 \<le> siz sdiv findFactorResultingInSmallerSize siz maxSize"
proof -
  let ?f = "findFactorResultingInSmallerSize siz maxSize"
  assume "?f \<noteq> 1" "?f \<noteq> siz"
  then have "?f = factorLoop siz maxSize 2" by (auto simp: findFactorResultingInSmallerSize_def split: if_splits)
  with factorLoop_cases [of 2 siz maxSize] \<open>?f \<noteq> siz\<close>
  have f: "2 \<le> ?f" "?f \<le> siz sdiv 2" "siz smod ?f = 0" "siz sdiv ?f \<le> maxSize" by auto
  have pos: "0 < siz"
  proof (rule ccontr)
    assume "\<not> 0 < siz"
    then have "siz sdiv 2 \<le> 0" by (auto simp: signed_divide_int_def sgn_if)
    with f(1,2) show False by simp
  qed
  then have "siz sdiv 2 < siz" "siz sdiv ?f = siz div ?f" "siz smod ?f = siz mod ?f"
    using f(1) by (simp_all add: sdiv_pos smod_pos)
  with f pos show ?thesis by (auto simp: pos_imp_zdiv_nonneg_iff)
qed

text \<open>The \<open>do\<close>-\<open>while\<close> loop on one dimension; the dimensions are pushed innermost first.\<close>

function expandLoop :: "int \<Rightarrow> OpFoldResult \<Rightarrow> int \<Rightarrow> int \<Rightarrow> dim list \<times> bool" where
  "expandLoop maxSize off siz str =
     (let factor = findFactorResultingInSmallerSize siz maxSize
      in if factor = 1 \<or> factor = siz then ([Dim off (Attr siz) (Attr str)], False)
         else
           (let newSize = siz sdiv factor;
                rest = (if factor > 1 then fst (expandLoop maxSize (Attr 0) factor (str * newSize)) else [])
            in (Dim off (Attr newSize) (Attr str) # rest, True)))"
  by auto
termination
proof (relation "measure (\<lambda>(maxSize, off, siz, str). nat siz)")
  fix maxSize off siz str x xa
  assume "x = findFactorResultingInSmallerSize siz maxSize" "\<not> (x = 1 \<or> x = siz)"
    and "xa = siz sdiv x" "1 < x"
  with findFactor_smaller [of siz maxSize]
  show "((maxSize, Attr 0, x, str * xa), maxSize, off, siz, str) \<in> measure (\<lambda>(maxSize, off, siz, str). nat siz)"
    by simp
qed simp

declare expandLoop.simps [simp del]

text \<open>The result is the \<open>LogicalResult\<close> and the new pattern.\<close>

definition expandLargeDimIntoLinearDims :: "cenv \<Rightarrow> pattern \<Rightarrow> int list \<Rightarrow> (bool \<times> pattern) result" where
  "expandLargeDimIntoLinearDims ce ds maxSizes =
     (if ds = [] then Inr (False, [])
      else case (getConstantIntValues ce (map sz ds), getConstantIntValues ce (map stride ds)) of
        (Some staticSizes, Some staticStrides) \<Rightarrow>
          if length maxSizes < length ds then Inl OutOfBounds
          else
            (let pieces = map (\<lambda>(d, s, t, maxSize).
                   if t = 0 then ([Dim (offset d) (Attr s) (Attr t)], False)
                   else expandLoop maxSize (offset d) s t)
                   (zip (rev ds) (zip (rev staticSizes) (zip (rev staticStrides) (rev maxSizes))))
             in Inr (list_ex snd pieces, rev (concat (map fst pieces))))
      | _ \<Rightarrow> Inr (False, []))"

text \<open>
  One round of the loop of \<open>foldLinearDims\<close>. The head of \<open>acc\<close> is the dimension pushed last.
\<close>

definition foldLinearStep ::
  "cenv \<Rightarrow> (nat \<Rightarrow> int \<Rightarrow> bool) \<Rightarrow> dim \<Rightarrow> int \<Rightarrow> int \<Rightarrow> pattern \<Rightarrow> (bool \<times> pattern) result" where
  "foldLinearStep ce checkValidSize d newSize newStride acc =
     (case acc of
        [] \<Rightarrow> Inl OutOfBounds
      | p # rest \<Rightarrow>
          (case (getConstantIntValue ce (stride p), getConstantIntValue ce (sz p)) of
             (Some prevStride, Some prevSize) \<Rightarrow>
               if checkValidSize (length acc - 1) (newSize * prevSize) \<and> prevStride * prevSize = newStride
               then
                 (if isConstantIntValue ce (offset d) 0
                  then Inr (True, Dim (offset p) (Attr (newSize * prevSize)) (stride p) # rest)
                  else case (getConstantIntValue ce (offset d), getConstantIntValue ce (offset p)) of
                    (Some newOffset, Some prevOffset) \<Rightarrow>
                      if prevStride = 0 then Inl DivByZero
                      else Inr (True, Dim (Attr (prevOffset + (newOffset * newStride) sdiv prevStride))
                                          (Attr (newSize * prevSize)) (stride p) # rest)
                  | _ \<Rightarrow> Inr (False, d # acc))
               else Inr (False, d # acc)
           | _ \<Rightarrow> Inl Fatal))"

fun foldLinearLoop ::
  "cenv \<Rightarrow> (nat \<Rightarrow> int \<Rightarrow> bool) \<Rightarrow> (dim \<times> int \<times> int) list \<Rightarrow> bool \<times> pattern \<Rightarrow> (bool \<times> pattern) result" where
  "foldLinearLoop ce chk [] st = Inr st"
| "foldLinearLoop ce chk ((d, s, t) # todo) (found, acc) =
     res_bind (foldLinearStep ce chk d s t acc) (\<lambda>(f, acc'). foldLinearLoop ce chk todo (found \<or> f, acc'))"

definition foldLinearDims :: "cenv \<Rightarrow> (nat \<Rightarrow> int \<Rightarrow> bool) \<Rightarrow> pattern \<Rightarrow> (bool \<times> pattern) result" where
  "foldLinearDims ce checkValidSize ds =
     (if ds = [] then Inr (False, [])
      else case (getConstantIntValues ce (map sz ds), getConstantIntValues ce (map stride ds)) of
        (Some staticSizes, Some staticStrides) \<Rightarrow>
          foldLinearLoop ce checkValidSize
            (tl (zip (rev ds) (zip (rev staticSizes) (rev staticStrides)))) (False, [last ds])
      | _ \<Rightarrow> Inr (False, []))"

text \<open>\<open>foldRepetitionCount\<close> works on the sizes and strides alone.\<close>

type_synonym szst = "(OpFoldResult \<times> OpFoldResult) list"

fun foldAllRepetitions :: "cenv \<Rightarrow> szst \<Rightarrow> szst" where
  "foldAllRepetitions ce [] = []"
| "foldAllRepetitions ce ((s, t) # r) =
     (if isConstantIntValue ce t 0 then (Attr 1, t) # foldAllRepetitions ce r else (s, t) # r)"

fun foldRepetitionLoop :: "cenv \<Rightarrow> szst \<Rightarrow> int \<Rightarrow> szst result" where
  "foldRepetitionLoop ce [] repetitionCount = (if repetitionCount \<noteq> 1 then Inl Failure else Inr [])"
| "foldRepetitionLoop ce ((s, t) # r) repetitionCount =
     (if repetitionCount = 1 then Inr ((s, t) # r)
      else if \<not> isConstantIntValue ce t 0 then Inl Failure
      else case getConstantIntValue ce s of
        None \<Rightarrow> Inl Failure
      | Some siz \<Rightarrow>
          if siz \<ge> repetitionCount then
            (if repetitionCount = 0 then Inl DivByZero
             else if siz smod repetitionCount \<noteq> 0 then Inl Failure
             else Inr ((Attr (siz sdiv repetitionCount), t) # r))
          else if siz = 0 then Inl DivByZero
          else if repetitionCount smod siz \<noteq> 0 then Inl Failure
          else res_bind (foldRepetitionLoop ce r (repetitionCount sdiv siz)) (\<lambda>r'. Inr ((Attr 1, t) # r')))"

definition foldRepetitionCount :: "cenv \<Rightarrow> szst \<Rightarrow> int option \<Rightarrow> szst result" where
  "foldRepetitionCount ce ss maybeRepetitionCount =
     (case maybeRepetitionCount of
        None \<Rightarrow> Inr (foldAllRepetitions ce ss)
      | Some repetitionCount \<Rightarrow> foldRepetitionLoop ce ss repetitionCount)"

definition foldSingleDim :: "cenv \<Rightarrow> pattern \<Rightarrow> pattern option" where
  "foldSingleDim ce ds =
     (if length ds \<noteq> 1 then None
      else if \<not> isConstantIntValue ce (offset (hd ds)) 0 then None
      else if \<not> isConstantIntValue ce (stride (hd ds)) 1 then None
      else Some [])"

text \<open>The product of the sizes of the repeating dimensions, zero for an empty pattern.\<close>

fun repetitionProduct :: "cenv \<Rightarrow> szst \<Rightarrow> int option" where
  "repetitionProduct ce [] = Some 1"
| "repetitionProduct ce ((s, t) # r) =
     (if \<not> isConstantIntValue ce t 0 then repetitionProduct ce r
      else case (getConstantIntValue ce s, repetitionProduct ce r) of
        (Some siz, Some p) \<Rightarrow> Some (siz * p) | _ \<Rightarrow> None)"

definition getRepetitionCount :: "cenv \<Rightarrow> szst \<Rightarrow> int option" where
  "getRepetitionCount ce ss = (if ss = [] then Some 0 else repetitionProduct ce ss)"

section \<open>Blocks of dimensions with the same meaning\<close>

definition block_eq :: "(nat \<Rightarrow> int) \<Rightarrow> pattern \<Rightarrow> pattern \<Rightarrow> bool" where
  "block_eq \<rho> D E \<longleftrightarrow> goff \<rho> D = goff \<rho> E \<and> (\<forall>r. base (shape_of \<rho> D @ r) = base (shape_of \<rho> E @ r))"

lemma base_context: "base s = base s' \<Longrightarrow> base (p @ s) = base (p @ s')"
  by (induction p) auto

lemma block_eq_refl [simp]: "block_eq \<rho> D D"
  by (simp add: block_eq_def)

lemma block_eq_trans: "block_eq \<rho> D E \<Longrightarrow> block_eq \<rho> E F \<Longrightarrow> block_eq \<rho> D F"
  by (simp add: block_eq_def)

lemma block_eq_append:
  assumes "block_eq \<rho> D E" and "block_eq \<rho> D' E'"
  shows "block_eq \<rho> (D @ D') (E @ E')"
  using assms base_context [of "shape_of \<rho> D' @ r" "shape_of \<rho> E' @ r" for r] unfolding block_eq_def by simp

lemma block_eq_addrs: "block_eq \<rho> D E \<Longrightarrow> addrs \<rho> D = addrs \<rho> E"
  using addrs_base by (metis append.right_neutral block_eq_def)

lemma block_eq_concat:
  "(\<And>x. x \<in> set xs \<Longrightarrow> block_eq \<rho> (f x) (g x)) \<Longrightarrow> block_eq \<rho> (concat (map f xs)) (concat (map g xs))"
  by (induction xs) (auto intro: block_eq_append)

lemma block_eq_linear:
  assumes "evl \<rho> (sz d) = m" and "0 \<le> m" and "evl \<rho> (sz p) = s" and "0 \<le> s"
    and "evl \<rho> (stride p) * s = evl \<rho> (stride d)"
    and "evl \<rho> (sz q) = m * s" and "evl \<rho> (stride q) = evl \<rho> (stride p)"
    and "evl \<rho> (offset q) * evl \<rho> (stride p)
         = evl \<rho> (offset d) * evl \<rho> (stride d) + evl \<rho> (offset p) * evl \<rho> (stride p)"
  shows "block_eq \<rho> [q] [d, p]"
  using assms base_linear [OF assms(2,4), of "evl \<rho> (stride p)"]
  by (auto simp: block_eq_def simp del: base.simps)

section \<open>Splitting\<close>

lemma expandLoop_sem:
  assumes "0 \<le> siz"
  shows "block_eq \<rho> (rev (fst (expandLoop maxSize off siz str))) [Dim off (Attr siz) (Attr str)]
    \<and> sizes_ok \<rho> (fst (expandLoop maxSize off siz str))
    \<and> (snd (expandLoop maxSize off siz str) \<longrightarrow> evl \<rho> (sz (hd (fst (expandLoop maxSize off siz str)))) \<le> maxSize)"
  using assms
proof (induction maxSize off siz str rule: expandLoop.induct)
  case (1 maxSize off siz str)
  define factor where "factor = findFactorResultingInSmallerSize siz maxSize"
  show ?case
  proof (cases "factor = 1 \<or> factor = siz")
    case True
    then show ?thesis using "1.prems"
      by (subst (1 2 3 4) expandLoop.simps) (auto simp: Let_def factor_def sizes_ok_def)
  next
    case False
    let ?new = "siz sdiv factor"
    have f: "2 \<le> factor" "factor < siz" "siz = factor * ?new" "?new \<le> maxSize" "0 \<le> ?new"
      using findFactor_smaller [of siz maxSize] False by (auto simp: factor_def)
    define rest where "rest = fst (expandLoop maxSize (Attr 0) factor (str * ?new))"
    have ex: "expandLoop maxSize off siz str = (Dim off (Attr ?new) (Attr str) # rest, True)"
      using False f(1) by (subst expandLoop.simps) (simp add: Let_def factor_def rest_def)
    have ih: "block_eq \<rho> (rev rest) [Dim (Attr 0) (Attr factor) (Attr (str * ?new))]" "sizes_ok \<rho> rest"
      using "1.IH" [OF factor_def False refl] f(1) by (auto simp: rest_def)
    have "block_eq \<rho> [Dim off (Attr siz) (Attr str)]
        [Dim (Attr 0) (Attr factor) (Attr (str * ?new)), Dim off (Attr ?new) (Attr str)]"
      using f by (intro block_eq_linear) auto
    moreover have "block_eq \<rho> (rev rest @ [Dim off (Attr ?new) (Attr str)])
        ([Dim (Attr 0) (Attr factor) (Attr (str * ?new))] @ [Dim off (Attr ?new) (Attr str)])"
      by (rule block_eq_append [OF ih(1)]) simp
    ultimately have "block_eq \<rho> (rev rest @ [Dim off (Attr ?new) (Attr str)]) [Dim off (Attr siz) (Attr str)]"
      by (simp add: block_eq_def)
    then show ?thesis unfolding ex using ih(2) f(4,5) by (simp add: sizes_ok_def)
  qed
qed

lemma constValues_len: "getConstantIntValues ce xs = Some is \<Longrightarrow> length is = length xs"
  by (induction xs arbitrary: "is") (auto split: option.splits)

lemma constValues_nth:
  "getConstantIntValues ce xs = Some is \<Longrightarrow> k < length xs \<Longrightarrow> getConstantIntValue ce (xs ! k) = Some (is ! k)"
proof (induction xs arbitrary: "is" k)
  case (Cons x xs)
  then show ?case by (cases k) (auto split: option.splits)
qed simp

lemma constValues_eval:
  assumes "agrees ce \<rho>" and "getConstantIntValues ce (map f ds) = Some is"
  shows "list_all2 (\<lambda>d i. evl \<rho> (f d) = i) ds is"
  using assms(2)
  by (induction ds arbitrary: "is") (auto split: option.splits dest: agrees_const [OF assms(1)])

text \<open>The tuples the loops over static sizes and strides run over.\<close>

lemma static_zip_mem:
  assumes "agrees ce \<rho>" and "getConstantIntValues ce (map sz ds) = Some ss"
    and "getConstantIntValues ce (map stride ds) = Some ts"
    and "(d, s, t) \<in> set (zip (rev ds) (zip (rev ss) (rev ts)))"
  shows "d \<in> set ds \<and> getConstantIntValue ce (sz d) = Some s \<and> getConstantIntValue ce (stride d) = Some t"
proof -
  have len: "length ss = length ds" "length ts = length ds"
    using constValues_len [OF assms(2)] constValues_len [OF assms(3)] by simp_all
  have "zip (rev ds) (zip (rev ss) (rev ts)) = rev (zip ds (zip ss ts))"
    using len by (simp add: zip_rev)
  with assms(4) have "(d, s, t) \<in> set (zip ds (zip ss ts))" by simp
  then obtain k where "k < length ds" "d = ds ! k" "s = ss ! k" "t = ts ! k"
    using len by (auto simp: in_set_conv_nth)
  with constValues_nth [OF assms(2), of k] constValues_nth [OF assms(3), of k] show ?thesis by simp
qed

lemma zip4_mem:
  "(d, s, t, m) \<in> set (zip ds (zip ss (zip ts ms))) \<Longrightarrow> (d, s, t) \<in> set (zip ds (zip ss ts))"
  by (auto simp: in_set_zip)

lemma static_dim_eq:
  assumes "agrees ce \<rho>" and "getConstantIntValue ce (sz d) = Some s" and "getConstantIntValue ce (stride d) = Some t"
  shows "block_eq \<rho> [Dim (offset d) (Attr s) (Attr t)] [d]"
  using assms(2,3) [THEN agrees_const [OF assms(1)]] by (simp add: block_eq_def)

lemma expandLarge_sem:
  assumes "agrees ce \<rho>" and "sizes_ok \<rho> ds" and "ds \<noteq> []"
    and "getConstantIntValues ce (map sz ds) \<noteq> None" and "getConstantIntValues ce (map stride ds) \<noteq> None"
    and "expandLargeDimIntoLinearDims ce ds maxSizes = Inr (b, ds')"
  shows "addrs \<rho> ds' = addrs \<rho> ds \<and> sizes_ok \<rho> ds'"
proof -
  from assms(4,5) obtain ss ts where st: "getConstantIntValues ce (map sz ds) = Some ss"
      "getConstantIntValues ce (map stride ds) = Some ts" by auto
  have len: "length ss = length ds" "length ts = length ds"
    using constValues_len [OF st(1)] constValues_len [OF st(2)] by simp_all
  define F where "F = (\<lambda>(d, s, t, maxSize). if t = 0 then ([Dim (offset d) (Attr s) (Attr t)], False)
      else expandLoop maxSize (offset d) s t)"
  define T where "T = zip (rev ds) (zip (rev ss) (zip (rev ts) (rev maxSizes)))"
  from assms(3,6) st have lm: "length ds \<le> length maxSizes"
    and ds': "ds' = rev (concat (map fst (map F T)))"
    by (auto simp: expandLargeDimIntoLinearDims_def F_def T_def Let_def split: if_splits)
  have "map fst T = rev ds" using len lm by (simp add: T_def)
  then have ds: "ds = concat (map (\<lambda>x. [fst x]) (rev T))"
    by (metis concat_map_singleton rev_map rev_rev_ident)
  have one: "block_eq \<rho> (rev (fst (F x))) [fst x] \<and> sizes_ok \<rho> (fst (F x))" if "x \<in> set T" for x
  proof -
    obtain d s t m where x: "x = (d, s, t, m)" by (metis prod_cases4)
    note mem = static_zip_mem [OF assms(1) st zip4_mem, of d s t m "rev maxSizes"]
    have c: "d \<in> set ds" "getConstantIntValue ce (sz d) = Some s" "getConstantIntValue ce (stride d) = Some t"
      using mem that x by (simp_all add: T_def)
    have s: "0 \<le> s" using assms(2) c(1) agrees_const [OF assms(1) c(2)] by (auto simp: sizes_ok_def)
    note eq = static_dim_eq [OF assms(1) c(2,3)]
    show ?thesis
    proof (cases "t = 0")
      case True
      with x eq s show ?thesis by (simp add: F_def sizes_ok_def)
    next
      case False
      with x expandLoop_sem [OF s, of \<rho> m "offset d" t] block_eq_trans [OF _ eq] show ?thesis
        by (simp add: F_def)
    qed
  qed
  have "ds' = concat (map (\<lambda>x. rev (fst (F x))) (rev T))"
    by (simp add: ds' rev_concat rev_map comp_def)
  moreover have "block_eq \<rho> (concat (map (\<lambda>x. rev (fst (F x))) (rev T))) (concat (map (\<lambda>x. [fst x]) (rev T)))"
    by (rule block_eq_concat) (simp add: one)
  ultimately have "block_eq \<rho> ds' ds" using ds by metis
  moreover have "sizes_ok \<rho> ds'" using one by (auto simp: ds' sizes_ok_def)
  ultimately show ?thesis by (simp add: block_eq_addrs)
qed

section \<open>Linear folding\<close>

lemma foldLinearStep_sem:
  assumes "agrees ce \<rho>" and "foldLinearStep ce chk d s t acc = Inr (b, acc')"
    and "getConstantIntValue ce (sz d) = Some s" and "getConstantIntValue ce (stride d) = Some t"
    and "0 \<le> s" and "sizes_ok \<rho> acc"
  shows "block_eq \<rho> acc' (d # acc) \<and> sizes_ok \<rho> acc'"
proof -
  note sd = agrees_const [OF assms(1) assms(3)] agrees_const [OF assms(1) assms(4)]
  obtain p rest where acc: "acc = p # rest" using assms(2) by (cases acc) (auto simp: foldLinearStep_def)
  obtain pt ps where p: "getConstantIntValue ce (stride p) = Some pt" "getConstantIntValue ce (sz p) = Some ps"
    using assms(2) acc by (auto simp: foldLinearStep_def split: option.splits)
  note pv = p [THEN agrees_const [OF assms(1)]]
  have nn: "0 \<le> ps" using assms(6) acc pv by (auto simp: sizes_ok_def)
  consider (keep) "acc' = d # acc"
    | (zero) "pt * ps = t" "getConstantIntValue ce (offset d) = Some 0"
        "acc' = Dim (offset p) (Attr (s * ps)) (stride p) # rest"
    | (offs) no po where "pt * ps = t" "pt \<noteq> 0" "getConstantIntValue ce (offset d) = Some no"
        "getConstantIntValue ce (offset p) = Some po"
        "acc' = Dim (Attr (po + (no * t) sdiv pt)) (Attr (s * ps)) (stride p) # rest"
    using assms(2) acc p
    by (auto simp: foldLinearStep_def isConstantIntValue_def split: if_splits option.splits)
  then show ?thesis
  proof cases
    case keep
    then show ?thesis using assms(5,6) sd by (simp add: sizes_ok_def)
  next
    case zero
    note o0 = agrees_const [OF assms(1) zero(2)]
    have "block_eq \<rho> [Dim (offset p) (Attr (s * ps)) (stride p)] [d, p]"
      by (rule block_eq_linear [of \<rho> d s p ps]) (use sd pv nn assms(5) zero(1) o0 in auto)
    from block_eq_append [OF this block_eq_refl, of rest] show ?thesis
      using zero(3) acc assms(5,6) nn by (simp add: sizes_ok_def)
  next
    case offs
    note ov = offs(3,4) [THEN agrees_const [OF assms(1)]]
    have "(no * t) smod pt = 0" using offs(1) by (auto simp: signed_modulo_int_def abs_mult)
    from smod_zero_sdiv [OF offs(2) this] have q: "(no * t) sdiv pt * pt = no * t" .
    have "block_eq \<rho> [Dim (Attr (po + (no * t) sdiv pt)) (Attr (s * ps)) (stride p)] [d, p]"
      by (rule block_eq_linear [of \<rho> d s p ps]) (use sd pv nn assms(5) offs(1) ov q in \<open>auto simp: distrib_right\<close>)
    from block_eq_append [OF this block_eq_refl, of rest] show ?thesis
      using offs(5) acc assms(5,6) nn by (simp add: sizes_ok_def)
  qed
qed

lemma foldLinearLoop_sem:
  assumes "agrees ce \<rho>" and "foldLinearLoop ce chk todo (b, acc) = Inr (b', acc')" and "sizes_ok \<rho> acc"
    and "\<And>d s t. (d, s, t) \<in> set todo \<Longrightarrow> getConstantIntValue ce (sz d) = Some s
          \<and> getConstantIntValue ce (stride d) = Some t \<and> 0 \<le> s"
  shows "block_eq \<rho> acc' (rev (map fst todo) @ acc) \<and> sizes_ok \<rho> acc'"
  using assms(2-4)
proof (induction todo arbitrary: b acc)
  case (Cons x todo)
  obtain d s t where x: "x = (d, s, t)" by (metis prod_cases3)
  from Cons.prems(1) x obtain f acc1 where step: "foldLinearStep ce chk d s t acc = Inr (f, acc1)"
    "foldLinearLoop ce chk todo (b \<or> f, acc1) = Inr (b', acc')" by auto
  have c: "getConstantIntValue ce (sz d) = Some s" "getConstantIntValue ce (stride d) = Some t" "0 \<le> s"
    using Cons.prems(3) x by auto
  note 1 = foldLinearStep_sem [OF assms(1) step(1) c Cons.prems(2)]
  have 2: "block_eq \<rho> acc' (rev (map fst todo) @ acc1)" "sizes_ok \<rho> acc'"
    using Cons.IH [OF step(2)] 1 Cons.prems(3) by auto
  have "block_eq \<rho> (rev (map fst todo) @ acc1) (rev (map fst todo) @ (d # acc))"
    using 1 by (intro block_eq_append) simp_all
  with 2 x show ?case by (auto intro: block_eq_trans)
qed simp

lemma foldLinearDims_sem:
  assumes "agrees ce \<rho>" and "sizes_ok \<rho> ds" and "ds \<noteq> []"
    and "getConstantIntValues ce (map sz ds) \<noteq> None" and "getConstantIntValues ce (map stride ds) \<noteq> None"
    and "foldLinearDims ce chk ds = Inr (b, ds')"
  shows "addrs \<rho> ds' = addrs \<rho> ds \<and> sizes_ok \<rho> ds'"
proof -
  from assms(4,5) obtain ss ts where st: "getConstantIntValues ce (map sz ds) = Some ss"
      "getConstantIntValues ce (map stride ds) = Some ts" by auto
  have len: "length ss = length ds" "length ts = length ds"
    using constValues_len [OF st(1)] constValues_len [OF st(2)] by simp_all
  let ?T = "zip (rev ds) (zip (rev ss) (rev ts))"
  have loop: "foldLinearLoop ce chk (tl ?T) (False, [last ds]) = Inr (b, ds')"
    using assms(3,6) st by (simp add: foldLinearDims_def)
  have fst: "map fst ?T = rev ds" using len by simp
  have "rev (map fst (tl ?T)) @ [last ds] = ds"
    using assms(3) by (simp add: map_tl fst flip: butlast_rev)
  moreover have "getConstantIntValue ce (sz d) = Some s \<and> getConstantIntValue ce (stride d) = Some t \<and> 0 \<le> s"
    if "(d, s, t) \<in> set (tl ?T)" for d s t
  proof -
    have "(d, s, t) \<in> set ?T" using that by (cases ?T) simp_all
    from static_zip_mem [OF assms(1) st this] assms(2) agrees_const [OF assms(1)] show ?thesis
      by (auto simp: sizes_ok_def)
  qed
  moreover have "sizes_ok \<rho> [last ds]" using assms(2,3) by (simp add: sizes_ok_def)
  ultimately show ?thesis
    using foldLinearLoop_sem [OF assms(1) loop] block_eq_addrs [of \<rho> ds' ds] by auto
qed

section \<open>Repetitions\<close>

definition szst_shape :: "(nat \<Rightarrow> int) \<Rightarrow> szst \<Rightarrow> shape" where
  "szst_shape \<rho> ss = map (\<lambda>(s, t). (evl \<rho> s, evl \<rho> t)) ss"

definition szst_ok :: "(nat \<Rightarrow> int) \<Rightarrow> szst \<Rightarrow> bool" where
  "szst_ok \<rho> ss \<longleftrightarrow> (\<forall>(s, t) \<in> set ss. 0 \<le> evl \<rho> s)"

definition rep :: "int \<Rightarrow> 'a list \<Rightarrow> 'a list" where
  "rep n xs = concat (replicate (nat n) xs)"

lemma base_repeat: "base ((s, 0) # r) = rep s (base r)"
proof -
  have "concat (map (\<lambda>_. xs) ys) = concat (replicate (length ys) xs)" for xs :: "int list" and ys :: "int list"
    by (induction ys) simp_all
  from this [of "base r" "upto_size s"] show ?thesis by (simp add: rep_def upto_size_def)
qed

lemma rep_1 [simp]: "rep 1 xs = xs"
  by (simp add: rep_def)

lemma rep_mult: "0 \<le> m \<Longrightarrow> 0 \<le> n \<Longrightarrow> rep (m * n) xs = rep m (rep n xs)"
proof -
  have "concat (replicate (a * b) xs) = concat (replicate a (concat (replicate b xs)))" for a b
    by (induction a) (simp_all add: replicate_add)
  then show "0 \<le> m \<Longrightarrow> 0 \<le> n \<Longrightarrow> ?thesis" by (simp add: rep_def nat_mult_distrib)
qed

lemma szst_shape_simps [simp]:
  "szst_shape \<rho> [] = []" "szst_shape \<rho> ((s, t) # r) = (evl \<rho> s, evl \<rho> t) # szst_shape \<rho> r"
  by (simp_all add: szst_shape_def)

lemma szst_ok_simps [simp]:
  "szst_ok \<rho> []" "szst_ok \<rho> ((s, t) # r) \<longleftrightarrow> 0 \<le> evl \<rho> s \<and> szst_ok \<rho> r"
  by (simp_all add: szst_ok_def)

lemma foldRepetitionLoop_sem:
  assumes "agrees ce \<rho>" and "foldRepetitionLoop ce ss r = Inr ss'" and "1 \<le> r" and "szst_ok \<rho> ss"
  shows "base (szst_shape \<rho> ss) = rep r (base (szst_shape \<rho> ss')) \<and> szst_ok \<rho> ss' \<and> map snd ss' = map snd ss"
  using assms(2-4)
proof (induction ss arbitrary: r ss')
  case Nil
  then show ?case by (auto split: if_splits)
next
  case (Cons x ss)
  obtain s t where x: "x = (s, t)" by fastforce
  show ?case
  proof (cases "r = 1")
    case False
    with Cons.prems(1) x obtain n where c: "getConstantIntValue ce t = Some 0" "getConstantIntValue ce s = Some n"
      by (auto simp: isConstantIntValue_def split: if_splits option.splits)
    note v = c [THEN agrees_const [OF assms(1)]]
    have n: "0 \<le> n" using Cons.prems(3) x v by simp
    show ?thesis
    proof (cases "n \<ge> r")
      case True
      with Cons.prems x c False have eq: "n smod r = 0" "ss' = (Attr (n sdiv r), t) # ss"
        by (auto simp: isConstantIntValue_def split: if_splits)
      have k: "0 \<le> n sdiv r" using n Cons.prems(2) by (simp add: sdiv_pos pos_imp_zdiv_nonneg_iff)
      have "n = r * (n sdiv r)" using smod_zero_sdiv [OF _ eq(1)] Cons.prems(2) by (simp add: mult.commute)
      with rep_mult [of r "n sdiv r" "base (szst_shape \<rho> ss)"] k Cons.prems(2)
      have "rep n (base (szst_shape \<rho> ss)) = rep r (rep (n sdiv r) (base (szst_shape \<rho> ss)))" by simp
      with eq(2) x v k Cons.prems(3) show ?thesis by (simp add: base_repeat del: base.simps)
    next
      case lt: False
      with Cons.prems x c False obtain r1 where eq: "n \<noteq> 0" "r smod n = 0"
          "foldRepetitionLoop ce ss (r sdiv n) = Inr r1" "ss' = (Attr 1, t) # r1"
        by (auto simp: isConstantIntValue_def split: if_splits)
      have pos: "0 < n" using n eq(1) by simp
      have r: "r = n * (r sdiv n)" using smod_zero_sdiv [OF eq(1,2)] by (simp add: mult.commute)
      have k: "1 \<le> r sdiv n"
      proof (rule ccontr)
        assume "\<not> 1 \<le> r sdiv n"
        then have "r sdiv n \<le> 0" by simp
        with pos have "n * (r sdiv n) \<le> 0" by (simp add: mult_nonneg_nonpos)
        with r Cons.prems(2) show False by simp
      qed
      have ih: "base (szst_shape \<rho> ss) = rep (r sdiv n) (base (szst_shape \<rho> r1))" "szst_ok \<rho> r1" "map snd r1 = map snd ss"
        using Cons.IH [OF eq(3) k] Cons.prems(3) x by auto
      have "rep r (base (szst_shape \<rho> r1)) = rep n (rep (r sdiv n) (base (szst_shape \<rho> r1)))"
        by (subst r, rule rep_mult) (use pos k in auto)
      with ih eq(4) x v Cons.prems(3) show ?thesis by (simp add: base_repeat del: base.simps)
    qed
  qed (use Cons.prems x in auto)
qed

text \<open>The number of repetitions at the front of a pattern.\<close>

fun leading :: "cenv \<Rightarrow> (nat \<Rightarrow> int) \<Rightarrow> szst \<Rightarrow> int" where
  "leading ce \<rho> [] = 1"
| "leading ce \<rho> ((s, t) # r) = (if isConstantIntValue ce t 0 then evl \<rho> s * leading ce \<rho> r else 1)"

lemma leading_nonneg: "szst_ok \<rho> ss \<Longrightarrow> 0 \<le> leading ce \<rho> ss"
  by (induction ce \<rho> ss rule: leading.induct) auto

lemma foldAllRepetitions_sem:
  assumes "agrees ce \<rho>" and "szst_ok \<rho> ss"
  shows "base (szst_shape \<rho> ss) = rep (leading ce \<rho> ss) (base (szst_shape \<rho> (foldAllRepetitions ce ss)))"
  using assms(2)
proof (induction ss)
  case (Cons x ss)
  obtain s t where x: "x = (s, t)" by fastforce
  show ?case
  proof (cases "isConstantIntValue ce t 0")
    case True
    then have t: "evl \<rho> t = 0" using agrees_const [OF assms(1)] by (simp add: isConstantIntValue_def)
    have "rep (evl \<rho> s * leading ce \<rho> ss) (base (szst_shape \<rho> (foldAllRepetitions ce ss)))
        = rep (evl \<rho> s) (rep (leading ce \<rho> ss) (base (szst_shape \<rho> (foldAllRepetitions ce ss))))"
      by (rule rep_mult) (use Cons.prems x leading_nonneg in auto)
    with Cons x t True show ?thesis by (simp add: base_repeat del: base.simps)
  qed (use x in simp)
qed simp

section \<open>The contract of a pass\<close>

text \<open>
  A pass takes a pattern to another one (as a relation: a pass may fail). Its contract: the
  new pattern visits the same addresses and has non-negative sizes.
\<close>

locale pattern_pass =
  fixes ce :: cenv and pass :: "pattern \<Rightarrow> pattern \<Rightarrow> bool"
  assumes keeps: "agrees ce \<rho> \<Longrightarrow> sizes_ok \<rho> ds \<Longrightarrow> pass ds ds' \<Longrightarrow> addrs \<rho> ds' = addrs \<rho> ds \<and> sizes_ok \<rho> ds'"
begin

lemma keeps_repeated:
  assumes "agrees ce \<rho>" and "sizes_ok \<rho> ds" and "pass\<^sup>*\<^sup>* ds ds'"
  shows "addrs \<rho> ds' = addrs \<rho> ds \<and> sizes_ok \<rho> ds'"
  using assms(3)
proof (induction rule: rtranclp_induct)
  case base
  then show ?case using assms(2) by simp
next
  case (step y z)
  with keeps [OF assms(1)] show ?case by metis
qed

end

text \<open>Two passes over patterns with the same known constants, in any order.\<close>

locale two_passes = fst_pass: pattern_pass ce p + snd_pass: pattern_pass ce q
  for ce :: cenv and p :: "pattern \<Rightarrow> pattern \<Rightarrow> bool" and q :: "pattern \<Rightarrow> pattern \<Rightarrow> bool"

sublocale two_passes \<subseteq> both: pattern_pass ce "\<lambda>x y. p x y \<or> q x y"
  by unfold_locales (use fst_pass.keeps snd_pass.keeps in blast)

definition unit_pass :: "cenv \<Rightarrow> pattern \<Rightarrow> pattern \<Rightarrow> bool" where
  "unit_pass ce ds ds' \<longleftrightarrow> foldUnitDims ce ds = Some ds'"

definition static_dims :: "cenv \<Rightarrow> pattern \<Rightarrow> bool" where
  "static_dims ce ds \<longleftrightarrow> ds \<noteq> [] \<and> getConstantIntValues ce (map sz ds) \<noteq> None
     \<and> getConstantIntValues ce (map stride ds) \<noteq> None"

definition linear_pass :: "cenv \<Rightarrow> pattern \<Rightarrow> pattern \<Rightarrow> bool" where
  "linear_pass ce ds ds' \<longleftrightarrow> static_dims ce ds \<and> (\<exists>chk b. foldLinearDims ce chk ds = Inr (b, ds'))"

definition expand_pass :: "cenv \<Rightarrow> pattern \<Rightarrow> pattern \<Rightarrow> bool" where
  "expand_pass ce ds ds' \<longleftrightarrow>
     static_dims ce ds \<and> (\<exists>maxSizes b. expandLargeDimIntoLinearDims ce ds maxSizes = Inr (b, ds'))"

lemma mergeOffset_sizes: "mergeOffset ce off ds = Some ds' \<Longrightarrow> map sz ds' = map sz ds"
  by (induction ds arbitrary: ds') (auto simp: Let_def split: if_splits option.splits)

lemma splitUnitDims_subset: "splitUnitDims ce ds = (kept, cum, idx) \<Longrightarrow> set kept \<subseteq> set ds"
proof (induction ds arbitrary: kept cum idx)
  case (Cons d ds)
  obtain k c i where "splitUnitDims ce ds = (k, c, i)" by (metis prod_cases3)
  with Cons show ?case by (fastforce simp: Let_def split: option.splits if_splits)
qed simp

lemma foldUnitDims_sizes:
  assumes "foldUnitDims ce ds = Some ds'" and "sizes_ok \<rho> ds"
  shows "sizes_ok \<rho> ds'"
proof -
  obtain kept cum idx where s: "splitUnitDims ce ds = (kept, cum, idx)" by (metis prod_cases3)
  have kept: "sizes_ok \<rho> kept" using splitUnitDims_subset [OF s] assms(2) by (auto simp: sizes_ok_def)
  from assms(1) s consider "mergeOffset ce cum kept = Some ds'"
    | "ds' = insert_at idx (Dim (Attr 1) (Attr 1) (Attr cum)) kept"
    by (auto simp: foldUnitDims_def split: if_splits option.splits)
  then show ?thesis
  proof cases
    case 1
    with kept sizes_ok_cong [OF mergeOffset_sizes [OF 1]] show ?thesis by simp
  next
    case 2
    with kept show ?thesis by (auto simp: insert_at_def sizes_ok_def dest: in_set_takeD in_set_dropD)
  qed
qed

interpretation unit_fold: pattern_pass ce "unit_pass ce"
  by unfold_locales (use foldUnitDims_sem foldUnitDims_sizes in \<open>auto simp: unit_pass_def\<close>)

interpretation linear_fold: pattern_pass ce "linear_pass ce"
  by unfold_locales (use foldLinearDims_sem in \<open>auto simp: linear_pass_def static_dims_def\<close>)

interpretation expansion: pattern_pass ce "expand_pass ce"
  by unfold_locales (use expandLarge_sem in \<open>auto simp: expand_pass_def static_dims_def\<close>)

interpretation folds: two_passes ce "unit_pass ce" "linear_pass ce" ..

interpretation canonicalization: two_passes ce "\<lambda>x y. unit_pass ce x y \<or> linear_pass ce x y" "expand_pass ce" ..

section \<open>Properties\<close>

text \<open>
  \<open>findFactorResultingInSmallerSize\<close> on a size above a maximum of at least two: the smallest
  factor from two on whose quotient does not exceed the maximum.
\<close>

theorem smallest_factor:
  assumes "2 \<le> maxSize" and "maxSize < n"
  shows "2 \<le> findFactorResultingInSmallerSize n maxSize
    \<and> findFactorResultingInSmallerSize n maxSize dvd n
    \<and> n div findFactorResultingInSmallerSize n maxSize \<le> maxSize
    \<and> (\<forall>k. 2 \<le> k \<and> k < findFactorResultingInSmallerSize n maxSize \<longrightarrow> \<not> (k dvd n \<and> n div k \<le> maxSize))"
proof -
  let ?f = "findFactorResultingInSmallerSize n maxSize"
  have f: "?f = factorLoop n maxSize 2" using assms by (simp add: findFactorResultingInSmallerSize_def)
  have nn: "0 \<le> n" using assms by simp
  have step: "\<not> (k dvd n \<and> n div k \<le> maxSize)" if "2 \<le> k" "\<not> (n smod k = 0 \<and> n sdiv k \<le> maxSize)" for k
    using that nn by (simp add: sdiv_pos smod_pos dvd_eq_mod_eq_0)
  consider "?f = n" | "?f \<noteq> n" by blast
  then show ?thesis
  proof cases
    case 1
    have none: "\<not> (n smod k = 0 \<and> n sdiv k \<le> maxSize)" if "2 \<le> k" "k \<le> n sdiv 2" for k
    proof -
      have "factorLoop n maxSize i = n \<Longrightarrow> 2 \<le> i \<Longrightarrow> i \<le> k \<Longrightarrow> \<not> (n smod k = 0 \<and> n sdiv k \<le> maxSize)" for i
        using that(2)
      proof (induction n maxSize i rule: factorLoop.induct)
        case (1 n maxSize i)
        have half: "n sdiv 2 < n \<or> n \<le> 0" by (cases "0 < n") (simp_all add: sdiv_pos)
        show ?case
        proof (cases "n smod i = 0 \<and> n sdiv i \<le> maxSize")
          case True
          with "1.prems" half have "i = n" by (subst (asm) factorLoop.simps) auto
          with "1.prems" half show ?thesis by simp
        next
          case False
          with "1.prems" have "factorLoop n maxSize (i + 1) = n" by (subst (asm) factorLoop.simps) auto
          with 1 False show ?thesis by (cases "k = i") auto
        qed
      qed
      from this [of 2] 1 f that(1) show ?thesis by simp
    qed
    have "\<not> (k dvd n \<and> n div k \<le> maxSize)" if k: "2 \<le> k" "k < n" for k
    proof (cases "k \<le> n sdiv 2")
      case True
      with none step k show ?thesis by blast
    next
      case False
      then have "n < 2 * k" using nn by (simp add: sdiv_pos)
      have "\<not> k dvd n"
      proof
        assume "k dvd n"
        then obtain q where "n = k * q" by blast
        with \<open>n < 2 * k\<close> k have "q < 2" "1 < q" by (auto simp: mult.commute)
        then show False by simp
      qed
      then show ?thesis by simp
    qed
    with 1 assms show ?thesis by simp
  next
    case 2
    with factorLoop_cases [of 2 n maxSize] f nn show ?thesis
      by (auto simp: sdiv_pos smod_pos dvd_eq_mod_eq_0)
  qed
qed

theorem smallest_factor_witness: "findFactorResultingInSmallerSize 12 5 = 3 \<and> 3 dvd (12 :: int)"
proof -
  have "findFactorResultingInSmallerSize 12 5 = 3"
    by (simp add: findFactorResultingInSmallerSize_def factorLoop.simps)
  with smallest_factor [of 5 12] show ?thesis by simp
qed

text \<open>
  \<open>expandLargeDimIntoLinearDims\<close> visits the same addresses in the same order.
\<close>

theorem expand_preserves:
  assumes "static_dims ce ds" and "expandLargeDimIntoLinearDims ce ds maxSizes = Inr (b, ds')"
    and "agrees ce \<rho>" and "sizes_ok \<rho> ds"
  shows "addrs \<rho> ds' = addrs \<rho> ds"
  using expansion.keeps [OF assms(3,4), of ds'] assms(1,2) by (auto simp: expand_pass_def)

theorem expand_preserves_witness:
  "expandLargeDimIntoLinearDims (\<lambda>_. None) [Dim (Val 0) (Attr 8) (Attr 1)] [5]
     = Inr (True, [Dim (Attr 0) (Attr 2) (Attr 4), Dim (Val 0) (Attr 4) (Attr 1)])
   \<and> addrs (\<lambda>_. 3) [Dim (Attr 0) (Attr 2) (Attr 4), Dim (Val 0) (Attr 4) (Attr 1)]
     = addrs (\<lambda>_. 3) [Dim (Val 0) (Attr 8) (Attr 1)]"
proof -
  have e: "expandLargeDimIntoLinearDims (\<lambda>_. None) [Dim (Val 0) (Attr 8) (Attr 1)] [5]
     = Inr (True, [Dim (Attr 0) (Attr 2) (Attr 4), Dim (Val 0) (Attr 4) (Attr 1)])"
    by (simp add: expandLargeDimIntoLinearDims_def expandLoop.simps findFactorResultingInSmallerSize_def
        factorLoop.simps)
  have "static_dims (\<lambda>_. None) [Dim (Val 0) (Attr 8) (Attr 1)]" "agrees (\<lambda>_. None) (\<lambda>_. 3)"
      "sizes_ok (\<lambda>_. 3) [Dim (Val 0) (Attr 8) (Attr 1)]"
    by (simp_all add: static_dims_def agrees_def sizes_ok_def)
  from expand_preserves [OF this(1) e this(2,3)] e show ?thesis by simp
qed

text \<open>
  \<open>foldLinearDims\<close> visits the same addresses in the same order, whatever sizes the caller
  accepts and also for dynamic offsets.
\<close>

theorem fold_linear_preserves:
  assumes "static_dims ce ds" and "foldLinearDims ce checkValidSize ds = Inr (b, ds')"
    and "agrees ce \<rho>" and "sizes_ok \<rho> ds"
  shows "addrs \<rho> ds' = addrs \<rho> ds"
  using linear_fold.keeps [OF assms(3,4), of ds'] assms(1,2) by (auto simp: linear_pass_def)

theorem fold_linear_preserves_witness:
  "foldLinearDims (\<lambda>_. None) (\<lambda>_ _. True) [Dim (Attr 2) (Attr 3) (Attr 8), Dim (Attr 1) (Attr 8) (Attr 1)]
     = Inr (True, [Dim (Attr 17) (Attr 24) (Attr 1)])
   \<and> addrs (\<lambda>_. 0) [Dim (Attr 17) (Attr 24) (Attr 1)]
     = addrs (\<lambda>_. 0) [Dim (Attr 2) (Attr 3) (Attr 8), Dim (Attr 1) (Attr 8) (Attr 1)]"
proof -
  let ?ds = "[Dim (Attr 2) (Attr 3) (Attr 8), Dim (Attr 1) (Attr 8) (Attr 1)]"
  have e: "foldLinearDims (\<lambda>_. None) (\<lambda>_ _. True) ?ds = Inr (True, [Dim (Attr 17) (Attr 24) (Attr 1)])"
    by (simp add: foldLinearDims_def foldLinearStep_def isConstantIntValue_def)
  have "static_dims (\<lambda>_. None) ?ds" "agrees (\<lambda>_. None) (\<lambda>_. 0)" "sizes_ok (\<lambda>_. 0) ?ds"
    by (simp_all add: static_dims_def agrees_def sizes_ok_def)
  from fold_linear_preserves [OF this(1) e this(2,3)] e show ?thesis by simp
qed

text \<open>
  \<open>foldRepetitionCount\<close>: when a count is folded away, the old pattern is the new one repeated
  that many times; without a count, all repetitions at the front are folded away.
\<close>

theorem fold_repetition:
  assumes "foldRepetitionCount ce ss cnt = Inr ss'" and "agrees ce \<rho>" and "szst_ok \<rho> ss"
    and "case cnt of Some r \<Rightarrow> 1 \<le> r \<and> n = r | None \<Rightarrow> n = leading ce \<rho> ss"
  shows "base (szst_shape \<rho> ss) = rep n (base (szst_shape \<rho> ss'))"
proof (cases cnt)
  case None
  with assms foldAllRepetitions_sem [OF assms(2,3)] show ?thesis by (simp add: foldRepetitionCount_def)
next
  case (Some r)
  with assms foldRepetitionLoop_sem [OF assms(2), of ss r ss'] show ?thesis by (simp add: foldRepetitionCount_def)
qed

theorem fold_repetition_witness:
  "foldRepetitionCount (\<lambda>_. None) [(Attr 32, Attr 0), (Attr 8, Attr 1)] (Some 16) = Inr [(Attr 2, Attr 0), (Attr 8, Attr 1)]
   \<and> base [(32, 0), (8, 1)] = rep 16 (base [(2, 0), (8, 1)])"
proof -
  have f: "foldRepetitionCount (\<lambda>_. None) [(Attr 32, Attr 0), (Attr 8, Attr 1)] (Some 16)
      = Inr [(Attr 2, Attr 0), (Attr 8, Attr 1)]"
    by (simp add: foldRepetitionCount_def isConstantIntValue_def)
  have "agrees (\<lambda>_. None) (\<lambda>_. 0)" by (simp add: agrees_def)
  from fold_repetition [OF f this, of 16] f show ?thesis by (simp del: base.simps)
qed

text \<open>
  C31. Any sequence of the rewrites (unit folding, linear folding, expansion) leaves the
  address sequence as it is.
\<close>

theorem canonicalization_preserves:
  assumes "(\<lambda>x y. unit_pass ce x y \<or> linear_pass ce x y \<or> expand_pass ce x y)\<^sup>*\<^sup>* ds ds'"
    and "agrees ce \<rho>" and "sizes_ok \<rho> ds"
  shows "addrs \<rho> ds' = addrs \<rho> ds"
  using canonicalization.both.keeps_repeated [OF assms(2,3), of ds'] assms(1) by (simp add: disj_assoc)

theorem canonicalization_preserves_witness:
  "addrs (\<lambda>_. 0) [Dim (Attr 0) (Attr 16) (Attr 1)]
   = addrs (\<lambda>_. 0) [Dim (Attr 0) (Attr 1) (Attr 64), Dim (Attr 0) (Attr 2) (Attr 8), Dim (Attr 0) (Attr 8) (Attr 1)]"
proof -
  let ?a = "[Dim (Attr 0) (Attr 1) (Attr 64), Dim (Attr 0) (Attr 2) (Attr 8), Dim (Attr 0) (Attr 8) (Attr 1)]"
  let ?b = "[Dim (Attr 0) (Attr 2) (Attr 8), Dim (Attr 0) (Attr 8) (Attr 1)]"
  let ?c = "[Dim (Attr 0) (Attr 16) (Attr 1)]"
  let ?ce = "\<lambda>_. None"
  let ?P = "\<lambda>x y. unit_pass ?ce x y \<or> linear_pass ?ce x y \<or> expand_pass ?ce x y"
  have "foldLinearDims ?ce (\<lambda>_ _. True) ?b = Inr (True, ?c)"
    by (simp add: foldLinearDims_def foldLinearStep_def isConstantIntValue_def)
  then have "linear_pass ?ce ?b ?c" unfolding linear_pass_def static_dims_def by (intro conjI exI) simp_all
  moreover have "unit_pass ?ce ?a ?b" by (simp add: unit_pass_def foldUnitDims_def)
  ultimately have "?P ?a ?b" "?P ?b ?c" by blast+
  then have "?P\<^sup>*\<^sup>* ?a ?c" by (rule converse_rtranclp_into_rtranclp [OF _ r_into_rtranclp])
  then show ?thesis
    by (rule canonicalization_preserves) (simp_all add: agrees_def sizes_ok_def)
qed

text \<open>
  Folding two repeating dimensions of which the outer has a constant offset other than
  zero divides by the zero stride.
\<close>

theorem fold_linear_divides_by_zero:
  "foldLinearDims (\<lambda>_. None) (\<lambda>_ _. True) [Dim (Attr 1) (Attr 4) (Attr 0), Dim (Attr 0) (Attr 8) (Attr 0)] = Inl DivByZero"
  by (simp add: foldLinearDims_def foldLinearStep_def isConstantIntValue_def)

end
