(* ===== verification/Dma_Dim_Config.thy ===== *)
theory Dma_Dim_Config
  imports Access_Folding Device_Ops
begin

text \<open>
  \<open>DmaDimConfig\<close> and \<open>CircularDmaDimConfig\<close> (\<open>Transforms/Utils/AMDAIEDmaUtils.h\<close> and \<open>.cpp\<close>): how
  many dimensions a DMA can address and how large their sizes and strides may be, and
  \<open>foldDimsAndReturnAsStatic\<close>, which brings a pattern into the form the hardware takes.
\<close>

section \<open>Model\<close>

record DmaDimConfig =
  cfgModel :: AMDAIEDeviceModel
  cfgTileType :: AMDAIETileType
  maxNbDims :: u8
  nbInterDims :: u8
  nbIntraDims :: u8
  isCircular :: bool

text \<open>
  The constructor. With a memory space above two the tile type is not initialised: the
  result is \<open>OutOfBounds\<close>.
\<close>

definition mk_DmaDimConfig :: "bool \<Rightarrow> AMDAIEDeviceModel \<Rightarrow> u8 \<Rightarrow> DmaDimConfig result" where
  "mk_DmaDimConfig circular m memSpace =
     (let mk = (\<lambda>tileType inter.
        res_bind (getDmaProp m tileType NumAddrDim) (\<lambda>intra.
          Inr \<lparr>cfgModel = m, cfgTileType = tileType, maxNbDims = ucast intra + inter,
               nbInterDims = inter, nbIntraDims = ucast intra, isCircular = circular\<rparr>))
      in if memSpace = 0 then mk SHIMNOC (dmaNbInterDims (deviceConfig m))
         else if memSpace = 1 then mk MEMTILE 0
         else if memSpace = 2 then mk AIETILE 0
         else Inl OutOfBounds)"

definition exceedsNbDims :: "DmaDimConfig \<Rightarrow> nat \<Rightarrow> bool" where
  "exceedsNbDims cfg dims \<longleftrightarrow> \<not> isCircular cfg \<and> dims > unat (maxNbDims cfg)"

text \<open>\<open>std::fill_n\<close> from an index on.\<close>

definition fill_n :: "nat \<Rightarrow> nat \<Rightarrow> 'a \<Rightarrow> 'a list \<Rightarrow> 'a list" where
  "fill_n start n v xs = take start xs @ replicate n v @ drop (start + n) xs"

definition INT64_MAX :: int where "INT64_MAX = 2 ^ 63 - 1"

text \<open>
  A property read as \<open>uint16_t\<close>, \<open>uint8_t\<close> or \<open>uint32_t\<close>: the low bits of the field.
\<close>

definition bdProp :: "DmaDimConfig \<Rightarrow> AMDAIEDmaBdProp \<Rightarrow> nat \<Rightarrow> int result" where
  "bdProp cfg prp width =
     res_bind (getDmaBdProp (cfgModel cfg) (cfgTileType cfg) 0 prp) (\<lambda>v. Inr (take_bit width (uint v)))"

definition dimsOr :: "DmaDimConfig \<Rightarrow> nat option \<Rightarrow> nat" where
  "dimsOr cfg maybeNbDims = (case maybeNbDims of Some n \<Rightarrow> n | None \<Rightarrow> unat (maxNbDims cfg))"

definition DmaDimConfig_getMaxSizes :: "DmaDimConfig \<Rightarrow> nat option \<Rightarrow> int list result" where
  "DmaDimConfig_getMaxSizes cfg maybeNbDims =
     (let nbDims = dimsOr cfg maybeNbDims
      in res_bind (bdProp cfg WrapMax 16) (\<lambda>maxIntraSize.
         res_bind (bdProp cfg IterWrapMax 8) (\<lambda>maxInterSize.
           (let nbIntraDimsToBeFilled = min (unat (nbIntraDims cfg)) nbDims;
                intraStart = nbDims - nbIntraDimsToBeFilled;
                maxSizes1 = fill_n intraStart nbIntraDimsToBeFilled maxIntraSize (replicate nbDims 0);
                maxSizes2 = (if nbIntraDimsToBeFilled = unat (nbIntraDims cfg) \<and> intraStart < nbDims
                             then maxSizes1[intraStart := INT64_MAX] else maxSizes1);
                nbInterDimsToBeFilled = min (unat (nbInterDims cfg)) intraStart;
                interStart = intraStart - nbInterDimsToBeFilled
            in Inr (fill_n interStart nbInterDimsToBeFilled maxInterSize maxSizes2)))))"

definition DmaDimConfig_getMaxStrides :: "DmaDimConfig \<Rightarrow> nat option \<Rightarrow> int list result" where
  "DmaDimConfig_getMaxStrides cfg maybeNbDims =
     (let nbDims = dimsOr cfg maybeNbDims
      in res_bind (bdProp cfg StepSizeMax 32) (\<lambda>maxIntraStride.
         res_bind (bdProp cfg IterStepSizeMax 32) (\<lambda>maxInterStride.
           (let nbIntraDimsToBeFilled = min (unat (nbIntraDims cfg)) nbDims;
                intraStart = nbDims - nbIntraDimsToBeFilled;
                stepSizes1 = fill_n intraStart nbIntraDimsToBeFilled
                  (take_bit 32 (maxIntraStride + 1)) (replicate nbDims 0);
                nbInterDimsToBeFilled = min (unat (nbInterDims cfg)) intraStart;
                interStart = intraStart - nbInterDimsToBeFilled
            in Inr (fill_n interStart nbInterDimsToBeFilled (take_bit 32 (maxInterStride + 1)) stepSizes1)))))"

definition Circular_getMaxSizes :: "DmaDimConfig \<Rightarrow> nat option \<Rightarrow> int list result" where
  "Circular_getMaxSizes cfg maybeNbDims =
     res_bind (bdProp cfg WrapMax 16) (\<lambda>maxIntraSize. Inr (replicate (dimsOr cfg maybeNbDims) maxIntraSize))"

definition Circular_getMaxStrides :: "DmaDimConfig \<Rightarrow> nat option \<Rightarrow> int list result" where
  "Circular_getMaxStrides cfg maybeNbDims =
     (let nbDims = dimsOr cfg maybeNbDims
      in res_bind (bdProp cfg StepSizeMax 32) (\<lambda>maxIntraStride.
           (let nbIntraDimsToBeFilled = min (unat (nbIntraDims cfg)) nbDims;
                intraStart = nbDims - nbIntraDimsToBeFilled;
                stepSizes1 = fill_n intraStart nbIntraDimsToBeFilled
                  (take_bit 32 (maxIntraStride + 1)) (replicate nbDims 0)
            in Inr (fill_n 0 intraStart INT64_MAX stepSizes1))))"

definition getMaxSizes :: "DmaDimConfig \<Rightarrow> nat option \<Rightarrow> int list result" where
  "getMaxSizes cfg n = (if isCircular cfg then Circular_getMaxSizes cfg n else DmaDimConfig_getMaxSizes cfg n)"

definition getMaxStrides :: "DmaDimConfig \<Rightarrow> nat option \<Rightarrow> int list result" where
  "getMaxStrides cfg n = (if isCircular cfg then Circular_getMaxStrides cfg n else DmaDimConfig_getMaxStrides cfg n)"

definition anyOutOfRange :: "int list \<Rightarrow> int list \<Rightarrow> nat \<Rightarrow> bool" where
  "anyOutOfRange values maxValues start \<longleftrightarrow>
     list_ex (\<lambda>(v, maxValue). v < 0 \<or> v > maxValue) (zip values (drop start maxValues))"

definition isValidAccessPattern :: "DmaDimConfig \<Rightarrow> int list \<Rightarrow> int list \<Rightarrow> bool result" where
  "isValidAccessPattern cfg sizes strides =
     (let checked = filter (\<lambda>(s, t). s \<noteq> 1 \<and> t \<noteq> 0) (zip sizes strides);
          nonUnitSizes = map fst checked;
          nonZeroStrides = map snd checked
      in res_bind (getMaxSizes cfg (Some (length nonUnitSizes))) (\<lambda>maxSizes.
           (let frontToDrop = length maxSizes - length nonUnitSizes
            in if anyOutOfRange nonUnitSizes maxSizes frontToDrop then Inr False
               else res_bind (getMaxStrides cfg (Some (length nonUnitSizes))) (\<lambda>maxStrides.
                 Inr (\<not> anyOutOfRange nonZeroStrides maxStrides frontToDrop)))))"

text \<open>The size check \<open>foldDimsAndReturnAsStatic\<close> gives to \<open>foldLinearDims\<close>.\<close>

definition fitsMaxSizes :: "int list \<Rightarrow> nat \<Rightarrow> int \<Rightarrow> bool" where
  "fitsMaxSizes maxSizes idxFromEnd s \<longleftrightarrow>
     idxFromEnd < length maxSizes \<and> s \<le> maxSizes ! (length maxSizes - idxFromEnd - 1)"

definition foldDimsAndReturnAsStatic ::
  "cenv \<Rightarrow> AMDAIEDeviceModel \<Rightarrow> szst \<Rightarrow> int \<Rightarrow> u8 \<Rightarrow> (int list \<times> int list) result" where
  "foldDimsAndReturnAsStatic ce m ss repetitionCount memSpace =
     res_bind (foldRepetitionCount ce ss (Some repetitionCount)) (\<lambda>ss1.
       (let ds1 = map (\<lambda>(s, t). Dim (Attr 0) s t) ss1;
            ds2 = (case foldUnitDims ce ds1 of Some ds \<Rightarrow> ds | None \<Rightarrow> ds1)
        in res_bind (mk_DmaDimConfig False m memSpace) (\<lambda>cfg.
           res_bind (getMaxSizes cfg (Some (length ds2))) (\<lambda>maxSizes.
           res_bind (foldLinearDims ce (fitsMaxSizes maxSizes) ds2) (\<lambda>(_, ds3).
             case (getConstantIntValues ce (map sz ds3), getConstantIntValues ce (map stride ds3)) of
               (Some newSizes, Some newStrides) \<Rightarrow> Inr (newSizes, newStrides)
             | _ \<Rightarrow> Inl Failure)))))"

section \<open>Folding to static sizes and strides\<close>

lemma base_hd: "base s \<noteq> [] \<Longrightarrow> hd (base s) = 0"
proof (induction s)
  case (Cons x s)
  obtain n t where x: "x = (n, t)" by fastforce
  with Cons.prems have "0 < n" and ne: "base s \<noteq> []" by (auto simp: upto_size_def)
  then obtain k where "nat n = Suc k" using gr0_conv_Suc [of "nat n"] by auto
  with Cons.IH [OF ne] ne x show ?case
    by (simp add: upto_size_def upt_conv_Cons hd_append hd_map del: upt_Suc)
qed simp

lemma map_shift_base:
  assumes "map (\<lambda>a. c + a) (base s) = base s'"
  shows "base s = base s'"
proof (cases "base s = []")
  case False
  with assms have "base s' \<noteq> []" by auto
  with False assms base_hd have "c + 0 = 0" by (metis hd_map)
  with assms show ?thesis by simp
qed (use assms in auto)

lemma constValues_static:
  "getConstantIntValues ce xs \<noteq> None \<longleftrightarrow> (\<forall>x \<in> set xs. getConstantIntValue ce x \<noteq> None)"
  by (induction xs) (auto split: option.splits)

definition static_dim :: "cenv \<Rightarrow> dim \<Rightarrow> bool" where
  "static_dim ce d \<longleftrightarrow> getConstantIntValue ce (sz d) \<noteq> None \<and> getConstantIntValue ce (stride d) \<noteq> None"

lemma mergeOffset_static:
  "mergeOffset ce off ds = Some ds' \<Longrightarrow> \<forall>d \<in> set ds. static_dim ce d \<Longrightarrow> \<forall>d \<in> set ds'. static_dim ce d"
  by (induction ds arbitrary: ds') (auto simp: static_dim_def Let_def split: if_splits option.splits)

lemma foldUnitDims_static:
  assumes "foldUnitDims ce ds = Some ds'" and "\<forall>d \<in> set ds. static_dim ce d"
  shows "\<forall>d \<in> set ds'. static_dim ce d"
proof -
  obtain kept cum idx where s: "splitUnitDims ce ds = (kept, cum, idx)" by (metis prod_cases3)
  have kept: "\<forall>d \<in> set kept. static_dim ce d" using splitUnitDims_subset [OF s] assms(2) by auto
  from assms(1) s consider "mergeOffset ce cum kept = Some ds'"
    | "ds' = insert_at idx (Dim (Attr 1) (Attr 1) (Attr cum)) kept"
    by (auto simp: foldUnitDims_def split: if_splits option.splits)
  then show ?thesis
  proof cases
    case 1
    from mergeOffset_static [OF this kept] show ?thesis .
  next
    case 2
    with kept show ?thesis
      by (auto simp: insert_at_def static_dim_def dest: in_set_takeD in_set_dropD)
  qed
qed

lemma foldRepetitionLoop_static:
  "foldRepetitionLoop ce ss r = Inr ss' \<Longrightarrow> \<forall>(s, t) \<in> set ss. getConstantIntValue ce s \<noteq> None \<and> getConstantIntValue ce t \<noteq> None
    \<Longrightarrow> \<forall>(s, t) \<in> set ss'. getConstantIntValue ce s \<noteq> None \<and> getConstantIntValue ce t \<noteq> None"
proof (induction ss arbitrary: r ss')
  case (Cons x ss)
  obtain s t where x: "x = (s, t)" by fastforce
  from Cons.prems(1) x consider "ss' = (s, t) # ss" | k where "ss' = (Attr k, t) # ss"
    | k r1 where "foldRepetitionLoop ce ss k = Inr r1" "ss' = (Attr 1, t) # r1"
    by (auto split: if_splits option.splits)
  then show ?case using Cons.prems(2) Cons.IH x by cases auto
qed (auto split: if_splits)

definition szst_dims :: "szst \<Rightarrow> pattern" where
  "szst_dims ss = map (\<lambda>(s, t). Dim (Attr 0) s t) ss"

lemma addrs_szst_dims: "addrs \<rho> (szst_dims ss) = base (szst_shape \<rho> ss)"
proof -
  have "shape_of \<rho> (szst_dims ss) = szst_shape \<rho> ss"
    by (induction ss) (auto simp: szst_dims_def szst_shape_def)
  moreover have "goff \<rho> (szst_dims ss) = 0" by (induction ss) (auto simp: szst_dims_def)
  ultimately show ?thesis by (simp add: addrs_base)
qed

lemma foldLinearDims_keeps:
  assumes "foldLinearDims ce chk ds = Inr (b, ds')" and "\<forall>d \<in> set ds. static_dim ce d"
    and "agrees ce \<rho>" and "sizes_ok \<rho> ds"
  shows "addrs \<rho> ds' = addrs \<rho> ds"
proof (cases "ds = []")
  case False
  have "getConstantIntValues ce (map sz ds) \<noteq> None" "getConstantIntValues ce (map stride ds) \<noteq> None"
    unfolding constValues_static using assms(2) by (auto simp: static_dim_def)
  from foldLinearDims_sem [OF assms(3,4) False this assms(1)] show ?thesis by simp
qed (use assms in \<open>simp add: foldLinearDims_def\<close>)

lemma foldUnitDims_or_keeps:
  assumes "\<forall>d \<in> set ds. static_dim ce d" and "agrees ce \<rho>" and "sizes_ok \<rho> ds"
    and "ds' = (case foldUnitDims ce ds of Some x \<Rightarrow> x | None \<Rightarrow> ds)"
  shows "addrs \<rho> ds' = addrs \<rho> ds \<and> (\<forall>d \<in> set ds'. static_dim ce d) \<and> sizes_ok \<rho> ds'"
  using assms foldUnitDims_static [OF _ assms(1)] unit_fold.keeps [OF assms(2,3)]
  by (auto simp: unit_pass_def split: option.splits)

text \<open>
  \<open>foldDimsAndReturnAsStatic\<close>, on static sizes and strides: when it succeeds, the old access
  pattern is the new one repeated \<open>repetitionCount\<close> times.
\<close>

theorem fold_static_repeats:
  assumes "foldDimsAndReturnAsStatic ce m ss repetitionCount memSpace = Inr (newSizes, newStrides)"
    and "1 \<le> repetitionCount" and "agrees ce \<rho>" and "szst_ok \<rho> ss"
    and "\<forall>(s, t) \<in> set ss. getConstantIntValue ce s \<noteq> None \<and> getConstantIntValue ce t \<noteq> None"
  shows "base (szst_shape \<rho> ss) = rep repetitionCount (base (zip newSizes newStrides))"
proof -
  from assms(1) obtain ss1 where f1: "foldRepetitionLoop ce ss repetitionCount = Inr ss1"
    by (cases "foldRepetitionLoop ce ss repetitionCount")
      (auto simp: foldDimsAndReturnAsStatic_def foldRepetitionCount_def)
  define ds2 where "ds2 = (case foldUnitDims ce (szst_dims ss1) of Some x \<Rightarrow> x | None \<Rightarrow> szst_dims ss1)"
  from assms(1) f1 obtain mx b ds3 where f3: "foldLinearDims ce (fitsMaxSizes mx) ds2 = Inr (b, ds3)"
    and c: "getConstantIntValues ce (map sz ds3) = Some newSizes" "getConstantIntValues ce (map stride ds3) = Some newStrides"
    unfolding foldDimsAndReturnAsStatic_def foldRepetitionCount_def ds2_def szst_dims_def
    by (auto simp: Let_def split: option.splits)
  note 1 = foldRepetitionLoop_sem [OF assms(3) f1 assms(2,4)]
  have s1: "\<forall>d \<in> set (szst_dims ss1). static_dim ce d" "sizes_ok \<rho> (szst_dims ss1)"
    using foldRepetitionLoop_static [OF f1 assms(5)] 1
    by (auto simp: szst_dims_def static_dim_def sizes_ok_def szst_ok_def)
  note 2 = foldUnitDims_or_keeps [OF s1(1) assms(3) s1(2) ds2_def]
  have "addrs \<rho> ds3 = base (szst_shape \<rho> ss1)"
    using foldLinearDims_keeps [OF f3 _ assms(3)] 2 addrs_szst_dims by metis
  then have "base (shape_of \<rho> ds3) = base (szst_shape \<rho> ss1)"
    unfolding addrs_base by (rule map_shift_base)
  moreover have "shape_of \<rho> ds3 = zip newSizes newStrides"
    using constValues_eval [OF assms(3) c(1)] constValues_eval [OF assms(3) c(2)]
    by (auto simp: shape_of_zip list_all2_conv_all_nth intro!: arg_cong2 [of _ _ _ _ zip] nth_equalityI)
  ultimately show ?thesis using 1 by simp
qed


theorem fold_static_repeats_witness:
  "foldDimsAndReturnAsStatic (\<lambda>_. None) (sampleModel npu1)
     [(Attr 32, Attr 0), (Attr 1, Attr 7), (Attr 4, Attr 16), (Attr 16, Attr 1)] 16 1 = Inr ([2, 64], [0, 1])
   \<and> base [(32, 0), (1, 7), (4, 16), (16, 1)] = rep 16 (base [(2, 0), (64, 1)])"
proof -
  let ?ss = "[(Attr 32, Attr 0), (Attr 1, Attr 7), (Attr 4, Attr 16), (Attr 16, Attr 1)]"
  let ?cfg = "\<lparr>cfgModel = sampleModel npu1, cfgTileType = MEMTILE, maxNbDims = 4, nbInterDims = 0, nbIntraDims = 4, isCircular = False\<rparr>"
  have cfg: "mk_DmaDimConfig False (sampleModel npu1) 1 = Inr ?cfg"
    by (simp add: mk_DmaDimConfig_def getDmaProp_def sample_defs)
  have mx: "getMaxSizes ?cfg (Some 3) = Inr [1024, 1024, 1024]"
    by (simp add: getMaxSizes_def DmaDimConfig_getMaxSizes_def bdProp_def getDmaBdProp_def dimsOr_def fill_n_def
        sample_defs Let_def numeral_3_eq_3)
  have f: "foldDimsAndReturnAsStatic (\<lambda>_. None) (sampleModel npu1) ?ss 16 1 = Inr ([2, 64], [0, 1])"
    unfolding foldDimsAndReturnAsStatic_def cfg
    by (simp add: foldRepetitionCount_def isConstantIntValue_def foldUnitDims_def mx [unfolded numeral_3_eq_3]
        fitsMaxSizes_def foldLinearDims_def foldLinearStep_def nth_Cons')
  from fold_static_repeats [OF f, of "\<lambda>_. 0"] f show ?thesis by (simp add: agrees_def del: base.simps)
qed

text \<open>
  With a size that is not a known constant, \<open>foldDimsAndReturnAsStatic\<close> succeeds and returns no
  dimensions at all: the linear folding leaves its result vectors empty.
\<close>

theorem dynamic_size_dropped:
  "foldDimsAndReturnAsStatic (\<lambda>_. None) (sampleModel npu1) [(Val 0, Attr 16), (Attr 16, Attr 1)] 1 1 = Inr ([], [])"
  by (simp add: foldDimsAndReturnAsStatic_def foldRepetitionCount_def isConstantIntValue_def foldUnitDims_def
      mk_DmaDimConfig_def getDmaProp_def sample_defs getMaxSizes_def DmaDimConfig_getMaxSizes_def bdProp_def
      getDmaBdProp_def dimsOr_def foldLinearDims_def Let_def)

section \<open>The limits of the hardware\<close>

lemma list_eq_upt: "length xs = n \<Longrightarrow> (\<And>i. i < n \<Longrightarrow> xs ! i = f i) \<Longrightarrow> xs = map f [0 ..< n]"
  by (auto intro: nth_equalityI)

lemma fill_n_length [simp]: "start + k \<le> length xs \<Longrightarrow> length (fill_n start k v xs) = length xs"
  by (simp add: fill_n_def)

lemma fill_n_nth:
  "start + k \<le> length xs \<Longrightarrow> i < length xs
    \<Longrightarrow> fill_n start k v xs ! i = (if start \<le> i \<and> i < start + k then v else xs ! i)"
  by (auto simp: fill_n_def nth_append)

text \<open>The largest size and stride of the \<open>k\<close>-th dimension, counted from one at the innermost.\<close>

definition hwMaxSize :: "DmaDimConfig \<Rightarrow> int \<Rightarrow> int \<Rightarrow> nat \<Rightarrow> int" where
  "hwMaxSize cfg wrap iterWrap k =
     (if k < unat (nbIntraDims cfg) then wrap else if k = unat (nbIntraDims cfg) then INT64_MAX
      else if k \<le> unat (nbIntraDims cfg) + unat (nbInterDims cfg) then iterWrap else 0)"

definition hwMaxStride :: "DmaDimConfig \<Rightarrow> int \<Rightarrow> int \<Rightarrow> nat \<Rightarrow> int" where
  "hwMaxStride cfg step iterStep k =
     (if k \<le> unat (nbIntraDims cfg) then step + 1
      else if k \<le> unat (nbIntraDims cfg) + unat (nbInterDims cfg) then iterStep + 1 else 0)"

text \<open>A vector filled from the end: \<open>p\<close> values for the intra dimensions, \<open>q\<close> for the inter ones.\<close>

lemma filled_nth:
  assumes "p \<le> n" and "q \<le> n - p" and "i < n"
  shows "fill_n (n - p - q) q w (fill_n (n - p) p v (replicate n 0)) ! i
    = (if n - p \<le> i then v else if n - p - q \<le> i then w else 0)"
  using assms by (auto simp: fill_n_nth)

lemma filled_top_nth:
  assumes "p \<le> n" and "q \<le> n - p" and "i < n" and "0 < p"
  shows "fill_n (n - p - q) q w ((fill_n (n - p) p v (replicate n 0))[n - p := u]) ! i
    = (if i = n - p then u else if n - p \<le> i then v else if n - p - q \<le> i then w else 0)"
  using assms by (auto simp: fill_n_nth nth_list_update)

lemma getMaxSizes_limits:
  assumes "bdProp cfg WrapMax 16 = Inr wrap" and "bdProp cfg IterWrapMax 8 = Inr iterWrap"
  shows "DmaDimConfig_getMaxSizes cfg (Some n) = Inr (map (\<lambda>i. hwMaxSize cfg wrap iterWrap (n - i)) [0 ..< n])"
proof -
  define a b p q where d: "a = unat (nbIntraDims cfg)" "b = unat (nbInterDims cfg)" "p = min a n" "q = min b (n - p)"
  let ?l = "fill_n (n - p) p wrap (replicate n 0)"
  let ?xs = "fill_n (n - p - q) q iterWrap (if p = a \<and> n - p < n then ?l[n - p := INT64_MAX] else ?l)"
  have "?xs ! i = hwMaxSize cfg wrap iterWrap (n - i)" if "i < n" for i
  proof (cases "p = a \<and> n - p < n")
    case True
    then have p: "p = a" "a \<le> n" "0 < a" using d(3) by auto
    have q: "q \<le> n - a" "n - a - q \<le> i \<longleftrightarrow> n - i \<le> a + b" using that p d(4) by auto
    have "?xs ! i = (if i = n - a then INT64_MAX else if n - a \<le> i then wrap else if n - a - q \<le> i then iterWrap else 0)"
      using True p q filled_top_nth [of a n q i iterWrap wrap INT64_MAX] that by simp
    also have "\<dots> = hwMaxSize cfg wrap iterWrap (n - i)"
      unfolding hwMaxSize_def d(1) [symmetric] d(2) [symmetric] q(2) using that p by auto
    finally show ?thesis .
  next
    case False
    then have c: "p = a \<and> a = 0 \<or> p = n \<and> n < a" using d(3) that by (auto simp: min_def split: if_splits)
    have q: "p \<le> n" "q \<le> n - p" using d(3,4) by auto
    have "?xs ! i = (if n - p \<le> i then wrap else if n - p - q \<le> i then iterWrap else 0)"
      unfolding if_not_P [OF False] using q that by (rule filled_nth)
    also have "\<dots> = hwMaxSize cfg wrap iterWrap (n - i)"
      unfolding hwMaxSize_def d(1) [symmetric] d(2) [symmetric] using c that d(4) by auto
    finally show ?thesis .
  qed
  moreover have "p \<le> n" "q \<le> n - p" unfolding d(3,4) by simp_all
  then have "length ?xs = n" by simp
  ultimately have "?xs = map (\<lambda>i. hwMaxSize cfg wrap iterWrap (n - i)) [0 ..< n]" by (rule list_eq_upt [rotated])
  then show ?thesis
    unfolding DmaDimConfig_getMaxSizes_def assms dimsOr_def by (simp add: Let_def split del: if_split cong: if_cong flip: d)
qed

lemma getMaxStrides_limits:
  assumes "bdProp cfg StepSizeMax 32 = Inr step" and "bdProp cfg IterStepSizeMax 32 = Inr iterStep"
    and "0 \<le> step" "step + 1 < 2 ^ 32" "0 \<le> iterStep" "iterStep + 1 < 2 ^ 32"
  shows "DmaDimConfig_getMaxStrides cfg (Some n) = Inr (map (\<lambda>i. hwMaxStride cfg step iterStep (n - i)) [0 ..< n])"
proof -
  define a b p q where d: "a = unat (nbIntraDims cfg)" "b = unat (nbInterDims cfg)" "p = min a n" "q = min b (n - p)"
  have w: "take_bit 32 (step + 1) = step + 1" "take_bit 32 (iterStep + 1) = iterStep + 1"
    using assms(3-6) by (simp_all add: take_bit_int_eq_self_iff)
  let ?xs = "fill_n (n - p - q) q (iterStep + 1) (fill_n (n - p) p (step + 1) (replicate n 0))"
  have "?xs ! i = hwMaxStride cfg step iterStep (n - i)" if "i < n" for i
    using filled_nth [of p n q i "iterStep + 1" "step + 1"] that by (auto simp: hwMaxStride_def d(3,4) simp flip: d(1,2))
  then have "?xs = map (\<lambda>i. hwMaxStride cfg step iterStep (n - i)) [0 ..< n]"
    by (intro nth_equalityI) (auto simp: d(3,4))
  then show ?thesis
    unfolding DmaDimConfig_getMaxStrides_def assms(1,2) dimsOr_def by (simp add: Let_def w flip: d)
qed

lemma anyOutOfRange_limits:
  assumes "length values = n"
  shows "anyOutOfRange values (map f [0 ..< n]) 0 \<longleftrightarrow> \<not> (\<forall>i < n. 0 \<le> values ! i \<and> values ! i \<le> f i)"
proof -
  have "set (zip values (map f [0 ..< n])) = {(values ! i, f i) | i. i < n}"
    using assms by (auto simp: set_zip)
  then show ?thesis unfolding anyOutOfRange_def list_ex_iff by (auto simp: not_le)
qed

text \<open>
  \<open>isValidAccessPattern\<close> of a DMA that is not circular accepts exactly the patterns that the
  hardware can hold: the dimensions that have to be programmed (size above one, stride other
  than zero) are no more than the intra and inter dimensions together, and each has a size and
  a stride within the limit of the hardware dimension it is mapped to.
\<close>

theorem valid_access_pattern:
  assumes "\<not> isCircular cfg" and "\<forall>s \<in> set sizes. 1 \<le> s"
    and "bdProp cfg WrapMax 16 = Inr wrap" and "bdProp cfg IterWrapMax 8 = Inr iterWrap"
    and "bdProp cfg StepSizeMax 32 = Inr step" and "bdProp cfg IterStepSizeMax 32 = Inr iterStep"
    and "0 \<le> step" "step + 1 < 2 ^ 32" "0 \<le> iterStep" "iterStep + 1 < 2 ^ 32"
    and "checked = filter (\<lambda>(s, t). s \<noteq> 1 \<and> t \<noteq> 0) (zip sizes strides)" and "n = length checked"
  shows "isValidAccessPattern cfg sizes strides =
    Inr (n \<le> unat (nbIntraDims cfg) + unat (nbInterDims cfg)
         \<and> (\<forall>i < n. fst (checked ! i) \<le> hwMaxSize cfg wrap iterWrap (n - i)
              \<and> 0 \<le> snd (checked ! i) \<and> snd (checked ! i) \<le> hwMaxStride cfg step iterStep (n - i)))"
proof -
  have pos: "2 \<le> fst (checked ! i)" if "i < n" for i
  proof -
    obtain s t where c: "checked ! i = (s, t)" by fastforce
    have "(s, t) \<in> set checked" using that c assms(12) by (metis nth_mem)
    then have "s \<noteq> 1" "s \<in> set sizes" using assms(11) by (auto dest: set_zip_leftD)
    with assms(2) c show ?thesis by force
  qed
  have few: "n \<le> unat (nbIntraDims cfg) + unat (nbInterDims cfg)"
    if "\<forall>i < n. fst (checked ! i) \<le> hwMaxSize cfg wrap iterWrap (n - i)"
  proof (rule ccontr)
    assume *: "\<not> ?thesis"
    with that have "fst (checked ! 0) \<le> hwMaxSize cfg wrap iterWrap n" by auto
    with * pos [of 0] show False by (simp add: hwMaxSize_def split: if_splits)
  qed
  have sizes: "anyOutOfRange (map fst checked) (map (\<lambda>i. hwMaxSize cfg wrap iterWrap (n - i)) [0 ..< n]) 0
      \<longleftrightarrow> \<not> (\<forall>i < n. fst (checked ! i) \<le> hwMaxSize cfg wrap iterWrap (n - i))"
    using anyOutOfRange_limits [of "map fst checked" n "\<lambda>i. hwMaxSize cfg wrap iterWrap (n - i)"] assms(12) pos
    by fastforce
  have strides: "anyOutOfRange (map snd checked) (map (\<lambda>i. hwMaxStride cfg step iterStep (n - i)) [0 ..< n]) 0
      \<longleftrightarrow> \<not> (\<forall>i < n. 0 \<le> snd (checked ! i) \<and> snd (checked ! i) \<le> hwMaxStride cfg step iterStep (n - i))"
    using anyOutOfRange_limits [of "map snd checked" n "\<lambda>i. hwMaxStride cfg step iterStep (n - i)"] assms(12) by simp
  have "isValidAccessPattern cfg sizes strides =
    Inr ((\<forall>i < n. fst (checked ! i) \<le> hwMaxSize cfg wrap iterWrap (n - i))
      \<and> (\<forall>i < n. 0 \<le> snd (checked ! i) \<and> snd (checked ! i) \<le> hwMaxStride cfg step iterStep (n - i)))"
    unfolding isValidAccessPattern_def getMaxSizes_def getMaxStrides_def
      assms(11) [symmetric] Let_def length_map assms(12) [symmetric]
      getMaxSizes_limits [OF assms(3,4)] getMaxStrides_limits [OF assms(5-10)]
    using assms(1) sizes strides by simp
  with few show ?thesis by auto
qed


definition sampleConfig :: DmaDimConfig where
  "sampleConfig = \<lparr>cfgModel = sampleModel npu1, cfgTileType = SHIMNOC, maxNbDims = 4, nbInterDims = 1,
     nbIntraDims = 3, isCircular = False\<rparr>"

theorem valid_access_pattern_witness:
  "isValidAccessPattern sampleConfig [2, 4, 2000, 8, 16] [5, 1025, 100, 10, 1] = Inr False
   \<and> isValidAccessPattern sampleConfig [1, 0x400, 2000, 8, 16] [5, 0, 100, 10, 1] = Inr True"
proof -
  have b: "bdProp sampleConfig p w = Inr (take_bit w 1024)" for p w
    by (simp add: bdProp_def sampleConfig_def getDmaBdProp_def sample_defs)
  have n: "unat (nbIntraDims sampleConfig) = 3" "unat (nbInterDims sampleConfig) = 1" "\<not> isCircular sampleConfig"
    by (simp_all add: sampleConfig_def)
  note v = valid_access_pattern [OF n(3) _ b b b b _ _ _ _ refl refl]
  show ?thesis
    by (subst v; simp?)+ (simp add: n hwMaxSize_def hwMaxStride_def INT64_MAX_def All_less_Suc2 numeral_eq_Suc)
qed

end
