(* ===== verification/Packet_Routing.thy ===== *)
theory Packet_Routing
  imports Device_Types "HOL-Library.List_Lexorder"
begin

text \<open>
  The packet rules of the router (\<open>updateGroupMask\<close>, \<open>sortGroupsBySize\<close>, \<open>verifyGroupsByMask\<close>,
  \<open>emitSlaveGroupsAndMasksRoutingConfig\<close> of \<open>iree_aie_router.cc\<close>): the packet ids that arrive at a
  slave port are put into groups, and every group becomes one rule \<open>(id AND mask) = value\<close>. The
  first rule that matches decides. A \<open>std::set\<close> of ids is its ascending list; a \<open>DenseMap\<close> of
  packet flows is the list of its entries in the order of iteration.
\<close>

unbundle bit_operations_syntax

section \<open>Model\<close>

type_synonym id_group = "u32 list"
type_synonym packet_flow_map = "(PhysPortAndID \<times> PhysPortAndID list) list"
type_synonym slave_groups = "PhysPort \<rightharpoonup> id_group list"
type_synonym slave_masks = "PhysPortAndID \<rightharpoonup> u32"

text \<open>A key made from an unsigned id: \<open>PhysPortAndID\<close> has an \<open>int\<close>.\<close>

definition idKey :: "PhysPort \<Rightarrow> u32 \<Rightarrow> PhysPortAndID" where
  "idKey p i = PhysPortAndID p (sint i)"

definition groupMask :: "u32 \<Rightarrow> id_group \<Rightarrow> u32" where
  "groupMask numMaskBits grp =
     (let mask = (if numMaskBits = 32 then NOT 0 else push_bit (unat numMaskBits) 1 - 1);
          firstId = hd grp
      in foldl (\<lambda>m i. m AND NOT (i XOR firstId)) mask grp)"

definition updateGroupMask :: "PhysPort \<Rightarrow> id_group \<Rightarrow> slave_masks \<Rightarrow> u32 \<Rightarrow> slave_masks" where
  "updateGroupMask slavePort grp slaveMasks numMaskBits =
     (if grp = [] then slaveMasks
      else foldl (\<lambda>m i. m(idKey slavePort i \<mapsto> groupMask numMaskBits grp)) slaveMasks grp)"

text \<open>Groups of equal size are compared as sets, that is as their ascending lists.\<close>

definition sortGroupsBySize :: "id_group list \<Rightarrow> id_group list" where
  "sortGroupsBySize groups = sort_key (\<lambda>g. (length g, g)) groups"

fun verifyGroupsByMask :: "PhysPort \<Rightarrow> id_group list \<Rightarrow> slave_masks \<Rightarrow> bool result" where
  "verifyGroupsByMask slavePort [] slaveMasks = Inr True"
| "verifyGroupsByMask slavePort (g # gs) slaveMasks =
     (case slaveMasks (idKey slavePort (hd g)) of
        None \<Rightarrow> Inl OutOfBounds
      | Some iMask \<Rightarrow>
          if list_ex (\<lambda>h. list_ex (\<lambda>jPktId. jPktId AND iMask = hd g AND iMask) h) gs then Inr False
          else verifyGroupsByMask slavePort gs slaveMasks)"

text \<open>\<open>physPortAndIDToPhysPort\<close>; inserting a range into a \<open>DenseMap\<close> keeps the entries it has.\<close>

definition mergeFlowMaps :: "packet_flow_map \<Rightarrow> packet_flow_map \<Rightarrow> packet_flow_map" where
  "mergeFlowMaps priorPacketFlows packetFlows =
     priorPacketFlows @ filter (\<lambda>(src, _). src \<notin> set (map fst priorPacketFlows)) packetFlows"

definition destinationPorts :: "packet_flow_map \<Rightarrow> PhysPortAndID \<rightharpoonup> PhysPort list" where
  "destinationPorts flows =
     foldl (\<lambda>m (src, dsts). m(src \<mapsto> sv_insert_all (map physPort dsts) (case m src of Some d \<Rightarrow> d | None \<Rightarrow> [])))
       Map.empty flows"

fun findGroup :: "(PhysPortAndID \<rightharpoonup> PhysPort list) \<Rightarrow> PhysPortAndID \<Rightarrow> id_group list \<Rightarrow> nat \<Rightarrow> nat option result" where
  "findGroup dests slave1 [] i = Inr None"
| "findGroup dests slave1 (g # gs) i =
     (case (dests slave1, dests (idKey (physPort slave1) (hd g))) of
        (Some dests1, Some dests2) \<Rightarrow>
          if length dests1 = length dests2 \<and> list_all (\<lambda>d. d \<in> set dests2) dests1 then Inr (Some i)
          else findGroup dests slave1 gs (Suc i)
      | _ \<Rightarrow> Inl OutOfBounds)"

text \<open>
  One round of the loop over the worklist. When a merge is reverted, the reference \<open>group\<close> is the
  slot of the matched group, which holds the old group again, so that its masks are restored.
\<close>

definition newGroup :: "u32 \<Rightarrow> PhysPort \<Rightarrow> u32 \<Rightarrow> id_group list \<Rightarrow> slave_masks \<Rightarrow> id_group list \<times> slave_masks" where
  "newGroup numMaskBits p i groups slaveMasks =
     (sortGroupsBySize (groups @ [[i]]), updateGroupMask p [i] slaveMasks numMaskBits)"

definition placeSlave ::
  "u32 \<Rightarrow> (PhysPortAndID \<rightharpoonup> PhysPort list) \<Rightarrow> PhysPortAndID \<Rightarrow> id_group list \<Rightarrow> slave_masks
   \<Rightarrow> (id_group list \<times> slave_masks) result" where
  "placeSlave numMaskBits dests slave1 groups slaveMasks =
     (let p = physPort slave1; i = word_of_int (pktId slave1)
      in res_bind (findGroup dests slave1 groups 0) (\<lambda>matchedGroupIdx.
           case matchedGroupIdx of
             None \<Rightarrow> Inr (newGroup numMaskBits p i groups slaveMasks)
           | Some k \<Rightarrow>
               (let grp = insort_insert i (groups ! k);
                    slaveMasks1 = updateGroupMask p grp slaveMasks numMaskBits;
                    groups1 = sortGroupsBySize (groups[k := grp])
                in res_bind (verifyGroupsByMask p groups1 slaveMasks1) (\<lambda>valid.
                     if valid then Inr (groups1, slaveMasks1)
                     else Inr (newGroup numMaskBits p i groups
                                 (updateGroupMask p (groups ! k) slaveMasks1 numMaskBits))))))"

definition groupsOf :: "slave_groups \<Rightarrow> PhysPort \<Rightarrow> id_group list" where
  "groupsOf G p = (case G p of Some gs \<Rightarrow> gs | None \<Rightarrow> [])"

fun slaveLoop ::
  "u32 \<Rightarrow> (PhysPortAndID \<rightharpoonup> PhysPort list) \<Rightarrow> PhysPortAndID list \<Rightarrow> slave_groups \<times> slave_masks
   \<Rightarrow> (slave_groups \<times> slave_masks) result" where
  "slaveLoop numMaskBits dests [] st = Inr st"
| "slaveLoop numMaskBits dests (slave1 # workList) (G, M) =
     res_bind (placeSlave numMaskBits dests slave1 (groupsOf G (physPort slave1)) M) (\<lambda>(groups, M').
       slaveLoop numMaskBits dests workList (G(physPort slave1 \<mapsto> groups), M'))"

definition emitSlaveGroupsAndMasksRoutingConfig ::
  "PhysPortAndID list \<Rightarrow> packet_flow_map \<Rightarrow> PhysPortAndID list \<Rightarrow> packet_flow_map \<Rightarrow> u32
   \<Rightarrow> (slave_groups \<times> slave_masks) result" where
  "emitSlaveGroupsAndMasksRoutingConfig slavePorts packetFlows priorSlavePorts priorPacketFlows numMaskBits =
     slaveLoop numMaskBits (destinationPorts (mergeFlowMaps priorPacketFlows packetFlows))
       (priorSlavePorts @ slavePorts) (Map.empty, Map.empty)"

text \<open>
  The rules made of the groups of a port (\<open>AMDAIECreatePathFindFlows.cpp\<close>), and what the switch does
  with them: the index of the first rule that matches an id.
\<close>

definition packetRules :: "PhysPort \<Rightarrow> id_group list \<Rightarrow> slave_masks \<Rightarrow> (u32 \<times> u32) list" where
  "packetRules p groups slaveMasks =
     map (\<lambda>g. let mask = (case slaveMasks (idKey p (hd g)) of Some m \<Rightarrow> m | None \<Rightarrow> 0) in (mask, hd g AND mask)) groups"

fun firstMatch :: "(u32 \<times> u32) list \<Rightarrow> u32 \<Rightarrow> nat option" where
  "firstMatch [] i = None"
| "firstMatch ((msk, value) # rules) i = (if i AND msk = value then Some 0 else map_option Suc (firstMatch rules i))"

section \<open>Masks\<close>

definition fullMask :: "u32 \<Rightarrow> u32" where
  "fullMask n = (if n = 32 then NOT 0 else push_bit (unat n) 1 - 1)"

lemma bit_fullMask: "k < 32 \<Longrightarrow> n \<le> 32 \<Longrightarrow> bit (fullMask n) k \<longleftrightarrow> k < unat n"
proof -
  assume a: "k < 32" "n \<le> 32"
  have "push_bit (unat n) (1 :: u32) - 1 = mask (unat n)" by (simp add: mask_eq_exp_minus_1 push_bit_eq_mult)
  with a show ?thesis by (auto simp: fullMask_def bit_mask_iff word_le_nat_alt)
qed

lemma bit_mask_fold:
  fixes m f :: u32
  assumes "k < 32"
  shows "bit (foldl (\<lambda>m i. m AND NOT (i XOR f)) m g) k \<longleftrightarrow> bit m k \<and> (\<forall>i \<in> set g. bit i k = bit f k)"
  using assms by (induction g arbitrary: m) (auto simp: bit_simps)

lemma bit_groupMask:
  fixes g :: id_group
  assumes "k < 32"
  shows "bit (groupMask n g) k \<longleftrightarrow> bit (fullMask n) k \<and> (\<forall>i \<in> set g. bit i k = bit (hd g) k)"
  using assms by (auto simp: groupMask_def Let_def fullMask_def bit_mask_fold bit_simps)

lemma groupMask_own:
  assumes "i \<in> set g"
  shows "i AND groupMask n g = hd g AND groupMask n g"
proof (rule bit_word_eqI)
  fix k assume "k < LENGTH(32)"
  then have "k < 32" by simp
  from bit_groupMask [OF this, of n g] assms
  show "bit (i AND groupMask n g) k = bit (hd g AND groupMask n g) k" by (auto simp: bit_simps)
qed

lemma groupMask_single:
  assumes "n \<le> 32" and "i AND groupMask n [j] = j AND groupMask n [j]"
    and "unat i < 2 ^ unat n" and "unat j < 2 ^ unat n"
  shows "i = j"
proof (rule bit_word_eqI)
  fix k assume "k < LENGTH(32)"
  then have k: "k < 32" by simp
  have high: "\<not> bit x k" if "unat x < 2 ^ unat n" "unat n \<le> k" for x :: u32
  proof -
    have "\<not> bit (unat x) k" using that less_le_trans [OF that(1), of "2 ^ k"]
      by (metis bit_take_bit_iff less_irrefl take_bit_nat_eq_self power_increasing one_le_numeral)
    then show ?thesis by (simp add: bit_unsigned_iff)
  qed
  show "bit i k = bit j k"
  proof (cases "k < unat n")
    case True
    have "bit (i AND groupMask n [j]) k = bit (j AND groupMask n [j]) k" using assms(2) by simp
    then show ?thesis using True k assms(1) bit_groupMask [OF k, of n "[j]"] by (auto simp: bit_simps bit_fullMask)
  qed (use high assms in auto)
qed

lemma idKey_inj [simp]: "idKey p i = idKey q j \<longleftrightarrow> p = q \<and> i = j"
  by (auto simp: idKey_def signed_word_eqI)

lemma foldl_map_upd:
  "foldl (\<lambda>m i. m(f i \<mapsto> c)) M g x = (if x \<in> f ` set g then Some c else M x)"
  by (induction g arbitrary: M) auto

lemma updateGroupMask_at:
  "updateGroupMask p g M n x = (if x \<in> idKey p ` set g then Some (groupMask n g) else M x)"
  by (simp add: updateGroupMask_def foldl_map_upd)

section \<open>The order of the groups\<close>

fun apart :: "u32 \<Rightarrow> id_group list \<Rightarrow> bool" where
  "apart n [] = True"
| "apart n (g # gs) =
     ((\<forall>h \<in> set gs. \<forall>j \<in> set h. j AND groupMask n g \<noteq> hd g AND groupMask n g) \<and> apart n gs)"

lemma verify_apart:
  assumes "\<forall>g \<in> set gs. M (idKey p (hd g)) = Some (groupMask n g)"
  shows "verifyGroupsByMask p gs M = Inr (apart n gs)"
  using assms by (induction gs) (auto simp: list_ex_iff)

lemma apart_append:
  "apart n (xs @ ys) \<longleftrightarrow> apart n xs \<and> apart n ys
     \<and> (\<forall>g \<in> set xs. \<forall>h \<in> set ys. \<forall>j \<in> set h. j AND groupMask n g \<noteq> hd g AND groupMask n g)"
  by (induction xs) auto

lemma apart_firstMatch:
  assumes "apart n gs" and "\<forall>g \<in> set gs. M (idKey p (hd g)) = Some (groupMask n g)"
    and "k < length gs" and "i \<in> set (gs ! k)"
  shows "firstMatch (packetRules p gs M) i = Some k"
  using assms
proof (induction gs arbitrary: k)
  case (Cons g gs)
  show ?case
  proof (cases k)
    case 0
    with Cons.prems groupMask_own [of i g n] show ?thesis by (simp add: packetRules_def Let_def)
  next
    case (Suc k')
    with Cons.prems have "i AND groupMask n g \<noteq> hd g AND groupMask n g" by (auto dest: nth_mem)
    with Cons Suc show ?thesis by (simp add: packetRules_def Let_def)
  qed
qed simp

abbreviation group_key :: "id_group \<Rightarrow> nat \<times> id_group" where "group_key g \<equiv> (length g, g)"

lemma sorted_sortGroups: "sorted (map group_key (sortGroupsBySize gs))"
  by (simp add: sortGroupsBySize_def)

lemma mset_sortGroups [simp]: "mset (sortGroupsBySize gs) = mset gs"
  by (simp add: sortGroupsBySize_def)

lemma sorted_key_unique:
  fixes f :: "'a \<Rightarrow> 'b :: linorder"
  assumes "inj f" and "mset xs = mset gs" and "sorted (map f xs)"
  shows "sort_key f gs = xs"
proof -
  have "sort (map f gs) = map f xs"
    by (rule properties_for_sort) (use assms in simp_all)
  moreover have "sort (map f gs) = map f (sort_key f gs)"
    by (rule properties_for_sort) simp_all
  ultimately have "map f (sort_key f gs) = map f xs" by simp
  with assms(1) show ?thesis by (simp add: inj_map_eq_map)
qed

lemma sort_key_insert_split:
  fixes f :: "'a \<Rightarrow> 'b :: linorder"
  assumes "inj f" and "sorted (map f gs)"
  shows "\<exists>pre post. gs = pre @ post \<and> sort_key f (gs @ [g]) = pre @ g # post \<and> (\<forall>h \<in> set pre. f h \<le> f g)"
proof -
  let ?pre = "takeWhile (\<lambda>h. f h \<le> f g) gs" and ?post = "dropWhile (\<lambda>h. f h \<le> f g) gs"
  have gs: "?pre @ ?post = gs" by simp
  have pre: "\<forall>h \<in> set ?pre. f h \<le> f g" by (auto dest: set_takeWhileD)
  have "sorted (map f ?pre @ map f ?post)"
    unfolding map_append [symmetric] gs by (rule assms)
  then have s: "sorted (map f ?pre)" "sorted (map f ?post)" by (auto simp: sorted_append)
  have post: "f g \<le> f h" if "h \<in> set ?post" for h
  proof (cases ?post)
    case (Cons a r)
    then have "f g \<le> f a" using hd_dropWhile [of "\<lambda>h. f h \<le> f g" gs] by simp
    moreover have "h = a \<or> f a \<le> f h" using that s(2) Cons by auto
    ultimately show ?thesis by (auto intro: order_trans)
  next
    case Nil
    with that have "h \<in> set []" by (simp only: )
    then show ?thesis by simp
  qed
  have "mset (?pre @ g # ?post) = mset (?pre @ ?post) + {#g#}" by (simp del: takeWhile_dropWhile_id)
  then have "mset (?pre @ g # ?post) = mset (gs @ [g])" by (simp add: gs)
  moreover have "sorted (map f (?pre @ g # ?post))"
    using s pre post by (auto simp: sorted_append intro: order_trans [of _ "f g"])
  ultimately have "sort_key f (gs @ [g]) = ?pre @ g # ?post" by (rule sorted_key_unique [OF assms(1)])
  then show ?thesis using pre gs by metis
qed

lemma sort_insert_split:
  assumes "sorted (map group_key gs)"
  shows "\<exists>pre post. gs = pre @ post \<and> sortGroupsBySize (gs @ [g]) = pre @ g # post \<and> (\<forall>h \<in> set pre. length h \<le> length g)"
proof -
  obtain pre post where "gs = pre @ post" "sort_key group_key (gs @ [g]) = pre @ g # post"
      "\<forall>h \<in> set pre. group_key h \<le> group_key g"
    using sort_key_insert_split [of group_key gs g] assms by (auto simp: inj_def simp del: less_eq_prod_simp)
  then show ?thesis unfolding sortGroupsBySize_def by fastforce
qed

section \<open>The invariant of the loop\<close>

definition dest_set :: "(PhysPortAndID \<rightharpoonup> PhysPort list) \<Rightarrow> PhysPort \<Rightarrow> u32 \<Rightarrow> PhysPort set option" where
  "dest_set dests p i = map_option set (dests (idKey p i))"

text \<open>The groups of a port that hold the ids \<open>S\<close>.\<close>

definition group_ok :: "u32 \<Rightarrow> (PhysPortAndID \<rightharpoonup> PhysPort list) \<Rightarrow> PhysPort \<Rightarrow> slave_masks \<Rightarrow> id_group \<Rightarrow> bool" where
  "group_ok n dests p M g \<longleftrightarrow> g \<noteq> [] \<and> sorted g \<and> distinct g
     \<and> (\<forall>i \<in> set g. M (idKey p i) = Some (groupMask n g) \<and> dest_set dests p i = dest_set dests p (hd g))"

definition port_ok ::
  "u32 \<Rightarrow> (PhysPortAndID \<rightharpoonup> PhysPort list) \<Rightarrow> PhysPort \<Rightarrow> u32 set \<Rightarrow> id_group list \<Rightarrow> slave_masks \<Rightarrow> bool" where
  "port_ok n dests p S gs M \<longleftrightarrow> (\<forall>g \<in> set gs. group_ok n dests p M g) \<and> distinct (concat gs)
     \<and> set (concat gs) = S \<and> sorted (map group_key gs) \<and> apart n gs"

lemma group_ok_masks:
  "group_ok n dests p M g \<Longrightarrow> (\<And>i. i \<in> set g \<Longrightarrow> M' (idKey p i) = M (idKey p i)) \<Longrightarrow> group_ok n dests p M' g"
  unfolding group_ok_def by metis

lemma group_ok_hd: "group_ok n dests p M g \<Longrightarrow> M (idKey p (hd g)) = Some (groupMask n g)"
  by (simp add: group_ok_def)

lemma mset_concat_sum: "mset (concat gs) = sum_mset (image_mset mset (mset gs))"
  by (induction gs) simp_all

lemma distinct_concat_mset: "mset gs = mset hs \<Longrightarrow> distinct (concat gs) = distinct (concat hs)"
  by (rule mset_eq_imp_distinct_iff) (simp add: mset_concat_sum)

lemma newGroup_ok:
  assumes ok: "port_ok n dests p S gs M" and new: "i \<notin> S" and n: "n \<le> 32"
    and small: "\<forall>j \<in> insert i S. unat j < 2 ^ unat n"
    and masks: "\<And>j. j \<in> S \<Longrightarrow> M' (idKey p j) = M (idKey p j)"
    and res: "newGroup n p i gs M' = (gs', M'')"
  shows "port_ok n dests p (insert i S) gs' M''"
proof -
  have M'': "M'' x = (if x = idKey p i then Some (groupMask n [i]) else M' x)" for x
    using res by (auto simp: newGroup_def updateGroupMask_at)
  have gs': "gs' = sortGroupsBySize (gs @ [[i]])" using res by (simp add: newGroup_def)
  from ok sort_insert_split [of gs "[i]"] gs' obtain pre post where
    sp: "gs = pre @ post" "gs' = pre @ [i] # post" "\<forall>h \<in> set pre. length h \<le> 1" by (auto simp: port_ok_def)
  have S: "set (concat gs) = S" using ok by (simp add: port_ok_def)
  have old: "group_ok n dests p M'' g" if "g \<in> set gs" for g
  proof (rule group_ok_masks)
    show "group_ok n dests p M g" using ok that by (simp add: port_ok_def)
    fix j assume "j \<in> set g"
    with that S have "j \<in> S" by auto
    with new M'' masks show "M'' (idKey p j) = M (idKey p j)" by auto
  qed
  have other: "j AND groupMask n [k] \<noteq> k AND groupMask n [k]"
    if "j \<noteq> k" "j \<in> insert i S" "k \<in> insert i S" for j k
    using groupMask_single [OF n, of j k] that small by blast
  have ap: "apart n pre" "apart n post"
      "\<forall>g \<in> set pre. \<forall>h \<in> set post. \<forall>j \<in> set h. j AND groupMask n g \<noteq> hd g AND groupMask n g"
    using ok sp(1) by (simp_all add: port_ok_def apart_append)
  have "i AND groupMask n g \<noteq> hd g AND groupMask n g" if g: "g \<in> set pre" for g
  proof -
    have "g \<noteq> []" using g sp(1) ok by (auto simp: port_ok_def group_ok_def)
    moreover have "length g \<le> 1" using g sp(3) by blast
    ultimately have "g = [hd g]" "g \<noteq> []" by (cases g, auto)
    moreover have "hd g \<in> S" using g sp(1) S \<open>g \<noteq> []\<close> by auto
    ultimately show ?thesis using other [of i "hd g"] new by auto
  qed
  moreover have "j AND groupMask n [i] \<noteq> i AND groupMask n [i]" if "h \<in> set post" "j \<in> set h" for h j
  proof -
    have "j \<in> S" using that sp(1) S by auto
    with other [of j i] new show ?thesis by auto
  qed
  ultimately have "apart n gs'" using ap by (auto simp: sp(2) apart_append)
  moreover have "group_ok n dests p M'' [i]" by (simp add: group_ok_def M'')
  moreover have "distinct (concat gs')" "set (concat gs') = insert i S"
    using ok new S sp(1) by (auto simp: sp(2) port_ok_def)
  moreover have "sorted (map group_key gs')" unfolding gs' by (rule sorted_sortGroups)
  moreover have "g = [i] \<or> g \<in> set gs" if "g \<in> set gs'" for g using sp that by auto
  then have "group_ok n dests p M'' g" if "g \<in> set gs'" for g
    using that old \<open>group_ok n dests p M'' [i]\<close> by metis
  ultimately show ?thesis by (simp only: port_ok_def) simp
qed


lemma merge_ok:
  assumes ok: "port_ok n dests p S gs M" and k: "k < length gs" and new: "i \<notin> S"
    and same: "dest_set dests p i = dest_set dests p (hd (gs ! k))"
    and grp: "grp = insort_insert i (gs ! k)" and M1: "M1 = updateGroupMask p grp M n"
    and gs1: "gs1 = sortGroupsBySize (gs[k := grp])"
  shows "verifyGroupsByMask p gs1 M1 = Inr (apart n gs1)"
    and "apart n gs1 \<Longrightarrow> port_ok n dests p (insert i S) gs1 M1"
    and "j \<in> S \<Longrightarrow> updateGroupMask p (gs ! k) M1 n (idKey p j) = M (idKey p j)"
proof -
  define h where "h = gs ! k"
  obtain pre post where sp: "gs = pre @ h # post" "gs[k := grp] = pre @ grp # post"
    using k by (metis h_def id_take_nth_drop upd_conv_take_nth_drop)
  have S: "set (concat gs) = S" and dis: "distinct (concat gs)" and hok: "group_ok n dests p M h"
    using ok k by (auto simp: port_ok_def h_def)
  have h: "i \<notin> set h" "set h \<subseteq> S" using S new sp(1) by auto
  then have grp': "grp = insort i h" by (simp add: grp h_def insort_insert_insort)
  have M1': "M1 x = (if x \<in> idKey p ` insert i (set h) then Some (groupMask n grp) else M x)" for x
    by (simp add: M1 updateGroupMask_at grp' set_insort_key)
  have ms: "mset gs1 = mset (pre @ grp # post)" using sp(2) by (simp add: gs1)
  then have set1: "set gs1 = insert grp (set pre \<union> set post)" by (metis mset_eq_setD set_append list.simps(15) Un_insert_right)
  have dst: "dest_set dests p j = dest_set dests p (hd h)" if "j \<in> set grp" for j
  proof (cases "j = i")
    case True
    then show ?thesis using same by (simp add: h_def)
  next
    case False
    then have "j \<in> set h" using that by (simp add: grp' set_insort_key)
    then show ?thesis using hok unfolding group_ok_def by blast
  qed
  have ne: "grp \<noteq> []" using grp' by (cases h) auto
  have own: "group_ok n dests p M1 grp"
    unfolding group_ok_def
  proof (intro conjI ballI)
    show "sorted grp" "distinct grp" using hok h by (auto simp: grp' group_ok_def sorted_insort distinct_insort)
    fix j assume j: "j \<in> set grp"
    then show "M1 (idKey p j) = Some (groupMask n grp)" by (auto simp: M1' grp' set_insort_key)
    show "dest_set dests p j = dest_set dests p (hd grp)" using dst [OF j] dst [of "hd grp"] ne by simp
  qed (rule ne)
  have rest: "group_ok n dests p M1 g" if g: "g \<in> set pre \<union> set post" for g
  proof (rule group_ok_masks)
    show "group_ok n dests p M g" using ok g sp(1) by (auto simp: port_ok_def)
    fix j assume j: "j \<in> set g"
    have "j \<notin> set h" using dis g j sp(1) by auto
    moreover have "j \<noteq> i" using S new g j sp(1) by auto
    ultimately show "M1 (idKey p j) = M (idKey p j)" by (auto simp: M1')
  qed
  have all: "\<forall>g \<in> set gs1. group_ok n dests p M1 g"
  proof
    fix g assume "g \<in> set gs1"
    then show "group_ok n dests p M1 g" using own rest [of g] by (cases "g = grp") (simp_all add: set1)
  qed
  then have "M1 (idKey p (hd g)) = Some (groupMask n g)" if "g \<in> set gs1" for g
    using that group_ok_hd by blast
  then have "\<forall>g \<in> set gs1. M1 (idKey p (hd g)) = Some (groupMask n g)" by blast
  then show "verifyGroupsByMask p gs1 M1 = Inr (apart n gs1)" by (rule verify_apart)
  have "distinct (concat (pre @ grp # post))"
    using dis S new by (auto simp: sp(1) grp' set_insort_key distinct_insort)
  then have d1: "distinct (concat gs1)" using distinct_concat_mset [OF ms] by simp
  have "set (concat gs1) = insert i S" using S by (auto simp: set1 grp' set_insort_key sp(1))
  then show "port_ok n dests p (insert i S) gs1 M1" if "apart n gs1"
    using that all d1 sorted_sortGroups [of "gs[k := grp]"] by (simp only: port_ok_def gs1)
  show "updateGroupMask p (gs ! k) M1 n (idKey p j) = M (idKey p j)" if j: "j \<in> S"
  proof (cases "j \<in> set h")
    case True
    then have "M (idKey p j) = Some (groupMask n h)" using hok unfolding group_ok_def by blast
    with True show ?thesis by (simp add: updateGroupMask_at flip: h_def)
  next
    case False
    then show ?thesis using j new by (auto simp: updateGroupMask_at M1' simp flip: h_def)
  qed
qed

lemma findGroup_total:
  assumes "dests s = Some d" and "distinct d"
    and "\<And>g. g \<in> set gs \<Longrightarrow> \<exists>e. dests (idKey (physPort s) (hd g)) = Some e \<and> distinct e"
  shows "findGroup dests s gs m = Inr None
    \<or> (\<exists>k < length gs. findGroup dests s gs m = Inr (Some (m + k)) \<and> Some (set d) = dest_set dests (physPort s) (hd (gs ! k)))"
  using assms(3)
proof (induction gs arbitrary: m)
  case (Cons g gs)
  obtain e where e: "dests (idKey (physPort s) (hd g)) = Some e" "distinct e" using Cons.prems [of g] by auto
  show ?case
  proof (cases "length d = length e \<and> list_all (\<lambda>x. x \<in> set e) d")
    case True
    then have "set d \<subseteq> set e" "card (set d) = card (set e)"
      using assms(2) e(2) by (auto simp: list_all_iff distinct_card)
    then have "set d = set e" by (simp add: card_subset_eq)
    then have "\<exists>k < length (g # gs). findGroup dests s (g # gs) m = Inr (Some (m + k))
        \<and> Some (set d) = dest_set dests (physPort s) (hd ((g # gs) ! k))"
      using True assms(1) e by (intro exI [of _ 0]) (simp add: dest_set_def)
    then show ?thesis ..
  next
    case False
    then have "findGroup dests s (g # gs) m = findGroup dests s gs (Suc m)" using assms(1) e by auto
    note step = this
    from Cons.IH [of "Suc m"] Cons.prems consider "findGroup dests s gs (Suc m) = Inr None"
      | k where "k < length gs" "findGroup dests s gs (Suc m) = Inr (Some (Suc m + k))"
          "Some (set d) = dest_set dests (physPort s) (hd (gs ! k))" by auto
    then show ?thesis
    proof cases
      case 2
      then have "Suc k < length (g # gs) \<and> findGroup dests s (g # gs) m = Inr (Some (m + Suc k))
          \<and> Some (set d) = dest_set dests (physPort s) (hd ((g # gs) ! Suc k))" using step by simp
      then show ?thesis by blast
    qed (use step in simp)
  qed
qed simp


lemma updateGroupMask_other: "q \<noteq> p \<Longrightarrow> updateGroupMask p g M n (idKey q j) = M (idKey q j)"
  by (auto simp: updateGroupMask_at)

lemma placeSlave_ok:
  assumes ok: "port_ok n dests p S gs M" and s: "s = idKey p i" and new: "i \<notin> S" and n: "n \<le> 32"
    and small: "\<forall>j \<in> insert i S. unat j < 2 ^ unat n"
    and known: "\<And>j. j \<in> insert i S \<Longrightarrow> \<exists>d. dests (idKey p j) = Some d \<and> distinct d"
  shows "\<exists>gs' M'. placeSlave n dests s gs M = Inr (gs', M') \<and> port_ok n dests p (insert i S) gs' M'
    \<and> (\<forall>q j. q \<noteq> p \<longrightarrow> M' (idKey q j) = M (idKey q j))"
proof -
  have ps: "physPort s = p" "word_of_int (pktId s) = i" by (simp_all add: s idKey_def)
  obtain d where d: "dests s = Some d" "distinct d" using known s by blast
  have heads: "\<exists>e. dests (idKey (physPort s) (hd g)) = Some e \<and> distinct e" if "g \<in> set gs" for g
  proof -
    have "g \<noteq> []" using ok that unfolding port_ok_def group_ok_def by blast
    then have "hd g \<in> S" using ok that by (auto simp: port_ok_def)
    then show ?thesis using known ps by simp
  qed
  have fresh: "\<exists>gs' M'. Inr (newGroup n p i gs M0) = Inr (gs', M') \<and> port_ok n dests p (insert i S) gs' M'
      \<and> (\<forall>q j. q \<noteq> p \<longrightarrow> M' (idKey q j) = M (idKey q j))"
    if "\<And>j. j \<in> S \<Longrightarrow> M0 (idKey p j) = M (idKey p j)" "\<And>q j. q \<noteq> p \<Longrightarrow> M0 (idKey q j) = M (idKey q j)" for M0
    using newGroup_ok [OF ok new n small that(1)] that(2) by (auto simp: newGroup_def updateGroupMask_other)
  from findGroup_total [OF d heads, of gs 0] consider (none) "findGroup dests s gs 0 = Inr None"
    | (some) k where "k < length gs" "findGroup dests s gs 0 = Inr (Some k)"
        "Some (set d) = dest_set dests p (hd (gs ! k))" unfolding ps by auto
  then show ?thesis
  proof cases
    case none
    then show ?thesis using fresh [of M] by (simp add: placeSlave_def ps Let_def)
  next
    case some
    have same: "dest_set dests p i = dest_set dests p (hd (gs ! k))"
      using some(3) d(1) by (simp add: dest_set_def flip: s)
    define grp M1 gs1 where defs: "grp = insort_insert i (gs ! k)" "M1 = updateGroupMask p grp M n"
      "gs1 = sortGroupsBySize (gs[k := grp])"
    note m = merge_ok [OF ok some(1) new same defs]
    have other: "M1 (idKey q j) = M (idKey q j)" if "q \<noteq> p" for q j
      using that by (simp add: defs(2) updateGroupMask_other)
    have "placeSlave n dests s gs M = (if apart n gs1 then Inr (gs1, M1)
        else Inr (newGroup n p i gs (updateGroupMask p (gs ! k) M1 n)))"
      using some(2) m(1) by (simp add: placeSlave_def ps Let_def flip: defs)
    then show ?thesis
      using m(2) other fresh [of "updateGroupMask p (gs ! k) M1 n"] m(3)
      by (cases "apart n gs1") (simp_all add: updateGroupMask_other)
  qed
qed

definition ids_at :: "PhysPortAndID set \<Rightarrow> PhysPort \<Rightarrow> u32 set" where
  "ids_at W p = {i. idKey p i \<in> W}"

definition routing_ok ::
  "u32 \<Rightarrow> (PhysPortAndID \<rightharpoonup> PhysPort list) \<Rightarrow> PhysPortAndID set \<Rightarrow> slave_groups \<times> slave_masks \<Rightarrow> bool" where
  "routing_ok n dests W st \<longleftrightarrow> (\<forall>p. port_ok n dests p (ids_at W p) (groupsOf (fst st) p) (snd st))"

lemma port_ok_masks:
  assumes "port_ok n dests p S gs M" and "\<And>j. M' (idKey p j) = M (idKey p j)"
  shows "port_ok n dests p S gs M'"
proof -
  have "group_ok n dests p M' g" if "g \<in> set gs" for g
    using that assms group_ok_masks [of n dests p M g M'] unfolding port_ok_def by blast
  with assms(1) show ?thesis by (simp only: port_ok_def) simp
qed

text \<open>The ids of a worklist fit into the mask, and have destinations.\<close>

definition slave_ok :: "u32 \<Rightarrow> (PhysPortAndID \<rightharpoonup> PhysPort list) \<Rightarrow> PhysPortAndID \<Rightarrow> bool" where
  "slave_ok n dests s \<longleftrightarrow> (\<exists>p i. s = idKey p i \<and> unat i < 2 ^ unat n) \<and> (\<exists>d. dests s = Some d \<and> distinct d)"

lemma slaveLoop_ok:
  assumes "routing_ok n dests W st" and "n \<le> 32" and "distinct ws" and "set ws \<inter> W = {}"
    and "\<forall>s \<in> W \<union> set ws. slave_ok n dests s"
  shows "\<exists>st'. slaveLoop n dests ws st = Inr st' \<and> routing_ok n dests (W \<union> set ws) st'"
  using assms(1,3-5)
proof (induction ws arbitrary: W st)
  case (Cons s ws)
  obtain G M where st: "st = (G, M)" by fastforce
  obtain p i where s: "s = idKey p i" using Cons.prems(4) by (auto simp: slave_ok_def)
  let ?S = "ids_at W p"
  have all: "unat j < 2 ^ unat n \<and> (\<exists>d. dests (idKey p j) = Some d \<and> distinct d)" if "j \<in> insert i ?S" for j
  proof -
    have "idKey p j \<in> W \<union> set (s # ws)" using that s by (auto simp: ids_at_def)
    with Cons.prems(4) show ?thesis by (force simp: slave_ok_def)
  qed
  have new: "i \<notin> ?S" using Cons.prems(3) s by (auto simp: ids_at_def)
  have ok: "port_ok n dests p ?S (groupsOf G p) M" using Cons.prems(1) st by (simp add: routing_ok_def)
  obtain gs' M' where pl: "placeSlave n dests s (groupsOf G p) M = Inr (gs', M')"
      "port_ok n dests p (insert i ?S) gs' M'" "\<forall>q j. q \<noteq> p \<longrightarrow> M' (idKey q j) = M (idKey q j)"
    using placeSlave_ok [OF ok s new assms(2)] all by blast
  have ids: "ids_at (insert s W) q = (if q = p then insert i ?S else ids_at W q)" for q
    by (auto simp: ids_at_def s)
  have "port_ok n dests q (ids_at (insert s W) q) (groupsOf (G(p \<mapsto> gs')) q) M'" for q
  proof (cases "q = p")
    case True
    then show ?thesis using pl(2) by (simp add: ids groupsOf_def)
  next
    case False
    have "port_ok n dests q (ids_at W q) (groupsOf G q) M'"
      by (rule port_ok_masks [of _ _ _ _ _ M]) (use Cons.prems(1) st pl(3) False in \<open>auto simp: routing_ok_def\<close>)
    with False show ?thesis by (simp add: ids groupsOf_def)
  qed
  then have "routing_ok n dests (insert s W) (G(p \<mapsto> gs'), M')" by (simp add: routing_ok_def)
  from Cons.IH [OF this] Cons.prems obtain st' where
    "slaveLoop n dests ws (G(p \<mapsto> gs'), M') = Inr st'" "routing_ok n dests (insert s W \<union> set ws) st'" by auto
  with pl(1) show ?case by (simp add: st s idKey_def)
qed simp


lemma destinationPorts_aux:
  "dom (foldl (\<lambda>m (src, dsts). m(src \<mapsto> sv_insert_all (map physPort dsts) (case m src of Some d \<Rightarrow> d | None \<Rightarrow> []))) m flows)
     = dom m \<union> fst ` set flows"
  "\<forall>s d. m s = Some d \<longrightarrow> distinct d \<Longrightarrow>
     foldl (\<lambda>m (src, dsts). m(src \<mapsto> sv_insert_all (map physPort dsts) (case m src of Some d \<Rightarrow> d | None \<Rightarrow> []))) m flows s = Some d
     \<Longrightarrow> distinct d"
proof (induction flows arbitrary: m)
  case (Cons x flows)
  { case 1 show ?case using Cons.IH(1) by (cases x) auto
  next
    case 2
    obtain src dsts where x: "x = (src, dsts)" by fastforce
    let ?m = "m(src \<mapsto> sv_insert_all (map physPort dsts) (case m src of Some d \<Rightarrow> d | None \<Rightarrow> []))"
    have "\<forall>s d. ?m s = Some d \<longrightarrow> distinct d" using 2(1) by (auto split: option.splits)
    from Cons.IH(2) [OF this] 2(2) x show ?case by simp }
qed auto

lemma destinationPorts_known:
  assumes "s \<in> fst ` set priorPacketFlows \<union> fst ` set packetFlows"
  shows "\<exists>d. destinationPorts (mergeFlowMaps priorPacketFlows packetFlows) s = Some d \<and> distinct d"
proof -
  have "s \<in> fst ` set (mergeFlowMaps priorPacketFlows packetFlows)"
  proof (cases "s \<in> fst ` set priorPacketFlows")
    case False
    with assms obtain d where "(s, d) \<in> set packetFlows" by auto
    with False have "(s, d) \<in> set (mergeFlowMaps priorPacketFlows packetFlows)" by (auto simp: mergeFlowMaps_def)
    then show ?thesis by force
  qed (auto simp: mergeFlowMaps_def)
  then have "s \<in> dom (destinationPorts (mergeFlowMaps priorPacketFlows packetFlows))"
    by (simp add: destinationPorts_def destinationPorts_aux(1))
  then show ?thesis unfolding destinationPorts_def using destinationPorts_aux(2) [of Map.empty] by fastforce
qed

lemma id_fits:
  assumes "n \<le> (31 :: u32)" and i: "0 \<le> i" "i < 2 ^ unat n"
  shows "PhysPortAndID p i = idKey p (word_of_int i) \<and> unat (word_of_int i :: u32) < 2 ^ unat n"
proof -
  have "unat n \<le> 31" using assms(1) by (simp add: word_le_nat_alt)
  with i have "i < 2 ^ 31" using power_increasing [of "unat n" 31 "2 :: int"] by linarith
  with i have "sint (word_of_int i :: u32) = i" "uint (word_of_int i :: u32) = i"
    by (simp_all add: signed_of_int signed_take_bit_int_eq_self_iff uint_word_of_int)
  moreover have "unat (word_of_int i :: u32) = nat i" using calculation(2) by (metis unat_eq_nat_uint)
  moreover have "nat i < 2 ^ unat n" using i by (simp add: nat_less_iff)
  ultimately show ?thesis by (simp only: idKey_def simp_thms)
qed

lemma port_ok_routes:
  assumes ok: "port_ok n dests p S gs M" and "i \<in> S"
  shows "\<exists>k < length gs. firstMatch (packetRules p gs M) i = Some k \<and> i \<in> set (gs ! k)
    \<and> (\<forall>j \<in> set (gs ! k). j \<in> S \<and> dest_set dests p j = dest_set dests p i)"
proof -
  have S: "set (concat gs) = S" "apart n gs" using ok unfolding port_ok_def by blast+
  with assms(2) obtain k where k: "k < length gs" "i \<in> set (gs ! k)" by (metis in_set_conv_nth UN_E set_concat)
  have gok: "group_ok n dests p M (gs ! k)" using ok k(1) by (simp add: port_ok_def)
  have "\<forall>g \<in> set gs. M (idKey p (hd g)) = Some (groupMask n g)"
    using ok group_ok_hd unfolding port_ok_def by blast
  then have "firstMatch (packetRules p gs M) i = Some k" using apart_firstMatch S(2) k by blast
  moreover have "j \<in> S \<and> dest_set dests p j = dest_set dests p i" if "j \<in> set (gs ! k)" for j
  proof
    show "j \<in> S" using that nth_mem [OF k(1)] S(1) by auto
    show "dest_set dests p j = dest_set dests p i" using gok that k(2) unfolding group_ok_def by metis
  qed
  ultimately show ?thesis using k by blast
qed

section \<open>Properties\<close>


definition samplePort :: "StrmSwPortType \<Rightarrow> PortDirection \<Rightarrow> PhysPort" where
  "samplePort b d = PhysPort (TileLoc 0 1) (Port b 0) d"

definition sampleFlows :: packet_flow_map where
  "sampleFlows = map (\<lambda>i. (PhysPortAndID (samplePort SOUTH SRC) i,
     [PhysPortAndID (samplePort (if i = 2 then DMA else NORTH) DST) i])) [3, 4, 5, 2]"


end
