(* ===== verification/AMSel_Generator.thy ===== *)
theory AMSel_Generator
  imports Device_Ops
begin

text \<open>
  \<open>amsel_generator.h\<close> and \<open>.cc\<close>: the assignment of an arbiter and an msel (master select) to every
  packet flow of a tile, and \<open>emitPacketRoutingConfiguration\<close> of \<open>iree_aie_router.cc\<close>, which makes the
  master sets of the ports of it. A \<open>DenseMap\<close> is a map; the generators of the tiles are kept as a
  list of entries, since \<open>solve\<close> iterates over them (in an order that does not matter: the tiles
  do not share state).
\<close>

section \<open>Msels of one arbiter\<close>

record MSelGenerator =
  numMSels :: u8
  curMSel :: u8
  srcPhysPortAndIDs :: "PhysPortAndID list"
  connectionToMSel :: "Port list \<rightharpoonup> u8"
  physPortToConnection :: "PhysPortAndID \<rightharpoonup> Port list"

definition mk_MSelGenerator :: "u8 \<Rightarrow> MSelGenerator" where
  "mk_MSelGenerator n = \<lparr>numMSels = n, curMSel = 0, srcPhysPortAndIDs = [], connectionToMSel = Map.empty,
     physPortToConnection = Map.empty\<rparr>"

definition portsOf :: "PhysPortAndID list \<Rightarrow> Port list" where
  "portsOf ds = map (\<lambda>d. port (physPort d)) ds"

definition MSel_addConnection :: "PhysPortAndID \<Rightarrow> PhysPortAndID list \<Rightarrow> MSelGenerator \<Rightarrow> MSelGenerator result" where
  "MSel_addConnection src dsts g =
     (let dstPorts = portsOf dsts;
          done = (\<lambda>g. Inr (g\<lparr>physPortToConnection := (physPortToConnection g)(src \<mapsto> dstPorts),
                              srcPhysPortAndIDs := srcPhysPortAndIDs g @ [src]\<rparr>))
      in if connectionToMSel g dstPorts = None then
           (if curMSel g \<ge> numMSels g then Inl Failure
            else done (g\<lparr>connectionToMSel := (connectionToMSel g)(dstPorts \<mapsto> curMSel g), curMSel := curMSel g + 1\<rparr>))
         else done g)"

fun MSel_addConnections :: "(PhysPortAndID \<times> PhysPortAndID list) list \<Rightarrow> MSelGenerator \<Rightarrow> MSelGenerator result" where
  "MSel_addConnections [] g = Inr g"
| "MSel_addConnections ((src, dsts) # r) g = res_bind (MSel_addConnection src dsts g) (MSel_addConnections r)"

fun getNumMSelsForConnections :: "PhysPortAndID list list \<Rightarrow> MSelGenerator \<Rightarrow> u8 \<Rightarrow> u8" where
  "getNumMSelsForConnections [] g numMSelsNeeded = numMSelsNeeded"
| "getNumMSelsForConnections (dstsElem # r) g numMSelsNeeded =
     getNumMSelsForConnections r g
       (if connectionToMSel g (portsOf dstsElem) = None then numMSelsNeeded + 1 else numMSelsNeeded)"

definition getMSel :: "MSelGenerator \<Rightarrow> PhysPortAndID \<Rightarrow> u8 option" where
  "getMSel g p = (case physPortToConnection g p of None \<Rightarrow> None | Some key \<Rightarrow> connectionToMSel g key)"

fun portMSels :: "MSelGenerator \<Rightarrow> PhysPortAndID list \<Rightarrow> (PhysPortAndID \<times> u8) list result" where
  "portMSels g [] = Inr []"
| "portMSels g (p # ps) =
     res_bind (res_of_option OutOfBounds (getMSel g p)) (\<lambda>m. res_bind (portMSels g ps) (\<lambda>r. Inr ((p, m) # r)))"

definition getPhysPortMSels :: "MSelGenerator \<Rightarrow> (PhysPortAndID \<times> u8) list result" where
  "getPhysPortMSels g = portMSels g (srcPhysPortAndIDs g)"

section \<open>One tile\<close>

record TileAMSelGenerator =
  numArbiters :: u8
  tileNumMSels :: u8
  dstPorts :: "Port list"
  dstPortToPhysPortAndID :: "Port \<rightharpoonup> PhysPortAndID list"
  srcToDstPorts :: "PhysPortAndID \<rightharpoonup> PhysPortAndID list"
  dstToSrcPorts :: "PhysPortAndID \<rightharpoonup> PhysPortAndID list"
  portsToAMSels :: "PhysPortAndID \<rightharpoonup> u8 \<times> u8"

definition mk_TileAMSelGenerator :: "u8 \<Rightarrow> u8 \<Rightarrow> TileAMSelGenerator" where
  "mk_TileAMSelGenerator a m = \<lparr>numArbiters = a, tileNumMSels = m, dstPorts = [], dstPortToPhysPortAndID = Map.empty,
     srcToDstPorts = Map.empty, dstToSrcPorts = Map.empty, portsToAMSels = Map.empty\<rparr>"

text \<open>\<open>m[k]\<close> of a map of vectors, an empty vector when the key is new.\<close>

definition vec_at :: "('k \<rightharpoonup> 'v list) \<Rightarrow> 'k \<Rightarrow> 'v list" where
  "vec_at m k = (case m k of Some v \<Rightarrow> v | None \<Rightarrow> [])"

definition addDst :: "PhysPortAndID \<Rightarrow> PhysPortAndID \<Rightarrow> TileAMSelGenerator \<Rightarrow> TileAMSelGenerator" where
  "addDst src d g =
     (let p = port (physPort d)
      in g\<lparr>dstToSrcPorts := (dstToSrcPorts g)(d \<mapsto> vec_at (dstToSrcPorts g) d @ [src]),
           dstPortToPhysPortAndID := (dstPortToPhysPortAndID g)(p \<mapsto> vec_at (dstPortToPhysPortAndID g) p @ [d]),
           dstPorts := dstPorts g @ [p]\<rparr>)"

definition Tile_addConnection ::
  "PhysPortAndID \<Rightarrow> PhysPortAndID list \<Rightarrow> TileAMSelGenerator \<Rightarrow> TileAMSelGenerator" where
  "Tile_addConnection src dsts g =
     foldl (\<lambda>g d. addDst src d g)
       (g\<lparr>srcToDstPorts := (srcToDstPorts g)(src \<mapsto> vec_at (srcToDstPorts g) src @ dsts)\<rparr>) dsts"

fun lookup_all :: "('k \<rightharpoonup> 'v list) \<Rightarrow> 'k list \<Rightarrow> 'v list result" where
  "lookup_all m [] = Inr []"
| "lookup_all m (k # ks) = res_bind (res_of_option OutOfBounds (m k)) (\<lambda>v. res_bind (lookup_all m ks) (\<lambda>r. Inr (v @ r)))"

text \<open>
  The queue loop that collects a group: \<open>visitedPhysPorts\<close>, \<open>visitedPorts\<close> and \<open>portGroup\<close> are its
  state. \<open>None\<close> would be a loop that does not end.
\<close>

partial_function (option) collect ::
  "TileAMSelGenerator \<Rightarrow> PhysPortAndID list \<Rightarrow> PhysPortAndID set \<Rightarrow> Port set \<Rightarrow> PhysPortAndID list
   \<Rightarrow> (PhysPortAndID set \<times> Port set \<times> PhysPortAndID list) result option" where
  "collect g q visitedPhysPorts visitedPorts portGroup =
     (case q of
        [] \<Rightarrow> Some (Inr (visitedPhysPorts, visitedPorts, portGroup))
      | elem # q' \<Rightarrow>
          if elem \<in> visitedPhysPorts then collect g q' visitedPhysPorts visitedPorts portGroup
          else case srcToDstPorts g elem of
            Some ds \<Rightarrow> collect g (q' @ ds) (insert elem visitedPhysPorts) visitedPorts (portGroup @ [elem])
          | None \<Rightarrow>
              (let p = port (physPort elem)
               in if p \<in> visitedPorts then collect g q' (insert elem visitedPhysPorts) visitedPorts portGroup
                  else case dstPortToPhysPortAndID g p of
                    None \<Rightarrow> Some (Inl OutOfBounds)
                  | Some ps \<Rightarrow>
                      (case lookup_all (dstToSrcPorts g) ps of
                         Inl e \<Rightarrow> Some (Inl e)
                       | Inr srcs \<Rightarrow>
                           collect g (q' @ ps @ srcs) (insert elem visitedPhysPorts) (insert p visitedPorts) portGroup)))"

fun collectGroups ::
  "TileAMSelGenerator \<Rightarrow> Port list \<Rightarrow> PhysPortAndID set \<Rightarrow> Port set \<Rightarrow> PhysPortAndID list list result option" where
  "collectGroups g [] vp vports = Some (Inr [])"
| "collectGroups g (d # ds) vp vports =
     (if d \<in> vports then collectGroups g ds vp vports
      else case dstPortToPhysPortAndID g d of
        None \<Rightarrow> Some (Inl OutOfBounds)
      | Some q \<Rightarrow>
          (case collect g q vp vports [] of
             None \<Rightarrow> None
           | Some (Inl e) \<Rightarrow> Some (Inl e)
           | Some (Inr (vp', vports', portGroup)) \<Rightarrow>
               map_option (\<lambda>r. res_bind r (\<lambda>gs. Inr (portGroup # gs))) (collectGroups g ds vp' vports')))"

text \<open>The connections of a group.\<close>

fun groupConnections ::
  "TileAMSelGenerator \<Rightarrow> PhysPortAndID list \<Rightarrow> (PhysPortAndID \<times> PhysPortAndID list) list result" where
  "groupConnections g [] = Inr []"
| "groupConnections g (s # ss) =
     res_bind (res_of_option OutOfBounds (srcToDstPorts g s)) (\<lambda>ds.
       res_bind (groupConnections g ss) (\<lambda>r. Inr ((s, ds) # r)))"

text \<open>The search for an arbiter that has enough msels left; the sum is an \<open>int\<close>.\<close>

fun mergeGroup ::
  "u8 \<Rightarrow> (PhysPortAndID \<times> PhysPortAndID list) list \<Rightarrow> MSelGenerator list \<Rightarrow> MSelGenerator list result" where
  "mergeGroup n conns [] = Inl Failure"
| "mergeGroup n conns (m # ms) =
     (if uint (curMSel m) + uint (getNumMSelsForConnections (map snd conns) m 0) < uint n
      then res_bind (MSel_addConnections conns m) (\<lambda>m'. Inr (m' # ms))
      else res_bind (mergeGroup n conns ms) (\<lambda>ms'. Inr (m # ms')))"

fun assignArbiters ::
  "TileAMSelGenerator \<Rightarrow> PhysPortAndID list list \<Rightarrow> MSelGenerator list \<Rightarrow> MSelGenerator list result" where
  "assignArbiters g [] ms = Inr ms"
| "assignArbiters g (grp # grps) ms =
     res_bind (groupConnections g grp) (\<lambda>conns.
       if int (length ms) < uint (numArbiters g) then
         res_bind (MSel_addConnections conns (mk_MSelGenerator (tileNumMSels g))) (\<lambda>m.
           assignArbiters g grps (ms @ [m]))
       else res_bind (mergeGroup (tileNumMSels g) conns ms) (assignArbiters g grps))"

fun retrieveAMSels :: "nat \<Rightarrow> MSelGenerator list \<Rightarrow> (PhysPortAndID \<rightharpoonup> u8 \<times> u8) \<Rightarrow> (PhysPortAndID \<rightharpoonup> u8 \<times> u8) result" where
  "retrieveAMSels a [] am = Inr am"
| "retrieveAMSels a (m # ms) am =
     res_bind (getPhysPortMSels m) (\<lambda>l.
       retrieveAMSels (Suc a) ms (foldl (\<lambda>am (p, x). am(p \<mapsto> (of_nat a, x))) am l))"

definition Tile_solve :: "TileAMSelGenerator \<Rightarrow> TileAMSelGenerator result option" where
  "Tile_solve g =
     (let g0 = g\<lparr>portsToAMSels := Map.empty\<rparr>
      in map_option (\<lambda>r. res_bind r (\<lambda>portGroups.
           res_bind (assignArbiters g0 portGroups []) (\<lambda>ms.
             res_bind (retrieveAMSels 0 ms Map.empty) (\<lambda>am. Inr (g0\<lparr>portsToAMSels := am\<rparr>)))))
         (collectGroups g0 (dstPorts g0) {} {}))"

definition Tile_getAMSel :: "TileAMSelGenerator \<Rightarrow> PhysPortAndID \<Rightarrow> (u8 \<times> u8) option" where
  "Tile_getAMSel g p = portsToAMSels g p"

section \<open>All tiles\<close>

type_synonym AMSelGenerator = "(TileLoc \<times> TileAMSelGenerator) list"

definition initTileIfNotExists :: "TileLoc \<Rightarrow> u8 \<Rightarrow> u8 \<Rightarrow> AMSelGenerator \<Rightarrow> AMSelGenerator" where
  "initTileIfNotExists t a m gen = (if map_of gen t = None then gen @ [(t, mk_TileAMSelGenerator a m)] else gen)"

fun AMSel_addConnection ::
  "TileLoc \<Rightarrow> PhysPortAndID \<Rightarrow> PhysPortAndID list \<Rightarrow> AMSelGenerator \<Rightarrow> AMSelGenerator result" where
  "AMSel_addConnection t src dsts [] = Inl Failure"
| "AMSel_addConnection t src dsts ((t', g) # r) =
     (if t' = t then Inr ((t', Tile_addConnection src dsts g) # r)
      else res_bind (AMSel_addConnection t src dsts r) (\<lambda>r'. Inr ((t', g) # r')))"

definition AMSel_getAMSel :: "AMSelGenerator \<Rightarrow> TileLoc \<Rightarrow> PhysPortAndID \<Rightarrow> (u8 \<times> u8) option" where
  "AMSel_getAMSel gen t p = (case map_of gen t of None \<Rightarrow> None | Some g \<Rightarrow> Tile_getAMSel g p)"

fun AMSel_solve :: "AMSelGenerator \<Rightarrow> AMSelGenerator result option" where
  "AMSel_solve [] = Some (Inr [])"
| "AMSel_solve ((t, g) # r) =
     (case Tile_solve g of
        None \<Rightarrow> None
      | Some (Inl e) \<Rightarrow> Some (Inl e)
      | Some (Inr g') \<Rightarrow> map_option (\<lambda>x. res_bind x (\<lambda>r'. Inr ((t, g') # r'))) (AMSel_solve r))"

section \<open>The packet routing configuration\<close>

type_synonym packet_flow = "PhysPortAndID \<times> PhysPortAndID list"

definition sortFlows :: "packet_flow list \<Rightarrow> packet_flow list \<Rightarrow> packet_flow list" where
  "sortFlows priorPacketFlows packetFlows = sort_key fst priorPacketFlows @ sort_key fst packetFlows"

fun addFlows :: "AMDAIEDeviceModel \<Rightarrow> packet_flow list \<Rightarrow> AMSelGenerator \<Rightarrow> AMSelGenerator result" where
  "addFlows m [] gen = Inr gen"
| "addFlows m ((src, dsts) # r) gen =
     (let t = tileLoc (physPort src);
          nArbiters = 1 + getStreamSwitchArbiterMax m (word_of_int (col t)) (word_of_int (row t));
          nMSels = 1 + getStreamSwitchMSelMax m (word_of_int (col t)) (word_of_int (row t))
      in res_bind (AMSel_addConnection t src dsts (initTileIfNotExists t nArbiters nMSels gen)) (addFlows m r))"

text \<open>\<open>masterAMSels\<close> is the list of the (tile, amsel, port) triples that were inserted.\<close>

fun flowAMSels ::
  "AMSelGenerator \<Rightarrow> packet_flow list \<Rightarrow> (TileLoc \<times> (u8 \<times> u8) \<times> Port) list \<Rightarrow> (PhysPortAndID \<rightharpoonup> u8 \<times> u8)
   \<Rightarrow> ((TileLoc \<times> (u8 \<times> u8) \<times> Port) list \<times> (PhysPortAndID \<rightharpoonup> u8 \<times> u8)) result" where
  "flowAMSels gen [] masters slaves = Inr (masters, slaves)"
| "flowAMSels gen ((src, dsts) # r) masters slaves =
     (let t = tileLoc (physPort src)
      in res_bind (res_of_option Failure (AMSel_getAMSel gen t src)) (\<lambda>am.
           flowAMSels gen r (sv_insert_all (map (\<lambda>p. (t, am, p)) (portsOf dsts)) masters) (slaves(src \<mapsto> am))))"

definition masterSets :: "(TileLoc \<times> (u8 \<times> u8) \<times> Port) list \<Rightarrow> PhysPort \<Rightarrow> (u8 \<times> u8) list" where
  "masterSets masters pp =
     sort (map (\<lambda>(t, am, p). am) (filter (\<lambda>(t, am, p). pp = PhysPort t p DST) masters))"

definition emitPacketRoutingConfiguration ::
  "AMDAIEDeviceModel \<Rightarrow> packet_flow list \<Rightarrow> packet_flow list
   \<Rightarrow> ((PhysPort \<Rightarrow> (u8 \<times> u8) list) \<times> (PhysPortAndID \<rightharpoonup> u8 \<times> u8)) result option" where
  "emitPacketRoutingConfiguration m packetFlows priorPacketFlows =
     (let flows = sortFlows priorPacketFlows packetFlows
      in case addFlows m flows [] of
           Inl e \<Rightarrow> Some (Inl e)
         | Inr gen0 \<Rightarrow>
             map_option (\<lambda>r. res_bind r (\<lambda>gen.
               res_bind (flowAMSels gen flows [] Map.empty) (\<lambda>(masters, slaves).
                 Inr (masterSets masters, slaves)))) (AMSel_solve gen0))"

section \<open>The connections of a tile\<close>

definition conn :: "TileAMSelGenerator \<Rightarrow> PhysPortAndID \<Rightarrow> PhysPortAndID \<Rightarrow> bool" where
  "conn g s d \<longleftrightarrow> d \<in> set (vec_at (srcToDstPorts g) s)"

abbreviation dport :: "PhysPortAndID \<Rightarrow> Port" where "dport d \<equiv> port (physPort d)"

lemma vec_at_upd [simp]: "vec_at (m(k \<mapsto> v)) x = (if x = k then v else vec_at m x)"
  by (simp add: vec_at_def)

lemma addDsts_maps:
  "srcToDstPorts (foldl (\<lambda>g d. addDst src d g) g dsts) = srcToDstPorts g"
  "dom (dstToSrcPorts (foldl (\<lambda>g d. addDst src d g) g dsts)) = dom (dstToSrcPorts g) \<union> set dsts"
  "set (vec_at (dstToSrcPorts (foldl (\<lambda>g d. addDst src d g) g dsts)) d)
     = set (vec_at (dstToSrcPorts g) d) \<union> (if d \<in> set dsts then {src} else {})"
  "dom (dstPortToPhysPortAndID (foldl (\<lambda>g d. addDst src d g) g dsts)) = dom (dstPortToPhysPortAndID g) \<union> dport ` set dsts"
  "set (vec_at (dstPortToPhysPortAndID (foldl (\<lambda>g d. addDst src d g) g dsts)) p)
     = set (vec_at (dstPortToPhysPortAndID g) p) \<union> {d \<in> set dsts. dport d = p}"
  "set (dstPorts (foldl (\<lambda>g d. addDst src d g) g dsts)) = set (dstPorts g) \<union> dport ` set dsts"
  "numArbiters (foldl (\<lambda>g d. addDst src d g) g dsts) = numArbiters g"
  "tileNumMSels (foldl (\<lambda>g d. addDst src d g) g dsts) = tileNumMSels g"
  by (induction dsts arbitrary: g) (auto simp: addDst_def Let_def)

text \<open>The maps of a tile describe the same connections.\<close>

definition tile_ok :: "TileAMSelGenerator \<Rightarrow> bool" where
  "tile_ok g \<longleftrightarrow> finite (dom (srcToDstPorts g))
     \<and> dom (dstToSrcPorts g) = {d. \<exists>s. conn g s d} \<and> (\<forall>d. set (vec_at (dstToSrcPorts g) d) = {s. conn g s d})
     \<and> dom (dstPortToPhysPortAndID g) = {dport d | d s. conn g s d}
     \<and> (\<forall>p. set (vec_at (dstPortToPhysPortAndID g) p) = {d. (\<exists>s. conn g s d) \<and> dport d = p})
     \<and> set (dstPorts g) = {dport d | d s. conn g s d}"

lemma conn_add: "conn (Tile_addConnection src dsts g) s d \<longleftrightarrow> conn g s d \<or> s = src \<and> d \<in> set dsts"
  by (auto simp: Tile_addConnection_def conn_def addDsts_maps(1))

lemma tile_ok_mk: "tile_ok (mk_TileAMSelGenerator a m)"
  by (simp add: tile_ok_def mk_TileAMSelGenerator_def conn_def vec_at_def)

lemma tile_ok_add:
  assumes "tile_ok g"
  shows "tile_ok (Tile_addConnection src dsts g)"
proof -
  let ?g = "g\<lparr>srcToDstPorts := (srcToDstPorts g)(src \<mapsto> vec_at (srcToDstPorts g) src @ dsts)\<rparr>"
  have e: "Tile_addConnection src dsts g = foldl (\<lambda>g d. addDst src d g) ?g dsts" by (simp add: Tile_addConnection_def)
  show ?thesis
    unfolding tile_ok_def conn_add
  proof (intro conjI allI)
    show "finite (dom (srcToDstPorts (Tile_addConnection src dsts g)))"
      using assms by (simp add: e addDsts_maps tile_ok_def)
    show "dom (dstToSrcPorts (Tile_addConnection src dsts g)) = {d. \<exists>s. conn g s d \<or> s = src \<and> d \<in> set dsts}"
      using assms by (auto simp: e addDsts_maps tile_ok_def)
    show "set (vec_at (dstToSrcPorts (Tile_addConnection src dsts g)) d) = {s. conn g s d \<or> s = src \<and> d \<in> set dsts}" for d
      using assms by (auto simp: e addDsts_maps tile_ok_def)
    show "dom (dstPortToPhysPortAndID (Tile_addConnection src dsts g)) = {dport d |d s. conn g s d \<or> s = src \<and> d \<in> set dsts}"
      using assms by (auto simp: e addDsts_maps tile_ok_def)
    show "set (vec_at (dstPortToPhysPortAndID (Tile_addConnection src dsts g)) p)
        = {d. (\<exists>s. conn g s d \<or> s = src \<and> d \<in> set dsts) \<and> dport d = p}" for p
      using assms by (auto simp: e addDsts_maps tile_ok_def)
    show "set (dstPorts (Tile_addConnection src dsts g)) = {dport d |d s. conn g s d \<or> s = src \<and> d \<in> set dsts}"
      using assms by (auto simp: e addDsts_maps tile_ok_def)
  qed
qed

text \<open>No source is a destination.\<close>

definition bipartite :: "TileAMSelGenerator \<Rightarrow> bool" where
  "bipartite g \<longleftrightarrow> (\<forall>s d. conn g s d \<longrightarrow> srcToDstPorts g d = None)"

definition sharesPort :: "TileAMSelGenerator \<Rightarrow> PhysPortAndID \<Rightarrow> PhysPortAndID \<Rightarrow> bool" where
  "sharesPort g s s' \<longleftrightarrow> (\<exists>d d'. conn g s d \<and> conn g s' d' \<and> dport d = dport d')"

lemma sharesPort_sym: "sharesPort g s s' \<Longrightarrow> sharesPort g s' s"
  by (auto simp: sharesPort_def) metis

definition nodes :: "TileAMSelGenerator \<Rightarrow> PhysPortAndID set" where
  "nodes g = dom (srcToDstPorts g) \<union> {d. \<exists>s. conn g s d}"

lemma conn_dom: "conn g s d \<Longrightarrow> \<exists>ds. srcToDstPorts g s = Some ds \<and> d \<in> set ds"
  by (cases "srcToDstPorts g s") (simp_all add: conn_def vec_at_def)

lemma conn_iff: "srcToDstPorts g s = Some ds \<Longrightarrow> conn g s d \<longleftrightarrow> d \<in> set ds"
  by (simp add: conn_def vec_at_def)

lemma finite_nodes: "tile_ok g \<Longrightarrow> finite (nodes g)"
proof -
  assume ok: "tile_ok g"
  have "{d. \<exists>s. conn g s d} \<subseteq> (\<Union>s \<in> dom (srcToDstPorts g). set (vec_at (srcToDstPorts g) s))"
    using conn_dom by (fastforce simp: conn_def)
  with ok show ?thesis unfolding nodes_def tile_ok_def by (meson finite_UN_I finite_UnI finite_set finite_subset)
qed

lemma tile_ok_port:
  assumes "tile_ok g" and "conn g s d"
  shows "\<exists>ps. dstPortToPhysPortAndID g (dport d) = Some ps \<and> d \<in> set ps
    \<and> set ps = {d'. (\<exists>s. conn g s d') \<and> dport d' = dport d}"
proof -
  have "dport d \<in> dom (dstPortToPhysPortAndID g)" using assms by (auto simp: tile_ok_def)
  then obtain ps where ps: "dstPortToPhysPortAndID g (dport d) = Some ps" by auto
  have "set (vec_at (dstPortToPhysPortAndID g) (dport d)) = {d'. (\<exists>s. conn g s d') \<and> dport d' = dport d}"
    using assms(1) by (simp add: tile_ok_def)
  with ps assms(2) show ?thesis by (auto simp: vec_at_def)
qed

lemma tile_ok_sources:
  assumes "tile_ok g" and "\<And>d. d \<in> set ps \<Longrightarrow> \<exists>s. conn g s d"
  shows "\<exists>srcs. lookup_all (dstToSrcPorts g) ps = Inr srcs \<and> set srcs = {s. \<exists>d \<in> set ps. conn g s d}"
  using assms(2)
proof (induction ps)
  case (Cons d ps)
  then obtain srcs where IH: "lookup_all (dstToSrcPorts g) ps = Inr srcs" "set srcs = {s. \<exists>d \<in> set ps. conn g s d}" by auto
  have "d \<in> dom (dstToSrcPorts g)" using Cons.prems [of d] assms(1) by (auto simp: tile_ok_def)
  then obtain ss where ss: "dstToSrcPorts g d = Some ss" by auto
  have "set (vec_at (dstToSrcPorts g) d) = {s. conn g s d}" using assms(1) by (simp add: tile_ok_def)
  with ss IH show ?case by (auto simp: vec_at_def)
qed simp


section \<open>The groups\<close>

text \<open>
  The invariant of the queue loop: what a visited port, source or destination leads to is visited
  or in the queue; the group holds the sources visited since the loop began (with \<open>old\<close> visited).
\<close>

definition visit_ok :: "TileAMSelGenerator \<Rightarrow> PhysPortAndID list \<Rightarrow> PhysPortAndID set \<Rightarrow> Port set \<Rightarrow> bool" where
  "visit_ok g q vp vports \<longleftrightarrow> vp \<subseteq> nodes g \<and> set q \<subseteq> nodes g
     \<and> (\<forall>s \<in> vp. \<forall>d. conn g s d \<longrightarrow> d \<in> vp \<union> set q)
     \<and> (\<forall>s. \<forall>d \<in> vp. conn g s d \<longrightarrow> dport d \<in> vports)
     \<and> (\<forall>s d. conn g s d \<and> dport d \<in> vports \<longrightarrow> d \<in> vp \<union> set q \<and> s \<in> vp \<union> set q)"

definition group_of ::
  "TileAMSelGenerator \<Rightarrow> PhysPortAndID set \<Rightarrow> PhysPortAndID set \<Rightarrow> PhysPortAndID list \<Rightarrow> bool" where
  "group_of g old vp grp \<longleftrightarrow> old \<subseteq> vp \<and> distinct grp \<and> set grp = vp \<inter> dom (srcToDstPorts g) - old"

lemma visit_skip: "visit_ok g (x # q) vp vports \<Longrightarrow> x \<in> vp \<Longrightarrow> visit_ok g q vp vports"
  by (auto simp: visit_ok_def)

lemma visit_source:
  assumes "visit_ok g (x # q) vp vports" and "srcToDstPorts g x = Some ds" and "bipartite g"
  shows "visit_ok g (q @ ds) (insert x vp) vports"
proof -
  have "set ds \<subseteq> nodes g" using conn_iff [OF assms(2)] by (auto simp: nodes_def)
  moreover have "\<not> conn g s x" for s using assms(2,3) by (auto simp: bipartite_def)
  ultimately show ?thesis using assms(1) conn_iff [OF assms(2)] unfolding visit_ok_def by auto
qed

lemma visit_seen:
  assumes "visit_ok g (x # q) vp vports" and "srcToDstPorts g x = None" and "dport x \<in> vports"
  shows "visit_ok g q (insert x vp) vports"
proof -
  have "\<not> conn g x d" for d using assms(2) conn_dom [of g x d] by auto
  with assms(1,3) show ?thesis unfolding visit_ok_def by auto
qed

lemma visit_port:
  assumes "visit_ok g (x # q) vp vports" and "srcToDstPorts g x = None"
    and "set ps = {d. (\<exists>s. conn g s d) \<and> dport d = dport x}" and "set srcs = {s. \<exists>d \<in> set ps. conn g s d}"
  shows "visit_ok g (q @ ps @ srcs) (insert x vp) (insert (dport x) vports)"
proof -
  have "\<not> conn g x d" for d using assms(2) conn_dom [of g x d] by auto
  moreover have "set ps \<subseteq> nodes g" "set srcs \<subseteq> nodes g"
    using assms(3,4) conn_dom by (fastforce simp: nodes_def)+
  ultimately show ?thesis using assms(1,3,4) unfolding visit_ok_def by auto
qed

lemma nodes_cases:
  "x \<in> nodes g \<Longrightarrow> srcToDstPorts g x = None \<Longrightarrow> \<exists>s. conn g s x"
  by (auto simp: nodes_def)

lemma collect_ok:
  assumes "tile_ok g" and "bipartite g" and "visit_ok g q vp vports" and "group_of g old vp grp"
  shows "\<exists>vp' vports' grp'. collect g q vp vports grp = Some (Inr (vp', vports', grp')) \<and> visit_ok g [] vp' vports'
    \<and> group_of g old vp' grp' \<and> vp \<union> set q \<subseteq> vp' \<and> vports \<subseteq> vports'"
  using assms(3,4)
proof (induction "(card (nodes g - vp), length q)" arbitrary: q vp vports grp
    rule: wf_induct_rule [OF wf_lex_prod [OF wf_less_than wf_less_than]])
  case 1
  show ?case
  proof (cases q)
    case Nil
    with 1 show ?thesis by (simp add: collect.simps)
  next
    case (Cons x r)
    have x: "x \<in> nodes g" using 1(2) Cons by (simp add: visit_ok_def)
    have less: "card (nodes g - insert x vp) < card (nodes g - vp)" if "x \<notin> vp"
      using that x finite_nodes [OF assms(1)] by (intro psubset_card_mono) auto
    consider (skip) "x \<in> vp" | (src) ds where "x \<notin> vp" "srcToDstPorts g x = Some ds"
      | (seen) "x \<notin> vp" "srcToDstPorts g x = None" "dport x \<in> vports"
      | (new) "x \<notin> vp" "srcToDstPorts g x = None" "dport x \<notin> vports" by blast
    then show ?thesis
    proof cases
      case skip
      then have "collect g q vp vports grp = collect g r vp vports grp" by (simp add: Cons collect.simps)
      with 1(1) [of vp r vports grp] visit_skip [of g x r vp vports] 1(2,3) skip Cons show ?thesis by auto
    next
      case src
      then have "collect g q vp vports grp = collect g (r @ ds) (insert x vp) vports (grp @ [x])"
        by (simp add: Cons collect.simps)
      moreover have "group_of g old (insert x vp) (grp @ [x])" using 1(3) src by (auto simp: group_of_def)
      ultimately show ?thesis
        using 1(1) [of "insert x vp" "r @ ds" vports "grp @ [x]"] visit_source [OF _ src(2) assms(2)] 1(2) less src(1) Cons by auto
    next
      case seen
      then have "collect g q vp vports grp = collect g r (insert x vp) vports grp"
        by (simp add: Cons collect.simps)
      moreover have "group_of g old (insert x vp) grp" using 1(3) seen by (auto simp: group_of_def)
      ultimately show ?thesis
        using 1(1) [of "insert x vp" r vports grp] visit_seen [OF _ seen(2,3)] 1(2) less seen(1) Cons by auto
    next
      case new
      obtain s where s: "conn g s x" using nodes_cases [OF x new(2)] by blast
      obtain ps where ps: "dstPortToPhysPortAndID g (dport x) = Some ps"
        "set ps = {d. (\<exists>s. conn g s d) \<and> dport d = dport x}" using tile_ok_port [OF assms(1) s] by blast
      obtain srcs where srcs: "lookup_all (dstToSrcPorts g) ps = Inr srcs" "set srcs = {s. \<exists>d \<in> set ps. conn g s d}"
        using tile_ok_sources [OF assms(1), of ps] ps(2) by auto
      have "collect g q vp vports grp = collect g (r @ ps @ srcs) (insert x vp) (insert (dport x) vports) grp"
        using new ps srcs by (simp add: Cons collect.simps Let_def)
      moreover have "group_of g old (insert x vp) grp" using 1(3) new by (auto simp: group_of_def)
      ultimately show ?thesis
        using 1(1) [of "insert x vp" "r @ ps @ srcs" "insert (dport x) vports" grp]
          visit_port [OF _ new(2) ps(2) srcs(2)] 1(2) less new(1) Cons by auto
    qed
  qed
qed


lemma visit_src: "visit_ok g q vp vports \<Longrightarrow> s \<in> vp \<Longrightarrow> conn g s d \<Longrightarrow> d \<in> vp \<union> set q"
  unfolding visit_ok_def by blast

lemma visit_dst: "visit_ok g q vp vports \<Longrightarrow> d \<in> vp \<Longrightarrow> conn g s d \<Longrightarrow> dport d \<in> vports"
  unfolding visit_ok_def by blast

lemma visit_of_port: "visit_ok g q vp vports \<Longrightarrow> conn g s d \<Longrightarrow> dport d \<in> vports \<Longrightarrow> s \<in> vp \<union> set q"
  unfolding visit_ok_def by blast

lemma visit_more: "visit_ok g [] vp vports \<Longrightarrow> set q \<subseteq> nodes g \<Longrightarrow> visit_ok g q vp vports"
  unfolding visit_ok_def list.set Un_empty_right by blast

lemma visited_closed:
  assumes "visit_ok g [] vp vports" and "s \<in> vp" and "sharesPort g s s'"
  shows "s' \<in> vp"
proof -
  from assms(3) obtain d d' where d: "conn g s d" "conn g s' d'" "dport d = dport d'" by (auto simp: sharesPort_def)
  have "d \<in> vp" using visit_src [OF assms(1,2) d(1)] by simp
  then have "dport d' \<in> vports" using visit_dst [OF assms(1) _ d(1)] d(3) by simp
  then show ?thesis using visit_of_port [OF assms(1) d(2)] by simp
qed

text \<open>What the groups of a tile are: disjoint, closed under sharing a port, and of all sources.\<close>

lemma collectGroups_ok:
  assumes "tile_ok g" and "bipartite g" and "visit_ok g [] vp vports" and "set ds \<subseteq> set (dstPorts g)"
  shows "\<exists>grps. collectGroups g ds vp vports = Some (Inr grps) \<and> distinct (concat grps)
    \<and> set (concat grps) \<inter> vp = {} \<and> set (concat grps) \<subseteq> dom (srcToDstPorts g)
    \<and> (\<forall>s d. conn g s d \<and> dport d \<in> set ds \<longrightarrow> s \<in> vp \<union> set (concat grps))
    \<and> (\<forall>grp \<in> set grps. \<forall>s \<in> set grp. \<forall>s'. sharesPort g s s' \<longrightarrow> s' \<in> set grp)"
  using assms(3,4)
proof (induction ds arbitrary: vp vports)
  case (Cons p ds)
  show ?case
  proof (cases "p \<in> vports")
    case True
    then have here: "s \<in> vp" if "conn g s d" "dport d = p" for s d
      using visit_of_port [OF Cons.prems(1) that(1)] that(2) by simp
    obtain grps where IH: "collectGroups g ds vp vports = Some (Inr grps)" "distinct (concat grps)"
        "set (concat grps) \<inter> vp = {}" "set (concat grps) \<subseteq> dom (srcToDstPorts g)"
        "\<forall>s d. conn g s d \<and> dport d \<in> set ds \<longrightarrow> s \<in> vp \<union> set (concat grps)"
        "\<forall>grp \<in> set grps. \<forall>s \<in> set grp. \<forall>s'. sharesPort g s s' \<longrightarrow> s' \<in> set grp"
      using Cons.IH [OF Cons.prems(1)] Cons.prems(2) by (metis set_subset_Cons subset_trans)
    have "s \<in> vp \<union> set (concat grps)" if "conn g s d" "dport d \<in> set (p # ds)" for s d
      using that here IH(5) by (cases "dport d = p") auto
    moreover have "collectGroups g (p # ds) vp vports = Some (Inr grps)" using True IH(1) by simp
    ultimately show ?thesis using IH(2-4,6) by blast
  next
    case False
    have "p \<in> set (dstPorts g)" using Cons.prems(2) by simp
    then obtain d0 s0 where d0: "conn g s0 d0" "dport d0 = p" using assms(1) by (auto simp: tile_ok_def)
    obtain ps where ps: "dstPortToPhysPortAndID g p = Some ps" "d0 \<in> set ps"
        "set ps = {d'. (\<exists>s. conn g s d') \<and> dport d' = p}" using tile_ok_port [OF assms(1) d0(1)] d0(2) by blast
    have "set ps \<subseteq> nodes g" using ps(3) by (auto simp: nodes_def)
    then have "visit_ok g ps vp vports" by (rule visit_more [OF Cons.prems(1)])
    moreover have "group_of g vp vp []" by (auto simp: group_of_def)
    ultimately obtain vp' vports' grp where run: "collect g ps vp vports [] = Some (Inr (vp', vports', grp))"
      and ok: "visit_ok g [] vp' vports'" "group_of g vp vp' grp" "vp \<union> set ps \<subseteq> vp'"
      using collect_ok [OF assms(1,2)] by blast
    have grp: "set grp = vp' \<inter> dom (srcToDstPorts g) - vp" "distinct grp" "vp \<subseteq> vp'"
      using ok(2) by (simp_all add: group_of_def)
    have p': "p \<in> vports'" using visit_dst [OF ok(1) _ d0(1)] ok(3) ps(2) d0(2) by blast
    obtain grps where IH: "collectGroups g ds vp' vports' = Some (Inr grps)" "distinct (concat grps)"
        "set (concat grps) \<inter> vp' = {}" "set (concat grps) \<subseteq> dom (srcToDstPorts g)"
        "\<forall>s d. conn g s d \<and> dport d \<in> set ds \<longrightarrow> s \<in> vp' \<union> set (concat grps)"
        "\<forall>grp \<in> set grps. \<forall>s \<in> set grp. \<forall>s'. sharesPort g s s' \<longrightarrow> s' \<in> set grp"
      using Cons.IH [OF ok(1)] Cons.prems(2) by (metis set_subset_Cons subset_trans)
    have src: "s \<in> vp \<union> set grp" if "conn g s d" "s \<in> vp'" for s d
      using that conn_dom grp(1) by blast
    have closed: "s' \<in> set grp" if "s \<in> set grp" "sharesPort g s s'" for s s'
    proof -
      have "s' \<in> vp'" using visited_closed [OF ok(1) _ that(2)] that(1) grp(1) by blast
      moreover have "s' \<notin> vp" using visited_closed [OF Cons.prems(1) _ sharesPort_sym [OF that(2)]] that(1) grp(1) by blast
      moreover have "s' \<in> dom (srcToDstPorts g)" using that(2) conn_dom by (fastforce simp: sharesPort_def)
      ultimately show ?thesis using grp(1) by blast
    qed
    have cover: "s \<in> vp \<union> set (concat (grp # grps))" if "conn g s d" "dport d \<in> set (p # ds)" for s d
    proof (cases "s \<in> vp'")
      case True
      then show ?thesis using src [OF that(1)] by auto
    next
      case False
      then have "dport d \<noteq> p" using visit_of_port [OF ok(1) that(1)] p' by auto
      then show ?thesis using IH(5) that False by auto
    qed
    have "collectGroups g (p # ds) vp vports = Some (Inr (grp # grps))" using False ps(1) run IH(1) by simp
    moreover have "distinct (concat (grp # grps))" "set (concat (grp # grps)) \<inter> vp = {}"
      "set (concat (grp # grps)) \<subseteq> dom (srcToDstPorts g)" using IH(2-4) grp by auto
    moreover have "\<forall>h \<in> set (grp # grps). \<forall>s \<in> set h. \<forall>s'. sharesPort g s s' \<longrightarrow> s' \<in> set h"
      using IH(6) closed by auto
    ultimately show ?thesis using cover by blast
  qed
qed simp

section \<open>The msels of an arbiter\<close>

text \<open>The sources of an arbiter have the msel of their list of ports, and no two lists share one.\<close>

definition msel_ok :: "(PhysPortAndID \<Rightarrow> Port list) \<Rightarrow> MSelGenerator \<Rightarrow> bool" where
  "msel_ok P g \<longleftrightarrow> curMSel g \<le> numMSels g \<and> (\<forall>k m. connectionToMSel g k = Some m \<longrightarrow> m < curMSel g)
     \<and> inj_on (connectionToMSel g) (dom (connectionToMSel g))
     \<and> (\<forall>s \<in> set (srcPhysPortAndIDs g). physPortToConnection g s = Some (P s) \<and> P s \<in> dom (connectionToMSel g))"

lemma msel_ok_mk: "msel_ok P (mk_MSelGenerator n)"
  by (simp add: msel_ok_def mk_MSelGenerator_def)

lemma u8_less_Suc: "(c :: u8) < n \<Longrightarrow> c + 1 \<le> n \<and> (m < c + 1 \<longleftrightarrow> m < c \<or> m = c)"
proof -
  assume lt: "c < n"
  then have "Suc (unat c) < 256" using unsigned_less [of n, where 'a = nat] by (simp add: word_less_nat_alt)
  then have "unat (c + 1) = Suc (unat c)" by (simp add: unat_word_ariths(1))
  with lt show ?thesis by (auto simp: word_less_nat_alt word_le_nat_alt word_unat_eq_iff)
qed

lemma MSel_addConnection_ok:
  assumes "msel_ok P g" and "portsOf dsts = P src" and "MSel_addConnection src dsts g = Inr g'"
  shows "msel_ok P g' \<and> srcPhysPortAndIDs g' = srcPhysPortAndIDs g @ [src] \<and> numMSels g' = numMSels g"
proof (cases "connectionToMSel g (P src)")
  case None
  with assms have lt: "curMSel g < numMSels g"
    and g': "g' = g\<lparr>connectionToMSel := (connectionToMSel g)(P src \<mapsto> curMSel g), curMSel := curMSel g + 1,
      physPortToConnection := (physPortToConnection g)(src \<mapsto> P src), srcPhysPortAndIDs := srcPhysPortAndIDs g @ [src]\<rparr>"
    by (auto simp: MSel_addConnection_def Let_def split: if_splits)
  have old: "m < curMSel g" if "connectionToMSel g k = Some m" for k m using assms(1) that by (auto simp: msel_ok_def)
  have "inj_on ((connectionToMSel g)(P src \<mapsto> curMSel g)) (insert (P src) (dom (connectionToMSel g)))"
  proof (rule inj_onI)
    fix x y
    assume xy: "x \<in> insert (P src) (dom (connectionToMSel g))" "y \<in> insert (P src) (dom (connectionToMSel g))"
      and e: "((connectionToMSel g)(P src \<mapsto> curMSel g)) x = ((connectionToMSel g)(P src \<mapsto> curMSel g)) y"
    have "connectionToMSel g k \<noteq> Some (curMSel g)" for k using old [of k "curMSel g"] by auto
    moreover have "inj_on (connectionToMSel g) (dom (connectionToMSel g))" using assms(1) by (simp add: msel_ok_def)
    ultimately show "x = y" using xy e by (auto simp: inj_on_def split: if_splits)
  qed
  with assms(1) None u8_less_Suc [OF lt] old show ?thesis by (auto simp: g' msel_ok_def)
next
  case (Some m)
  with assms have "g' = g\<lparr>physPortToConnection := (physPortToConnection g)(src \<mapsto> P src),
      srcPhysPortAndIDs := srcPhysPortAndIDs g @ [src]\<rparr>" by (auto simp: MSel_addConnection_def Let_def)
  with assms(1) Some show ?thesis by (auto simp: msel_ok_def)
qed

lemma MSel_addConnections_ok:
  assumes "msel_ok P g" and "\<forall>(s, ds) \<in> set conns. portsOf ds = P s" and "MSel_addConnections conns g = Inr g'"
  shows "msel_ok P g' \<and> srcPhysPortAndIDs g' = srcPhysPortAndIDs g @ map fst conns \<and> numMSels g' = numMSels g"
  using assms
proof (induction conns arbitrary: g)
  case (Cons c conns)
  obtain s ds where c: "c = (s, ds)" by fastforce
  with Cons.prems obtain g1 where g1: "MSel_addConnection s ds g = Inr g1" "MSel_addConnections conns g1 = Inr g'" by auto
  from MSel_addConnection_ok [OF Cons.prems(1) _ g1(1)] Cons.prems(2) c
  have 1: "msel_ok P g1" "srcPhysPortAndIDs g1 = srcPhysPortAndIDs g @ [s]" "numMSels g1 = numMSels g" by auto
  from Cons.IH [OF 1(1) _ g1(2)] Cons.prems(2) 1(2,3) c show ?case by auto
qed simp

section \<open>The arbiters\<close>

definition arbiters_ok :: "(PhysPortAndID \<Rightarrow> Port list) \<Rightarrow> u8 \<Rightarrow> MSelGenerator list \<Rightarrow> bool" where
  "arbiters_ok P n ms \<longleftrightarrow> (\<forall>m \<in> set ms. msel_ok P m \<and> numMSels m = n)"

abbreviation arbiterSources :: "MSelGenerator list \<Rightarrow> nat \<Rightarrow> PhysPortAndID set" where
  "arbiterSources ms a \<equiv> set (srcPhysPortAndIDs (ms ! a))"

abbreviation allSources :: "MSelGenerator list \<Rightarrow> PhysPortAndID list" where
  "allSources ms \<equiv> concat (map srcPhysPortAndIDs ms)"

definition extends :: "MSelGenerator list \<Rightarrow> MSelGenerator list \<Rightarrow> bool" where
  "extends ms ms' \<longleftrightarrow> length ms \<le> length ms' \<and> (\<forall>a < length ms. arbiterSources ms a \<subseteq> arbiterSources ms' a)"

lemma extends_trans: "extends x y \<Longrightarrow> extends y z \<Longrightarrow> extends x z"
  unfolding extends_def by (meson less_le_trans order_trans)

lemma extends_snoc: "extends ms (ms @ [m])"
  by (simp add: extends_def nth_append)

lemma mergeGroup_ok:
  assumes "mergeGroup n conns ms = Inr ms'" and "arbiters_ok P k ms" and "\<forall>(s, ds) \<in> set conns. portsOf ds = P s"
  shows "arbiters_ok P k ms' \<and> length ms' = length ms \<and> extends ms ms'
    \<and> (\<exists>a < length ms'. fst ` set conns \<subseteq> arbiterSources ms' a)
    \<and> mset (allSources ms') = mset (allSources ms) + mset (map fst conns)"
  using assms(1,2)
proof (induction ms arbitrary: ms')
  case (Cons m ms)
  have m: "msel_ok P m" "numMSels m = k" "arbiters_ok P k ms" using Cons.prems(2) by (auto simp: arbiters_ok_def)
  show ?case
  proof (cases "uint (curMSel m) + uint (getNumMSelsForConnections (map snd conns) m 0) < uint n")
    case True
    with Cons.prems(1) obtain m' where m': "MSel_addConnections conns m = Inr m'" "ms' = m' # ms" by auto
    note a = MSel_addConnections_ok [OF m(1) assms(3) m'(1)]
    have "extends (m # ms) ms'" using a m'(2) by (auto simp: extends_def nth_Cons split: nat.splits)
    moreover have "\<exists>a < length ms'. fst ` set conns \<subseteq> arbiterSources ms' a"
      using a m'(2) by (intro exI [of _ 0]) auto
    moreover have "arbiters_ok P k ms'" using a m m'(2) by (auto simp: arbiters_ok_def)
    moreover have "mset (allSources ms') = mset (allSources (m # ms)) + mset (map fst conns)"
      using a m'(2) by simp
    ultimately show ?thesis using m'(2) by simp
  next
    case False
    with Cons.prems(1) obtain r where r: "mergeGroup n conns ms = Inr r" "ms' = m # r" by auto
    note IH = Cons.IH [OF r(1) m(3)]
    then obtain a where a: "a < length r" "fst ` set conns \<subseteq> arbiterSources r a" by blast
    have "extends (m # ms) ms'" using IH r(2) by (auto simp: extends_def nth_Cons split: nat.splits)
    moreover have "\<exists>a < length ms'. fst ` set conns \<subseteq> arbiterSources ms' a"
      using a r(2) by (intro exI [of _ "Suc a"]) simp
    moreover have "arbiters_ok P k ms'" using IH m r(2) by (auto simp: arbiters_ok_def)
    moreover have "mset (allSources ms') = mset (allSources (m # ms)) + mset (map fst conns)" using IH r(2) by simp
    ultimately show ?thesis using IH r(2) by simp
  qed
qed simp

lemma groupConnections_ok:
  assumes "groupConnections g grp = Inr conns"
  shows "map fst conns = grp \<and> (\<forall>(s, ds) \<in> set conns. srcToDstPorts g s = Some ds)"
  using assms by (induction grp arbitrary: conns) auto

lemma assignArbiters_ok:
  assumes "assignArbiters g grps ms = Inr ms'" and "arbiters_ok P (tileNumMSels g) ms"
    and "length ms \<le> unat (numArbiters g)" and "\<And>s ds. srcToDstPorts g s = Some ds \<Longrightarrow> portsOf ds = P s"
  shows "arbiters_ok P (tileNumMSels g) ms' \<and> length ms' \<le> unat (numArbiters g) \<and> extends ms ms'
    \<and> (\<forall>grp \<in> set grps. \<exists>a < length ms'. set grp \<subseteq> arbiterSources ms' a)
    \<and> mset (allSources ms') = mset (allSources ms) + mset (concat grps)"
  using assms(1-3)
proof (induction grps arbitrary: ms)
  case Nil
  then show ?case by (simp add: extends_def)
next
  case (Cons grp grps)
  obtain conns where c: "groupConnections g grp = Inr conns" using Cons.prems(1) by auto
  have conns: "map fst conns = grp" "\<forall>(s, ds) \<in> set conns. portsOf ds = P s"
    using groupConnections_ok [OF c] assms(4) by auto
  obtain ms1 where ms1: "assignArbiters g grps ms1 = Inr ms'" "arbiters_ok P (tileNumMSels g) ms1"
      "length ms1 \<le> unat (numArbiters g)" "extends ms ms1" "\<exists>a < length ms1. set grp \<subseteq> arbiterSources ms1 a"
      "mset (allSources ms1) = mset (allSources ms) + mset grp"
  proof (cases "int (length ms) < uint (numArbiters g)")
    case True
    with Cons.prems(1) c obtain m where m: "MSel_addConnections conns (mk_MSelGenerator (tileNumMSels g)) = Inr m"
      "assignArbiters g grps (ms @ [m]) = Inr ms'" by auto
    note a = MSel_addConnections_ok [OF msel_ok_mk conns(2) m(1)]
    have "length (ms @ [m]) \<le> unat (numArbiters g)" 
      using True unfolding unat_eq_nat_uint length_append by (simp only: zless_nat_eq_int_zless Suc_le_eq list.size add_0 add_Suc_right add_0_right One_nat_def)
    moreover have "\<exists>a < length (ms @ [m]). set grp \<subseteq> arbiterSources (ms @ [m]) a"
      using a conns(1) by (intro exI [of _ "length ms"]) auto
    moreover have "arbiters_ok P (tileNumMSels g) (ms @ [m])" using Cons.prems(2) a
      by (auto simp: arbiters_ok_def mk_MSelGenerator_def)
    ultimately show ?thesis
      using that [OF m(2)] a conns(1) extends_snoc by (auto simp: mk_MSelGenerator_def)
  next
    case False
    with Cons.prems(1) c obtain ms1 where m: "mergeGroup (tileNumMSels g) conns ms = Inr ms1"
      "assignArbiters g grps ms1 = Inr ms'" by auto
    have fs: "fst ` set conns = set grp" using conns(1) by (metis list.set_map)
    from mergeGroup_ok [OF m(1) Cons.prems(2) conns(2), unfolded fs conns(1)] have mg: "arbiters_ok P (tileNumMSels g) ms1"
      "length ms1 = length ms" "extends ms ms1" "\<exists>a < length ms1. set grp \<subseteq> arbiterSources ms1 a"
      "mset (allSources ms1) = mset (allSources ms) + mset grp" by blast+
    show ?thesis by (rule that [OF m(2) mg(1) _ mg(3-5)]) (use Cons.prems(3) mg(2) in simp)
  qed
  note IH = Cons.IH [OF ms1(1-3)]
  obtain a where a: "a < length ms1" "set grp \<subseteq> arbiterSources ms1 a" using ms1(5) by blast
  have "a < length ms' \<and> set grp \<subseteq> arbiterSources ms' a" using IH a by (auto simp: extends_def)
  then have "\<forall>h \<in> set (grp # grps). \<exists>a < length ms'. set h \<subseteq> arbiterSources ms' a" using IH by auto
  with IH ms1(4,6) extends_trans show ?case by (auto simp: ac_simps)
qed

section \<open>The assignment\<close>

lemma getMSel_ok:
  assumes "msel_ok P m" and "s \<in> set (srcPhysPortAndIDs m)"
  shows "\<exists>x. getMSel m s = Some x \<and> connectionToMSel m (P s) = Some x \<and> x < numMSels m"
proof -
  have "physPortToConnection m s = Some (P s)" "P s \<in> dom (connectionToMSel m)"
    using assms by (auto simp: msel_ok_def)
  then obtain x where "getMSel m s = Some x" "connectionToMSel m (P s) = Some x" by (auto simp: getMSel_def)
  moreover from this(2) have "x < curMSel m" "curMSel m \<le> numMSels m" using assms(1) by (auto simp: msel_ok_def)
  ultimately show ?thesis by auto
qed

lemma getPhysPortMSels_ok:
  assumes "msel_ok P m"
  shows "getPhysPortMSels m = Inr (map (\<lambda>s. (s, the (getMSel m s))) (srcPhysPortAndIDs m))"
proof -
  have "portMSels m ss = Inr (map (\<lambda>s. (s, the (getMSel m s))) ss)" if "set ss \<subseteq> set (srcPhysPortAndIDs m)" for ss
    using that
  proof (induction ss)
    case (Cons s ss)
    then show ?case using getMSel_ok [OF assms, of s] by auto
  qed simp
  then show ?thesis by (simp add: getPhysPortMSels_def)
qed

lemma foldl_upd_pairs:
  "foldl (\<lambda>am (p, x). am(p \<mapsto> (c, x))) am (map (\<lambda>s. (s, f s)) ss) s = (if s \<in> set ss then Some (c, f s) else am s)"
  by (induction ss arbitrary: am) auto

lemma retrieveAMSels_ok:
  assumes "arbiters_ok P n ms" and "distinct (allSources ms)"
  shows "\<exists>am'. retrieveAMSels k ms am = Inr am'
    \<and> (\<forall>a < length ms. \<forall>s \<in> arbiterSources ms a. am' s = Some (of_nat (k + a), the (getMSel (ms ! a) s)))
    \<and> (\<forall>s. s \<notin> set (allSources ms) \<longrightarrow> am' s = am s)"
  using assms
proof (induction ms arbitrary: k am)
  case (Cons m ms)
  let ?am = "foldl (\<lambda>am (p, x). am(p \<mapsto> (of_nat k, x))) am (map (\<lambda>s. (s, the (getMSel m s))) (srcPhysPortAndIDs m))"
  have m: "msel_ok P m" "arbiters_ok P n ms" "distinct (allSources ms)" using Cons.prems by (auto simp: arbiters_ok_def)
  obtain am' where am': "retrieveAMSels (Suc k) ms ?am = Inr am'"
      "\<forall>a < length ms. \<forall>s \<in> arbiterSources ms a. am' s = Some (of_nat (Suc k + a), the (getMSel (ms ! a) s))"
      "\<forall>s. s \<notin> set (allSources ms) \<longrightarrow> am' s = ?am s"
    using Cons.IH [OF m(2,3), of "Suc k" ?am] by blast
  have "retrieveAMSels k (m # ms) am = Inr am'" using am'(1) getPhysPortMSels_ok [OF m(1)] by simp
  moreover have "am' s = Some (of_nat (k + a), the (getMSel ((m # ms) ! a) s))"
    if "a < length (m # ms)" "s \<in> arbiterSources (m # ms) a" for a s
  proof (cases a)
    case 0
    then have "s \<notin> set (allSources ms)" using Cons.prems(2) that(2) by auto
    with 0 am'(3) that(2) show ?thesis by (simp add: foldl_upd_pairs)
  next
    case (Suc b)
    with am'(2) that show ?thesis by simp
  qed
  moreover have "am' s = am s" if "s \<notin> set (allSources (m # ms))" for s
    using that am'(3) by (simp add: foldl_upd_pairs)
  ultimately show ?case by blast
qed simp


definition addAll :: "packet_flow list \<Rightarrow> TileAMSelGenerator \<Rightarrow> TileAMSelGenerator" where
  "addAll conns g = foldl (\<lambda>g (s, ds). Tile_addConnection s ds g) g conns"

definition dstsOf :: "packet_flow list \<Rightarrow> PhysPortAndID \<Rightarrow> PhysPortAndID list" where
  "dstsOf conns s = concat (map snd (filter (\<lambda>c. fst c = s) conns))"

lemma Tile_add_src:
  "srcToDstPorts (Tile_addConnection s ds g) = (srcToDstPorts g)(s \<mapsto> vec_at (srcToDstPorts g) s @ ds)"
  by (simp add: Tile_addConnection_def addDsts_maps(1))

lemma addAll_ok:
  "tile_ok g \<Longrightarrow> tile_ok (addAll conns g)"
  "vec_at (srcToDstPorts (addAll conns g)) s = vec_at (srcToDstPorts g) s @ dstsOf conns s"
  "dom (srcToDstPorts (addAll conns g)) = dom (srcToDstPorts g) \<union> fst ` set conns"
  "numArbiters (addAll conns g) = numArbiters g" "tileNumMSels (addAll conns g) = tileNumMSels g"
proof (induction conns arbitrary: g)
  case (Cons c conns)
  obtain s' ds where c: "c = (s', ds)" by fastforce
  { case 1 then show ?case using Cons.IH(1) tile_ok_add c by (simp add: addAll_def)
  next case 2 show ?case using Cons.IH(2) [of "Tile_addConnection s' ds g"] c
      by (simp add: addAll_def dstsOf_def Tile_add_src vec_at_def)
  next case 3 show ?case using Cons.IH(3) [of "Tile_addConnection s' ds g"] c
      by (auto simp: addAll_def Tile_add_src)
  next case 4 show ?case using Cons.IH(4) [of "Tile_addConnection s' ds g"] c
      by (simp add: addAll_def Tile_addConnection_def addDsts_maps)
  next case 5 show ?case using Cons.IH(5) [of "Tile_addConnection s' ds g"] c
      by (simp add: addAll_def Tile_addConnection_def addDsts_maps) }
qed (simp_all add: addAll_def dstsOf_def)

text \<open>A solved tile.\<close>

definition amsels_ok :: "TileAMSelGenerator \<Rightarrow> (PhysPortAndID \<rightharpoonup> u8 \<times> u8) \<Rightarrow> bool" where
  "amsels_ok g am \<longleftrightarrow>
     (\<forall>s d. conn g s d \<longrightarrow> (\<exists>a x. am s = Some (a, x) \<and> a < numArbiters g \<and> x < tileNumMSels g))
     \<and> (\<forall>s s'. sharesPort g s s' \<longrightarrow> map_option fst (am s) = map_option fst (am s'))
     \<and> (\<forall>s s' d d'. conn g s d \<and> conn g s' d' \<and> am s = am s' \<longrightarrow>
          portsOf (vec_at (srcToDstPorts g) s) = portsOf (vec_at (srcToDstPorts g) s'))"

lemma same_arbiter:
  assumes "arbiters_ok P n ms" and "a < length ms" and "s \<in> arbiterSources ms a" "s' \<in> arbiterSources ms a"
    and "getMSel (ms ! a) s = getMSel (ms ! a) s'"
  shows "P s = P s'"
proof -
  have m: "msel_ok P (ms ! a)" using assms(1,2) by (simp add: arbiters_ok_def)
  from getMSel_ok [OF m assms(3)] getMSel_ok [OF m assms(4)] assms(5)
  have "connectionToMSel (ms ! a) (P s) = connectionToMSel (ms ! a) (P s')"
    "P s \<in> dom (connectionToMSel (ms ! a))" "P s' \<in> dom (connectionToMSel (ms ! a))" by auto
  with m show ?thesis unfolding msel_ok_def by (metis inj_onD)
qed

lemma of_nat_u8: "a < unat (n :: u8) \<Longrightarrow> (of_nat a :: u8) < n \<and> unat (of_nat a :: u8) = a"
proof -
  assume a: "a < unat n"
  then have "a < 256" using unsigned_less [of n, where 'a = nat] by simp
  then have "unat (of_nat a :: u8) = a" by (simp add: unat_of_nat)
  with a show ?thesis by (simp add: word_less_nat_alt)
qed

lemma solved_amsels:
  assumes "assignArbiters g grps [] = Inr ms" and "retrieveAMSels 0 ms Map.empty = Inr am"
    and "distinct (concat grps)" and "\<And>s d. conn g s d \<Longrightarrow> s \<in> set (concat grps)"
    and closed: "\<And>grp s s'. grp \<in> set grps \<Longrightarrow> s \<in> set grp \<Longrightarrow> sharesPort g s s' \<Longrightarrow> s' \<in> set grp"
  shows "amsels_ok g am"
proof -
  define P where "P s = portsOf (vec_at (srcToDstPorts g) s)" for s
  have "portsOf ds = P s" if "srcToDstPorts g s = Some ds" for s ds using that by (simp add: P_def vec_at_def)
  from assignArbiters_ok [OF assms(1) _ _ this]
  have ok: "arbiters_ok P (tileNumMSels g) ms" "length ms \<le> unat (numArbiters g)"
    and place: "\<And>grp. grp \<in> set grps \<Longrightarrow> \<exists>a < length ms. set grp \<subseteq> arbiterSources ms a"
    and ms: "mset (allSources ms) = mset (concat grps)" by (auto simp: arbiters_ok_def)
  have dis: "distinct (allSources ms)" using mset_eq_imp_distinct_iff [OF ms] assms(3) by simp
  from retrieveAMSels_ok [OF ok(1) dis, of 0 Map.empty] assms(2)
  have am: "am s = Some (of_nat a, the (getMSel (ms ! a) s))" if "a < length ms" "s \<in> arbiterSources ms a" for a s
    using that by auto
  have at: "\<exists>a < length ms. s \<in> arbiterSources ms a" if "conn g s d" for s d
    using assms(4) [OF that] place by fastforce
  have arb: "(of_nat a :: u8) < numArbiters g \<and> unat (of_nat a :: u8) = a" if "a < length ms" for a
    by (rule of_nat_u8) (use that ok(2) in simp)
  have 1: "\<exists>a x. am s = Some (a, x) \<and> a < numArbiters g \<and> x < tileNumMSels g" if sd: "conn g s d" for s d
  proof -
    from at [OF sd] obtain a where a: "a < length ms" "s \<in> arbiterSources ms a" by blast
    have m: "msel_ok P (ms ! a)" "numMSels (ms ! a) = tileNumMSels g" using ok(1) a(1) by (simp_all add: arbiters_ok_def)
    from getMSel_ok [OF m(1) a(2)] obtain x where "getMSel (ms ! a) s = Some x" "x < tileNumMSels g" unfolding m(2) by blast
    with am [OF a] arb [OF a(1)] show ?thesis by simp
  qed
  have 2: "map_option fst (am s) = map_option fst (am s')" if sh: "sharesPort g s s'" for s s'
  proof -
    obtain d where "conn g s d" using sh by (auto simp: sharesPort_def)
    then obtain grp where grp: "grp \<in> set grps" "s \<in> set grp" using assms(4) by auto
    obtain a where "a < length ms" "set grp \<subseteq> arbiterSources ms a" using place [OF grp(1)] by blast
    with am grp(2) closed [OF grp sh] have "am s = Some (of_nat a, the (getMSel (ms ! a) s))"
      "am s' = Some (of_nat a, the (getMSel (ms ! a) s'))" by blast+
    then show ?thesis by simp
  qed
  have 3: "P s = P s'" if c: "conn g s d" "conn g s' d'" "am s = am s'" for s s' d d'
  proof -
    obtain a a' where a: "a < length ms" "s \<in> arbiterSources ms a" "a' < length ms" "s' \<in> arbiterSources ms a'"
      using at [OF c(1)] at [OF c(2)] by blast
    have w: "of_nat a = (of_nat a' :: u8)" "the (getMSel (ms ! a) s) = the (getMSel (ms ! a') s')"
      using am [OF a(1,2)] am [OF a(3,4)] c(3) by simp_all
    have e: "a = a'" using arb [OF a(1)] arb [OF a(3)] w(1) by metis
    have m: "msel_ok P (ms ! a)" using ok(1) a(1) by (simp add: arbiters_ok_def)
    have "getMSel (ms ! a) s = getMSel (ms ! a) s'"
      using getMSel_ok [OF m a(2)] getMSel_ok [OF m a(4) [folded e]] w(2) [folded e] by (metis option.sel)
    then show ?thesis by (rule same_arbiter [OF ok(1) a(1,2) a(4) [folded e]])
  qed
  from 1 2 3 show ?thesis unfolding amsels_ok_def P_def by blast
qed


section \<open>Solving a tile\<close>

lemma Tile_solve_ok:
  assumes ok: "tile_ok g" and bip: "bipartite g"
  shows "\<exists>r. Tile_solve g = Some r" and "Tile_solve g = Some (Inr g') \<Longrightarrow> amsels_ok g (portsToAMSels g')"
proof -
  let ?g = "g\<lparr>portsToAMSels := Map.empty\<rparr>"
  have same: "conn ?g = conn g" "sharesPort ?g = sharesPort g" "amsels_ok ?g = amsels_ok g"
    by (auto simp: conn_def sharesPort_def amsels_ok_def fun_eq_iff)
  have ok': "tile_ok ?g" "bipartite ?g" using ok bip by (simp_all add: tile_ok_def bipartite_def same)
  have start: "visit_ok ?g [] {} {}" by (simp add: visit_ok_def)
  obtain grps where grps: "collectGroups ?g (dstPorts ?g) {} {} = Some (Inr grps)" "distinct (concat grps)"
      "\<forall>s d. conn ?g s d \<and> dport d \<in> set (dstPorts ?g) \<longrightarrow> s \<in> {} \<union> set (concat grps)"
      "\<forall>grp \<in> set grps. \<forall>s \<in> set grp. \<forall>s'. sharesPort ?g s s' \<longrightarrow> s' \<in> set grp"
    using collectGroups_ok [OF ok' start subset_refl] by blast
  have all: "s \<in> set (concat grps)" if "conn ?g s d" for s d
  proof -
    have "dport d \<in> set (dstPorts ?g)" using ok'(1) that unfolding tile_ok_def by blast
    with grps(3) that show ?thesis by blast
  qed
  show "\<exists>r. Tile_solve g = Some r" using grps(1) by (simp add: Tile_solve_def Let_def)
  show "amsels_ok g (portsToAMSels g')" if "Tile_solve g = Some (Inr g')"
  proof -
    from that grps(1) obtain ms am where run: "assignArbiters ?g grps [] = Inr ms" "retrieveAMSels 0 ms Map.empty = Inr am"
      "portsToAMSels g' = am" by (auto simp: Tile_solve_def Let_def)
    have "amsels_ok ?g am"
      by (rule solved_amsels [OF run(1,2) grps(2)]) (use all grps(4) in blast)+
    with run(3) have "amsels_ok ?g (portsToAMSels g')" by (simp only: )
    then show ?thesis by (simp only: same(3))
  qed
qed

lemma vec_at_mk [simp]: "vec_at (srcToDstPorts (mk_TileAMSelGenerator a m)) s = []"
  by (simp add: mk_TileAMSelGenerator_def vec_at_def)

lemma conn_addAll: "conn (addAll conns (mk_TileAMSelGenerator a m)) s d \<longleftrightarrow> d \<in> set (dstsOf conns s)"
  by (simp add: conn_def addAll_ok(2))

lemma bipartite_addAll:
  assumes "fst ` set conns \<inter> (\<Union>(s, ds) \<in> set conns. set ds) = {}"
  shows "bipartite (addAll conns (mk_TileAMSelGenerator a m))"
  unfolding bipartite_def
proof (intro allI impI)
  fix s d assume "conn (addAll conns (mk_TileAMSelGenerator a m)) s d"
  then have "d \<in> set (dstsOf conns s)" by (simp only: conn_addAll)
  then have "d \<notin> fst ` set conns" using assms by (fastforce simp: dstsOf_def)
  then have "d \<notin> dom (srcToDstPorts (addAll conns (mk_TileAMSelGenerator a m)))"
    by (simp add: addAll_ok(3) mk_TileAMSelGenerator_def)
  then show "srcToDstPorts (addAll conns (mk_TileAMSelGenerator a m)) d = None" by auto
qed

lemma tile_solved:
  assumes "fst ` set conns \<inter> (\<Union>(s, ds) \<in> set conns. set ds) = {}"
    and "Tile_solve (addAll conns (mk_TileAMSelGenerator a m)) = Some (Inr g)"
  shows "dstsOf conns s \<noteq> [] \<Longrightarrow> \<exists>x y. Tile_getAMSel g s = Some (x, y) \<and> x < a \<and> y < m"
    and "d \<in> set (dstsOf conns s) \<Longrightarrow> d' \<in> set (dstsOf conns s') \<Longrightarrow> port (physPort d) = port (physPort d')
       \<Longrightarrow> map_option fst (Tile_getAMSel g s) = map_option fst (Tile_getAMSel g s')"
    and "dstsOf conns s \<noteq> [] \<Longrightarrow> dstsOf conns s' \<noteq> [] \<Longrightarrow> Tile_getAMSel g s = Tile_getAMSel g s'
       \<Longrightarrow> portsOf (dstsOf conns s) = portsOf (dstsOf conns s')"
proof -
  let ?g = "addAll conns (mk_TileAMSelGenerator a m)"
  have am: "amsels_ok ?g (portsToAMSels g)"
    by (rule Tile_solve_ok(2) [OF addAll_ok(1) [OF tile_ok_mk] bipartite_addAll [OF assms(1)] assms(2)])
  have n: "numArbiters ?g = a" "tileNumMSels ?g = m" by (simp_all add: addAll_ok mk_TileAMSelGenerator_def)
  have v: "vec_at (srcToDstPorts ?g) s = dstsOf conns s" for s
    by (simp add: addAll_ok(2))
  have ne: "\<exists>d. d \<in> set (dstsOf conns s)" if "dstsOf conns s \<noteq> []" for s using that by (meson list.set_sel(1))
  note am' = am [unfolded amsels_ok_def sharesPort_def n v conn_addAll]
  show "\<exists>x y. Tile_getAMSel g s = Some (x, y) \<and> x < a \<and> y < m" if "dstsOf conns s \<noteq> []"
    using ne [OF that] am' unfolding Tile_getAMSel_def by meson
  show "map_option fst (Tile_getAMSel g s) = map_option fst (Tile_getAMSel g s')"
    if "d \<in> set (dstsOf conns s)" "d' \<in> set (dstsOf conns s')" "port (physPort d) = port (physPort d')"
    using that am' unfolding Tile_getAMSel_def by blast
  show "portsOf (dstsOf conns s) = portsOf (dstsOf conns s')"
    if "dstsOf conns s \<noteq> []" "dstsOf conns s' \<noteq> []" "Tile_getAMSel g s = Tile_getAMSel g s'"
    using ne [OF that(1)] ne [OF that(2)] that(3) am' unfolding Tile_getAMSel_def by meson
qed

section \<open>Properties\<close>

text \<open>
  \<open>TileAMSelGenerator::solve\<close> ends on every set of connections whose sources are not also
  destinations.
\<close>

theorem tile_solve_ends:
  assumes "fst ` set conns \<inter> (\<Union>(s, ds) \<in> set conns. set ds) = {}"
  shows "\<exists>r. Tile_solve (addAll conns (mk_TileAMSelGenerator a m)) = Some r"
  by (rule Tile_solve_ok(1) [OF addAll_ok(1) [OF tile_ok_mk] bipartite_addAll [OF assms]])

text \<open>
  C36. \<open>TileAMSelGenerator::solve\<close>, when it succeeds: every source with a destination has an arbiter
  and an msel within the numbers of the tile; sources that share a destination port have the same
  arbiter; and sources with the same arbiter and msel have the same list of destination ports, so
  that selecting the master ports by the pair sends a packet to its own destinations only.
\<close>

theorem tile_solve_correct:
  assumes "fst ` set conns \<inter> (\<Union>(s, ds) \<in> set conns. set ds) = {}"
    and "Tile_solve (addAll conns (mk_TileAMSelGenerator a m)) = Some (Inr g)"
  shows "(\<forall>s. dstsOf conns s \<noteq> [] \<longrightarrow> (\<exists>x y. Tile_getAMSel g s = Some (x, y) \<and> x < a \<and> y < m))
    \<and> (\<forall>s s' d d'. d \<in> set (dstsOf conns s) \<and> d' \<in> set (dstsOf conns s') \<and> port (physPort d) = port (physPort d')
         \<longrightarrow> map_option fst (Tile_getAMSel g s) = map_option fst (Tile_getAMSel g s'))
    \<and> (\<forall>s s'. dstsOf conns s \<noteq> [] \<and> dstsOf conns s' \<noteq> [] \<and> Tile_getAMSel g s = Tile_getAMSel g s'
         \<longrightarrow> portsOf (dstsOf conns s) = portsOf (dstsOf conns s'))"
  using tile_solved [OF assms] by blast

definition sampleEnd :: "StrmSwPortType \<Rightarrow> PortDirection \<Rightarrow> int \<Rightarrow> PhysPortAndID" where
  "sampleEnd b d i = PhysPortAndID (PhysPort (TileLoc 0 1) (Port b 0) d) i"

theorem tile_solve_ends_witness:
  "\<exists>r. Tile_solve (addAll [(sampleEnd SOUTH SRC 1, [sampleEnd NORTH DST 1]), (sampleEnd DMA SRC 2, [sampleEnd NORTH DST 2])]
     (mk_TileAMSelGenerator 6 4)) = Some r"
  by (rule tile_solve_ends) (simp add: sampleEnd_def)

lemma collect_Cons: "collect g (x # q) vp vports grp =
    (if x \<in> vp then collect g q vp vports grp
     else case srcToDstPorts g x of
       Some ds \<Rightarrow> collect g (q @ ds) (insert x vp) vports (grp @ [x])
     | None \<Rightarrow>
         (let p = port (physPort x)
          in if p \<in> vports then collect g q (insert x vp) vports grp
             else case dstPortToPhysPortAndID g p of
               None \<Rightarrow> Some (Inl OutOfBounds)
             | Some ps \<Rightarrow>
                 (case lookup_all (dstToSrcPorts g) ps of
                    Inl e \<Rightarrow> Some (Inl e)
                  | Inr srcs \<Rightarrow> collect g (q @ ps @ srcs) (insert x vp) (insert p vports) grp)))"
  by (subst collect.simps) simp

lemma collect_Nil: "collect g [] vp vports grp = Some (Inr (vp, vports, grp))"
  by (subst collect.simps) simp

lemmas tile_eval = Tile_solve_def addAll_def Tile_addConnection_def addDst_def mk_TileAMSelGenerator_def Let_def
  vec_at_def collect_Cons collect_Nil MSel_addConnection_def mk_MSelGenerator_def getPhysPortMSels_def getMSel_def
  portsOf_def sampleEnd_def

theorem tile_solve_correct_witness:
  "\<exists>g x y. Tile_solve (addAll [(sampleEnd SOUTH SRC 1, [sampleEnd NORTH DST 1])] (mk_TileAMSelGenerator 6 4)) = Some (Inr g)
     \<and> Tile_getAMSel g (sampleEnd SOUTH SRC 1) = Some (x, y) \<and> x < 6 \<and> y < 4"
proof -
  let ?c = "[(sampleEnd SOUTH SRC 1, [sampleEnd NORTH DST 1])]"
  obtain g where g: "Tile_solve (addAll ?c (mk_TileAMSelGenerator 6 4)) = Some (Inr g)" by (simp add: tile_eval)
  have "fst ` set ?c \<inter> (\<Union>(s, ds) \<in> set ?c. set ds) = {}" by (simp add: sampleEnd_def)
  from tile_solve_correct [OF this g] have "\<exists>x y. Tile_getAMSel g (sampleEnd SOUTH SRC 1) = Some (x, y) \<and> x < 6 \<and> y < 4"
    by (simp add: dstsOf_def)
  with g show ?thesis by blast
qed

text \<open>
  A group that would use up exactly the msels an arbiter has left is refused: two groups of
  one msel each do not fit on one arbiter with two msels.
\<close>

theorem exact_fit_refused:
  "Tile_solve (addAll [(sampleEnd SOUTH SRC 1, [sampleEnd NORTH DST 1]), (sampleEnd DMA SRC 2, [sampleEnd CORE DST 2])]
     (mk_TileAMSelGenerator 1 2)) = Some (Inl Failure)"
  by (simp add: tile_eval)

section \<open>The configuration of all tiles\<close>

abbreviation flowTile :: "packet_flow \<Rightarrow> TileLoc" where "flowTile f \<equiv> tileLoc (physPort (fst f))"

definition tileArbiters :: "AMDAIEDeviceModel \<Rightarrow> TileLoc \<Rightarrow> u8" where
  "tileArbiters m t = 1 + getStreamSwitchArbiterMax m (word_of_int (col t)) (word_of_int (row t))"

definition tileMSels :: "AMDAIEDeviceModel \<Rightarrow> TileLoc \<Rightarrow> u8" where
  "tileMSels m t = 1 + getStreamSwitchMSelMax m (word_of_int (col t)) (word_of_int (row t))"

text \<open>The generator of a tile after the flows \<open>fs\<close> were added.\<close>

definition tileGen :: "AMDAIEDeviceModel \<Rightarrow> packet_flow list \<Rightarrow> TileLoc \<Rightarrow> TileAMSelGenerator option" where
  "tileGen m fs t = (if t \<in> flowTile ` set fs
     then Some (addAll (filter (\<lambda>f. flowTile f = t) fs) (mk_TileAMSelGenerator (tileArbiters m t) (tileMSels m t))) else None)"

lemma AMSel_add_map:
  "map_of gen t = Some g \<Longrightarrow> \<exists>gen'. AMSel_addConnection t src dsts gen = Inr gen'
     \<and> map_of gen' = (map_of gen)(t \<mapsto> Tile_addConnection src dsts g)"
proof (induction gen)
  case (Cons x gen)
  obtain t' g' where x: "x = (t', g')" by fastforce
  show ?case
  proof (cases "t' = t")
    case False
    with Cons.prems x have "map_of gen t = Some g" by simp
    from Cons.IH [OF this] obtain r where "AMSel_addConnection t src dsts gen = Inr r"
      "map_of r = (map_of gen)(t \<mapsto> Tile_addConnection src dsts g)" by blast
    with False x show ?thesis by (auto simp: fun_upd_twist)
  qed (use Cons x in auto)
qed simp

lemma tileGen_snoc:
  "tileGen m (fs @ [(src, dsts)]) t =
    (if t = tileLoc (physPort src)
     then Some (Tile_addConnection src dsts (case tileGen m fs t of Some g \<Rightarrow> g
                  | None \<Rightarrow> mk_TileAMSelGenerator (tileArbiters m t) (tileMSels m t)))
     else tileGen m fs t)"
proof (cases "t \<in> flowTile ` set fs")
  case False
  then have "filter (\<lambda>f. flowTile f = t) fs = []" by (auto simp: filter_empty_conv)
  with False show ?thesis by (auto simp: tileGen_def addAll_def)
next
  case True
  then show ?thesis by (cases "t = tileLoc (physPort src)") (simp_all add: tileGen_def addAll_def)
qed

lemma addFlows_ok:
  assumes "\<And>t. map_of gen t = tileGen m done t"
  shows "\<exists>gen'. addFlows m fs gen = Inr gen' \<and> (\<forall>t. map_of gen' t = tileGen m (done @ fs) t)"
  using assms
proof (induction fs arbitrary: gen "done")
  case (Cons f fs)
  obtain src dsts where f: "f = (src, dsts)" by fastforce
  let ?t = "tileLoc (physPort src)"
  let ?gen = "initTileIfNotExists ?t (tileArbiters m ?t) (tileMSels m ?t) gen"
  let ?g = "case tileGen m done ?t of Some g \<Rightarrow> g | None \<Rightarrow> mk_TileAMSelGenerator (tileArbiters m ?t) (tileMSels m ?t)"
  have init: "map_of ?gen = (map_of gen)(?t \<mapsto> ?g)"
    using Cons.prems [of ?t]
    by (auto simp: initTileIfNotExists_def map_add_def fun_eq_iff split: option.splits)
  then obtain gen1 where g1: "AMSel_addConnection ?t src dsts ?gen = Inr gen1"
      "map_of gen1 = (map_of ?gen)(?t \<mapsto> Tile_addConnection src dsts ?g)" using AMSel_add_map [of ?gen ?t ?g src dsts] by auto
  have "map_of gen1 t = tileGen m (done @ [f]) t" for t
    using g1(2) init Cons.prems by (cases "t = ?t") (simp_all add: f tileGen_snoc)
  from Cons.IH [OF this] obtain gen' where
    "addFlows m fs gen1 = Inr gen'" "\<forall>t. map_of gen' t = tileGen m (done @ f # fs) t" by auto
  with g1(1) show ?case by (simp add: f Let_def tileArbiters_def tileMSels_def)
qed simp

lemma AMSel_solve_tiles:
  assumes "AMSel_solve gen = Some (Inr gen')"
  shows "case map_of gen t of None \<Rightarrow> map_of gen' t = None
    | Some g \<Rightarrow> \<exists>g'. Tile_solve g = Some (Inr g') \<and> map_of gen' t = Some g'"
  using assms
proof (induction gen arbitrary: gen')
  case (Cons x gen)
  obtain t' g where x: "x = (t', g)" by fastforce
  with Cons.prems obtain g' r where "Tile_solve g = Some (Inr g')" "AMSel_solve gen = Some (Inr r)" "gen' = (t', g') # r"
    by (auto split: option.splits sum.splits)
  with Cons.IH [of r] x show ?case by (auto split: option.splits)
qed simp

definition carries :: "AMSelGenerator \<Rightarrow> packet_flow list \<Rightarrow> TileLoc \<Rightarrow> u8 \<times> u8 \<Rightarrow> Port \<Rightarrow> bool" where
  "carries gen fs t am p \<longleftrightarrow> (\<exists>f \<in> set fs. flowTile f = t \<and> AMSel_getAMSel gen t (fst f) = Some am \<and> p \<in> set (portsOf (snd f)))"

lemma carries_Cons:
  "carries gen (f # fs) t am p \<longleftrightarrow>
     (flowTile f = t \<and> AMSel_getAMSel gen t (fst f) = Some am \<and> p \<in> set (portsOf (snd f))) \<or> carries gen fs t am p"
  by (simp add: carries_def)

lemma flowAMSels_ok:
  assumes "flowAMSels gen fs masters slaves = Inr (M, S)" and "distinct (map fst fs)"
  shows "(\<forall>f \<in> set fs. \<exists>am. AMSel_getAMSel gen (flowTile f) (fst f) = Some am \<and> S (fst f) = Some am)
    \<and> (\<forall>src. src \<notin> fst ` set fs \<longrightarrow> S src = slaves src)
    \<and> (\<forall>t am p. (t, am, p) \<in> set M \<longleftrightarrow> (t, am, p) \<in> set masters \<or> carries gen fs t am p)"
  using assms
proof (induction fs arbitrary: masters slaves)
  case Nil
  then show ?case by (simp add: carries_def)
next
  case (Cons f fs)
  obtain src ds where f: "f = (src, ds)" by fastforce
  let ?t = "tileLoc (physPort src)"
  from Cons.prems(1) f obtain am where am: "AMSel_getAMSel gen ?t src = Some am"
    "flowAMSels gen fs (sv_insert_all (map (\<lambda>p. (?t, am, p)) (portsOf ds)) masters) (slaves(src \<mapsto> am)) = Inr (M, S)"
    by (auto simp: Let_def)
  have d: "src \<notin> fst ` set fs" "distinct (map fst fs)" using Cons.prems(2) f by simp_all
  note IH = Cons.IH [OF am(2) d(2)]
  have "S src = Some am" using IH d(1) by simp
  moreover have "(t, a, p) \<in> set M \<longleftrightarrow> (t, a, p) \<in> set masters \<or> carries gen (f # fs) t a p" for t a p
  proof -
    have "(t, a, p) \<in> set M \<longleftrightarrow> (t, a, p) \<in> set (sv_insert_all (map (\<lambda>p. (?t, am, p)) (portsOf ds)) masters)
        \<or> carries gen fs t a p" using IH by blast
    then show ?thesis using am(1) f by (auto simp: carries_Cons)
  qed
  moreover have "\<forall>h \<in> set (f # fs). \<exists>am. AMSel_getAMSel gen (flowTile h) (fst h) = Some am \<and> S (fst h) = Some am"
    using IH am(1) f calculation(1) by (auto simp del: split_paired_All split_paired_Ex)
  moreover have "S x = slaves x" if "x \<notin> fst ` set (f # fs)" for x using IH that f by auto
  ultimately show ?case by blast
qed

lemma dstsOf_distinct:
  "distinct (map fst conns) \<Longrightarrow> (s, ds) \<in> set conns \<Longrightarrow> dstsOf conns s = ds"
proof (induction conns)
  case (Cons c conns)
  show ?case
  proof (cases "c = (s, ds)")
    case True
    then have "filter (\<lambda>c. fst c = s) conns = []" using Cons.prems(1) by (auto simp: filter_empty_conv)
    with True show ?thesis by (simp add: dstsOf_def)
  next
    case False
    then have "(s, ds) \<in> set conns" using Cons.prems by auto
    moreover from this have "s \<in> fst ` set conns" by (metis fst_conv imageI)
    then have "fst c \<noteq> s" using Cons.prems(1) by auto
    ultimately have "(s, ds) \<in> set conns" "fst c \<noteq> s" by blast+
    with Cons show ?thesis by (simp add: dstsOf_def)
  qed
qed simp


text \<open>The solved tiles of a configuration.\<close>

lemma emit_tiles:
  assumes "emitPacketRoutingConfiguration m packetFlows priorPacketFlows = Some (Inr (masters, slaves))"
    and "fs = sortFlows priorPacketFlows packetFlows"
  shows "\<exists>gen M. flowAMSels gen fs [] Map.empty = Inr (M, slaves) \<and> masters = masterSets M
    \<and> (\<forall>f \<in> set fs. \<exists>g. map_of gen (flowTile f) = Some g
         \<and> Tile_solve (addAll (filter (\<lambda>f'. flowTile f' = flowTile f) fs)
              (mk_TileAMSelGenerator (tileArbiters m (flowTile f)) (tileMSels m (flowTile f)))) = Some (Inr g))"
proof -
  obtain gen0 where gen0: "addFlows m fs [] = Inr gen0" "\<forall>t. map_of gen0 t = tileGen m fs t"
    using addFlows_ok [of "[]" m "[]" fs] by (auto simp: tileGen_def)
  with assms obtain gen M where gen: "AMSel_solve gen0 = Some (Inr gen)" "flowAMSels gen fs [] Map.empty = Inr (M, slaves)"
    "masters = masterSets M" by (auto simp: emitPacketRoutingConfiguration_def Let_def)
  have "\<exists>g. map_of gen (flowTile f) = Some g
         \<and> Tile_solve (addAll (filter (\<lambda>f'. flowTile f' = flowTile f) fs)
              (mk_TileAMSelGenerator (tileArbiters m (flowTile f)) (tileMSels m (flowTile f)))) = Some (Inr g)"
    if "f \<in> set fs" for f
    using AMSel_solve_tiles [OF gen(1), of "flowTile f"] gen0(2) that by (auto simp: tileGen_def)
  with gen show ?thesis by blast
qed

lemma masterSets_mem: "am \<in> set (masterSets M (PhysPort t p DST)) \<longleftrightarrow> (t, am, p) \<in> set M"
  by (force simp: masterSets_def)

lemma tile_flows_agree:
  assumes "distinct (map fst fs)" and "fst ` set fs \<inter> (\<Union>(s, ds) \<in> set fs. set ds) = {}" and "\<forall>(s, ds) \<in> set fs. ds \<noteq> []"
    and g: "Tile_solve (addAll (filter (\<lambda>f'. flowTile f' = t) fs) (mk_TileAMSelGenerator na nm)) = Some (Inr g)"
    and f: "(src, ds) \<in> set fs" "(src', ds') \<in> set fs" "tileLoc (physPort src) = t" "tileLoc (physPort src') = t"
    and am: "Tile_getAMSel g src = Some am" "Tile_getAMSel g src' = Some am'"
    and p: "p \<in> set (portsOf ds)" "am \<noteq> am' \<longrightarrow> p \<in> set (portsOf ds')"
  shows "fst am = fst am' \<and> (am = am' \<longrightarrow> portsOf ds = portsOf ds')"
proof -
  let ?c = "filter (\<lambda>f'. flowTile f' = t) fs"
  have "fst ` set ?c \<subseteq> fst ` set fs" "(\<Union>(s, ds) \<in> set ?c. set ds) \<subseteq> (\<Union>(s, ds) \<in> set fs. set ds)" by auto
  with assms(2) have disj: "fst ` set ?c \<inter> (\<Union>(s, ds) \<in> set ?c. set ds) = {}" by blast
  have "(src, ds) \<in> set ?c" "(src', ds') \<in> set ?c" using f by simp_all
  then have d: "dstsOf ?c src = ds" "dstsOf ?c src' = ds'"
    using dstsOf_distinct [OF distinct_map_filter [OF assms(1)]] by blast+
  have ne: "ds \<noteq> []" "ds' \<noteq> []" using f(1,2) assms(3) by blast+
  note tc = tile_solved [OF disj g]
  show ?thesis
  proof (cases "am = am'")
    case True
    with tc(3) [of src src'] am d ne show ?thesis by simp
  next
    case False
    then obtain e e' where "e \<in> set ds" "e' \<in> set ds'" "port (physPort e) = p" "port (physPort e') = p"
      using p by (auto simp: portsOf_def)
    with tc(2) [of e src e' src'] am d False show ?thesis by simp
  qed
qed

text \<open>
  C16. \<open>emitPacketRoutingConfiguration\<close>, when it succeeds on flows with distinct sources, none of
  which is a destination: the flow of a source gets an arbiter and an msel such that, on its tile,
  the master ports that carry this pair are exactly the destination ports of the flow; and all pairs
  of one master port have the same arbiter.
\<close>

theorem packet_masters:
  assumes "emitPacketRoutingConfiguration m packetFlows priorPacketFlows = Some (Inr (masters, slaves))"
    and "fs = sortFlows priorPacketFlows packetFlows" and "distinct (map fst fs)"
    and "fst ` set fs \<inter> (\<Union>(s, ds) \<in> set fs. set ds) = {}" and "\<forall>(s, ds) \<in> set fs. ds \<noteq> []"
  shows "(\<forall>(src, ds) \<in> set fs. \<exists>am. slaves src = Some am
      \<and> (\<forall>p. am \<in> set (masters (PhysPort (tileLoc (physPort src)) p DST)) \<longleftrightarrow> p \<in> set (portsOf ds)))
    \<and> (\<forall>t p am am'. am \<in> set (masters (PhysPort t p DST)) \<and> am' \<in> set (masters (PhysPort t p DST)) \<longrightarrow> fst am = fst am')"
proof -
  obtain gen M where gen: "flowAMSels gen fs [] Map.empty = Inr (M, slaves)" "masters = masterSets M"
    and tiles: "\<And>f. f \<in> set fs \<Longrightarrow> \<exists>g. map_of gen (flowTile f) = Some g
         \<and> Tile_solve (addAll (filter (\<lambda>f'. flowTile f' = flowTile f) fs)
              (mk_TileAMSelGenerator (tileArbiters m (flowTile f)) (tileMSels m (flowTile f)))) = Some (Inr g)"
    using emit_tiles [OF assms(1,2)] by blast
  note fl = flowAMSels_ok [OF gen(1) assms(3)]
  have mem: "am \<in> set (masters (PhysPort t p DST)) \<longleftrightarrow> (\<exists>src ds. (src, ds) \<in> set fs \<and> tileLoc (physPort src) = t
      \<and> AMSel_getAMSel gen t src = Some am \<and> p \<in> set (portsOf ds))" for am t p
  proof -
    have "(t, am, p) \<in> set M \<longleftrightarrow> carries gen fs t am p" using fl by (simp del: split_paired_All split_paired_Ex)
    then show ?thesis unfolding gen(2) masterSets_mem carries_def by fastforce
  qed
  have same: "fst am = fst am' \<and> (am = am' \<longrightarrow> portsOf ds = portsOf ds')"
    if f: "(src, ds) \<in> set fs" "(src', ds') \<in> set fs" "tileLoc (physPort src) = t" "tileLoc (physPort src') = t"
      and a: "AMSel_getAMSel gen t src = Some am" "AMSel_getAMSel gen t src' = Some am'"
      and p: "p \<in> set (portsOf ds)" "am \<noteq> am' \<longrightarrow> p \<in> set (portsOf ds')" for src ds src' ds' t am am' p
  proof -
    obtain g where g: "map_of gen t = Some g"
      "Tile_solve (addAll (filter (\<lambda>f'. flowTile f' = t) fs) (mk_TileAMSelGenerator (tileArbiters m t) (tileMSels m t))) = Some (Inr g)"
      using tiles [OF f(1)] f(3) by auto
    have "Tile_getAMSel g src = Some am" "Tile_getAMSel g src' = Some am'" using a g(1) by (simp_all add: AMSel_getAMSel_def)
    then show ?thesis by (rule tile_flows_agree [OF assms(3-5) g(2) f _ _ p])
  qed
  show ?thesis
  proof (intro conjI allI impI ballI, goal_cases)
    case (1 f)
    obtain src ds where f: "f = (src, ds)" "(src, ds) \<in> set fs" using 1 by (metis surj_pair)
    obtain am where am: "AMSel_getAMSel gen (tileLoc (physPort src)) src = Some am" "slaves src = Some am"
      using fl f(2) by fastforce
    have "am \<in> set (masters (PhysPort (tileLoc (physPort src)) p DST)) \<longleftrightarrow> p \<in> set (portsOf ds)" for p
    proof
      assume "am \<in> set (masters (PhysPort (tileLoc (physPort src)) p DST))"
      then obtain src' ds' where f': "(src', ds') \<in> set fs" "tileLoc (physPort src') = tileLoc (physPort src)"
        "AMSel_getAMSel gen (tileLoc (physPort src)) src' = Some am" "p \<in> set (portsOf ds')" unfolding mem by blast
      have "portsOf ds' = portsOf ds" using same [OF f'(1) f(2) f'(2) refl f'(3) am(1) f'(4)] by simp
      with f'(4) show "p \<in> set (portsOf ds)" by simp
    qed (use mem f(2) am(1) in blast)
    with am(2) show ?case unfolding f(1) case_prod_conv by blast
  next
    case (2 t p am am')
    then show ?case unfolding mem using same by blast
  qed
qed


theorem packet_masters_witness:
  "\<exists>masters slaves am. emitPacketRoutingConfiguration (sampleModel npu1) [(sampleEnd SOUTH SRC 1, [sampleEnd NORTH DST 1])] []
       = Some (Inr (masters, slaves))
     \<and> slaves (sampleEnd SOUTH SRC 1) = Some am
     \<and> am \<in> set (masters (PhysPort (TileLoc 0 1) (Port NORTH 0) DST))
     \<and> am \<notin> set (masters (PhysPort (TileLoc 0 1) (Port DMA 0) DST))"
proof -
  let ?f = "[(sampleEnd SOUTH SRC 1, [sampleEnd NORTH DST 1])]"
  have n: "(1 :: u8) + getStreamSwitchArbiterMax (sampleModel npu1) 0 1 = 1" "(1 :: u8) + getStreamSwitchMSelMax (sampleModel npu1) 0 1 = 1"
    by (simp_all add: getStreamSwitchArbiterMax_def getStreamSwitchMSelMax_def isCoreTile_def isMemTile_def isShimTile_def
        getTileType_def sample_defs)
  obtain masters slaves where e: "emitPacketRoutingConfiguration (sampleModel npu1) ?f [] = Some (Inr (masters, slaves))"
    using n by (simp add: emitPacketRoutingConfiguration_def sortFlows_def AMSel_getAMSel_def Tile_getAMSel_def
        initTileIfNotExists_def tile_eval)
  have s: "sortFlows [] ?f = ?f" by (simp add: sortFlows_def)
  have "fst ` set (sortFlows [] ?f) \<inter> (\<Union>(s, ds) \<in> set (sortFlows [] ?f). set ds) = {}" unfolding s by (simp add: sampleEnd_def)
  from packet_masters [OF e refl _ this] e show ?thesis
    unfolding s by (auto simp: sampleEnd_def portsOf_def)
qed

end
