(* ===== verification/Router_Graph.thy ===== *)
theory Router_Graph
  imports Device_Ops "HOL-Library.Extended_Nat"
begin

text \<open>
  The state of the router (\<open>iree_aie_router.cc\<close>): the graph of switchboxes, the flows to route, and
  the operations that fill them before the paths are searched (\<open>initialize\<close>, \<open>addFlow\<close>,
  \<open>addFixedCircuitConnection\<close>, \<open>addFixedPacketConnection\<close>).

  A matrix of a switchbox is a function of two indices; its size is that of \<open>srcPorts\<close> and
  \<open>dstPorts\<close>, and a loop over all its entries is a pointwise definition. The \<open>std::map\<close> of the graph
  is the list of its entries; \<open>graph[key]\<close> at a missing key creates a switchbox without ports, which
  no operation can tell from none, so that a lookup here does not insert.

  The weights are of type \<open>double\<close>: they are a linear order \<open>'d\<close> here, with the arithmetic
  operations and constants the source uses given by a record, so that what is proved holds for
  the rounding of any floating point format.
\<close>

section \<open>Model\<close>

record 'd weight_ops =
  w_zero :: 'd
  w_INF :: 'd
  w_add :: "'d \<Rightarrow> 'd \<Rightarrow> 'd"
  w_mul :: "'d \<Rightarrow> 'd \<Rightarrow> 'd"
  w_of_int :: "int \<Rightarrow> 'd"
  OVER_CAPACITY_COEFF :: 'd
  USED_CAPACITY_COEFF :: 'd
  DEMAND_COEFF :: 'd
  DEMAND_BASE :: 'd

definition MAX_CIRCUIT_STREAM_CAPACITY :: int where "MAX_CIRCUIT_STREAM_CAPACITY = 1"

definition MAX_PACKET_STREAM_CAPACITY :: int where "MAX_PACKET_STREAM_CAPACITY = 32"

datatype Connectivity = INVALID | AVAILABLE

record 'd SwitchboxConnect =
  srcCoords :: TileLoc
  dstCoords :: TileLoc
  srcPorts :: "Port list"
  dstPorts :: "Port list"
  connectivity :: "nat \<Rightarrow> nat \<Rightarrow> Connectivity"
  demand :: "nat \<Rightarrow> nat \<Rightarrow> 'd"
  overCapacity :: "nat \<Rightarrow> nat \<Rightarrow> int"
  usedCapacity :: "nat \<Rightarrow> nat \<Rightarrow> int"
  packetFlowCount :: "nat \<Rightarrow> nat \<Rightarrow> int"
  fixedPacketFlowCount :: "nat \<Rightarrow> nat \<Rightarrow> int"
  packetGroupId :: "nat \<Rightarrow> nat \<Rightarrow> int"

text \<open>A switchbox with its ports, the matrices as \<open>resize\<close> makes them.\<close>

definition mk_SwitchboxConnect :: "'d weight_ops \<Rightarrow> TileLoc \<Rightarrow> TileLoc \<Rightarrow> Port list \<Rightarrow> Port list \<Rightarrow> 'd SwitchboxConnect" where
  "mk_SwitchboxConnect W src dst srcs dsts =
     \<lparr>srcCoords = src, dstCoords = dst, srcPorts = srcs, dstPorts = dsts,
      connectivity = \<lambda>_ _. INVALID, demand = \<lambda>_ _. w_zero W, overCapacity = \<lambda>_ _. 0, usedCapacity = \<lambda>_ _. 0,
      packetFlowCount = \<lambda>_ _. 0, fixedPacketFlowCount = \<lambda>_ _. 0, packetGroupId = \<lambda>_ _. 0\<rparr>"

definition upd2 :: "(nat \<Rightarrow> nat \<Rightarrow> 'a) \<Rightarrow> nat \<Rightarrow> nat \<Rightarrow> 'a \<Rightarrow> nat \<Rightarrow> nat \<Rightarrow> 'a" where
  "upd2 m i j v = m(i := (m i)(j := v))"

definition updateDemand :: "'d weight_ops \<Rightarrow> 'd SwitchboxConnect \<Rightarrow> 'd SwitchboxConnect" where
  "updateDemand W sb = sb\<lparr>demand := \<lambda>i j.
     (let history = w_add W (DEMAND_BASE W) (w_mul W (OVER_CAPACITY_COEFF W) (w_of_int W (overCapacity sb i j)));
          congestion = w_add W (DEMAND_BASE W) (w_mul W (USED_CAPACITY_COEFF W) (w_of_int W (usedCapacity sb i j)))
      in w_mul W history congestion)\<rparr>"

definition bumpDemand :: "'d weight_ops \<Rightarrow> nat \<Rightarrow> nat \<Rightarrow> 'd SwitchboxConnect \<Rightarrow> 'd SwitchboxConnect" where
  "bumpDemand W i j sb =
     (if usedCapacity sb i j \<ge> MAX_CIRCUIT_STREAM_CAPACITY
      then sb\<lparr>demand := upd2 (demand sb) i j (w_mul W (demand sb i j) (DEMAND_COEFF W))\<rparr> else sb)"

record Flow =
  flowGroupId :: int
  flowSrc :: PhysPort
  flowDsts :: "PhysPort list"

type_synonym 'd sb_graph = "((TileLoc \<times> TileLoc) \<times> 'd SwitchboxConnect) list"

record 'd Router =
  flows :: "Flow list"
  graph :: "'d sb_graph"
  channels :: "PhysPort \<rightharpoonup> PhysPort list"
  maxCol :: int
  maxRow :: int
  nextAvailablePacketGroupId :: int

definition mk_Router :: "int \<Rightarrow> int \<Rightarrow> 'd Router" where
  "mk_Router c r =
     \<lparr>flows = [], graph = [], channels = Map.empty, maxCol = c, maxRow = r, nextAvailablePacketGroupId = 0\<rparr>"

text \<open>The directions and the steps they take; the hash map is iterated in the order it is written in.\<close>

definition directionToDeltaCoordsMap :: "((StrmSwPortType \<times> StrmSwPortType) \<times> (int \<times> int)) list" where
  "directionToDeltaCoordsMap =
     [((SOUTH, NORTH), (0, -1)), ((NORTH, SOUTH), (0, 1)), ((WEST, EAST), (-1, 0)), ((EAST, WEST), (1, 0))]"

text \<open>\<open>graph[key]\<close> and its update.\<close>

definition sb_at :: "'d weight_ops \<Rightarrow> 'd sb_graph \<Rightarrow> TileLoc \<Rightarrow> TileLoc \<Rightarrow> 'd SwitchboxConnect" where
  "sb_at W g s t = (case map_of g (s, t) of Some sb \<Rightarrow> sb | None \<Rightarrow> mk_SwitchboxConnect W s t [] [])"

fun sb_set :: "TileLoc \<times> TileLoc \<Rightarrow> 'd SwitchboxConnect \<Rightarrow> 'd sb_graph \<Rightarrow> 'd sb_graph" where
  "sb_set k sb [] = [(k, sb)]"
| "sb_set k sb ((k', sb') # g) = (if k' = k then (k, sb) # g else (k', sb') # sb_set k sb g)"

definition sb_all :: "('d SwitchboxConnect \<Rightarrow> 'd SwitchboxConnect) \<Rightarrow> 'd sb_graph \<Rightarrow> 'd sb_graph" where
  "sb_all f g = map (\<lambda>(k, sb). (k, f sb)) g"

text \<open>\<open>std::distance(begin, std::find(begin, end, x))\<close>: the length of the list when \<open>x\<close> is not in it.\<close>

fun find_index :: "'a \<Rightarrow> 'a list \<Rightarrow> nat" where
  "find_index x [] = 0"
| "find_index x (y # ys) = (if y = x then 0 else Suc (find_index x ys))"

section \<open>The initial graph\<close>

definition bundles :: "StrmSwPortType list" where
  "bundles = [CORE, DMA, FIFO, SOUTH, WEST, NORTH, EAST, TRACE, UCTRLR, CTRL]"

definition numSourceChannels :: "AMDAIEDeviceModel \<Rightarrow> int \<Rightarrow> int \<Rightarrow> StrmSwPortType \<Rightarrow> nat result" where
  "numSourceChannels m c r bundle =
     res_bind (getNumSourceSwitchBoxConnections m (word_of_int c) (word_of_int r) bundle) (\<lambda>n.
       Inr (if n = 0 \<and> isShimNOCorPLTile m (word_of_int c) (word_of_int r)
            then getNumSourceShimMuxConnections m c r bundle else n))"

definition numDestChannels :: "AMDAIEDeviceModel \<Rightarrow> int \<Rightarrow> int \<Rightarrow> StrmSwPortType \<Rightarrow> nat result" where
  "numDestChannels m c r bundle =
     res_bind (getNumDestSwitchBoxConnections m (word_of_int c) (word_of_int r) bundle) (\<lambda>n.
       Inr (if n = 0 \<and> isShimNOCorPLTile m (word_of_int c) (word_of_int r)
            then getNumDestShimMuxConnections m c r bundle else n))"

definition portsOfBundle :: "StrmSwPortType \<Rightarrow> nat \<Rightarrow> Port list" where
  "portsOfBundle bundle n = map (\<lambda>channel. Port bundle (int channel)) [0..<n]"

text \<open>The ports of a switchbox, and \<open>maxChannels\<close>: the number of destination channels of a bundle.\<close>

fun collectPorts ::
  "AMDAIEDeviceModel \<Rightarrow> int \<Rightarrow> int \<Rightarrow> StrmSwPortType list \<Rightarrow> (Port list \<times> Port list \<times> (StrmSwPortType \<rightharpoonup> nat)) result" where
  "collectPorts m c r [] = Inr ([], [], Map.empty)"
| "collectPorts m c r (b # bs) =
     res_bind (numSourceChannels m c r b) (\<lambda>ns. res_bind (numDestChannels m c r b) (\<lambda>nd.
       res_bind (collectPorts m c r bs) (\<lambda>(srcs, dsts, maxChannels).
         Inr (portsOfBundle b ns @ srcs, portsOfBundle b nd @ dsts, maxChannels(b \<mapsto> nd)))))"

definition connectPorts :: "AMDAIEDeviceModel \<Rightarrow> int \<Rightarrow> int \<Rightarrow> Port \<Rightarrow> Port \<Rightarrow> Connectivity result" where
  "connectPorts m c r pIn pOut =
     res_bind (isLegalTileConnection m (word_of_int c) (word_of_int r) (portBundle pIn) (word_of_int (portChannel pIn))
                 (portBundle pOut) (word_of_int (portChannel pOut))) (\<lambda>legal.
       Inr (if legal then AVAILABLE
            else if isShimNOCorPLTile m (word_of_int c) (word_of_int r)
                    \<and> (portBundle pIn \<in> {DMA, UCTRLR} \<or> portBundle pOut \<in> {DMA, UCTRLR})
            then AVAILABLE else INVALID))"

fun res_map :: "('a \<Rightarrow> 'b result) \<Rightarrow> 'a list \<Rightarrow> 'b list result" where
  "res_map f [] = Inr []"
| "res_map f (x # xs) = res_bind (f x) (\<lambda>y. res_bind (res_map f xs) (\<lambda>ys. Inr (y # ys)))"

definition intraconnect ::
  "'d weight_ops \<Rightarrow> AMDAIEDeviceModel \<Rightarrow> int \<Rightarrow> int \<Rightarrow> ('d SwitchboxConnect \<times> (StrmSwPortType \<rightharpoonup> nat)) result" where
  "intraconnect W m c r =
     res_bind (collectPorts m c r bundles) (\<lambda>(srcs, dsts, maxChannels).
       res_bind (res_map (\<lambda>pIn. res_map (connectPorts m c r pIn) dsts) srcs) (\<lambda>cells.
         Inr ((mk_SwitchboxConnect W (TileLoc c r) (TileLoc c r) srcs dsts)\<lparr>connectivity := \<lambda>i j. cells ! i ! j\<rparr>, maxChannels)))"

definition interconnectTiles ::
  "'d weight_ops \<Rightarrow> (StrmSwPortType \<rightharpoonup> nat) \<Rightarrow> TileLoc \<Rightarrow> TileLoc \<Rightarrow> StrmSwPortType \<Rightarrow> StrmSwPortType \<Rightarrow> 'd SwitchboxConnect" where
  "interconnectTiles W maxChannels t t' srcBundle dstBundle =
     (let n = (case maxChannels srcBundle of Some n \<Rightarrow> n | None \<Rightarrow> 0)
      in (mk_SwitchboxConnect W t t' (portsOfBundle srcBundle n) (portsOfBundle dstBundle n))
           \<lparr>connectivity := \<lambda>i j. if i = j then AVAILABLE else INVALID\<rparr>)"

text \<open>The neighbours of a tile that the device has.\<close>

definition neighbours :: "int \<Rightarrow> int \<Rightarrow> int \<Rightarrow> int \<Rightarrow> ((StrmSwPortType \<times> StrmSwPortType) \<times> TileLoc) list" where
  "neighbours mc mr c r =
     filter (\<lambda>(_, t). 0 \<le> col t \<and> col t \<le> mc \<and> 0 \<le> row t \<and> row t \<le> mr)
       (map (\<lambda>(direction, (dc, dr)). (direction, TileLoc (c + dc) (r + dr))) directionToDeltaCoordsMap)"

definition initTile :: "'d weight_ops \<Rightarrow> AMDAIEDeviceModel \<Rightarrow> int \<times> int \<Rightarrow> 'd Router \<Rightarrow> 'd Router result" where
  "initTile W m = (\<lambda>(c, r) R.
     res_bind (intraconnect W m c r) (\<lambda>(sb, maxChannels).
       Inr (R\<lparr>graph := foldl (\<lambda>g ((s, d), t). sb_set (TileLoc c r, t) (interconnectTiles W maxChannels (TileLoc c r) t s d) g)
                  (sb_set (TileLoc c r, TileLoc c r) sb (graph R)) (neighbours (maxCol R) (maxRow R) c r)\<rparr>)))"

fun res_fold :: "('a \<Rightarrow> 's \<Rightarrow> 's result) \<Rightarrow> 'a list \<Rightarrow> 's \<Rightarrow> 's result" where
  "res_fold f [] s = Inr s"
| "res_fold f (x # xs) s = res_bind (f x s) (res_fold f xs)"

definition tilesOf :: "int \<Rightarrow> int \<Rightarrow> (int \<times> int) list" where
  "tilesOf mc mr = concat (map (\<lambda>r. map (\<lambda>c. (c, r)) [0..mc]) [0..mr])"

definition initialize :: "'d weight_ops \<Rightarrow> AMDAIEDeviceModel \<Rightarrow> 'd Router \<Rightarrow> 'd Router result" where
  "initialize W m R = res_fold (initTile W m) (tilesOf (maxCol R) (maxRow R)) R"

section \<open>Flows and fixed connections\<close>

fun extendFlow :: "PhysPort \<Rightarrow> PhysPort \<Rightarrow> Flow list \<Rightarrow> Flow list option" where
  "extendFlow src dst [] = None"
| "extendFlow src dst (f # fs) =
     (if tileLoc (flowSrc f) = tileLoc src \<and> port (flowSrc f) = port src then Some (f\<lparr>flowDsts := flowDsts f @ [dst]\<rparr> # fs)
      else map_option ((#) f) (extendFlow src dst fs))"

text \<open>The group of a flow that overlaps with a given source or destination.\<close>

definition overlapping :: "TileLoc \<Rightarrow> Port \<Rightarrow> TileLoc \<Rightarrow> Port \<Rightarrow> Flow \<Rightarrow> bool" where
  "overlapping srcC srcPort dstC dstPort f \<longleftrightarrow>
     (tileLoc (flowSrc f) = srcC \<and> port (flowSrc f) = srcPort)
     \<or> list_ex (\<lambda>d. tileLoc d = dstC \<and> port d = dstPort) (flowDsts f)"

definition addFlow :: "TileLoc \<Rightarrow> Port \<Rightarrow> TileLoc \<Rightarrow> Port \<Rightarrow> bool \<Rightarrow> 'd Router \<Rightarrow> 'd Router" where
  "addFlow srcC srcPort dstC dstPort isPacketFlow R =
     (let src = PhysPort srcC srcPort SRC; dst = PhysPort dstC dstPort DST
      in case extendFlow src dst (flows R) of
           Some fs \<Rightarrow> R\<lparr>flows := fs\<rparr>
         | None \<Rightarrow>
             (let (gid, next) =
                (if \<not> isPacketFlow then (-1, nextAvailablePacketGroupId R)
                 else case find (overlapping srcC srcPort dstC dstPort) (flows R) of
                        Some f \<Rightarrow> (flowGroupId f, nextAvailablePacketGroupId R)
                      | None \<Rightarrow> (nextAvailablePacketGroupId R, nextAvailablePacketGroupId R + 1))
              in R\<lparr>flows := flows R @ [\<lparr>flowGroupId = gid, flowSrc = src, flowDsts = [dst]\<rparr>],
                   nextAvailablePacketGroupId := next\<rparr>))"

text \<open>
  Marks every available connection between the two ports as invalid; tells whether there was one.
\<close>

definition fixConnection :: "Port \<Rightarrow> Port \<Rightarrow> 'd SwitchboxConnect \<Rightarrow> bool \<times> 'd SwitchboxConnect" where
  "fixConnection sourcePort destPort sb =
     (let hit = (\<lambda>i j. srcPorts sb ! i = sourcePort \<and> dstPorts sb ! j = destPort \<and> connectivity sb i j = AVAILABLE)
      in (list_ex (\<lambda>i. list_ex (hit i) [0..<length (dstPorts sb)]) [0..<length (srcPorts sb)],
          sb\<lparr>connectivity := \<lambda>i j. if i < length (srcPorts sb) \<and> j < length (dstPorts sb) \<and> hit i j then INVALID
                                   else connectivity sb i j\<rparr>))"

fun fixConnections :: "(Port \<times> Port) list \<Rightarrow> 'd SwitchboxConnect \<Rightarrow> bool \<times> 'd SwitchboxConnect" where
  "fixConnections [] sb = (True, sb)"
| "fixConnections ((s, d) # connects) sb =
     (case fixConnection s d sb of (found, sb') \<Rightarrow> if found then fixConnections connects sb' else (False, sb'))"

definition addFixedCircuitConnection :: "'d weight_ops \<Rightarrow> int \<Rightarrow> int \<Rightarrow> (Port \<times> Port) list \<Rightarrow> 'd Router \<Rightarrow> bool \<times> 'd Router" where
  "addFixedCircuitConnection W c r connects R =
     (let t = TileLoc c r
      in case fixConnections connects (sb_at W (graph R) t t) of (ok, sb) \<Rightarrow> (ok, R\<lparr>graph := sb_set (t, t) sb (graph R)\<rparr>))"

text \<open>
  The part of \<open>addFixedPacketConnection\<close> before the propagation; the recursive calls are at two
  different tiles, so that they are this part alone.
\<close>

definition countFixed :: "'d weight_ops \<Rightarrow> PhysPort \<Rightarrow> PhysPort \<Rightarrow> 'd Router \<Rightarrow> bool \<times> 'd Router" where
  "countFixed W src dst R =
     (let k = (tileLoc src, tileLoc dst); sb = sb_at W (graph R) (fst k) (snd k);
          i = find_index (port src) (srcPorts sb); j = find_index (port dst) (dstPorts sb)
      in if i \<ge> length (srcPorts sb) \<or> j \<ge> length (dstPorts sb) then (False, R)
         else (True, R\<lparr>graph := sb_set k (sb\<lparr>fixedPacketFlowCount :=
                 upd2 (fixedPacketFlowCount sb) i j (fixedPacketFlowCount sb i j + 1)\<rparr>) (graph R)\<rparr>))"

fun propagateFixed ::
  "'d weight_ops \<Rightarrow> TileLoc \<Rightarrow> Port \<Rightarrow> Port \<Rightarrow> ((StrmSwPortType \<times> StrmSwPortType) \<times> TileLoc) list \<Rightarrow> 'd Router \<Rightarrow> bool \<times> 'd Router" where
  "propagateFixed W t s d [] R = (True, R)"
| "propagateFixed W t s d (((near, far), t') # ns) R =
     (let (ok1, R1) = (if portBundle s = near
            then countFixed W (PhysPort t' (Port far (portChannel s)) SRC) (PhysPort t (Port near (portChannel s)) DST) R
            else (True, R))
      in if \<not> ok1 then (False, R1)
         else let (ok2, R2) = (if portBundle d = near
                then countFixed W (PhysPort t (Port near (portChannel d)) SRC) (PhysPort t' (Port far (portChannel d)) DST) R1
                else (True, R1))
              in if \<not> ok2 then (False, R2) else propagateFixed W t s d ns R2)"

definition addFixedPacketConnection :: "'d weight_ops \<Rightarrow> PhysPort \<Rightarrow> PhysPort \<Rightarrow> 'd Router \<Rightarrow> bool \<times> 'd Router" where
  "addFixedPacketConnection W src dst R =
     (case countFixed W src dst R of
        (False, R') \<Rightarrow> (False, R')
      | (True, R') \<Rightarrow>
          if tileLoc src = tileLoc dst
          then propagateFixed W (tileLoc src) (port src) (port dst)
                 (neighbours (maxCol R') (maxRow R') (col (tileLoc src)) (row (tileLoc src))) R'
          else (True, R'))"

section \<open>Lookups\<close>

lemma map_of_sb_set [simp]: "map_of (sb_set k sb g) = (map_of g)(k \<mapsto> sb)"
  by (induction k sb g rule: sb_set.induct) auto

lemma keys_sb_set: "set (map fst (sb_set k sb g)) = insert k (set (map fst g))"
  by (induction k sb g rule: sb_set.induct) auto

lemma distinct_sb_set [simp]: "distinct (map fst g) \<Longrightarrow> distinct (map fst (sb_set k sb g))"
proof (induction k sb g rule: sb_set.induct)
  case (2 k sb k' sb' g)
  then show ?case using keys_sb_set [of k sb g] by auto
qed simp

lemma map_of_sb_all [simp]: "map_of (sb_all f g) k = map_option f (map_of g k)"
  by (induction g) (auto simp: sb_all_def)

lemma keys_sb_all [simp]: "map fst (sb_all f g) = map fst g"
  by (simp add: sb_all_def comp_def case_prod_unfold)

lemma find_index_less [simp]: "find_index x xs < length xs \<longleftrightarrow> x \<in> set xs"
  by (induction xs) auto

lemma find_index_nth [simp]: "x \<in> set xs \<Longrightarrow> xs ! find_index x xs = x"
  by (induction xs) auto

lemma find_index_unique: "distinct xs \<Longrightarrow> i < length xs \<Longrightarrow> find_index (xs ! i) xs = i"
  by (metis find_index_less find_index_nth nth_eq_iff_index_eq nth_mem)

lemma res_fold_append: "res_fold f (xs @ ys) s = res_bind (res_fold f xs s) (res_fold f ys)"
proof (induction xs arbitrary: s)
  case (Cons x xs)
  then show ?case by (cases "f x s") simp_all
qed simp

lemma res_fold_inv:
  assumes "res_fold f xs s = Inr s'" and "I [] s"
    and "\<And>ys x s s'. f x s = Inr s' \<Longrightarrow> I ys s \<Longrightarrow> I (ys @ [x]) s'"
  shows "I xs s'"
  using assms(1)
proof (induction xs arbitrary: s' rule: rev_induct)
  case Nil
  then show ?case using assms(2) by simp
next
  case (snoc x xs)
  then show ?case using assms(3) by (auto simp: res_fold_append)
qed

section \<open>Shape of the graph\<close>

definition in_device :: "int \<Rightarrow> int \<Rightarrow> TileLoc \<Rightarrow> bool" where
  "in_device mc mr t \<longleftrightarrow> 0 \<le> col t \<and> col t \<le> mc \<and> 0 \<le> row t \<and> row t \<le> mr"

definition moved :: "TileLoc \<Rightarrow> int \<times> int \<Rightarrow> TileLoc" where
  "moved t d = TileLoc (col t + fst d) (row t + snd d)"

text \<open>The bundles by which a tile is connected to another one.\<close>

definition linked :: "TileLoc \<Rightarrow> TileLoc \<Rightarrow> StrmSwPortType \<Rightarrow> StrmSwPortType \<Rightarrow> bool" where
  "linked t t' s d \<longleftrightarrow> (\<exists>delta. ((s, d), delta) \<in> set directionToDeltaCoordsMap \<and> t' = moved t delta)"

definition sb_shape :: "TileLoc \<Rightarrow> TileLoc \<Rightarrow> 'd SwitchboxConnect \<Rightarrow> bool" where
  "sb_shape t t' sb \<longleftrightarrow> distinct (srcPorts sb) \<and> distinct (dstPorts sb)
     \<and> (t \<noteq> t' \<longrightarrow> (\<exists>s d n. linked t t' s d \<and> srcPorts sb = portsOfBundle s n \<and> dstPorts sb = portsOfBundle d n))"

definition graph_ok :: "'d sb_graph \<Rightarrow> bool" where
  "graph_ok g \<longleftrightarrow> distinct (map fst g) \<and> (\<forall>t t' sb. map_of g (t, t') = Some sb \<longrightarrow> sb_shape t t' sb)"

lemma linked_cases:
  "linked t t' s d \<longleftrightarrow> (s = SOUTH \<and> d = NORTH \<and> t' = moved t (0, -1)) \<or> (s = NORTH \<and> d = SOUTH \<and> t' = moved t (0, 1))
     \<or> (s = WEST \<and> d = EAST \<and> t' = moved t (-1, 0)) \<or> (s = EAST \<and> d = WEST \<and> t' = moved t (1, 0))"
  by (auto simp: linked_def directionToDeltaCoordsMap_def)

lemma linked_neq: "linked t t' s d \<Longrightarrow> t' \<noteq> t"
  by (cases t) (auto simp: linked_cases moved_def)

lemma linked_unique: "linked t t' s d \<Longrightarrow> linked t t' s' d' \<Longrightarrow> s' = s \<and> d' = d"
  by (auto simp: linked_cases moved_def)

lemma linked_sym: "linked t t' s d \<longleftrightarrow> linked t' t d s"
  by (cases t; cases t') (auto simp: linked_cases moved_def)

lemma linked_bundles: "linked t t' s d \<Longrightarrow> s = getConnectingBundle d"
  by (auto simp: linked_cases)

lemma neighbours_iff: "((s, d), t') \<in> set (neighbours mc mr c r) \<longleftrightarrow> linked (TileLoc c r) t' s d \<and> in_device mc mr t'"
proof -
  have "((s, d), t') \<in> (\<lambda>(direction, dc, dr). (direction, TileLoc (c + dc) (r + dr))) ` set directionToDeltaCoordsMap
      \<longleftrightarrow> linked (TileLoc c r) t' s d"
    unfolding linked_def moved_def image_iff Bex_def by force
  then show ?thesis by (simp add: neighbours_def in_device_def conj_commute)
qed

lemma portsOfBundle_set: "p \<in> set (portsOfBundle b n) \<longleftrightarrow> portBundle p = b \<and> 0 \<le> portChannel p \<and> portChannel p < int n"
proof -
  have "0 \<le> c \<Longrightarrow> c < int n \<Longrightarrow> \<exists>k<n. c = int k" for c by (metis nonneg_int_cases of_nat_less_iff)
  then show ?thesis by (cases p) (auto simp: portsOfBundle_def image_iff Bex_def)
qed

lemma portsOfBundle_distinct [simp]: "distinct (portsOfBundle b n)"
  by (simp add: portsOfBundle_def distinct_map inj_on_def)

lemma portsOfBundle_nth: "i < n \<Longrightarrow> portsOfBundle b n ! i = Port b (int i)"
  by (simp add: portsOfBundle_def)

lemma find_index_portsOfBundle: "i < n \<Longrightarrow> find_index (Port b (int i)) (portsOfBundle b n) = i"
  using find_index_unique [OF portsOfBundle_distinct, of i b n] by (simp add: portsOfBundle_nth portsOfBundle_def)

lemma collectPorts_distinct:
  "collectPorts m c r bs = Inr (srcs, dsts, mx) \<Longrightarrow> distinct bs \<Longrightarrow>
     distinct srcs \<and> distinct dsts \<and> portBundle ` (set srcs \<union> set dsts) \<subseteq> set bs"
proof (induction bs arbitrary: srcs dsts mx)
  case (Cons b bs)
  from Cons.prems(1) obtain ns nd s d mx' where
    "collectPorts m c r bs = Inr (s, d, mx')" "srcs = portsOfBundle b ns @ s" "dsts = portsOfBundle b nd @ d" by auto
  with Cons.IH [of s d mx'] Cons.prems(2) show ?case by (auto simp: portsOfBundle_set)
qed simp

lemma res_map_nth: "res_map f xs = Inr ys \<Longrightarrow> length ys = length xs \<and> (\<forall>i < length xs. f (xs ! i) = Inr (ys ! i))"
proof (induction xs arbitrary: ys)
  case (Cons x xs)
  then show ?case by (auto simp: nth_Cons split: nat.split)
qed simp

text \<open>What \<open>intraconnect\<close> makes of a tile.\<close>

definition tile_switch :: "AMDAIEDeviceModel \<Rightarrow> TileLoc \<Rightarrow> 'd SwitchboxConnect \<Rightarrow> bool" where
  "tile_switch m t sb \<longleftrightarrow>
     (\<exists>mx. collectPorts m (col t) (row t) bundles = Inr (srcPorts sb, dstPorts sb, mx))
     \<and> (\<forall>i < length (srcPorts sb). \<forall>j < length (dstPorts sb).
           connectPorts m (col t) (row t) (srcPorts sb ! i) (dstPorts sb ! j) = Inr (connectivity sb i j))"

lemma intraconnect_switch:
  assumes "intraconnect W m c r = Inr (sb, mx)"
  shows "tile_switch m (TileLoc c r) sb \<and> sb_shape (TileLoc c r) (TileLoc c r) sb"
proof -
  obtain srcs dsts cells where s: "collectPorts m c r bundles = Inr (srcs, dsts, mx)"
    "res_map (\<lambda>pIn. res_map (connectPorts m c r pIn) dsts) srcs = Inr cells"
    "sb = (mk_SwitchboxConnect W (TileLoc c r) (TileLoc c r) srcs dsts)\<lparr>connectivity := \<lambda>i j. cells ! i ! j\<rparr>"
    using assms by (auto simp: intraconnect_def)
  have sp: "srcPorts sb = srcs" "dstPorts sb = dsts" "connectivity sb = (\<lambda>i j. cells ! i ! j)"
    using s(3) by (simp_all add: mk_SwitchboxConnect_def)
  have "connectPorts m c r (srcs ! i) (dsts ! j) = Inr (cells ! i ! j)" if "i < length srcs" "j < length dsts" for i j
    using res_map_nth [OF s(2)] that res_map_nth [of _ dsts "cells ! i"] by blast
  moreover have "distinct bundles" by (simp add: bundles_def)
  then have "distinct srcs \<and> distinct dsts" using collectPorts_distinct [OF s(1)] by blast
  ultimately show ?thesis using s(1) sp unfolding tile_switch_def sb_shape_def by auto
qed

lemma interconnect_shape: "linked t t' s d \<Longrightarrow> sb_shape t t' (interconnectTiles W mx t t' s d)"
  unfolding sb_shape_def interconnectTiles_def Let_def by (auto simp: mk_SwitchboxConnect_def)

text \<open>The invariant of the loop over the tiles; \<open>ts\<close> are the tiles already made.\<close>

definition built :: "AMDAIEDeviceModel \<Rightarrow> int \<Rightarrow> int \<Rightarrow> (int \<times> int) list \<Rightarrow> 'd sb_graph \<Rightarrow> bool" where
  "built m mc mr ts g \<longleftrightarrow> distinct (map fst g) \<and>
     (\<forall>t t'. (map_of g (t, t') \<noteq> None \<longleftrightarrow>
          (col t, row t) \<in> set ts \<and> (t' = t \<or> (\<exists>s d. linked t t' s d) \<and> in_device mc mr t'))
       \<and> (\<forall>sb. map_of g (t, t') = Some sb \<longrightarrow> sb_shape t t' sb \<and> (t' = t \<longrightarrow> tile_switch m t sb)
             \<and> (t' \<noteq> t \<longrightarrow> (\<forall>i j. connectivity sb i j = AVAILABLE \<longleftrightarrow> i = j))))"

lemma foldl_sb_set:
  "distinct (map snd ns) \<Longrightarrow>
   map_of (foldl (\<lambda>g ((s, d), t'). sb_set (t, t') (f s d t') g) g ns) (u, u') =
     (if u = t then case map_of (map prod.swap ns) u' of Some (s, d) \<Rightarrow> Some (f s d u') | None \<Rightarrow> map_of g (u, u')
      else map_of g (u, u'))"
proof (induction ns arbitrary: g)
  case (Cons n ns)
  obtain s d t' where n: "n = ((s, d), t')" by (metis surj_pair)
  have "u' = t' \<Longrightarrow> map_of (map prod.swap ns) u' = None"
    using Cons.prems n by (force simp: map_of_eq_None_iff)
  with Cons n show ?case by (auto split: option.splits)
qed simp

lemma neighbours_distinct: "distinct (map snd (neighbours mc mr c r))"
  by (simp add: neighbours_def directionToDeltaCoordsMap_def)

lemma neighbours_of:
  "map_of (map prod.swap (neighbours mc mr c r)) t' = Some (s, d) \<longleftrightarrow> linked (TileLoc c r) t' s d \<and> in_device mc mr t'"
proof -
  have "map fst (map prod.swap ns) = map snd ns" for ns :: "((StrmSwPortType \<times> StrmSwPortType) \<times> TileLoc) list" by simp
  with neighbours_distinct have "distinct (map fst (map prod.swap (neighbours mc mr c r)))" by metis
  then have "map_of (map prod.swap (neighbours mc mr c r)) t' = Some (s, d) \<longleftrightarrow>
    (t', (s, d)) \<in> set (map prod.swap (neighbours mc mr c r))" by simp
  also have "\<dots> \<longleftrightarrow> ((s, d), t') \<in> set (neighbours mc mr c r)" by force
  finally show ?thesis by (simp only: neighbours_iff)
qed

lemma distinct_foldl_sb_set:
  "distinct (map fst g) \<Longrightarrow> distinct (map fst (foldl (\<lambda>g ((s, d), t'). sb_set (t, t') (f s d t') g) g ns))"
  by (induction ns arbitrary: g) auto

lemma initTile_graph:
  assumes "initTile W m (c, r) R = Inr R'"
  shows "\<exists>sb mx. intraconnect W m c r = Inr (sb, mx) \<and> maxCol R' = maxCol R \<and> maxRow R' = maxRow R
    \<and> flows R' = flows R \<and> channels R' = channels R \<and> nextAvailablePacketGroupId R' = nextAvailablePacketGroupId R
    \<and> (distinct (map fst (graph R)) \<longrightarrow> distinct (map fst (graph R')))
    \<and> (\<forall>u u'. map_of (graph R') (u, u') =
         (if u = TileLoc c r then
            (if u' = u then Some sb
             else case map_of (map prod.swap (neighbours (maxCol R) (maxRow R) c r)) u' of
                    Some (s, d) \<Rightarrow> Some (interconnectTiles W mx u u' s d) | None \<Rightarrow> map_of (graph R) (u, u'))
          else map_of (graph R) (u, u')))"
proof -
  obtain sb mx where i: "intraconnect W m c r = Inr (sb, mx)" using assms by (auto simp: initTile_def)
  let ?t = "TileLoc c r"
  let ?start = "sb_set (?t, ?t) sb (graph R)"
  let ?g = "foldl (\<lambda>g ((s, d), t'). sb_set (?t, t') (interconnectTiles W mx ?t t' s d) g) ?start (neighbours (maxCol R) (maxRow R) c r)"
  have R': "R' = R\<lparr>graph := ?g\<rparr>" using assms i by (simp add: initTile_def)
  have self: "map_of (map prod.swap (neighbours (maxCol R) (maxRow R) c r)) ?t = None"
    using neighbours_of [of "maxCol R" "maxRow R" c r ?t] linked_neq [of ?t ?t] by (metis not_Some_eq surj_pair)
  have "map_of ?g (u, u') = (if u = ?t then
            (if u' = u then Some sb
             else case map_of (map prod.swap (neighbours (maxCol R) (maxRow R) c r)) u' of
                    Some (s, d) \<Rightarrow> Some (interconnectTiles W mx u u' s d) | None \<Rightarrow> map_of (graph R) (u, u'))
          else map_of (graph R) (u, u'))" for u u'
    using foldl_sb_set [OF neighbours_distinct [of "maxCol R" "maxRow R" c r], where t = ?t and f = "\<lambda>s d t'. interconnectTiles W mx ?t t' s d" and g = ?start and u = u and u' = u'] self
    by (auto split: option.splits)
  then show ?thesis using i R' distinct_foldl_sb_set [of ?start] by auto
qed

lemma built_step:
  assumes "initTile W m (c, r) R = Inr R'" and "built m (maxCol R) (maxRow R) ts (graph R)"
  shows "built m (maxCol R') (maxRow R') (ts @ [(c, r)]) (graph R')"
proof -
  from initTile_graph [OF assms(1)] obtain sb mx where i: "intraconnect W m c r = Inr (sb, mx)"
    and mx: "maxCol R' = maxCol R" "maxRow R' = maxRow R"
    and dst: "distinct (map fst (graph R)) \<longrightarrow> distinct (map fst (graph R'))"
    and g: "\<And>u u'. map_of (graph R') (u, u') =
         (if u = TileLoc c r then
            (if u' = u then Some sb
             else case map_of (map prod.swap (neighbours (maxCol R) (maxRow R) c r)) u' of
                    Some (s, d) \<Rightarrow> Some (interconnectTiles W mx u u' s d) | None \<Rightarrow> map_of (graph R) (u, u'))
          else map_of (graph R) (u, u'))" by blast
  note sw = intraconnect_switch [OF i]
  have old: "(map_of (graph R) (t, t') \<noteq> None \<longleftrightarrow>
          (col t, row t) \<in> set ts \<and> (t' = t \<or> (\<exists>s d. linked t t' s d) \<and> in_device (maxCol R) (maxRow R) t'))
       \<and> (\<forall>sb. map_of (graph R) (t, t') = Some sb \<longrightarrow> sb_shape t t' sb \<and> (t' = t \<longrightarrow> tile_switch m t sb)
             \<and> (t' \<noteq> t \<longrightarrow> (\<forall>i j. connectivity sb i j = AVAILABLE \<longleftrightarrow> i = j)))" for t t'
    using assms(2) unfolding built_def by blast
  have new: "(map_of (graph R') (t, t') \<noteq> None \<longleftrightarrow>
          (col t, row t) \<in> set (ts @ [(c, r)]) \<and> (t' = t \<or> (\<exists>s d. linked t t' s d) \<and> in_device (maxCol R) (maxRow R) t'))
       \<and> (\<forall>sb. map_of (graph R') (t, t') = Some sb \<longrightarrow> sb_shape t t' sb \<and> (t' = t \<longrightarrow> tile_switch m t sb)
             \<and> (t' \<noteq> t \<longrightarrow> (\<forall>i j. connectivity sb i j = AVAILABLE \<longleftrightarrow> i = j)))" for t t'
  proof (cases "t = TileLoc c r")
    case False
    then have i: "(col t, row t) \<in> set (ts @ [(c, r)]) \<longleftrightarrow> (col t, row t) \<in> set ts" by (cases t) auto
    have e: "map_of (graph R') (t, t') = map_of (graph R) (t, t')" using False g [of t t'] by simp
    show ?thesis unfolding i e by (rule old)
  next
    case t: True
    show ?thesis
    proof (cases "t' = t")
      case True
      with t g [of t t'] sw show ?thesis by simp
    next
      case False
      show ?thesis
      proof (cases "map_of (map prod.swap (neighbours (maxCol R) (maxRow R) c r)) t'")
        case None
        then have "\<not> ((\<exists>s d. linked t t' s d) \<and> in_device (maxCol R) (maxRow R) t')"
          using neighbours_of [of "maxCol R" "maxRow R" c r t'] t by (metis option.distinct(1))
        moreover have "map_of (graph R') (t, t') = map_of (graph R) (t, t')" using None t False g [of t t'] by simp
        ultimately show ?thesis using False old [of t t'] by auto
      next
        case (Some sd)
        obtain s d where sd: "sd = (s, d)" by (cases sd)
        with Some have l: "linked t t' s d" "in_device (maxCol R) (maxRow R) t'" using neighbours_of [of "maxCol R" "maxRow R" c r t' s d] t by auto
        have "map_of (graph R') (t, t') = Some (interconnectTiles W mx t t' s d)" using g [of t t'] t False Some sd by simp
        moreover have "connectivity (interconnectTiles W mx t t' s d) i j = AVAILABLE \<longleftrightarrow> i = j" for i j
          by (simp add: interconnectTiles_def Let_def)
        ultimately show ?thesis using l interconnect_shape [OF l(1)] t False by auto
      qed
    qed
  qed
  have "distinct (map fst (graph R'))" using dst assms(2) unfolding built_def by blast
  with new show ?thesis unfolding built_def mx by blast
qed

lemma initialize_built:
  assumes "initialize W m (mk_Router mc mr) = Inr R"
  shows "built m mc mr (tilesOf mc mr) (graph R) \<and> maxCol R = mc \<and> maxRow R = mr \<and> flows R = []
    \<and> channels R = Map.empty \<and> nextAvailablePacketGroupId R = 0"
proof -
  let ?I = "\<lambda>ts R. built m (maxCol R) (maxRow R) ts (graph R) \<and> maxCol R = mc \<and> maxRow R = mr \<and> flows R = []
    \<and> channels R = Map.empty \<and> nextAvailablePacketGroupId R = 0"
  have "?I (tilesOf mc mr) R"
  proof (rule res_fold_inv [where I = ?I])
    show "res_fold (initTile W m) (tilesOf mc mr) (mk_Router mc mr) = Inr R"
      using assms by (simp add: initialize_def mk_Router_def)
    show "?I [] (mk_Router mc mr)" by (simp add: built_def mk_Router_def)
    fix ys x s s' assume s: "initTile W m x s = Inr s'" "?I ys s"
    obtain c r where x: "x = (c, r)" by (cases x)
    from built_step [OF s(1) [unfolded x], of ys] initTile_graph [OF s(1) [unfolded x]] s(2) x
    show "?I (ys @ [x]) s'" by auto
  qed
  then show ?thesis by auto
qed

lemma tilesOf_iff: "(col t, row t) \<in> set (tilesOf mc mr) \<longleftrightarrow> in_device mc mr t"
  by (auto simp: tilesOf_def in_device_def image_iff)

lemma initialize_graph_ok: "initialize W m (mk_Router mc mr) = Inr R \<Longrightarrow> graph_ok (graph R)"
  using initialize_built [of W m mc mr R] unfolding built_def graph_ok_def by blast


section \<open>Flows\<close>

text \<open>
  The flows have different sources, every flow has a destination, and the ids of the groups of packet
  flows are the numbers handed out so far; a circuit flow has the id -1.
\<close>

definition flows_ok :: "'d Router \<Rightarrow> bool" where
  "flows_ok R \<longleftrightarrow> distinct (map flowSrc (flows R)) \<and> 0 \<le> nextAvailablePacketGroupId R
     \<and> (\<forall>f \<in> set (flows R). direction (flowSrc f) = SRC \<and> flowDsts f \<noteq> [] \<and> (\<forall>d \<in> set (flowDsts f). direction d = DST)
          \<and> -1 \<le> flowGroupId f \<and> flowGroupId f < nextAvailablePacketGroupId R)"

text \<open>The requests of a router: pairs of a source and a destination.\<close>

definition requests :: "'d Router \<Rightarrow> (PhysPort \<times> PhysPort) set" where
  "requests R = (\<Union>f \<in> set (flows R). {flowSrc f} \<times> set (flowDsts f))"

lemma extendFlow_None:
  "extendFlow src dst fs = None \<Longrightarrow> f \<in> set fs \<Longrightarrow> \<not> (tileLoc (flowSrc f) = tileLoc src \<and> port (flowSrc f) = port src)"
  by (induction fs) (auto split: if_splits)

lemma extendFlow_Some:
  assumes "extendFlow src dst fs = Some fs'" and "\<forall>f \<in> set fs. direction (flowSrc f) = direction src"
  shows "\<exists>pre f post. fs = pre @ f # post \<and> fs' = pre @ f\<lparr>flowDsts := flowDsts f @ [dst]\<rparr> # post \<and> flowSrc f = src"
  using assms
proof (induction fs arbitrary: fs')
  case (Cons f fs)
  show ?case
  proof (cases "tileLoc (flowSrc f) = tileLoc src \<and> port (flowSrc f) = port src")
    case True
    then have "flowSrc f = src" using Cons.prems(2) by (simp add: PhysPort.expand)
    with True Cons.prems show ?thesis by (intro exI [of _ "[]"] exI [of _ f] exI [of _ fs]) simp
  next
    case False
    with Cons.prems obtain fs1 where fs1: "extendFlow src dst fs = Some fs1" "fs' = f # fs1" by (auto split: if_splits)
    from Cons.IH [OF fs1(1)] Cons.prems(2) obtain pre g post where
      "fs = pre @ g # post" "fs1 = pre @ g\<lparr>flowDsts := flowDsts g @ [dst]\<rparr> # post" "flowSrc g = src" by auto
    with fs1(2) show ?thesis by (intro exI [of _ "f # pre"] exI [of _ g] exI [of _ post]) simp
  qed
qed simp

lemma add_flow_spec:
  assumes "flows_ok R"
  shows "flows_ok (addFlow sc sp dc dp pkt R)
    \<and> requests (addFlow sc sp dc dp pkt R) = insert (PhysPort sc sp SRC, PhysPort dc dp DST) (requests R)
    \<and> (PhysPort sc sp SRC \<notin> flowSrc ` set (flows R) \<longrightarrow>
         (\<exists>gid. flows (addFlow sc sp dc dp pkt R) =
              flows R @ [\<lparr>flowGroupId = gid, flowSrc = PhysPort sc sp SRC, flowDsts = [PhysPort dc dp DST]\<rparr>]
            \<and> (\<not> pkt \<longrightarrow> gid = -1)
            \<and> (pkt \<longrightarrow> (case find (\<lambda>f. PhysPort dc dp DST \<in> set (flowDsts f)) (flows R) of
                 Some f \<Rightarrow> gid = flowGroupId f | None \<Rightarrow> gid \<notin> flowGroupId ` set (flows R) \<and> 0 \<le> gid))))"
proof (cases "extendFlow (PhysPort sc sp SRC) (PhysPort dc dp DST) (flows R)")
  case (Some fs)
  have "\<forall>f \<in> set (flows R). direction (flowSrc f) = direction (PhysPort sc sp SRC)" using assms by (simp add: flows_ok_def)
  from extendFlow_Some [OF Some this] obtain pre f post where f: "flows R = pre @ f # post"
    "fs = pre @ f\<lparr>flowDsts := flowDsts f @ [PhysPort dc dp DST]\<rparr> # post" "flowSrc f = PhysPort sc sp SRC" by blast
  have R': "addFlow sc sp dc dp pkt R = R\<lparr>flows := fs\<rparr>" using Some by (simp add: addFlow_def)
  have "flows_ok (R\<lparr>flows := fs\<rparr>)" using assms f by (auto simp: flows_ok_def)
  moreover have "requests (R\<lparr>flows := fs\<rparr>) = insert (PhysPort sc sp SRC, PhysPort dc dp DST) (requests R)"
    unfolding requests_def using f by auto
  moreover have "PhysPort sc sp SRC \<in> flowSrc ` set (flows R)" using f by force
  ultimately show ?thesis unfolding R' by blast
next
  case None
  define gn where "gn = (if \<not> pkt then (-1, nextAvailablePacketGroupId R)
      else case find (overlapping sc sp dc dp) (flows R) of
             Some f \<Rightarrow> (flowGroupId f, nextAvailablePacketGroupId R)
           | None \<Rightarrow> (nextAvailablePacketGroupId R, nextAvailablePacketGroupId R + 1))"
  let ?f = "\<lparr>flowGroupId = fst gn, flowSrc = PhysPort sc sp SRC, flowDsts = [PhysPort dc dp DST]\<rparr>"
  have R': "addFlow sc sp dc dp pkt R = R\<lparr>flows := flows R @ [?f], nextAvailablePacketGroupId := snd gn\<rparr>"
    using None unfolding addFlow_def Let_def gn_def by (simp add: case_prod_unfold)
  have "-1 \<le> fst gn \<and> fst gn < snd gn \<and> nextAvailablePacketGroupId R \<le> snd gn"
    using assms unfolding gn_def flows_ok_def by (auto split: option.splits dest!: find_Some_props)
  moreover have new: "PhysPort sc sp SRC \<notin> flowSrc ` set (flows R)" using extendFlow_None [OF None] by force
  ultimately have "flows_ok (R\<lparr>flows := flows R @ [?f], nextAvailablePacketGroupId := snd gn\<rparr>)"
    using assms by (fastforce simp: flows_ok_def)
  moreover have "requests (R\<lparr>flows := flows R @ [?f], nextAvailablePacketGroupId := snd gn\<rparr>) =
    insert (PhysPort sc sp SRC, PhysPort dc dp DST) (requests R)" unfolding requests_def by auto
  moreover have "overlapping sc sp dc dp f \<longleftrightarrow> PhysPort dc dp DST \<in> set (flowDsts f)" if "f \<in> set (flows R)" for f
  proof -
    have "PhysPort (tileLoc d) (port d) DST = d" if "d \<in> set (flowDsts f)" for d
      using assms \<open>f \<in> set (flows R)\<close> that unfolding flows_ok_def by (metis PhysPort.collapse)
    then show ?thesis using extendFlow_None [OF None that] unfolding overlapping_def list_ex_iff by force
  qed
  then have "find (overlapping sc sp dc dp) (flows R) = find (\<lambda>f. PhysPort dc dp DST \<in> set (flowDsts f)) (flows R)"
    by (auto cong: find_cong)
  then have "(\<not> pkt \<longrightarrow> fst gn = -1) \<and> (pkt \<longrightarrow> (case find (\<lambda>f. PhysPort dc dp DST \<in> set (flowDsts f)) (flows R) of
      Some f \<Rightarrow> fst gn = flowGroupId f | None \<Rightarrow> fst gn \<notin> flowGroupId ` set (flows R) \<and> 0 \<le> fst gn))"
    using assms unfolding gn_def flows_ok_def by (auto split: option.splits)
  then have "\<exists>gid. flows (R\<lparr>flows := flows R @ [?f], nextAvailablePacketGroupId := snd gn\<rparr>) =
        flows R @ [\<lparr>flowGroupId = gid, flowSrc = PhysPort sc sp SRC, flowDsts = [PhysPort dc dp DST]\<rparr>]
      \<and> (\<not> pkt \<longrightarrow> gid = -1) \<and> (pkt \<longrightarrow> (case find (\<lambda>f. PhysPort dc dp DST \<in> set (flowDsts f)) (flows R) of
           Some f \<Rightarrow> gid = flowGroupId f | None \<Rightarrow> gid \<notin> flowGroupId ` set (flows R) \<and> 0 \<le> gid))"
    by (intro exI [of _ "fst gn"]) simp
  ultimately show ?thesis unfolding R' by blast
qed

text \<open>
  C23. \<open>addFlow\<close> records exactly the request it is given and keeps the invariant of the flows. A flow
  from a new source is a circuit flow with the group -1, or a packet flow with the group of the first
  flow that has the destination already, or else with a group no other flow has.
\<close>

theorem add_flow_ok:
  assumes "flows_ok R"
  shows "flows_ok (addFlow sc sp dc dp pkt R)
    \<and> requests (addFlow sc sp dc dp pkt R) = insert (PhysPort sc sp SRC, PhysPort dc dp DST) (requests R)
    \<and> (PhysPort sc sp SRC \<notin> flowSrc ` set (flows R) \<longrightarrow>
         (\<exists>gid. flows (addFlow sc sp dc dp pkt R) =
              flows R @ [\<lparr>flowGroupId = gid, flowSrc = PhysPort sc sp SRC, flowDsts = [PhysPort dc dp DST]\<rparr>]
            \<and> (\<not> pkt \<longrightarrow> gid = -1)
            \<and> (pkt \<longrightarrow> (case find (\<lambda>f. PhysPort dc dp DST \<in> set (flowDsts f)) (flows R) of
                 Some f \<Rightarrow> gid = flowGroupId f | None \<Rightarrow> gid \<notin> flowGroupId ` set (flows R) \<and> 0 \<le> gid))))"
  using add_flow_spec [OF assms] .

theorem add_flow_ok_witness:
  "requests (addFlow (TileLoc 0 0) (Port DMA 0) (TileLoc 0 2) (Port DMA 1) True (mk_Router 3 5 :: nat Router)) =
     {(PhysPort (TileLoc 0 0) (Port DMA 0) SRC, PhysPort (TileLoc 0 2) (Port DMA 1) DST)}"
proof -
  have "flows_ok (mk_Router 3 5 :: nat Router)" by (simp add: flows_ok_def mk_Router_def)
  from add_flow_ok [OF this, of "TileLoc 0 0" "Port DMA 0" "TileLoc 0 2" "Port DMA 1" True] show ?thesis
    by (simp add: requests_def mk_Router_def)
qed

text \<open>
  C24. \<open>initialize\<close> builds the graph of the device: an entry for every tile and for every pair of
  neighbouring tiles; inside a tile two ports are connected when the device model allows it (or
  when they are ports of the shim multiplexer), and between tiles port \<open>i\<close> of a side leads to port
  \<open>i\<close> of the opposite side.
\<close>

theorem initialize_graph:
  assumes "initialize W m (mk_Router mc mr) = Inr R"
  shows "graph_ok (graph R)
    \<and> (\<forall>t t'. map_of (graph R) (t, t') \<noteq> None \<longleftrightarrow>
          in_device mc mr t \<and> in_device mc mr t' \<and> (t' = t \<or> (\<exists>s d. linked t t' s d)))
    \<and> (\<forall>t sb. map_of (graph R) (t, t) = Some sb \<longrightarrow>
          (\<forall>i < length (srcPorts sb). \<forall>j < length (dstPorts sb).
             connectPorts m (col t) (row t) (srcPorts sb ! i) (dstPorts sb ! j) = Inr (connectivity sb i j)))
    \<and> (\<forall>t t' sb. map_of (graph R) (t, t') = Some sb \<and> t' \<noteq> t \<longrightarrow>
          (\<exists>s d n. linked t t' s d \<and> srcPorts sb = portsOfBundle s n \<and> dstPorts sb = portsOfBundle d n)
          \<and> (\<forall>i j. connectivity sb i j = AVAILABLE \<longleftrightarrow> i = j))"
proof -
  have b: "built m mc mr (tilesOf mc mr) (graph R)" using initialize_built [OF assms] by blast
  have 1: "map_of (graph R) (t, t') \<noteq> None \<longleftrightarrow>
      in_device mc mr t \<and> (t' = t \<or> (\<exists>s d. linked t t' s d) \<and> in_device mc mr t')" for t t'
    using b unfolding built_def tilesOf_iff by blast
  have 2: "sb_shape t t' sb \<and> (t' = t \<longrightarrow> tile_switch m t sb) \<and> (t' \<noteq> t \<longrightarrow> (\<forall>i j. connectivity sb i j = AVAILABLE \<longleftrightarrow> i = j))"
    if "map_of (graph R) (t, t') = Some sb" for t t' sb using b that unfolding built_def by blast
  have "map_of (graph R) (t, t') \<noteq> None \<longleftrightarrow>
      in_device mc mr t \<and> in_device mc mr t' \<and> (t' = t \<or> (\<exists>s d. linked t t' s d))" for t t' using 1 [of t t'] by blast
  moreover have "\<forall>i < length (srcPorts sb). \<forall>j < length (dstPorts sb).
      connectPorts m (col t) (row t) (srcPorts sb ! i) (dstPorts sb ! j) = Inr (connectivity sb i j)"
    if "map_of (graph R) (t, t) = Some sb" for t sb using 2 [OF that] unfolding tile_switch_def by blast
  moreover have "(\<exists>s d n. linked t t' s d \<and> srcPorts sb = portsOfBundle s n \<and> dstPorts sb = portsOfBundle d n)
      \<and> (\<forall>i j. connectivity sb i j = AVAILABLE \<longleftrightarrow> i = j)" if "map_of (graph R) (t, t') = Some sb \<and> t' \<noteq> t" for t t' sb
    using 2 [of t t' sb] that unfolding sb_shape_def by blast
  ultimately show ?thesis using initialize_graph_ok [OF assms] by blast
qed


lemma res_map_total: "(\<And>x. x \<in> set xs \<Longrightarrow> \<exists>y. f x = Inr y) \<Longrightarrow> \<exists>ys. res_map f xs = Inr ys"
  by (induction xs) fastforce+

lemma res_fold_total: "(\<And>x s. x \<in> set xs \<Longrightarrow> \<exists>s'. f x s = Inr s') \<Longrightarrow> \<exists>s'. res_fold f xs s = Inr s'"
  by (induction xs arbitrary: s) fastforce+

lemma initialize_total:
  assumes "\<And>c r b. \<exists>n. getNumSourceSwitchBoxConnections m c r b = Inr n"
    and "\<And>c r b. \<exists>n. getNumDestSwitchBoxConnections m c r b = Inr n"
    and "\<And>c r b i b' j. c \<le> word_of_int mc \<Longrightarrow> r \<le> word_of_int mr \<Longrightarrow> \<exists>l. isLegalTileConnection m c r b i b' j = Inr l"
    and "mc < 256" "mr < 256"
  shows "\<exists>R. initialize W m (mk_Router mc mr) = Inr R"
proof -
  have ports: "\<exists>p. collectPorts m c r bs = Inr p" for c r bs
  proof (induction bs)
    case (Cons b bs)
    have "\<exists>n. numSourceChannels m c r b = Inr n" "\<exists>n. numDestChannels m c r b = Inr n"
      using assms(1,2) unfolding numSourceChannels_def numDestChannels_def by fastforce+
    with Cons show ?case by fastforce
  qed simp
  have "\<exists>x. intraconnect W m c r = Inr x" if "(c, r) \<in> set (tilesOf mc mr)" for c r
  proof -
    have "(word_of_int c :: u8) \<le> word_of_int mc" "(word_of_int r :: u8) \<le> word_of_int mr"
      using that assms(4,5) by (auto simp: tilesOf_def word_le_def uint_word_of_int take_bit_int_eq_self)
    from assms(3) [OF this] have "\<exists>x. connectPorts m c r p q = Inr x" for p q
      unfolding connectPorts_def by fastforce
    then have "\<exists>cells. res_map (\<lambda>pIn. res_map (connectPorts m c r pIn) dsts) srcs = Inr cells" for srcs dsts
      by (intro res_map_total) blast
    with ports [of c r bundles] show ?thesis unfolding intraconnect_def by fastforce
  qed
  then have "\<exists>s'. initTile W m x s = Inr s'" if "x \<in> set (tilesOf mc mr)" for x s
    using that by (cases x) (fastforce simp: initTile_def)
  then show ?thesis using res_fold_total [of "tilesOf mc mr" "initTile W m"]
    by (simp add: initialize_def mk_Router_def)
qed

text \<open>Weights without rounding, with 1 for each coefficient but the last, for the closed examples.\<close>

definition sampleWeights :: "enat weight_ops" where
  "sampleWeights = \<lparr>w_zero = 0, w_INF = \<infinity>, w_add = (+), w_mul = (*), w_of_int = (\<lambda>n. enat (nat n)), OVER_CAPACITY_COEFF = 1,
     USED_CAPACITY_COEFF = 1, DEMAND_COEFF = 2, DEMAND_BASE = 1\<rparr>"

lemma initialize_sample: "\<exists>R. initialize sampleWeights (sampleModel npu1) (mk_Router 3 5) = Inr R"
proof (rule initialize_total)
  fix c r :: u8 and b i b' j
  assume "c \<le> word_of_int 3" "r \<le> word_of_int 5"
  then have "\<not> 5 \<le> c" "\<not> 6 \<le> r" by (auto simp: word_le_def)
  then show "\<exists>l. isLegalTileConnection (sampleModel npu1) c r b i b' j = Inr l"
    by (auto simp: isLegalTileConnection_def sample_defs getTileType_def Let_def)
qed (simp_all add: getNumSourceSwitchBoxConnections_def getNumDestSwitchBoxConnections_def npu_getNumSourceSwitchBoxConnections_def
  npu_getNumDestSwitchBoxConnections_def rows_def columns_def sample_defs)

theorem initialize_graph_witness:
  "\<exists>R. initialize sampleWeights (sampleModel npu1) (mk_Router 3 5) = Inr R \<and> graph_ok (graph R)
     \<and> map_of (graph R) (TileLoc 0 0, TileLoc 0 1) \<noteq> None \<and> map_of (graph R) (TileLoc 0 5, TileLoc 0 6) = None"
proof -
  obtain R where R: "initialize sampleWeights (sampleModel npu1) (mk_Router 3 5) = Inr R" using initialize_sample by blast
  have "linked (TileLoc 0 0) (TileLoc 0 1) NORTH SOUTH" by (simp add: linked_cases moved_def)
  with initialize_graph [OF R] have "graph_ok (graph R)" "map_of (graph R) (TileLoc 0 0, TileLoc 0 1) \<noteq> None"
    "map_of (graph R) (TileLoc 0 5, TileLoc 0 6) \<noteq> None \<Longrightarrow> in_device 3 5 (TileLoc 0 6)" by (auto simp: in_device_def)
  then have "map_of (graph R) (TileLoc 0 5, TileLoc 0 6) = None" by (force simp: in_device_def)
  with R \<open>graph_ok (graph R)\<close> \<open>map_of (graph R) (TileLoc 0 0, TileLoc 0 1) \<noteq> None\<close> show ?thesis by blast
qed

end
