(* ===== verification/Dary_Heap.thy ===== *)
theory Dary_Heap
  imports AIE_Prelude
begin

text \<open>
  \<open>d_ary_heap.h\<close>: the indirect d-ary heap that Dijkstra's algorithm of the router uses as its queue.
  The heap keeps the values in a vector and the position of every value in a map; the keys are in a
  map outside the heap, which is a function \<open>key\<close> here: the operations read the keys of values in the
  heap only, and these have an entry. Positions are natural numbers (\<open>size_t\<close>), \<open>None\<close> is \<open>size_type(-1)\<close>.
\<close>

section \<open>Model\<close>

record 'v dary_heap =
  data :: "'v list"
  index_in_heap :: "'v \<rightharpoonup> nat option"

definition empty_heap :: "'v dary_heap" where
  "empty_heap = \<lparr>data = [], index_in_heap = Map.empty\<rparr>"

definition parent :: "nat \<Rightarrow> nat \<Rightarrow> nat" where
  "parent Arity index = (index - 1) div Arity"

definition child :: "nat \<Rightarrow> nat \<Rightarrow> nat \<Rightarrow> nat" where
  "child Arity index child_idx = index * Arity + child_idx + 1"

text \<open>The loop that counts how many levels an element moves up.\<close>

function levels_up :: "nat \<Rightarrow> ('v \<Rightarrow> 'k :: linorder) \<Rightarrow> 'v list \<Rightarrow> 'k \<Rightarrow> nat \<Rightarrow> nat" where
  "levels_up Arity key d moved_dist index =
     (if index = 0 then 0
      else if moved_dist < key (d ! parent Arity index)
           then Suc (levels_up Arity key d moved_dist (parent Arity index)) else 0)"
  by pat_completeness auto
termination
  by (relation "measure (\<lambda>(_, _, _, _, index). index)") (auto simp: parent_def le_imp_less_Suc div_le_dividend
      intro: le_less_trans [OF div_le_dividend])

text \<open>The loop that moves the parents down, and puts the element into its place.\<close>

fun move_up :: "nat \<Rightarrow> nat \<Rightarrow> nat \<Rightarrow> 'v \<Rightarrow> 'v dary_heap \<Rightarrow> 'v dary_heap" where
  "move_up Arity 0 index moved h =
     h\<lparr>data := (data h)[index := moved], index_in_heap := (index_in_heap h)(moved \<mapsto> Some index)\<rparr>"
| "move_up Arity (Suc n) index moved h =
     (let parent_index = parent Arity index; parent_value = data h ! parent_index
      in move_up Arity n parent_index moved
           (h\<lparr>index_in_heap := (index_in_heap h)(parent_value \<mapsto> Some index), data := (data h)[index := parent_value]\<rparr>))"

definition preserve_heap_property_up :: "nat \<Rightarrow> ('v \<Rightarrow> 'k :: linorder) \<Rightarrow> nat \<Rightarrow> 'v dary_heap \<Rightarrow> 'v dary_heap" where
  "preserve_heap_property_up Arity key index h =
     (if index = 0 then h
      else move_up Arity (levels_up Arity key (data h) (key (data h ! index)) index) index (data h ! index) h)"

definition swap_heap_elements :: "nat \<Rightarrow> nat \<Rightarrow> 'v dary_heap \<Rightarrow> 'v dary_heap" where
  "swap_heap_elements index_a index_b h =
     (let value_a = data h ! index_a; value_b = data h ! index_b
      in h\<lparr>data := (data h)[index_a := value_b, index_b := value_a],
           index_in_heap := (index_in_heap h)(value_a \<mapsto> Some index_b, value_b \<mapsto> Some index_a)\<rparr>)"

text \<open>
  The position of the smallest of the children \<open>first, ..., first + n - 1\<close>, the first one of equals;
  both branches of the source run this loop, over \<open>Arity\<close> or over the children there are.
\<close>

fun smallest_child :: "('v \<Rightarrow> 'k :: linorder) \<Rightarrow> 'v list \<Rightarrow> nat \<Rightarrow> nat \<Rightarrow> nat" where
  "smallest_child key d first 0 = first"
| "smallest_child key d first (Suc n) =
     (let s = smallest_child key d first n
      in if n > 0 \<and> key (d ! (first + n)) < key (d ! s) then first + n else s)"

function down :: "nat \<Rightarrow> ('v \<Rightarrow> 'k :: linorder) \<Rightarrow> 'k \<Rightarrow> nat \<Rightarrow> 'v dary_heap \<Rightarrow> 'v dary_heap" where
  "down Arity key moved_dist index h =
     (let heap_size = length (data h); first_child_index = child Arity index 0
      in if first_child_index \<ge> heap_size then h
         else
           (let n = (if first_child_index + Arity \<le> heap_size then Arity else heap_size - first_child_index);
                s = smallest_child key (data h) first_child_index n
            in if Arity \<noteq> 0 \<and> key (data h ! s) < moved_dist
               then down Arity key moved_dist s (swap_heap_elements s index h)
               else h))"
  by pat_completeness auto

lemma smallest_child_range: "first \<le> smallest_child key d first n \<and> (0 < n \<longrightarrow> smallest_child key d first n < first + n)"
proof (induction n)
  case (Suc n)
  then show ?case by (cases n) (auto simp: Let_def)
qed simp

termination down
proof (relation "measure (\<lambda>(_, _, _, index, h). length (data h) - index)", goal_cases)
  case (2 Arity key moved_dist index h heap_size first n s)
  then have "first < heap_size" "0 < n" "first + n \<le> heap_size" by (auto simp: child_def)
  moreover have "first \<le> s \<and> s < first + n" using smallest_child_range [of first key "data h" n] 2 \<open>0 < n\<close> by simp
  moreover have "index < first" using 2 by (cases Arity) (simp_all add: child_def)
  ultimately have "length (data h) - s < length (data h) - index" using 2(1) by (intro diff_less_mono2) auto
  then show ?case by (simp add: swap_heap_elements_def Let_def)
qed simp

definition preserve_heap_property_down :: "nat \<Rightarrow> ('v \<Rightarrow> 'k :: linorder) \<Rightarrow> 'v dary_heap \<Rightarrow> 'v dary_heap" where
  "preserve_heap_property_down Arity key h =
     (if data h = [] then h else down Arity key (key (data h ! 0)) 0 h)"

definition heap_size :: "'v dary_heap \<Rightarrow> nat" where
  "heap_size h = length (data h)"

definition heap_empty :: "'v dary_heap \<Rightarrow> bool" where
  "heap_empty h \<longleftrightarrow> data h = []"

definition push :: "nat \<Rightarrow> ('v \<Rightarrow> 'k :: linorder) \<Rightarrow> 'v \<Rightarrow> 'v dary_heap \<Rightarrow> 'v dary_heap" where
  "push Arity key v h =
     (let index = length (data h)
      in preserve_heap_property_up Arity key index
           (h\<lparr>data := data h @ [v], index_in_heap := (index_in_heap h)(v \<mapsto> Some index)\<rparr>))"

text \<open>Reading or removing the top of an empty heap is out of bounds.\<close>

definition top :: "'v dary_heap \<Rightarrow> 'v result" where
  "top h = (case data h of [] \<Rightarrow> Inl OutOfBounds | v # _ \<Rightarrow> Inr v)"

definition pop :: "nat \<Rightarrow> ('v \<Rightarrow> 'k :: linorder) \<Rightarrow> 'v dary_heap \<Rightarrow> 'v dary_heap result" where
  "pop Arity key h =
     (case data h of
        [] \<Rightarrow> Inl OutOfBounds
      | v # vs \<Rightarrow>
          (let h1 = h\<lparr>index_in_heap := (index_in_heap h)(v \<mapsto> None)\<rparr>
           in if vs \<noteq> [] then
                (let b = last vs
                 in Inr (preserve_heap_property_down Arity key
                      (h1\<lparr>data := butlast (b # vs), index_in_heap := (index_in_heap h1)(b \<mapsto> Some 0)\<rparr>)))
              else Inr (h1\<lparr>data := []\<rparr>)))"

text \<open>\<open>get(index_in_heap, v)\<close> throws for a value that never was in the heap.\<close>

definition update :: "nat \<Rightarrow> ('v \<Rightarrow> 'k :: linorder) \<Rightarrow> 'v \<Rightarrow> 'v dary_heap \<Rightarrow> 'v dary_heap result" where
  "update Arity key v h =
     (case index_in_heap h v of
        Some (Some index) \<Rightarrow> Inr (preserve_heap_property_up Arity key index h)
      | _ \<Rightarrow> Inl OutOfBounds)"

definition heap_contains :: "'v \<Rightarrow> 'v dary_heap \<Rightarrow> bool result" where
  "heap_contains v h = res_bind (res_of_option OutOfBounds (index_in_heap h v)) (\<lambda>i. Inr (i \<noteq> None))"

definition push_or_update :: "nat \<Rightarrow> ('v \<Rightarrow> 'k :: linorder) \<Rightarrow> 'v \<Rightarrow> 'v dary_heap \<Rightarrow> 'v dary_heap result" where
  "push_or_update Arity key v h =
     (case index_in_heap h v of
        None \<Rightarrow> Inl OutOfBounds
      | Some None \<Rightarrow> Inr (push Arity key v h)
      | Some (Some index) \<Rightarrow> Inr (preserve_heap_property_up Arity key index h))"

declare levels_up.simps [simp del] down.simps [simp del]

section \<open>Positions\<close>

lemma parent_less [heap_simps]: "0 < i \<Longrightarrow> parent A i < i"
  by (simp add: parent_def le_less_trans [OF div_le_dividend])

lemma parent_child:
  assumes "0 < A" and "0 < j"
  shows "parent A j = i \<longleftrightarrow> child A i 0 \<le> j \<and> j < child A i 0 + A"
proof -
  obtain k where k: "j = Suc k" using assms(2) gr0_conv_Suc by auto
  have "k div A = i \<longleftrightarrow> i * A \<le> k \<and> k < i * A + A"
  proof
    assume "k div A = i"
    then have "k = i * A + k mod A" using div_mult_mod_eq [of k A] by simp
    then show "i * A \<le> k \<and> k < i * A + A" using assms(1) mod_less_divisor [of A k] by linarith
  qed (auto intro: div_nat_eqI simp: mult.commute)
  with k show ?thesis by (auto simp: parent_def child_def)
qed

definition is_heap :: "nat \<Rightarrow> ('v \<Rightarrow> 'k :: linorder) \<Rightarrow> 'v list \<Rightarrow> bool" where
  "is_heap A key d \<longleftrightarrow> (\<forall>j. 0 < j \<and> j < length d \<longrightarrow> key (d ! parent A j) \<le> key (d ! j))"

lemma heap_root_min:
  assumes "is_heap A key d" and "i < length d"
  shows "key (d ! 0) \<le> key (d ! i)"
  using assms(2)
proof (induction i rule: less_induct)
  case (less i)
  show ?case
  proof (cases "i = 0")
    case False
    then have "parent A i < i" by (simp add: parent_less)
    with less have "key (d ! 0) \<le> key (d ! parent A i)" by simp
    also have "\<dots> \<le> key (d ! i)" using assms(1) less.prems False by (simp add: is_heap_def)
    finally show ?thesis .
  qed simp
qed

text \<open>The positions the heap has for its values.\<close>

definition index_ok :: "'v dary_heap \<Rightarrow> bool" where
  "index_ok h \<longleftrightarrow> (\<forall>i < length (data h). index_in_heap h (data h ! i) = Some (Some i))"

section \<open>Moving up\<close>

text \<open>A heap with a hole at \<open>i\<close> that the value \<open>m\<close> is to fill.\<close>

definition hole_ok :: "nat \<Rightarrow> ('v \<Rightarrow> 'k :: linorder) \<Rightarrow> 'v list \<Rightarrow> nat \<Rightarrow> 'v \<Rightarrow> bool" where
  "hole_ok A key d i m \<longleftrightarrow> i < length d
     \<and> (\<forall>j. 0 < j \<and> j < length d \<and> j \<noteq> i \<and> parent A j \<noteq> i \<longrightarrow> key (d ! parent A j) \<le> key (d ! j))
     \<and> (\<forall>j. 0 < j \<and> j < length d \<and> parent A j = i \<longrightarrow> key m \<le> key (d ! j) \<and> (0 < i \<longrightarrow> key (d ! parent A i) \<le> key (d ! j)))"

lemma hole_step:
  assumes "hole_ok A key d i m" and "0 < i" and "key m < key (d ! parent A i)"
  shows "hole_ok A key (d[i := d ! parent A i]) (parent A i) m"
proof -
  let ?p = "parent A i" and ?d = "d[i := d ! parent A i]"
  have p: "?p < i" "i < length d" using assms(1,2) by (simp_all add: parent_less hole_ok_def)
  have rest: "key (d ! parent A j) \<le> key (d ! j)" if "0 < j" "j < length d" "j \<noteq> i" "parent A j \<noteq> i" for j
    using assms(1) that by (simp add: hole_ok_def)
  have kids: "key (d ! ?p) \<le> key (d ! j)" if "0 < j" "j < length d" "parent A j = i" for j
    using assms(1,2) that by (simp add: hole_ok_def)
  have a: "key (?d ! parent A j) \<le> key (?d ! j)" if "0 < j" "j < length d" "j \<noteq> ?p" "parent A j \<noteq> ?p" for j
  proof -
    have "j \<noteq> i" using that by auto
    then show ?thesis using that rest [of j] kids [of j] p by (cases "parent A j = i") (auto simp: nth_list_update)
  qed
  have b: "key m \<le> key (?d ! j) \<and> (0 < ?p \<longrightarrow> key (?d ! parent A ?p) \<le> key (?d ! j))"
    if j: "0 < j" "j < length d" "parent A j = ?p" for j
  proof -
    have up: "key (d ! parent A ?p) \<le> key (d ! ?p)" if "0 < ?p"
      using rest [of ?p] that p parent_less [of ?p A] by auto
    have side: "key (d ! ?p) \<le> key (d ! j)" if "j \<noteq> i" using rest [of j] j that p by simp
    have "parent A ?p \<noteq> i" if "0 < ?p" using parent_less [OF that, of A] p by simp
    then show ?thesis
      using assms(3) up side p by (cases "j = i") (auto simp: nth_list_update intro: less_imp_le order_trans less_le_trans)
  qed
  show ?thesis unfolding hole_ok_def using a b p by simp
qed

lemma hole_fill:
  assumes "hole_ok A key d i m" and "i = 0 \<or> \<not> key m < key (d ! parent A i)"
  shows "is_heap A key (d[i := m])"
  unfolding is_heap_def
proof (intro allI impI)
  fix j assume j: "0 < j \<and> j < length (d[i := m])"
  then show "key (d[i := m] ! parent A j) \<le> key (d[i := m] ! j)"
    using assms parent_less [of j A] by (cases "j = i"; cases "parent A j = i") (auto simp: hole_ok_def nth_list_update)
qed

lemma mset_hole_step:
  assumes "i < length d" and "p < length d" and "i \<noteq> p"
  shows "mset ((d[i := d ! p])[p := m]) = mset (d[i := m])"
proof -
  have "mset ((d[i := m])[i := d[i := m] ! p, p := d[i := m] ! i]) = mset (d[i := m])"
    using assms by (intro mset_swap) simp_all
  with assms show ?thesis by simp
qed

lemma levels_up_below: "j < i \<Longrightarrow> levels_up A key (xs[i := y]) k j = levels_up A key xs k j"
proof (induction j rule: less_induct)
  case (less j)
  show ?case
  proof (cases "j = 0")
    case False
    then have p: "parent A j < j" by (simp add: parent_less)
    with less show ?thesis by (subst (1 2) levels_up.simps) simp
  qed (simp add: levels_up.simps)
qed

lemma nth_distinct_hole:
  assumes "distinct (d[i := m])" and "i < length d" and "j < length d" and "j \<noteq> i"
  shows "d ! j \<noteq> m" and "k < length d \<Longrightarrow> k \<noteq> i \<Longrightarrow> k \<noteq> j \<Longrightarrow> d ! j \<noteq> d ! k"
proof -
  show "d ! j \<noteq> m" using nth_eq_iff_index_eq [OF assms(1), of j i] assms(2-4) by simp
  show "d ! j \<noteq> d ! k" if "k < length d" "k \<noteq> i" "k \<noteq> j"
    using nth_eq_iff_index_eq [OF assms(1), of j k] assms(3,4) that by simp
qed

text \<open>The positions are right but for the hole.\<close>

definition index_hole :: "'v dary_heap \<Rightarrow> nat \<Rightarrow> 'v \<Rightarrow> bool" where
  "index_hole h i m \<longleftrightarrow> distinct ((data h)[i := m])
     \<and> (\<forall>j < length (data h). j \<noteq> i \<longrightarrow> index_in_heap h (data h ! j) = Some (Some j))"

abbreviation shift_down :: "nat \<Rightarrow> nat \<Rightarrow> 'v dary_heap \<Rightarrow> 'v dary_heap" where
  "shift_down A i h \<equiv> h\<lparr>index_in_heap := (index_in_heap h)(data h ! parent A i \<mapsto> Some i),
     data := (data h)[i := data h ! parent A i]\<rparr>"

lemma index_hole_step:
  assumes "index_hole h i m" and "0 < i" and "i < length (data h)"
  shows "index_hole (shift_down A i h) (parent A i) m"
proof -
  let ?p = "parent A i" and ?v = "data h ! parent A i"
  have p: "?p < i" using assms(2) by (simp add: parent_less)
  have d: "distinct ((data h)[i := m])" using assms(1) by (simp add: index_hole_def)
  have "distinct ((data h)[i := ?v, ?p := m])"
    using mset_eq_imp_distinct_iff [OF mset_hole_step [of i "data h" ?p m]] d assms(3) p by simp
  moreover have "data h ! j \<noteq> ?v" if "j < length (data h)" "j \<noteq> i" "j \<noteq> ?p" for j
    using nth_distinct_hole(2) [OF d assms(3) that(1,2), of ?p] that(3) p assms(3) by simp
  ultimately show ?thesis using assms by (auto simp: index_hole_def nth_list_update)
qed

lemma move_up_ok:
  assumes "hole_ok A key (data h) i m" and "n = levels_up A key (data h) (key m) i"
  shows "is_heap A key (data (move_up A n i m h)) \<and> mset (data (move_up A n i m h)) = mset ((data h)[i := m])
    \<and> (index_hole h i m \<longrightarrow> index_ok (move_up A n i m h))"
  using assms
proof (induction n arbitrary: i h)
  case 0
  then have "i = 0 \<or> \<not> key m < key (data h ! parent A i)" by (subst (asm) levels_up.simps) (auto split: if_splits)
  moreover have "index_ok (move_up A 0 i m h)" if "index_hole h i m"
    using that nth_distinct_hole(1) [of "data h" i m] 0(1) by (auto simp: index_ok_def index_hole_def hole_ok_def nth_list_update)
  ultimately show ?case using 0 hole_fill by simp
next
  case (Suc n)
  from Suc.prems(2) levels_up.simps [of A key "data h" "key m" i]
  have s: "0 < i" "key m < key (data h ! parent A i)" "n = levels_up A key (data h) (key m) (parent A i)"
    by (simp_all split: if_splits)
  have p: "parent A i < i" "i < length (data h)" using s(1) Suc.prems(1) by (simp_all add: parent_less hole_ok_def)
  let ?h = "shift_down A i h"
  have "hole_ok A key (data ?h) (parent A i) m" using hole_step [OF Suc.prems(1) s(1,2)] by simp
  moreover have "n = levels_up A key (data ?h) (key m) (parent A i)" using s(3) by (simp add: levels_up_below [OF p(1)])
  ultimately have IH: "is_heap A key (data (move_up A n (parent A i) m ?h))"
      "mset (data (move_up A n (parent A i) m ?h)) = mset ((data ?h)[parent A i := m])"
      "index_hole ?h (parent A i) m \<longrightarrow> index_ok (move_up A n (parent A i) m ?h)" using Suc.IH by blast+
  moreover have "mset ((data ?h)[parent A i := m]) = mset ((data h)[i := m])"
    using mset_hole_step [of i "data h" "parent A i" m] p by simp
  ultimately show ?case using index_hole_step [OF _ s(1) p(2)] by (simp add: Let_def)
qed


lemma heap_up_ok:
  assumes "hole_ok A key (data h) i (data h ! i)"
  shows "is_heap A key (data (preserve_heap_property_up A key i h))
    \<and> mset (data (preserve_heap_property_up A key i h)) = mset (data h)
    \<and> (distinct (data h) \<and> index_ok h \<longrightarrow> index_ok (preserve_heap_property_up A key i h))"
proof (cases "i = 0")
  case True
  then show ?thesis using hole_fill [OF assms] by (simp add: preserve_heap_property_up_def)
next
  case False
  have "index_hole h i (data h ! i)" if "distinct (data h)" "index_ok h"
    using that by (simp add: index_hole_def index_ok_def)
  with move_up_ok [OF assms refl] False show ?thesis by (simp add: preserve_heap_property_up_def)
qed

lemma push_ok:
  assumes "0 < A" and "is_heap A key (data h)"
  shows "is_heap A key (data (push A key v h)) \<and> mset (data (push A key v h)) = add_mset v (mset (data h))
    \<and> (distinct (data h) \<and> v \<notin> set (data h) \<and> index_ok h \<longrightarrow> index_ok (push A key v h))"
proof -
  let ?h = "h\<lparr>data := data h @ [v], index_in_heap := (index_in_heap h)(v \<mapsto> Some (length (data h)))\<rparr>"
  let ?i = "length (data h)"
  have p: "parent A j < ?i" if "0 < j" "j < Suc ?i" for j using parent_less [OF that(1), of A] that(2) by simp
  have "hole_ok A key (data ?h) ?i (data ?h ! ?i)"
    unfolding hole_ok_def
  proof (intro conjI allI impI)
    fix j assume j: "0 < j \<and> j < length (data ?h) \<and> j \<noteq> ?i \<and> parent A j \<noteq> ?i"
    then show "key (data ?h ! parent A j) \<le> key (data ?h ! j)" using assms(2) p [of j] by (simp add: is_heap_def nth_append)
  next
    fix j assume j: "0 < j \<and> j < length (data ?h) \<and> parent A j = ?i"
    then have False using p [of j] by simp
    then show "key (data ?h ! ?i) \<le> key (data ?h ! j)" "key (data ?h ! parent A ?i) \<le> key (data ?h ! j)" by blast+
  qed simp
  note up = heap_up_ok [OF this]
  have "index_ok ?h" if "v \<notin> set (data h)" "index_ok h"
    using that by (auto simp: index_ok_def nth_append less_Suc_eq dest: nth_mem)
  with up show ?thesis by (simp add: push_def Let_def)
qed

text \<open>Decrease-key: the key of one value got smaller, and \<open>update\<close> repairs the heap.\<close>

lemma update_ok:
  assumes "is_heap A key (data h)" and "distinct (data h)" and "index_ok h" and "v \<in> set (data h)"
    and "\<And>w. w \<noteq> v \<Longrightarrow> key' w = key w" and "key' v \<le> key v"
  shows "\<exists>h'. update A key' v h = Inr h' \<and> is_heap A key' (data h') \<and> mset (data h') = mset (data h) \<and> index_ok h'"
proof -
  obtain i where i: "i < length (data h)" "data h ! i = v" using assms(4) by (auto simp: in_set_conv_nth)
  have others: "key' (data h ! j) = key (data h ! j)" if "j < length (data h)" "j \<noteq> i" for j
    using assms(2,5) that i by (metis nth_eq_iff_index_eq)
  have "hole_ok A key' (data h) i (data h ! i)"
    unfolding hole_ok_def
  proof (intro conjI allI impI)
    fix j assume "0 < j \<and> j < length (data h) \<and> j \<noteq> i \<and> parent A j \<noteq> i"
    then show "key' (data h ! parent A j) \<le> key' (data h ! j)"
      using assms(1) others [of j] others [of "parent A j"] parent_less [of j A] by (simp add: is_heap_def)
  next
    fix j assume j: "0 < j \<and> j < length (data h) \<and> parent A j = i"
    then have "j \<noteq> i" using parent_less [of j A] by auto
    with j assms(1) others have le: "key v \<le> key' (data h ! j)" using i by (auto simp: is_heap_def)
    then show "key' (data h ! i) \<le> key' (data h ! j)" using assms(6) i by simp
    assume "0 < i"
    then have "key (data h ! parent A i) \<le> key v" using assms(1) i by (auto simp: is_heap_def)
    with le others [of "parent A i"] parent_less [OF \<open>0 < i\<close>, of A] i(1)
    show "key' (data h ! parent A i) \<le> key' (data h ! j)" by simp
  qed (use i in simp)
  from heap_up_ok [OF this] assms(2,3) i show ?thesis by (auto simp: update_def index_ok_def)
qed

section \<open>Moving down\<close>

definition down_ok :: "nat \<Rightarrow> ('v \<Rightarrow> 'k :: linorder) \<Rightarrow> 'v list \<Rightarrow> nat \<Rightarrow> bool" where
  "down_ok A key d i \<longleftrightarrow> i < length d
     \<and> (\<forall>j. 0 < j \<and> j < length d \<and> parent A j \<noteq> i \<longrightarrow> key (d ! parent A j) \<le> key (d ! j))
     \<and> (\<forall>j. 0 < j \<and> j < length d \<and> parent A j = i \<and> 0 < i \<longrightarrow> key (d ! parent A i) \<le> key (d ! j))"

lemma smallest_child_min: "i < n \<Longrightarrow> key (d ! smallest_child key d f n) \<le> key (d ! (f + i))"
proof (induction n)
  case (Suc n)
  show ?case
  proof (cases "i = n")
    case True
    show ?thesis
    proof (cases "n = 0")
      case False
      with True show ?thesis by (simp add: Let_def not_less)
    qed (simp add: True)
  next
    case False
    with Suc have "key (d ! smallest_child key d f n) \<le> key (d ! (f + i))" by simp
    then show ?thesis by (auto simp: Let_def)
  qed
qed simp

lemma down_step:
  assumes "0 < A" and "down_ok A key d i" and "s < length d" and "0 < s" and "parent A s = i"
    and "\<And>j. 0 < j \<Longrightarrow> j < length d \<Longrightarrow> parent A j = i \<Longrightarrow> key (d ! s) \<le> key (d ! j)"
    and "key (d ! s) < key (d ! i)"
  shows "down_ok A key (d[s := d ! i, i := d ! s]) s"
proof -
  let ?d = "d[s := d ! i, i := d ! s]"
  have si: "i < s" "i < length d" using parent_less [OF assms(4), of A] assms(2,5) by (auto simp: down_ok_def)
  have rest: "key (d ! parent A j) \<le> key (d ! j)" if "0 < j" "j < length d" "parent A j \<noteq> i" for j
    using assms(2) that by (simp add: down_ok_def)
  have nth: "?d ! k = (if k = i then d ! s else if k = s then d ! i else d ! k)" if "k < length d" for k
    using that si assms(3) by (auto simp: nth_list_update)
  have "key (?d ! parent A j) \<le> key (?d ! j)" if j: "0 < j" "j < length d" "parent A j \<noteq> s" for j
  proof -
    have pj: "parent A j < length d" using parent_less [OF j(1), of A] j(2) by simp
    consider "j = s" | "j \<noteq> s" "parent A j = i" | "j = i" | "j \<noteq> s" "j \<noteq> i" "parent A j \<noteq> i" by blast
    then show ?thesis
    proof cases
      case 1
      then show ?thesis using assms(5,7) nth [of s] nth [of i] si assms(3) by simp
    next
      case 2
      moreover from this have "j \<noteq> i" using parent_less [OF j(1), of A] by auto
      ultimately show ?thesis using assms(6) [OF j(1,2)] nth [of j] nth [of i] j si by simp
    next
      case 3
      then have "parent A i \<noteq> i" "parent A i \<noteq> s" using parent_less [of i A] j si by auto
      moreover have "key (d ! parent A i) \<le> key (d ! s)" using assms(2,3,4,5) 3 j(1) by (auto simp: down_ok_def)
      ultimately show ?thesis using 3 nth [of i] nth [of "parent A i"] pj si by simp
    next
      case 4
      then show ?thesis using rest [OF j(1,2)] nth [of j] nth [of "parent A j"] j pj by simp
    qed
  qed
  moreover have "key (?d ! parent A s) \<le> key (?d ! j)" if j: "0 < j" "j < length d" "parent A j = s" for j
  proof -
    have "j \<noteq> s" "j \<noteq> i" using parent_less [OF j(1), of A] j(3) si by auto
    then show ?thesis using rest [OF j(1,2)] nth [of j] nth [of i] assms(5) j si by simp
  qed
  ultimately show ?thesis using assms(3) by (simp add: down_ok_def)
qed


lemma children_at:
  assumes "0 < A" and "first = child A i 0" and "first < length d"
    and "n = (if first + A \<le> length d then A else length d - first)"
  shows "0 < n" and "0 < j \<Longrightarrow> j < length d \<Longrightarrow> parent A j = i \<longleftrightarrow> (\<exists>k < n. j = first + k)"
proof -
  show "0 < n" using assms by auto
  show "parent A j = i \<longleftrightarrow> (\<exists>k < n. j = first + k)" if "0 < j" "j < length d"
  proof -
    have "parent A j = i \<longleftrightarrow> first \<le> j \<and> j < first + A" using parent_child [OF assms(1) that(1)] assms(2) by simp
    also have "\<dots> \<longleftrightarrow> (\<exists>k < n. j = first + k)"
    proof
      assume "first \<le> j \<and> j < first + A"
      then have "j - first < n \<and> j = first + (j - first)" using that(2) assms(4) by auto
      then show "\<exists>k < n. j = first + k" by blast
    next
      assume "\<exists>k < n. j = first + k"
      then show "first \<le> j \<and> j < first + A" using assms(4) by (cases "first + A \<le> length d") auto
    qed
    finally show ?thesis .
  qed
qed

lemma swap_ok:
  assumes "a < length (data h)" and "b < length (data h)" and "a \<noteq> b"
  shows "mset (data (swap_heap_elements a b h)) = mset (data h)"
    and "distinct (data h) \<Longrightarrow> index_ok h \<Longrightarrow> index_ok (swap_heap_elements a b h)"
proof -
  have "data (swap_heap_elements a b h) = (data h)[a := data h ! b, b := data h ! a]" by (simp add: swap_heap_elements_def Let_def)
  then show "mset (data (swap_heap_elements a b h)) = mset (data h)" using assms by (simp add: mset_swap)
  show "index_ok (swap_heap_elements a b h)" if "distinct (data h)" "index_ok h"
    using that assms by (auto simp: index_ok_def swap_heap_elements_def Let_def nth_list_update nth_eq_iff_index_eq)
qed

lemma down_correct:
  assumes "0 < A" and "down_ok A key (data h) i" and "mk = key (data h ! i)"
  shows "is_heap A key (data (down A key mk i h)) \<and> mset (data (down A key mk i h)) = mset (data h)
    \<and> (distinct (data h) \<and> index_ok h \<longrightarrow> index_ok (down A key mk i h))"
  using assms(2,3)
proof (induction "length (data h) - i" arbitrary: i h rule: less_induct)
  case less
  define first where "first = child A i 0"
  define n where "n = (if first + A \<le> length (data h) then A else length (data h) - first)"
  define s where "s = smallest_child key (data h) first n"
  have step: "down A key mk i h = (if first \<ge> length (data h) then h
      else if key (data h ! s) < mk then down A key mk s (swap_heap_elements s i h) else h)"
    using assms(1) by (subst down.simps) (simp add: Let_def s_def n_def first_def)
  have rest: "key (data h ! parent A j) \<le> key (data h ! j)" if "0 < j" "j < length (data h)" "parent A j \<noteq> i" for j
    using less.prems(1) that by (simp add: down_ok_def)
  show ?case
  proof (cases "first \<ge> length (data h)")
    case True
    then have "parent A j \<noteq> i" if "0 < j" "j < length (data h)" for j
      using parent_child [OF assms(1) that(1), of i] that(2) by (simp add: first_def)
    with rest have "is_heap A key (data h)" by (simp add: is_heap_def)
    with step True show ?thesis by simp
  next
    case False
    then have f: "first < length (data h)" by simp
    note kids = children_at [OF assms(1) first_def f n_def]
    have min: "key (data h ! s) \<le> key (data h ! j)" if "0 < j" "j < length (data h)" "parent A j = i" for j
      using kids(2) [OF that(1,2)] that(3) smallest_child_min s_def by metis
    have s: "first \<le> s" "s < first + n" using smallest_child_range [of first key "data h" n] kids(1) by (simp_all add: s_def)
    have "i < first" using assms(1) by (cases A) (simp_all add: first_def child_def)
    then have s': "s < length (data h)" "0 < s" "i < s" using s f by (auto simp: n_def split: if_splits)
    have ps: "parent A s = i" using kids(2) [OF s'(2,1)] s by (metis add_diff_inverse_nat nat_add_left_cancel_less not_less)
    show ?thesis
    proof (cases "key (data h ! s) < mk")
      case True
      let ?h = "swap_heap_elements s i h"
      have d: "data ?h = (data h)[s := data h ! i, i := data h ! s]" by (simp add: swap_heap_elements_def Let_def)
      have i: "i < length (data h)" using s' by simp
      have "down_ok A key (data ?h) s"
        unfolding d by (rule down_step [OF assms(1) less.prems(1) s'(1,2) ps min]) (use True less.prems(2) in simp_all)
      moreover have "mk = key (data ?h ! s)" using less.prems(2) s'(1,3) d by simp
      moreover have "length (data ?h) - s < length (data h) - i" using s' d by simp
      ultimately have IH: "is_heap A key (data (down A key mk s ?h))" "mset (data (down A key mk s ?h)) = mset (data ?h)"
        "distinct (data ?h) \<and> index_ok ?h \<longrightarrow> index_ok (down A key mk s ?h)" using less.hyps by blast+
      note sw = swap_ok [OF s'(1) i less_imp_neq [OF s'(3), symmetric]]
      have "distinct (data ?h) = distinct (data h)" by (rule mset_eq_imp_distinct_iff [OF sw(1)])
      with IH sw step False True show ?thesis by auto
    next
      case ge: False
      have "is_heap A key (data h)"
        unfolding is_heap_def
      proof (intro allI impI)
        fix j assume j: "0 < j \<and> j < length (data h)"
        show "key (data h ! parent A j) \<le> key (data h ! j)"
          using rest [of j] min [of j] j ge less.prems(2) by (cases "parent A j = i") auto
      qed
      with step False ge show ?thesis by simp
    qed
  qed
qed

lemma pop_ok:
  assumes "0 < A" and "is_heap A key (data h)" and "data h = v # vs"
  shows "\<exists>h'. pop A key h = Inr h' \<and> is_heap A key (data h') \<and> mset (data h') = mset vs
    \<and> (distinct (data h) \<and> index_ok h \<longrightarrow> index_ok h')"
proof (cases "vs = []")
  case True
  then show ?thesis using assms(3) by (simp add: pop_def is_heap_def index_ok_def)
next
  case False
  let ?h = "h\<lparr>data := butlast (last vs # vs), index_in_heap := (index_in_heap h)(v \<mapsto> None, last vs \<mapsto> Some 0)\<rparr>"
  have run: "pop A key h = Inr (down A key (key (data ?h ! 0)) 0 ?h)"
    using False assms(3) by (simp add: pop_def Let_def preserve_heap_property_down_def)
  have len: "length (data ?h) = length vs" by simp
  have nth: "data ?h ! j = data h ! j" if "0 < j" "j < length vs" for j
    using that assms(3) False by (simp add: nth_Cons' nth_butlast)
  have 0: "data ?h ! 0 = last vs" using False by simp
  have "down_ok A key (data ?h) 0"
    unfolding down_ok_def len
  proof (intro conjI allI impI)
    fix j assume j: "0 < j \<and> j < length vs \<and> parent A j \<noteq> 0"
    then have "parent A j < length vs" using parent_less [of j A] by simp
    with j assms(2,3) nth [of j] nth [of "parent A j"] show "key (data ?h ! parent A j) \<le> key (data ?h ! j)"
      unfolding is_heap_def by (metis length_Cons less_SucI gr0I)
  qed (use False in auto)
  note dn = down_correct [OF assms(1) this refl]
  have "mset (data ?h) = add_mset (last vs) (mset (butlast vs))" using False by simp
  also have "\<dots> = mset (butlast vs @ [last vs])" by (simp del: append_butlast_last_id)
  also have "\<dots> = mset vs" unfolding append_butlast_last_id [OF False] ..
  finally have ms: "mset (data ?h) = mset vs" .
  have "index_ok ?h" if d: "distinct (data h)" "index_ok h"
    unfolding index_ok_def len
  proof (intro allI impI)
    fix j assume j: "j < length vs"
    show "index_in_heap ?h (data ?h ! j) = Some (Some j)"
    proof (cases "j = 0")
      case False
      have "data h ! j \<noteq> v" using d(1) assms(3) False j by (auto simp: nth_Cons' dest: nth_mem)
      moreover have "last vs = data h ! length vs" using assms(3) \<open>vs \<noteq> []\<close> by (simp add: last_conv_nth nth_Cons')
      then have "data h ! j \<noteq> last vs" using d(1) j assms(3) nth_eq_iff_index_eq [OF d(1), of j "length vs"] by simp
      moreover have "index_in_heap h (data h ! j) = Some (Some j)" using d(2) j assms(3) by (simp add: index_ok_def)
      ultimately show ?thesis using nth [of j] False j by simp
    qed (use 0 in simp)
  qed
  moreover have "distinct (data ?h)" if "distinct (data h)"
    using mset_eq_imp_distinct_iff [OF ms] that assms(3) by simp
  ultimately show ?thesis using run dn ms by auto
qed


section \<open>The contract of a priority queue\<close>

text \<open>The first values of a queue, taken one after the other.\<close>

primrec drain :: "('q \<Rightarrow> 'v result) \<Rightarrow> ('q \<Rightarrow> 'q result) \<Rightarrow> nat \<Rightarrow> 'q \<Rightarrow> 'v list result" where
  "drain first rest 0 q = Inr []"
| "drain first rest (Suc n) q =
     res_bind (first q) (\<lambda>v. res_bind (rest q) (\<lambda>q'. res_bind (drain first rest n q') (\<lambda>vs. Inr (v # vs))))"

text \<open>
  A queue of values with keys: \<open>elems\<close> is the bag of its values, \<open>inv\<close> its invariant, and taking the
  first value returns one with a smallest key.
\<close>

locale keyed_queue =
  fixes emp :: "'q" and ins :: "'v \<Rightarrow> 'q \<Rightarrow> 'q" and first :: "'q \<Rightarrow> 'v result" and rest :: "'q \<Rightarrow> 'q result"
    and inv :: "'q \<Rightarrow> bool" and elems :: "'q \<Rightarrow> 'v multiset" and key :: "'v \<Rightarrow> 'k :: linorder"
  assumes inv_emp: "inv emp" and elems_emp: "elems emp = {#}"
    and inv_ins: "inv q \<Longrightarrow> inv (ins v q)" and elems_ins: "inv q \<Longrightarrow> elems (ins v q) = add_mset v (elems q)"
    and take_first: "inv q \<Longrightarrow> elems q \<noteq> {#} \<Longrightarrow> \<exists>v q'. first q = Inr v \<and> rest q = Inr q' \<and> inv q'
          \<and> elems q = add_mset v (elems q') \<and> (\<forall>w \<in># elems q. key v \<le> key w)"
begin

lemma fill_ok: "inv (foldl (\<lambda>q v. ins v q) emp vs) \<and> elems (foldl (\<lambda>q v. ins v q) emp vs) = mset vs"
proof (induction vs rule: rev_induct)
  case (snoc v vs)
  then show ?case using inv_ins elems_ins by simp
qed (simp add: inv_emp elems_emp)

lemma drain_sorted:
  assumes "inv q" and "n = size (elems q)"
  shows "\<exists>vs. drain first rest n q = Inr vs \<and> mset vs = elems q \<and> sorted (map key vs)"
  using assms
proof (induction n arbitrary: q)
  case (Suc n)
  then have "elems q \<noteq> {#}" by auto
  from take_first [OF Suc.prems(1) this] obtain v q' where v: "first q = Inr v" "rest q = Inr q'" "inv q'"
    "elems q = add_mset v (elems q')" "\<forall>w \<in># elems q. key v \<le> key w" by blast
  then have "n = size (elems q')" using Suc.prems(2) by simp
  from Suc.IH [OF v(3) this] obtain vs where vs: "drain first rest n q' = Inr vs" "mset vs = elems q'" "sorted (map key vs)" by blast
  have "\<forall>w \<in> set vs. key v \<le> key w" using v(4,5) vs(2) by (metis insert_iff set_mset_add_mset_insert set_mset_mset)
  with v vs have "drain first rest (Suc n) q = Inr (v # vs) \<and> mset (v # vs) = elems q \<and> sorted (map key (v # vs))" by simp
  then show ?case by blast
qed simp

end

definition heap_values :: "'v dary_heap \<Rightarrow> 'v multiset" where
  "heap_values h = mset (data h)"

interpretation dary: keyed_queue empty_heap "push (Suc A) key" top "pop (Suc A) key"
  "\<lambda>h. is_heap (Suc A) key (data h)" heap_values key
  for A :: nat and key :: "'v \<Rightarrow> 'k :: linorder"
proof unfold_locales
  fix q :: "'v dary_heap" assume q: "is_heap (Suc A) key (data q)" "heap_values q \<noteq> {#}"
  then obtain v vs where d: "data q = v # vs" by (cases "data q") (auto simp: heap_values_def)
  from pop_ok [OF _ q(1) d] obtain h' where h': "pop (Suc A) key q = Inr h'" "is_heap (Suc A) key (data h')" "mset (data h') = mset vs" by auto
  have "\<forall>w \<in># heap_values q. key v \<le> key w"
  proof
    fix w assume "w \<in># heap_values q"
    then obtain i where "i < length (data q)" "data q ! i = w" by (auto simp: heap_values_def in_set_conv_nth)
    with heap_root_min [OF q(1), of i] d show "key v \<le> key w" by simp
  qed
  then show "\<exists>v q'. top q = Inr v \<and> pop (Suc A) key q = Inr q' \<and> is_heap (Suc A) key (data q')
      \<and> heap_values q = add_mset v (heap_values q') \<and> (\<forall>w \<in># heap_values q. key v \<le> key w)"
    using h' d by (auto simp: top_def heap_values_def)
next
  fix q :: "'v dary_heap" and v assume "is_heap (Suc A) key (data q)"
  from push_ok [OF _ this, of v]
  show "is_heap (Suc A) key (data (push (Suc A) key v q))" "heap_values (push (Suc A) key v q) = add_mset v (heap_values q)"
    by (simp_all add: heap_values_def)
qed (simp_all add: empty_heap_def is_heap_def heap_values_def)

section \<open>Properties\<close>

text \<open>
  C34. The d-ary heap sorts: values pushed in any order come out by ascending key, each as often as
  it was pushed.
\<close>

theorem heap_sorts:
  assumes "0 < Arity"
  shows "\<exists>out. drain top (pop Arity key) (length vs) (foldl (\<lambda>h v. push Arity key v h) empty_heap vs) = Inr out
    \<and> mset out = mset vs \<and> sorted (map key out)"
proof -
  obtain A where A: "Arity = Suc A" using assms gr0_conv_Suc by blast
  have f: "is_heap (Suc A) key (data (foldl (\<lambda>h v. push (Suc A) key v h) empty_heap vs))"
    "heap_values (foldl (\<lambda>h v. push (Suc A) key v h) empty_heap vs) = mset vs" using dary.fill_ok [of A key vs] by blast+
  from dary.drain_sorted [OF f(1), of "length vs"] f(2) show ?thesis unfolding A by auto
qed

theorem heap_sorts_witness:
  "\<exists>out. drain top (pop 4 (\<lambda>x. x)) 3 (foldl (\<lambda>h v. push 4 (\<lambda>x. x) v h) empty_heap [3, 1, 2 :: int]) = Inr out
    \<and> mset out = mset [3, 1, 2] \<and> sorted out"
  using heap_sorts [of 4 "\<lambda>x. x :: int" "[3, 1, 2]"] by (simp add: numeral_3_eq_3)

definition heap_inv :: "nat \<Rightarrow> ('v \<Rightarrow> 'k :: linorder) \<Rightarrow> 'v dary_heap \<Rightarrow> bool" where
  "heap_inv A key h \<longleftrightarrow> is_heap A key (data h) \<and> distinct (data h) \<and> index_ok h"

text \<open>
  The heap keeps the order of its tree and the position of every value through \<open>push\<close>, \<open>pop\<close> and
  \<open>update\<close> after the key of a value was decreased (of values that are in the heap at most once).
\<close>

theorem heap_operations:
  assumes "0 < Arity" and "heap_inv Arity key h"
  shows "(v \<notin> set (data h) \<longrightarrow> heap_inv Arity key (push Arity key v h) \<and> set (data (push Arity key v h)) = insert v (set (data h)))
    \<and> (data h \<noteq> [] \<longrightarrow> (\<exists>h'. pop Arity key h = Inr h' \<and> heap_inv Arity key h' \<and> set (data h') = set (data h) - {hd (data h)}))
    \<and> (v \<in> set (data h) \<and> (\<forall>w. w \<noteq> v \<longrightarrow> key' w = key w) \<and> key' v \<le> key v \<longrightarrow>
        (\<exists>h'. update Arity key' v h = Inr h' \<and> heap_inv Arity key' h' \<and> set (data h') = set (data h)))"
proof (intro conjI impI)
  have inv: "is_heap Arity key (data h)" "distinct (data h)" "index_ok h" using assms(2) by (simp_all add: heap_inv_def)
  {
    assume v: "v \<notin> set (data h)"
    note p = push_ok [OF assms(1) inv(1), of v]
    have "mset (data (push Arity key v h)) = mset (v # data h)" using p by simp
    from mset_eq_imp_distinct_iff [OF this] mset_eq_setD [OF this] p v inv
    show "heap_inv Arity key (push Arity key v h)" "set (data (push Arity key v h)) = insert v (set (data h))"
      by (simp_all add: heap_inv_def)
  next
    assume "data h \<noteq> []"
    then obtain x xs where d: "data h = x # xs" by (cases "data h") auto
    from pop_ok [OF assms(1) inv(1) d] inv obtain h' where h': "pop Arity key h = Inr h'" "is_heap Arity key (data h')"
      "mset (data h') = mset xs" "index_ok h'" by auto
    with mset_eq_imp_distinct_iff [OF h'(3)] mset_eq_setD [OF h'(3)] inv(2) d
    show "\<exists>h'. pop Arity key h = Inr h' \<and> heap_inv Arity key h' \<and> set (data h') = set (data h) - {hd (data h)}"
      by (auto simp: heap_inv_def)
  next
    assume u: "v \<in> set (data h) \<and> (\<forall>w. w \<noteq> v \<longrightarrow> key' w = key w) \<and> key' v \<le> key v"
    from update_ok [OF inv, of v key'] u obtain h' where h': "update Arity key' v h = Inr h'" "is_heap Arity key' (data h')"
      "mset (data h') = mset (data h)" "index_ok h'" by blast
    with mset_eq_imp_distinct_iff [OF h'(3)] mset_eq_setD [OF h'(3)] inv(2)
    show "\<exists>h'. update Arity key' v h = Inr h' \<and> heap_inv Arity key' h' \<and> set (data h') = set (data h)"
      by (auto simp: heap_inv_def)
  }
qed

theorem heap_operations_witness:
  "heap_inv 4 (\<lambda>x. x) (push 4 (\<lambda>x. x) (2 :: int) (push 4 (\<lambda>x. x) 3 empty_heap))"
proof -
  have "heap_inv 4 (\<lambda>x. x :: int) empty_heap" by (simp add: heap_inv_def is_heap_def index_ok_def empty_heap_def)
  with heap_operations [of 4 "\<lambda>x. x" empty_heap "3 :: int"] have 1: "heap_inv 4 (\<lambda>x. x) (push 4 (\<lambda>x. x) (3 :: int) empty_heap)"
    "set (data (push 4 (\<lambda>x. x) (3 :: int) empty_heap)) = {3}" by (simp_all add: empty_heap_def)
  with heap_operations [OF _ 1(1), of 2] show ?thesis by simp
qed

end
