(* ===== verification/Router_Dijkstra.thy ===== *)
theory Router_Dijkstra
  imports Router_Graph Dary_Heap
begin

text \<open>
  \<open>Router::dijkstraShortestPaths\<close>: the search for the cheapest routes from a source port, with the
  d-ary heap as its queue. A port is WHITE while \<open>colors\<close> has no entry for it. The loop over the
  queue is a partial function: \<open>None\<close> would be a search that does not end.
\<close>

section \<open>Model\<close>

datatype Color = GRAY | BLACK

record 'd search_state =
  distance :: "PhysPort \<rightharpoonup> 'd"
  preds :: "PhysPort \<rightharpoonup> PhysPort"
  colors :: "PhysPort \<rightharpoonup> Color"
  queue :: "PhysPort dary_heap"

text \<open>\<open>distance[p]\<close>, which is 0.0 at a missing key.\<close>

definition dist_at :: "'d weight_ops \<Rightarrow> (PhysPort \<rightharpoonup> 'd) \<Rightarrow> PhysPort \<Rightarrow> 'd" where
  "dist_at W d p = (case d p of Some x \<Rightarrow> x | None \<Rightarrow> w_zero W)"

text \<open>The channels of a port, as the cache \<open>channels\<close> is filled.\<close>

definition intraChannels :: "'d weight_ops \<Rightarrow> 'd sb_graph \<Rightarrow> PhysPort \<Rightarrow> PhysPort list" where
  "intraChannels W g src =
     (let sb = sb_at W g (tileLoc src) (tileLoc src)
      in concat (map (\<lambda>i. map (\<lambda>j. PhysPort (tileLoc src) (dstPorts sb ! j) DST)
                   (filter (\<lambda>j. srcPorts sb ! i = port src \<and> connectivity sb i j = AVAILABLE) [0..<length (dstPorts sb)]))
           [0..<length (srcPorts sb)]))"

definition interChannels :: "'d weight_ops \<Rightarrow> 'd sb_graph \<Rightarrow> PhysPort \<Rightarrow> PhysPort list" where
  "interChannels W g src =
     concat (map (\<lambda>(dir, (dc, dr)).
       (let neighborCoords = TileLoc (col (tileLoc src) + dc) (row (tileLoc src) + dr);
            neighborPort = Port (snd dir) (portChannel (port src))
        in if map_of g (tileLoc src, neighborCoords) \<noteq> None
              \<and> portBundle (port src) = getConnectingBundle (portBundle neighborPort)
              \<and> neighborPort \<in> set (dstPorts (sb_at W g (tileLoc src) neighborCoords))
           then [PhysPort neighborCoords neighborPort DST] else []))
       directionToDeltaCoordsMap)"

definition channelsOf :: "'d weight_ops \<Rightarrow> 'd sb_graph \<Rightarrow> PhysPort \<Rightarrow> PhysPort list" where
  "channelsOf W g src = sort (intraChannels W g src @ interChannels W g src)"

definition getChannels :: "'d weight_ops \<Rightarrow> 'd sb_graph \<Rightarrow> PhysPort \<Rightarrow> (PhysPort \<rightharpoonup> PhysPort list) \<Rightarrow> PhysPort list \<times> (PhysPort \<rightharpoonup> PhysPort list)" where
  "getChannels W g src cache =
     (case cache src of
        Some cs \<Rightarrow> (cs, cache)
      | None \<Rightarrow> (channelsOf W g src, cache(src \<mapsto> channelsOf W g src)))"

text \<open>The position of the channel between two ports in the matrices of their switchbox.\<close>

definition channelIndex :: "'d SwitchboxConnect \<Rightarrow> Port \<Rightarrow> Port \<Rightarrow> (nat \<times> nat) result" where
  "channelIndex sb s d =
     (let i = find_index s (srcPorts sb); j = find_index d (dstPorts sb)
      in if i < length (srcPorts sb) \<and> j < length (dstPorts sb) then Inr (i, j) else Inl OutOfBounds)"

definition visitDest ::
  "'d :: linorder weight_ops \<Rightarrow> 'd sb_graph \<Rightarrow> PhysPort \<Rightarrow> PhysPort \<Rightarrow> 'd search_state \<Rightarrow> 'd search_state result" where
  "visitDest W g src dest S =
     (let d1 = (if distance S dest = None then (distance S)(dest \<mapsto> w_INF W) else distance S);
          sb = sb_at W g (tileLoc src) (tileLoc dest)
      in res_bind (channelIndex sb (port src) (port dest)) (\<lambda>(i, j).
           let new = w_add W (dist_at W d1 src) (demand sb i j);
               relax = new < dist_at W d1 dest;
               S1 = S\<lparr>distance := d1\<rparr>;
               S2 = S1\<lparr>distance := d1(dest \<mapsto> new), preds := (preds S)(dest \<mapsto> src)\<rparr>
           in Inr (case colors S dest of
                None \<Rightarrow>
                  (let S3 = (if relax then S2\<lparr>colors := (colors S)(dest \<mapsto> GRAY)\<rparr> else S1)
                   in S3\<lparr>queue := push 4 (dist_at W (distance S3)) dest (queue S3)\<rparr>)
              | Some GRAY \<Rightarrow> if relax then S2 else S1
              | Some BLACK \<Rightarrow> S1)))"

text \<open>One round of the loop: the port at the top of the queue, with all its channels.\<close>

definition visitPort ::
  "'d :: linorder weight_ops \<Rightarrow> 'd sb_graph \<Rightarrow> 'd search_state \<times> (PhysPort \<rightharpoonup> PhysPort list)
   \<Rightarrow> ('d search_state \<times> (PhysPort \<rightharpoonup> PhysPort list)) result" where
  "visitPort W g = (\<lambda>(S, cache).
     res_bind (top (queue S)) (\<lambda>src. res_bind (pop 4 (dist_at W (distance S)) (queue S)) (\<lambda>Q.
       case getChannels W g src cache of (cs, cache') \<Rightarrow>
         res_bind (res_fold (visitDest W g src) cs (S\<lparr>queue := Q\<rparr>)) (\<lambda>S'.
           Inr (S'\<lparr>colors := (colors S')(src \<mapsto> BLACK)\<rparr>, cache')))))"

partial_function (option) search ::
  "'d :: linorder weight_ops \<Rightarrow> 'd sb_graph \<Rightarrow> 'd search_state \<times> (PhysPort \<rightharpoonup> PhysPort list)
   \<Rightarrow> ('d search_state \<times> (PhysPort \<rightharpoonup> PhysPort list)) result option" where
  "search W g st =
     (if heap_empty (queue (fst st)) then Some (Inr st)
      else case visitPort W g st of Inl e \<Rightarrow> Some (Inl e) | Inr st' \<Rightarrow> search W g st')"

definition initialSearch :: "'d :: linorder weight_ops \<Rightarrow> PhysPort \<Rightarrow> 'd search_state" where
  "initialSearch W src =
     (let d = [src \<mapsto> w_zero W]
      in \<lparr>distance = d, preds = Map.empty, colors = Map.empty, queue = push 4 (dist_at W d) src empty_heap\<rparr>)"

definition dijkstraShortestPaths ::
  "'d :: linorder weight_ops \<Rightarrow> PhysPort \<Rightarrow> 'd Router \<Rightarrow> ((PhysPort \<rightharpoonup> PhysPort) \<times> 'd Router) result option" where
  "dijkstraShortestPaths W src R =
     (case search W (graph R) (initialSearch W src, channels R) of
        None \<Rightarrow> None
      | Some (Inl e) \<Rightarrow> Some (Inl e)
      | Some (Inr (S, cache)) \<Rightarrow> Some (Inr (preds S, R\<lparr>channels := cache\<rparr>)))"

declare search.simps [code]

section \<open>The queue while its keys change\<close>

text \<open>
  The search lowers the distance of a port that is in the queue without telling the heap, so that the
  order of the heap can be lost. The values in the queue do not depend on that order.
\<close>

lemma move_up_mset:
  assumes "i < length (data h)" and "n = levels_up A key (data h) k i"
  shows "mset (data (move_up A n i m h)) = mset ((data h)[i := m])"
  using assms
proof (induction n arbitrary: i h)
  case (Suc n)
  from Suc.prems(2) levels_up.simps [of A key "data h" k i]
  have i: "0 < i" and lv: "n = levels_up A key (data h) k (parent A i)" by (simp_all split: if_splits)
  then have p: "parent A i < i" by (simp add: parent_less)
  let ?h = "h\<lparr>index_in_heap := (index_in_heap h)(data h ! parent A i \<mapsto> Some i), data := (data h)[i := data h ! parent A i]\<rparr>"
  have "n = levels_up A key (data ?h) k (parent A i)" using lv by (simp add: levels_up_below [OF p])
  then have "mset (data (move_up A n (parent A i) m ?h)) = mset ((data ?h)[parent A i := m])"
    using Suc.IH [of "parent A i" ?h] p Suc.prems(1) by simp
  also have "\<dots> = mset ((data h)[i := m])" using mset_hole_step [of i "data h" "parent A i" m] p Suc.prems(1) by simp
  finally show ?case by (simp add: Let_def)
qed simp

lemma push_mset [simp]: "mset (data (push A key v h)) = add_mset v (mset (data h))"
  using move_up_mset [where i = "length (data h)" and m = v and k = "key v" and
      h = "h\<lparr>data := data h @ [v], index_in_heap := (index_in_heap h)(v \<mapsto> Some (length (data h)))\<rparr>", OF _ refl]
  by (simp add: push_def Let_def preserve_heap_property_up_def)

lemma down_mset: "i < length (data h) \<Longrightarrow> mset (data (down A key mk i h)) = mset (data h)"
proof (induction "length (data h) - i" arbitrary: i h rule: less_induct)
  case less
  define first where "first = child A i 0"
  define n where "n = (if first + A \<le> length (data h) then A else length (data h) - first)"
  define s where "s = smallest_child key (data h) first n"
  have step: "down A key mk i h = (if first \<ge> length (data h) then h
      else if A \<noteq> 0 \<and> key (data h ! s) < mk then down A key mk s (swap_heap_elements s i h) else h)"
    unfolding first_def n_def s_def by (subst down.simps) (simp add: Let_def)
  show ?case
  proof (cases "first < length (data h) \<and> A \<noteq> 0 \<and> key (data h ! s) < mk")
    case True
    then have "0 < n" "first + n \<le> length (data h)" by (auto simp: n_def)
    then have "first \<le> s" "s < length (data h)" using smallest_child_range [of first key "data h" n] by (auto simp: s_def)
    moreover have "i < first" using True by (cases A) (simp_all add: first_def child_def)
    ultimately have s: "i < s" "s < length (data h)" by simp_all
    have len: "length (data (swap_heap_elements s i h)) = length (data h)" by (simp add: swap_heap_elements_def Let_def)
    have "mset (data (down A key mk s (swap_heap_elements s i h))) = mset (data (swap_heap_elements s i h))"
      using s less.prems by (intro less.hyps) (simp_all add: len)
    then show ?thesis using step True swap_ok(1) [of s h i] s less.prems by simp
  next
    case False
    then show ?thesis using step by auto
  qed
qed

lemma pop_mset:
  assumes "data h = v # vs"
  shows "\<exists>h'. pop A key h = Inr h' \<and> mset (data h') = mset vs"
proof (cases "vs = []")
  case False
  let ?h = "h\<lparr>data := butlast (last vs # vs), index_in_heap := (index_in_heap h)(v \<mapsto> None, last vs \<mapsto> Some 0)\<rparr>"
  have "pop A key h = Inr (down A key (key (data ?h ! 0)) 0 ?h)"
    using False assms by (simp add: pop_def Let_def preserve_heap_property_down_def)
  moreover have "mset (data ?h) = mset (butlast vs @ [last vs])" using False by (simp del: append_butlast_last_id)
  then have "mset (data ?h) = mset vs" unfolding append_butlast_last_id [OF False] .
  ultimately show ?thesis using down_mset [of 0 ?h A key "key (data ?h ! 0)"] False by auto
qed (use assms in \<open>simp add: pop_def\<close>)

section \<open>Channels\<close>

text \<open>The edges of the graph: connections inside a switchbox that are available, and links to neighbours.\<close>

definition edge :: "'d weight_ops \<Rightarrow> 'd sb_graph \<Rightarrow> PhysPort \<Rightarrow> PhysPort \<Rightarrow> bool" where
  "edge W g s d \<longleftrightarrow> d \<in> set (channelsOf W g s)"

lemma sb_at_None: "map_of g (s, t) = None \<Longrightarrow> srcPorts (sb_at W g s t) = [] \<and> dstPorts (sb_at W g s t) = []"
  by (simp add: sb_at_def mk_SwitchboxConnect_def)

lemma edge_intra:
  "d \<in> set (intraChannels W g s) \<longleftrightarrow>
     (\<exists>i j. i < length (srcPorts (sb_at W g (tileLoc s) (tileLoc s))) \<and> j < length (dstPorts (sb_at W g (tileLoc s) (tileLoc s)))
        \<and> srcPorts (sb_at W g (tileLoc s) (tileLoc s)) ! i = port s
        \<and> connectivity (sb_at W g (tileLoc s) (tileLoc s)) i j = AVAILABLE
        \<and> d = PhysPort (tileLoc s) (dstPorts (sb_at W g (tileLoc s) (tileLoc s)) ! j) DST)"
  unfolding intraChannels_def Let_def by auto

lemma edge_inter:
  "d \<in> set (interChannels W g s) \<longleftrightarrow>
     (\<exists>t' b b'. linked (tileLoc s) t' b b' \<and> portBundle (port s) = b \<and> map_of g (tileLoc s, t') \<noteq> None
        \<and> Port b' (portChannel (port s)) \<in> set (dstPorts (sb_at W g (tileLoc s) t'))
        \<and> d = PhysPort t' (Port b' (portChannel (port s))) DST)"
proof -
  have dir: "getConnectingBundle b' = b" if "((b, b'), x) \<in> set directionToDeltaCoordsMap" for b b' x
    using that by (auto simp: directionToDeltaCoordsMap_def)
  have "d \<in> set (interChannels W g s) \<longleftrightarrow>
     (\<exists>b b' delta. ((b, b'), delta) \<in> set directionToDeltaCoordsMap \<and> portBundle (port s) = getConnectingBundle b'
        \<and> map_of g (tileLoc s, moved (tileLoc s) delta) \<noteq> None
        \<and> Port b' (portChannel (port s)) \<in> set (dstPorts (sb_at W g (tileLoc s) (moved (tileLoc s) delta)))
        \<and> d = PhysPort (moved (tileLoc s) delta) (Port b' (portChannel (port s))) DST)"
    unfolding interChannels_def Let_def moved_def set_concat set_map by (fastforce split: if_splits)
  also have "\<dots> \<longleftrightarrow>
     (\<exists>b b' delta. ((b, b'), delta) \<in> set directionToDeltaCoordsMap \<and> portBundle (port s) = b
        \<and> map_of g (tileLoc s, moved (tileLoc s) delta) \<noteq> None
        \<and> Port b' (portChannel (port s)) \<in> set (dstPorts (sb_at W g (tileLoc s) (moved (tileLoc s) delta)))
        \<and> d = PhysPort (moved (tileLoc s) delta) (Port b' (portChannel (port s))) DST)"
    using dir by metis
  finally show ?thesis unfolding linked_def by metis
qed

lemma edge_index:
  assumes "graph_ok g" and "edge W g s d"
  shows "\<exists>i j. channelIndex (sb_at W g (tileLoc s) (tileLoc d)) (port s) (port d) = Inr (i, j) \<and> direction d = DST
    \<and> i < length (srcPorts (sb_at W g (tileLoc s) (tileLoc d))) \<and> j < length (dstPorts (sb_at W g (tileLoc s) (tileLoc d)))"
proof -
  from assms(2) have "d \<in> set (intraChannels W g s) \<or> d \<in> set (interChannels W g s)" by (auto simp: edge_def channelsOf_def)
  then have "direction d = DST \<and> port s \<in> set (srcPorts (sb_at W g (tileLoc s) (tileLoc d)))
      \<and> port d \<in> set (dstPorts (sb_at W g (tileLoc s) (tileLoc d)))"
  proof
    assume "d \<in> set (intraChannels W g s)"
    then show ?thesis unfolding edge_intra by (auto intro: nth_mem) (metis nth_mem)
  next
    assume "d \<in> set (interChannels W g s)"
    then obtain t' b b' sb where d: "linked (tileLoc s) t' b b'" "portBundle (port s) = b" "map_of g (tileLoc s, t') = Some sb"
      "Port b' (portChannel (port s)) \<in> set (dstPorts (sb_at W g (tileLoc s) t'))" "d = PhysPort t' (Port b' (portChannel (port s))) DST"
      unfolding edge_inter by blast
    have sb: "sb_at W g (tileLoc s) t' = sb" using d(3) by (simp add: sb_at_def)
    have "sb_shape (tileLoc s) t' sb" using assms(1) d(3) by (auto simp: graph_ok_def)
    then obtain b1 b1' n where n: "linked (tileLoc s) t' b1 b1'" "srcPorts sb = portsOfBundle b1 n" "dstPorts sb = portsOfBundle b1' n"
      using linked_neq [OF d(1)] unfolding sb_shape_def by metis
    have "b1 = b" "b1' = b'" using linked_unique [OF d(1) n(1)] by simp_all
    with n d sb have "port s \<in> set (srcPorts sb)" by (simp add: portsOfBundle_set)
    with d sb show ?thesis by simp
  qed
  then show ?thesis by (simp add: channelIndex_def Let_def)
qed

section \<open>The invariant of the search\<close>

text \<open>
  What the search needs of the arithmetic: a step never shortens a route, and the length of a route
  stays below \<open>INF\<close>.
\<close>

definition weights_ok :: "'d :: linorder weight_ops \<Rightarrow> 'd sb_graph \<Rightarrow> bool" where
  "weights_ok W g \<longleftrightarrow> w_zero W < w_INF W
     \<and> (\<forall>k sb i j a. map_of g k = Some sb \<longrightarrow> i < length (srcPorts sb) \<and> j < length (dstPorts sb) \<longrightarrow> a < w_INF W
          \<longrightarrow> a \<le> w_add W a (demand sb i j) \<and> w_add W a (demand sb i j) < w_INF W)"

text \<open>The ports from which the predecessors lead back to the source.\<close>

inductive rooted :: "(PhysPort \<rightharpoonup> PhysPort) \<Rightarrow> PhysPort \<Rightarrow> PhysPort \<Rightarrow> bool" for P s0 where
  root: "rooted P s0 s0"
| step: "P d = Some s \<Longrightarrow> rooted P s0 s \<Longrightarrow> rooted P s0 d"

lemma rooted_upd:
  assumes "rooted P s0 s" and "s \<in> B" and "\<And>d s. P d = Some s \<Longrightarrow> s \<in> B" and "d' \<notin> B"
  shows "rooted (P(d' \<mapsto> c)) s0 s"
  using assms(1,2)
proof (induction)
  case (step d s)
  then have "rooted (P(d' \<mapsto> c)) s0 s" using assms(3) by blast
  moreover have "(P(d' \<mapsto> c)) d = Some s" using step.hyps(1) step.prems assms(4) by auto
  ultimately show ?case by (rule rooted.step [rotated])
qed (rule rooted.root)

definition black :: "'d search_state \<Rightarrow> PhysPort set" where
  "black S = {p. colors S p = Some BLACK}"

text \<open>\<open>C\<close> holds the port the search visits, if there is one.\<close>

definition preds_ok :: "'d weight_ops \<Rightarrow> 'd sb_graph \<Rightarrow> PhysPort \<Rightarrow> PhysPort set \<Rightarrow> 'd search_state \<Rightarrow> bool" where
  "preds_ok W g s0 C S \<longleftrightarrow>
     (\<forall>d s. preds S d = Some s \<longrightarrow> edge W g s d \<and> s \<in> black S \<union> C \<and> rooted (preds S) s0 s)
     \<and> (\<forall>p. colors S p \<noteq> None \<longrightarrow> p = s0 \<or> preds S p \<noteq> None)"

definition dist_ok :: "'d :: linorder weight_ops \<Rightarrow> PhysPort \<Rightarrow> 'd search_state \<Rightarrow> bool" where
  "dist_ok W s0 S \<longleftrightarrow>
     (\<forall>p. p = s0 \<or> colors S p \<noteq> None \<longrightarrow> (\<exists>x. distance S p = Some x \<and> x < w_INF W))
     \<and> (\<forall>p. p \<noteq> s0 \<and> colors S p = None \<longrightarrow> distance S p = None \<or> distance S p = Some (w_INF W))"

definition queue_ok :: "PhysPort \<Rightarrow> PhysPort set \<Rightarrow> 'd search_state \<Rightarrow> bool" where
  "queue_ok s0 C S \<longleftrightarrow> distinct (data (queue S))
     \<and> (\<forall>p. p \<in> set (data (queue S)) \<longleftrightarrow> (colors S p = Some GRAY \<or> p = s0 \<and> colors S p = None) \<and> p \<notin> C)
     \<and> (\<forall>p \<in> C. colors S p = Some GRAY \<or> p = s0 \<and> colors S p = None)"

definition closed_ok :: "'d weight_ops \<Rightarrow> 'd sb_graph \<Rightarrow> 'd search_state \<Rightarrow> bool" where
  "closed_ok W g S \<longleftrightarrow> (\<forall>p d. colors S p = Some BLACK \<longrightarrow> edge W g p d \<longrightarrow> colors S d \<noteq> None)"

definition search_inv :: "'d :: linorder weight_ops \<Rightarrow> 'd sb_graph \<Rightarrow> PhysPort \<Rightarrow> PhysPort set \<Rightarrow> 'd search_state \<Rightarrow> bool" where
  "search_inv W g s0 C S \<longleftrightarrow> preds_ok W g s0 C S \<and> dist_ok W s0 S \<and> queue_ok s0 C S \<and> closed_ok W g S"

lemma preds_okD: "preds_ok W g s0 C S \<Longrightarrow> preds S d = Some s \<Longrightarrow> edge W g s d \<and> s \<in> black S \<union> C \<and> rooted (preds S) s0 s"
  unfolding preds_ok_def by blast

lemma preds_ok_rooted:
  assumes "preds_ok W g s0 C S" and "colors S p \<noteq> None"
  shows "rooted (preds S) s0 p"
proof (cases "p = s0")
  case False
  with assms obtain s where s: "preds S p = Some s" unfolding preds_ok_def by blast
  with preds_okD [OF assms(1) s] show ?thesis by (blast intro: rooted.step)
qed (simp add: rooted.root)

text \<open>A better route to a port that is not yet finished.\<close>

lemma preds_ok_relax:
  assumes "preds_ok W g s0 {c} S" and "edge W g c d" and "d \<noteq> c" and "colors S d \<noteq> Some BLACK"
    and "colors S c = Some GRAY \<or> c = s0" and "d \<noteq> s0"
    and S': "preds S' = (preds S)(d \<mapsto> c)" "\<And>p. colors S' p = Some BLACK \<longleftrightarrow> colors S p = Some BLACK"
      "\<And>p. colors S' p \<noteq> None \<Longrightarrow> colors S p \<noteq> None \<or> p = d"
  shows "preds_ok W g s0 {c} S'"
proof -
  have b: "black S' = black S" using S'(2) by (simp add: black_def)
  have d: "d \<notin> black S \<union> {c}" using assms(3,4) by (simp add: black_def)
  have "rooted (preds S) s0 c" using assms(5) preds_ok_rooted [OF assms(1), of c] rooted.root by auto
  then have rc: "rooted ((preds S)(d \<mapsto> c)) s0 c"
    using rooted_upd [of "preds S" s0 c "black S \<union> {c}" d c] preds_okD [OF assms(1)] d by blast
  have "edge W g s p \<and> s \<in> black S' \<union> {c} \<and> rooted (preds S') s0 s" if p: "preds S' p = Some s" for p s
  proof (cases "p = d")
    case True
    then show ?thesis using p S'(1) assms(2) rc by simp
  next
    case False
    then have "preds S p = Some s" using p S'(1) by simp
    note h = preds_okD [OF assms(1) this]
    then have "rooted ((preds S)(d \<mapsto> c)) s0 s"
      using rooted_upd [of "preds S" s0 s "black S \<union> {c}" d c] preds_okD [OF assms(1)] d by blast
    with h show ?thesis using b S'(1) by simp
  qed
  moreover have "p = s0 \<or> preds S' p \<noteq> None" if "colors S' p \<noteq> None" for p
    using S'(1) S'(3) [OF that] assms(1) unfolding preds_ok_def by (cases "p = d") auto
  ultimately show ?thesis unfolding preds_ok_def by blast
qed

lemma dist_ok_at:
  assumes "dist_ok W s0 S"
  shows "p = s0 \<or> colors S p \<noteq> None \<Longrightarrow> dist_at W (distance S) p < w_INF W \<and> distance S p \<noteq> None"
    and "p \<noteq> s0 \<Longrightarrow> colors S p = None \<Longrightarrow> distance S p = None \<or> distance S p = Some (w_INF W)"
proof -
  show "distance S p = None \<or> distance S p = Some (w_INF W)" if "p \<noteq> s0" "colors S p = None"
    using assms that unfolding dist_ok_def by blast
  assume "p = s0 \<or> colors S p \<noteq> None"
  then obtain x where "distance S p = Some x" "x < w_INF W" using assms unfolding dist_ok_def by blast
  then show "dist_at W (distance S) p < w_INF W \<and> distance S p \<noteq> None" by (simp add: dist_at_def)
qed

lemma queue_okD: "queue_ok s0 {c} S \<Longrightarrow> colors S c = Some GRAY \<or> c = s0 \<and> colors S c = None"
  unfolding queue_ok_def by blast

lemma visitDest_run:
  assumes "graph_ok g" and "weights_ok W g" and "edge W g c d" and "dist_ok W s0 S"
    and "colors S c = Some GRAY \<or> c = s0" and "d \<noteq> s0"
  shows "\<exists>new. dist_at W (distance S) c \<le> new \<and> new < w_INF W \<and> visitDest W g c d S = Inr (
     case colors S d of
       None \<Rightarrow> (let S2 = S\<lparr>distance := (distance S)(d \<mapsto> new), preds := (preds S)(d \<mapsto> c), colors := (colors S)(d \<mapsto> GRAY)\<rparr>
                in S2\<lparr>queue := push 4 (dist_at W (distance S2)) d (queue S2)\<rparr>)
     | Some GRAY \<Rightarrow> if new < dist_at W (distance S) d
                    then S\<lparr>distance := (distance S)(d \<mapsto> new), preds := (preds S)(d \<mapsto> c)\<rparr> else S
     | Some BLACK \<Rightarrow> S)"
proof -
  let ?sb = "sb_at W g (tileLoc c) (tileLoc d)"
  obtain i j where ij: "channelIndex ?sb (port c) (port d) = Inr (i, j)" "i < length (srcPorts ?sb)" "j < length (dstPorts ?sb)"
    using edge_index [OF assms(1,3)] by blast
  obtain sb where sb: "map_of g (tileLoc c, tileLoc d) = Some sb"
    using ij(2) sb_at_None [of g "tileLoc c" "tileLoc d" W] by (cases "map_of g (tileLoc c, tileLoc d)") auto
  then have sb': "?sb = sb" by (simp add: sb_at_def)
  note dc = dist_ok_at(1) [OF assms(4), of c]
  have c: "dist_at W (distance S) c < w_INF W" "distance S c \<noteq> None" using dc assms(5) by auto
  let ?new = "w_add W (dist_at W (distance S) c) (demand sb i j)"
  have new: "dist_at W (distance S) c \<le> ?new" "?new < w_INF W"
    using assms(2) sb ij(2,3) c(1) unfolding weights_ok_def sb' by blast+
  show ?thesis
  proof (cases "colors S d")
    case None
    have cd: "c \<noteq> d" using assms(5,6) None by auto
    have "dist_at W (if distance S d = None then (distance S)(d \<mapsto> w_INF W) else distance S) d = w_INF W"
      using dist_ok_at(2) [OF assms(4,6) None] by (auto simp: dist_at_def)
    moreover have "dist_at W (if distance S d = None then (distance S)(d \<mapsto> w_INF W) else distance S) c = dist_at W (distance S) c"
      using cd by (simp add: dist_at_def)
    ultimately show ?thesis using None ij(1) new sb' by (intro exI [of _ ?new]) (simp add: visitDest_def Let_def)
  next
    case (Some col)
    then have "distance S d \<noteq> None" using dist_ok_at(1) [OF assms(4), of d] by simp
    then show ?thesis using Some ij(1) new sb' by (intro exI [of _ ?new]) (auto simp: visitDest_def Let_def split: Color.split)
  qed
qed

lemma visitDest_inv:
  assumes "graph_ok g" and "weights_ok W g" and "direction s0 = SRC" and "edge W g c d" and "search_inv W g s0 {c} S"
  shows "\<exists>S'. visitDest W g c d S = Inr S' \<and> search_inv W g s0 {c} S' \<and> black S' = black S \<and> colors S' d \<noteq> None
    \<and> (\<forall>p. colors S p \<noteq> None \<longrightarrow> colors S' p \<noteq> None)"
proof -
  have d0: "d \<noteq> s0" using edge_index [OF assms(1,4)] assms(3) by auto
  note inv = assms(5) [unfolded search_inv_def]
  have "colors S c = Some GRAY \<or> c = s0 \<and> colors S c = None" using inv queue_okD by blast
  then have c: "colors S c = Some GRAY \<or> c = s0" "colors S c \<noteq> Some BLACK" by auto
  obtain new where new: "dist_at W (distance S) c \<le> new" "new < w_INF W" "visitDest W g c d S = Inr (
     case colors S d of
       None \<Rightarrow> (let S2 = S\<lparr>distance := (distance S)(d \<mapsto> new), preds := (preds S)(d \<mapsto> c), colors := (colors S)(d \<mapsto> GRAY)\<rparr>
                in S2\<lparr>queue := push 4 (dist_at W (distance S2)) d (queue S2)\<rparr>)
     | Some GRAY \<Rightarrow> if new < dist_at W (distance S) d
                    then S\<lparr>distance := (distance S)(d \<mapsto> new), preds := (preds S)(d \<mapsto> c)\<rparr> else S
     | Some BLACK \<Rightarrow> S)" using visitDest_run [OF assms(1,2,4) _ c(1) d0] inv by blast
  consider (white) "colors S d = None"
    | (better) "colors S d = Some GRAY" "new < dist_at W (distance S) d"
    | (same) "colors S d \<noteq> None" "visitDest W g c d S = Inr S"
  proof (cases "colors S d")
    case (Some x)
    then show ?thesis
    proof (cases x)
      case GRAY
      show ?thesis
      proof (cases "new < dist_at W (distance S) d")
        case False
        then show ?thesis using that(3) new(3) Some GRAY by simp
      qed (use that(2) Some GRAY in simp)
    next
      case BLACK
      then show ?thesis using that(3) new(3) Some by simp
    qed
  qed (rule that(1))
  then show ?thesis
  proof cases
    case white
    let ?S2 = "S\<lparr>distance := (distance S)(d \<mapsto> new), preds := (preds S)(d \<mapsto> c), colors := (colors S)(d \<mapsto> GRAY)\<rparr>"
    let ?S = "?S2\<lparr>queue := push 4 (dist_at W (distance ?S2)) d (queue S)\<rparr>"
    have run: "visitDest W g c d S = Inr ?S" using new(3) white by simp
    have dc: "d \<noteq> c" using c white d0 by auto
    have "preds_ok W g s0 {c} ?S"
      by (rule preds_ok_relax [OF _ assms(4) dc _ _ d0]) (use inv c white in auto)
    moreover have "dist_ok W s0 ?S" using inv new(2) unfolding dist_ok_def by auto
    moreover have m: "mset (data (queue ?S)) = mset (d # data (queue S))" by simp
    have "d \<notin> set (data (queue S))" using inv white d0 unfolding queue_ok_def by auto
    then have "queue_ok s0 {c} ?S" using inv mset_eq_imp_distinct_iff [OF m] mset_eq_setD [OF m] dc d0 unfolding queue_ok_def by auto
    moreover have "closed_ok W g ?S" using inv white unfolding closed_ok_def by auto
    moreover have "black ?S = black S" using white by (auto simp: black_def)
    ultimately show ?thesis using run unfolding search_inv_def by auto
  next
    case better
    let ?S = "S\<lparr>distance := (distance S)(d \<mapsto> new), preds := (preds S)(d \<mapsto> c)\<rparr>"
    have run: "visitDest W g c d S = Inr ?S" using new(3) better by simp
    have dc: "d \<noteq> c" using better(2) new(1) by auto
    have "preds_ok W g s0 {c} ?S"
      by (rule preds_ok_relax [OF _ assms(4) dc _ _ d0]) (use inv c better in auto)
    moreover have "dist_ok W s0 ?S" using inv new(2) better d0 unfolding dist_ok_def by auto
    moreover have "queue_ok s0 {c} ?S" "closed_ok W g ?S" "black ?S = black S" using inv
      unfolding queue_ok_def closed_ok_def black_def by simp_all
    ultimately show ?thesis using run better unfolding search_inv_def by auto
  next
    case same
    then show ?thesis using assms(5) by blast
  qed
qed


section \<open>One port, and the whole search\<close>

definition cache_ok :: "'d weight_ops \<Rightarrow> 'd sb_graph \<Rightarrow> (PhysPort \<rightharpoonup> PhysPort list) \<Rightarrow> bool" where
  "cache_ok W g cache \<longleftrightarrow> (\<forall>p cs. cache p = Some cs \<longrightarrow> cs = channelsOf W g p)"

lemma getChannels_ok:
  "cache_ok W g cache \<Longrightarrow> \<exists>cache'. getChannels W g p cache = (channelsOf W g p, cache') \<and> cache_ok W g cache'"
  by (cases "cache p") (auto simp: getChannels_def cache_ok_def)

lemma visitDests_inv:
  assumes "graph_ok g" and "weights_ok W g" and "direction s0 = SRC" and "\<forall>d \<in> set cs. edge W g c d" and "search_inv W g s0 {c} S"
  shows "\<exists>S'. res_fold (visitDest W g c) cs S = Inr S' \<and> search_inv W g s0 {c} S' \<and> black S' = black S
    \<and> (\<forall>d \<in> set cs. colors S' d \<noteq> None) \<and> (\<forall>p. colors S p \<noteq> None \<longrightarrow> colors S' p \<noteq> None)"
  using assms(4,5)
proof (induction cs arbitrary: S)
  case (Cons d cs)
  have "edge W g c d" using Cons.prems(1) by simp
  from visitDest_inv [OF assms(1-3) this Cons.prems(2)] obtain S1 where S1: "visitDest W g c d S = Inr S1"
    "search_inv W g s0 {c} S1" "black S1 = black S" "colors S1 d \<noteq> None" "\<forall>p. colors S p \<noteq> None \<longrightarrow> colors S1 p \<noteq> None" by blast
  have "\<forall>d \<in> set cs. edge W g c d" using Cons.prems(1) by simp
  from Cons.IH [OF this S1(2)] obtain S2 where S2: "res_fold (visitDest W g c) cs S1 = Inr S2" "search_inv W g s0 {c} S2"
    "black S2 = black S1" "\<forall>d \<in> set cs. colors S2 d \<noteq> None" "\<forall>p. colors S1 p \<noteq> None \<longrightarrow> colors S2 p \<noteq> None" by blast
  have "res_fold (visitDest W g c) (d # cs) S = Inr S2" using S1(1) S2(1) by simp
  moreover have "black S2 = black S" using S2(3) S1(3) by simp
  moreover have "\<forall>d' \<in> set (d # cs). colors S2 d' \<noteq> None" using S1(4) S2(4,5) by auto
  moreover have "\<forall>p. colors S p \<noteq> None \<longrightarrow> colors S2 p \<noteq> None" using S1(5) S2(5) by blast
  ultimately show ?case using S2(2) by blast
qed simp

text \<open>The ports a search can meet.\<close>

definition nodes :: "'d sb_graph \<Rightarrow> PhysPort \<Rightarrow> PhysPort set" where
  "nodes g s0 = insert s0 (\<Union>((t, t'), sb) \<in> set g. (\<lambda>p. PhysPort t' p DST) ` set (dstPorts sb))"

lemma finite_search_nodes [simp]: "finite (nodes g s0)"
  by (auto simp: nodes_def)

lemma edge_node:
  assumes "graph_ok g" and "edge W g s d"
  shows "d \<in> nodes g s0"
proof -
  let ?sb = "sb_at W g (tileLoc s) (tileLoc d)"
  have i: "direction d = DST" "port d \<in> set (dstPorts ?sb)"
    using edge_index [OF assms] by (auto simp: channelIndex_def Let_def split: if_splits)
  then obtain sb where sb: "map_of g (tileLoc s, tileLoc d) = Some sb" "?sb = sb"
    using sb_at_None [of g "tileLoc s" "tileLoc d" W] by (cases "map_of g (tileLoc s, tileLoc d)") (auto simp: sb_at_def)
  then have "((tileLoc s, tileLoc d), sb) \<in> set g" by (simp add: map_of_SomeD)
  moreover have "d = PhysPort (tileLoc d) (port d) DST" using i(1) by (metis PhysPort.collapse)
  ultimately show ?thesis using i(2) sb(2) unfolding nodes_def by (force intro: image_eqI)
qed

text \<open>Taking the port at the top out of the queue, and finishing it.\<close>

lemma search_inv_pop:
  assumes "search_inv W g s0 {} S" and "data (queue S) = v # vs" and "mset (data Q) = mset vs"
  shows "search_inv W g s0 {v} (S\<lparr>queue := Q\<rparr>)"
proof -
  have d: "distinct (v # vs)" and q: "\<And>p. p \<in> set (v # vs) \<longleftrightarrow> (colors S p = Some GRAY \<or> p = s0 \<and> colors S p = None)"
    using assms(1) unfolding search_inv_def queue_ok_def assms(2) by blast+
  have Q: "distinct (data Q)" "set (data Q) = set vs" using d mset_eq_imp_distinct_iff [OF assms(3)] mset_eq_setD [OF assms(3)] by simp_all
  have "p \<in> set (data Q) \<longleftrightarrow> (colors S p = Some GRAY \<or> p = s0 \<and> colors S p = None) \<and> p \<notin> {v}" for p
  proof -
    have "p \<in> set (data Q) \<longleftrightarrow> p \<in> set (v # vs) \<and> p \<noteq> v" using d Q(2) by auto
    then show ?thesis unfolding q [of p] by blast
  qed
  moreover have "colors S v = Some GRAY \<or> v = s0 \<and> colors S v = None" unfolding q [of v, symmetric] by simp
  ultimately have "queue_ok s0 {v} (S\<lparr>queue := Q\<rparr>)" using Q(1) unfolding queue_ok_def by simp
  moreover have "preds_ok W g s0 {v} (S\<lparr>queue := Q\<rparr>)" using assms(1) unfolding search_inv_def preds_ok_def black_def by simp
  moreover have "dist_ok W s0 (S\<lparr>queue := Q\<rparr>)" "closed_ok W g (S\<lparr>queue := Q\<rparr>)"
    using assms(1) unfolding search_inv_def dist_ok_def closed_ok_def by simp_all
  ultimately show ?thesis unfolding search_inv_def by blast
qed

lemma search_inv_finish:
  assumes "search_inv W g s0 {v} S" and "\<And>d. edge W g v d \<Longrightarrow> colors S d \<noteq> None"
  shows "search_inv W g s0 {} (S\<lparr>colors := (colors S)(v \<mapsto> BLACK)\<rparr>)"
proof -
  let ?S = "S\<lparr>colors := (colors S)(v \<mapsto> BLACK)\<rparr>"
  have q: "queue_ok s0 {v} S" "preds_ok W g s0 {v} S" "dist_ok W s0 S" "closed_ok W g S" using assms(1) by (simp_all add: search_inv_def)
  have v: "colors S v = Some GRAY \<or> v = s0" using queue_okD [OF q(1)] by blast
  have b: "black ?S = black S \<union> {v}" by (auto simp: black_def)
  have "preds_ok W g s0 {} ?S"
    using q(2) v unfolding preds_ok_def b by auto
  moreover have "dist_ok W s0 ?S" using q(3) v unfolding dist_ok_def by auto
  moreover have "queue_ok s0 {} ?S" using q(1) unfolding queue_ok_def by auto
  moreover have "closed_ok W g ?S" using q(4) assms(2) unfolding closed_ok_def by auto
  ultimately show ?thesis unfolding search_inv_def by blast
qed

lemma visitPort_inv:
  assumes "graph_ok g" and "weights_ok W g" and "direction s0 = SRC" and "cache_ok W g cache" and "search_inv W g s0 {} S"
    and "\<not> heap_empty (queue S)"
  shows "\<exists>S' cache' v. visitPort W g (S, cache) = Inr (S', cache') \<and> search_inv W g s0 {} S' \<and> cache_ok W g cache'
    \<and> v \<in> nodes g s0 \<and> v \<notin> black S \<and> black S' = insert v (black S)"
proof -
  obtain v vs where v: "data (queue S) = v # vs" using assms(6) by (cases "data (queue S)") (auto simp: heap_empty_def)
  obtain Q where Q: "pop 4 (dist_at W (distance S)) (queue S) = Inr Q" "mset (data Q) = mset vs" using pop_mset [OF v] by blast
  note inv1 = search_inv_pop [OF assms(5) v Q(2)]
  obtain cache' where ch: "getChannels W g v cache = (channelsOf W g v, cache')" "cache_ok W g cache'" using getChannels_ok [OF assms(4)] by blast
  have "\<forall>d \<in> set (channelsOf W g v). edge W g v d" by (simp add: edge_def)
  from visitDests_inv [OF assms(1-3) this inv1] obtain S1 where S1: "res_fold (visitDest W g v) (channelsOf W g v) (S\<lparr>queue := Q\<rparr>) = Inr S1"
    "search_inv W g s0 {v} S1" "black S1 = black (S\<lparr>queue := Q\<rparr>)" "\<forall>d \<in> set (channelsOf W g v). colors S1 d \<noteq> None" by blast
  let ?S = "S1\<lparr>colors := (colors S1)(v \<mapsto> BLACK)\<rparr>"
  have run: "visitPort W g (S, cache) = Inr (?S, cache')" using v Q(1) ch(1) S1(1) by (simp add: visitPort_def top_def)
  have inv2: "search_inv W g s0 {} ?S" using search_inv_finish [OF S1(2)] S1(4) by (simp add: edge_def)
  have vq: "colors S v = Some GRAY \<or> v = s0 \<and> colors S v = None"
    using inv1 queue_okD [of s0 v "S\<lparr>queue := Q\<rparr>"] by (simp add: search_inv_def)
  have "black ?S = insert v (black S)" using S1(3) by (auto simp: black_def)
  moreover have "v \<notin> black S" using vq by (auto simp: black_def)
  moreover have "v \<in> nodes g s0"
  proof (cases "v = s0")
    case False
    then obtain s where "preds S v = Some s" using vq assms(5) unfolding search_inv_def preds_ok_def by auto
    then have "edge W g s v" using assms(5) preds_okD unfolding search_inv_def by blast
    then show ?thesis by (rule edge_node [OF assms(1)])
  qed (simp add: nodes_def)
  ultimately show ?thesis using run inv2 ch(2) by blast
qed

lemma search_ends:
  assumes "graph_ok g" and "weights_ok W g" and "direction s0 = SRC" and "cache_ok W g cache" and "search_inv W g s0 {} S"
  shows "\<exists>S' cache'. search W g (S, cache) = Some (Inr (S', cache')) \<and> search_inv W g s0 {} S' \<and> cache_ok W g cache'
    \<and> heap_empty (queue S')"
  using assms(4,5)
proof (induction "card (nodes g s0 - black S)" arbitrary: S cache rule: less_induct)
  case less
  show ?case
  proof (cases "heap_empty (queue S)")
    case True
    then have "search W g (S, cache) = Some (Inr (S, cache))" by (subst search.simps) simp
    then show ?thesis using less.prems True by blast
  next
    case False
    from visitPort_inv [OF assms(1-3) less.prems False] obtain S1 cache1 v where
      v: "visitPort W g (S, cache) = Inr (S1, cache1)" "search_inv W g s0 {} S1" "cache_ok W g cache1"
        "v \<in> nodes g s0" "v \<notin> black S" "black S1 = insert v (black S)" by blast
    have step: "search W g (S, cache) = search W g (S1, cache1)" using False v(1) by (subst search.simps) simp
    have "nodes g s0 - black S1 \<subset> nodes g s0 - black S" using v(4-6) by auto
    then have "card (nodes g s0 - black S1) < card (nodes g s0 - black S)" by (simp add: psubset_card_mono)
    from less.hyps [OF this v(3,2)] show ?thesis unfolding step .
  qed
qed

lemma initialSearch_inv:
  assumes "weights_ok W g"
  shows "search_inv W g src {} (initialSearch W src)"
proof -
  let ?S = "initialSearch W src"
  have q: "mset (data (queue ?S)) = {#src#}" by (simp add: initialSearch_def Let_def empty_heap_def)
  then have "data (queue ?S) = [src]" by simp
  moreover have "preds ?S = Map.empty" "colors ?S = Map.empty" "distance ?S = [src \<mapsto> w_zero W]" by (simp_all add: initialSearch_def Let_def)
  ultimately show ?thesis using assms
    by (auto simp: search_inv_def preds_ok_def dist_ok_def queue_ok_def closed_ok_def weights_ok_def)
qed

section \<open>Properties\<close>

text \<open>
  C15. The search for routes ends, without an access out of bounds, and finds exactly the ports that can be
  reached from the source; the predecessors are edges of the graph and lead back to the source.
\<close>

theorem dijkstra_routes:
  assumes "graph_ok (graph R)" and "weights_ok W (graph R)" and "cache_ok W (graph R) (channels R)" and "direction src = SRC"
  shows "\<exists>P cache. dijkstraShortestPaths W src R = Some (Inr (P, R\<lparr>channels := cache\<rparr>)) \<and> cache_ok W (graph R) cache
    \<and> dom P = {d. (edge W (graph R))\<^sup>+\<^sup>+ src d} \<and> (\<forall>d s. P d = Some s \<longrightarrow> edge W (graph R) s d \<and> rooted P src d)"
proof -
  let ?g = "graph R"
  from search_ends [OF assms(1,2,4,3) initialSearch_inv [OF assms(2)]] obtain S cache where
    S: "search W ?g (initialSearch W src, channels R) = Some (Inr (S, cache))" "search_inv W ?g src {} S" "cache_ok W ?g cache"
      "heap_empty (queue S)" by blast
  have inv: "preds_ok W ?g src {} S" "queue_ok src {} S" "closed_ok W ?g S" using S(2) by (simp_all add: search_inv_def)
  have black_if: "colors S p = Some BLACK" if "colors S p \<noteq> None \<or> p = src" for p
  proof -
    have "\<not> (colors S p = Some GRAY \<or> p = src \<and> colors S p = None)"
      using inv(2) S(4) unfolding queue_ok_def heap_empty_def by simp
    with that show ?thesis by (cases "colors S p"; cases "the (colors S p)") auto
  qed
  have found: "preds S d \<noteq> None" if "(edge W ?g)\<^sup>+\<^sup>+ src d" for d
  proof -
    have neq: "edge W ?g s d \<Longrightarrow> d \<noteq> src" for s d using edge_index [OF assms(1)] assms(4) by fastforce
    have "colors S d = Some BLACK \<and> d \<noteq> src" using that
    proof (induction rule: tranclp_induct)
      case (base d)
      then show ?case using inv(3) black_if [of src] black_if [of d] neq unfolding closed_ok_def by blast
    next
      case (step d e)
      then show ?case using inv(3) black_if [of e] neq unfolding closed_ok_def by blast
    qed
    then show ?thesis using inv(1) unfolding preds_ok_def by auto
  qed
  have chain: "(edge W ?g)\<^sup>*\<^sup>* src p" if "rooted (preds S) src p" for p
    using that
  proof induction
    case (step d s)
    then show ?case using preds_okD [OF inv(1) step.hyps(1)] by auto
  qed simp
  have good: "edge W ?g s d \<and> rooted (preds S) src d \<and> (edge W ?g)\<^sup>+\<^sup>+ src d" if p: "preds S d = Some s" for d s
  proof -
    have h: "edge W ?g s d" "rooted (preds S) src s" using preds_okD [OF inv(1) p] by blast+
    then show ?thesis using chain [OF h(2)] rooted.step [where P = "preds S", OF p h(2)] by auto
  qed
  have "dijkstraShortestPaths W src R = Some (Inr (preds S, R\<lparr>channels := cache\<rparr>))"
    using S(1) by (simp add: dijkstraShortestPaths_def)
  moreover have "dom (preds S) = {d. (edge W ?g)\<^sup>+\<^sup>+ src d}" using found good by blast
  ultimately show ?thesis using S(3) good by blast
qed


text \<open>
  A single switchbox: the DMA port leads to the SOUTH port only, and the SOUTH port, as an input, to the
  core.
\<close>

definition turnSwitch :: "enat SwitchboxConnect" where
  "turnSwitch = updateDemand sampleWeights
     ((mk_SwitchboxConnect sampleWeights (TileLoc 0 0) (TileLoc 0 0) [Port DMA 0, Port SOUTH 0] [Port CORE 0, Port SOUTH 0])
        \<lparr>connectivity := \<lambda>i j. if i \<noteq> j then AVAILABLE else INVALID\<rparr>)"

definition turnRouter :: "enat Router" where
  "turnRouter = (mk_Router 0 0)\<lparr>graph := [((TileLoc 0 0, TileLoc 0 0), turnSwitch)]\<rparr>"

lemma turn_ports: "srcPorts turnSwitch = [Port DMA 0, Port SOUTH 0]" "dstPorts turnSwitch = [Port CORE 0, Port SOUTH 0]"
    "connectivity turnSwitch i j = (if i \<noteq> j then AVAILABLE else INVALID)" "demand turnSwitch i j = 1"
  by (simp_all add: turnSwitch_def updateDemand_def mk_SwitchboxConnect_def sampleWeights_def Let_def enat_0)

lemma turn_ok: "graph_ok (graph turnRouter)" "weights_ok sampleWeights (graph turnRouter)"
    "cache_ok sampleWeights (graph turnRouter) (channels turnRouter)"
proof -
  show "graph_ok (graph turnRouter)" by (simp add: graph_ok_def turnRouter_def sb_shape_def turn_ports)
  have "a \<le> a + 1 \<and> a + 1 < \<infinity>" if "a < \<infinity>" for a :: enat using that by (cases a) (simp_all add: one_enat_def)
  then show "weights_ok sampleWeights (graph turnRouter)"
    by (auto simp: weights_ok_def turnRouter_def sampleWeights_def turn_ports)
  show "cache_ok sampleWeights (graph turnRouter) (channels turnRouter)" by (simp add: cache_ok_def turnRouter_def mk_Router_def)
qed

lemma turn_edges:
  "edge sampleWeights (graph turnRouter) s d \<longleftrightarrow>
     tileLoc s = TileLoc 0 0 \<and> (port s = Port DMA 0 \<and> d = PhysPort (TileLoc 0 0) (Port SOUTH 0) DST
        \<or> port s = Port SOUTH 0 \<and> d = PhysPort (TileLoc 0 0) (Port CORE 0) DST)"
proof -
  have "d \<notin> set (interChannels sampleWeights (graph turnRouter) s)" for d
    unfolding edge_inter by (auto simp: turnRouter_def dest: linked_neq split: if_splits)
  moreover have "d \<in> set (intraChannels sampleWeights (graph turnRouter) s) \<longleftrightarrow>
     tileLoc s = TileLoc 0 0 \<and> (port s = Port DMA 0 \<and> d = PhysPort (TileLoc 0 0) (Port SOUTH 0) DST
        \<or> port s = Port SOUTH 0 \<and> d = PhysPort (TileLoc 0 0) (Port CORE 0) DST)"
  proof (cases "tileLoc s = TileLoc 0 0")
    case True
    then have sw: "sb_at sampleWeights (graph turnRouter) (tileLoc s) (tileLoc s) = turnSwitch" by (simp add: sb_at_def turnRouter_def)
    have two: "(\<exists>i j. i < length [a, b] \<and> j < length [a', b'] \<and> [a, b] ! i = x \<and> (if i \<noteq> j then AVAILABLE else INVALID) = AVAILABLE
        \<and> d = PhysPort t ([a', b'] ! j) DST) \<longleftrightarrow> a = x \<and> d = PhysPort t b' DST \<or> b = x \<and> d = PhysPort t a' DST"
      (is "(\<exists>i j. ?Q i j) \<longleftrightarrow> ?R") for a b a' b' x :: Port and t
    proof
      assume "\<exists>i j. ?Q i j"
      then obtain i j where ij: "?Q i j" by blast
      then have "i = 0 \<or> i = 1" "j = 0 \<or> j = 1" by auto
      with ij show ?R by (elim disjE) auto
    next
      assume ?R
      then have "?Q 0 1 \<or> ?Q 1 0" by auto
      then show "\<exists>i j. ?Q i j" by blast
    qed
    show ?thesis unfolding edge_intra sw turn_ports two using True by auto
  next
    case False
    then show ?thesis using sb_at_None [of "graph turnRouter" "tileLoc s" "tileLoc s" sampleWeights]
      unfolding edge_intra by (auto simp: turnRouter_def)
  qed
  ultimately show ?thesis by (simp add: edge_def channelsOf_def)
qed

theorem dijkstra_routes_witness:
  "\<exists>P cache. dijkstraShortestPaths sampleWeights (PhysPort (TileLoc 0 0) (Port DMA 0) SRC) turnRouter
       = Some (Inr (P, turnRouter\<lparr>channels := cache\<rparr>))
     \<and> P (PhysPort (TileLoc 0 0) (Port CORE 0) DST) = Some (PhysPort (TileLoc 0 0) (Port SOUTH 0) DST)"
proof -
  let ?src = "PhysPort (TileLoc 0 0) (Port DMA 0) SRC" and ?core = "PhysPort (TileLoc 0 0) (Port CORE 0) DST"
    and ?south = "PhysPort (TileLoc 0 0) (Port SOUTH 0) DST"
  from dijkstra_routes [OF turn_ok, of ?src] obtain P cache where
    P: "dijkstraShortestPaths sampleWeights ?src turnRouter = Some (Inr (P, turnRouter\<lparr>channels := cache\<rparr>))"
      "dom P = {d. (edge sampleWeights (graph turnRouter))\<^sup>+\<^sup>+ ?src d}"
      "\<forall>d s. P d = Some s \<longrightarrow> edge sampleWeights (graph turnRouter) s d \<and> rooted P ?src d" by auto
  have "edge sampleWeights (graph turnRouter) ?src ?south" "edge sampleWeights (graph turnRouter) ?south ?core"
    by (simp_all add: turn_edges)
  then have "(edge sampleWeights (graph turnRouter))\<^sup>+\<^sup>+ ?src ?core" by (metis tranclp.simps)
  then obtain s where s: "P ?core = Some s" using P(2) by auto
  have c: "edge sampleWeights (graph turnRouter) s ?core" using P(3) s by blast
  have "rooted P ?src ?core" using P(3) s by blast
  then have r: "rooted P ?src s" by cases (use s in auto)
  have "s = ?south"
  proof (cases "s = ?src")
    case True
    then show ?thesis using c by (simp add: turn_edges)
  next
    case False
    from r obtain s1 where "P s = Some s1" by cases (use False in auto)
    then have "edge sampleWeights (graph turnRouter) s1 s" using P(3) by blast
    then show ?thesis using c by (cases s) (auto simp: turn_edges)
  qed
  with P(1) s show ?thesis by blast
qed

end
