(* ===== verification/Router_Find_Paths.thy ===== *)
theory Router_Find_Paths
  imports Router_Dijkstra
begin

text \<open>
  \<open>Router::findPaths\<close>: negotiated routing of all flows. Every round rips up all routes, routes the
  flows group by group along the cheapest routes, charges the channels they take, and is accepted
  when no channel is over its capacity; else the channels over capacity become more expensive. The
  bound \<open>maxIterations\<close> is the recursion's counter. The settings of a flow are the list of the
  entries of the \<open>std::map\<close>.
\<close>

section \<open>Model\<close>

record SwitchSetting =
  settingSrcs :: "Port list"
  settingDsts :: "Port list"

type_synonym SwitchSettings = "(TileLoc \<times> SwitchSetting) list"

text \<open>\<open>switchSettings[tile].srcs.push_back(src)\<close> and the same of \<open>dsts\<close>.\<close>

fun pushSetting :: "TileLoc \<Rightarrow> Port \<Rightarrow> Port \<Rightarrow> SwitchSettings \<Rightarrow> SwitchSettings" where
  "pushSetting t src dst [] = [(t, \<lparr>settingSrcs = [src], settingDsts = [dst]\<rparr>)]"
| "pushSetting t src dst ((t', s) # S) =
     (if t' = t then (t', \<lparr>settingSrcs = settingSrcs s @ [src], settingDsts = settingDsts s @ [dst]\<rparr>) # S
      else (t', s) # pushSetting t src dst S)"

text \<open>Computations that may not end or may go out of bounds, one after the other.\<close>

definition run_bind :: "'a result option \<Rightarrow> ('a \<Rightarrow> 'b result option) \<Rightarrow> 'b result option" where
  "run_bind m f = (case m of None \<Rightarrow> None | Some (Inl e) \<Rightarrow> Some (Inl e) | Some (Inr x) \<Rightarrow> f x)"

fun run_fold :: "('a \<Rightarrow> 's \<Rightarrow> 's result option) \<Rightarrow> 'a list \<Rightarrow> 's \<Rightarrow> 's result option" where
  "run_fold f [] s = Some (Inr s)"
| "run_fold f (x # xs) s = run_bind (f x s) (run_fold f xs)"

text \<open>\<open>preds[curr]\<close>: a port of zeros at a missing key.\<close>

definition pred_at :: "(PhysPort \<rightharpoonup> PhysPort) \<Rightarrow> PhysPort \<Rightarrow> PhysPort" where
  "pred_at P cur = (case P cur of Some p \<Rightarrow> p | None \<Rightarrow> PhysPort (TileLoc 0 0) (Port CORE 0) SRC)"

text \<open>A flow takes a channel of a switchbox.\<close>

definition chargeChannel :: "int \<Rightarrow> nat \<Rightarrow> nat \<Rightarrow> 'd SwitchboxConnect \<Rightarrow> 'd SwitchboxConnect" where
  "chargeChannel gid i j sb =
     (if gid \<ge> 0 \<and> (packetGroupId sb i j = -1 \<or> packetGroupId sb i j = gid) then
        (let sb1 = sb\<lparr>packetGroupId := \<lambda>k l. if k = i \<or> l = j then gid else packetGroupId sb k l\<rparr>;
             n = packetFlowCount sb i j + 1
         in if n \<ge> MAX_PACKET_STREAM_CAPACITY
            then sb1\<lparr>packetFlowCount := upd2 (packetFlowCount sb) i j 0, usedCapacity := upd2 (usedCapacity sb) i j (usedCapacity sb i j + 1)\<rparr>
            else sb1\<lparr>packetFlowCount := upd2 (packetFlowCount sb) i j n\<rparr>)
      else sb\<lparr>usedCapacity := upd2 (usedCapacity sb) i j (usedCapacity sb i j + 1)\<rparr>)"

text \<open>The way back from a destination, to a port that the flow has reached already.\<close>

partial_function (option) traceBack ::
  "'d weight_ops \<Rightarrow> (PhysPort \<rightharpoonup> PhysPort) \<Rightarrow> int \<Rightarrow> PhysPort \<Rightarrow> 'd sb_graph \<times> PhysPort set \<times> SwitchSettings
   \<Rightarrow> ('d sb_graph \<times> PhysPort set \<times> SwitchSettings) result option" where
  "traceBack W P gid cur st =
     (case st of (g, processed, S) \<Rightarrow>
        if cur \<in> processed then Some (Inr (g, processed, S))
        else
          (let p = pred_at P cur; sb = sb_at W g (tileLoc p) (tileLoc cur)
           in case channelIndex sb (port p) (port cur) of
                Inl e \<Rightarrow> Some (Inl e)
              | Inr (i, j) \<Rightarrow>
                  traceBack W P gid p
                    (sb_set (tileLoc p, tileLoc cur) (bumpDemand W i j (chargeChannel gid i j sb)) g,
                     insert cur processed,
                     if tileLoc p = tileLoc cur then pushSetting (tileLoc cur) (port p) (port cur) S else S)))"

definition routeDst ::
  "'d weight_ops \<Rightarrow> (PhysPort \<rightharpoonup> PhysPort) \<Rightarrow> int \<Rightarrow> PhysPort \<Rightarrow> PhysPort \<Rightarrow> 'd sb_graph \<times> PhysPort set \<times> SwitchSettings
   \<Rightarrow> ('d sb_graph \<times> PhysPort set \<times> SwitchSettings) result option" where
  "routeDst W P gid src endPoint = (\<lambda>(g, processed, S).
     traceBack W P gid endPoint
       (g, processed, if endPoint = src then pushSetting (tileLoc src) (port src) (port src) S else S))"

type_synonym solution = "PhysPort \<rightharpoonup> SwitchSettings"

definition routeFlow :: "'d :: linorder weight_ops \<Rightarrow> Flow \<Rightarrow> 'd Router \<times> solution \<Rightarrow> ('d Router \<times> solution) result option" where
  "routeFlow W f = (\<lambda>(R, sol).
     run_bind (dijkstraShortestPaths W (flowSrc f) R) (\<lambda>(P, R1).
       run_bind (run_fold (routeDst W P (flowGroupId f) (flowSrc f)) (flowDsts f) (graph R1, {flowSrc f}, []))
         (\<lambda>(g, processed, S). Some (Inr (R1\<lparr>graph := g\<rparr>, sol(flowSrc f \<mapsto> S))))))"

text \<open>At the end of a group its packet flows count as one use of a channel.\<close>

definition closeGroup :: "'d weight_ops \<Rightarrow> 'd SwitchboxConnect \<Rightarrow> 'd SwitchboxConnect" where
  "closeGroup W sb =
     (let used = (\<lambda>i j. if packetFlowCount sb i j > 0 then usedCapacity sb i j + 1 else usedCapacity sb i j)
      in sb\<lparr>usedCapacity := used,
            packetFlowCount := \<lambda>i j. if packetFlowCount sb i j > 0 then 0 else packetFlowCount sb i j,
            demand := \<lambda>i j. if used i j \<ge> MAX_CIRCUIT_STREAM_CAPACITY then w_mul W (demand sb i j) (DEMAND_COEFF W) else demand sb i j\<rparr>)"

definition routeGroup :: "'d :: linorder weight_ops \<Rightarrow> int \<Rightarrow> 'd Router \<times> solution \<Rightarrow> ('d Router \<times> solution) result option" where
  "routeGroup W gid = (\<lambda>(R, sol).
     run_bind (run_fold (routeFlow W) (filter (\<lambda>f. flowGroupId f = gid) (flows R)) (R, sol)) (\<lambda>(R1, sol1).
       Some (Inr (R1\<lparr>graph := sb_all (closeGroup W) (graph R1)\<rparr>, sol1))))"

text \<open>The keys of \<open>groupedFlows\<close>, in ascending order.\<close>

definition groupIds :: "Flow list \<Rightarrow> int list" where
  "groupIds fs = sort (remdups (map flowGroupId fs))"

definition resetHistory :: "'d SwitchboxConnect \<Rightarrow> 'd SwitchboxConnect" where
  "resetHistory sb = sb\<lparr>usedCapacity := \<lambda>_ _. 0, overCapacity := \<lambda>_ _. 0\<rparr>"

definition ripUp :: "'d SwitchboxConnect \<Rightarrow> 'd SwitchboxConnect" where
  "ripUp sb = sb\<lparr>usedCapacity := \<lambda>_ _. 0, packetFlowCount := fixedPacketFlowCount sb, packetGroupId := \<lambda>_ _. -1\<rparr>"

definition startRound :: "'d weight_ops \<Rightarrow> 'd Router \<Rightarrow> 'd Router" where
  "startRound W R = R\<lparr>graph := sb_all ripUp (sb_all (updateDemand W) (graph R))\<rparr>"

definition overCapacities :: "'d SwitchboxConnect \<Rightarrow> nat" where
  "overCapacities sb =
     length (filter (\<lambda>(i, j). usedCapacity sb i j > MAX_CIRCUIT_STREAM_CAPACITY)
       (List.product [0..<length (srcPorts sb)] [0..<length (dstPorts sb)]))"

definition illegalEdges :: "'d sb_graph \<Rightarrow> nat" where
  "illegalEdges g = sum_list (map (\<lambda>(_, sb). overCapacities sb) g)"

definition recordOver :: "'d SwitchboxConnect \<Rightarrow> 'd SwitchboxConnect" where
  "recordOver sb = sb\<lparr>overCapacity := \<lambda>i j. if usedCapacity sb i j > MAX_CIRCUIT_STREAM_CAPACITY then overCapacity sb i j + 1 else overCapacity sb i j\<rparr>"

fun rounds :: "'d :: linorder weight_ops \<Rightarrow> nat \<Rightarrow> 'd Router \<Rightarrow> (solution option \<times> 'd Router) result option" where
  "rounds W 0 R = Some (Inr (None, R))"
| "rounds W (Suc n) R =
     run_bind (run_fold (routeGroup W) (groupIds (flows R)) (startRound W R, Map.empty)) (\<lambda>(R1, sol).
       (let R2 = R1\<lparr>graph := sb_all recordOver (graph R1)\<rparr>
        in if illegalEdges (graph R1) > 0 then rounds W n R2 else Some (Inr (Some sol, R2))))"

definition findPaths :: "'d :: linorder weight_ops \<Rightarrow> int \<Rightarrow> 'd Router \<Rightarrow> (solution option \<times> 'd Router) result option" where
  "findPaths W maxIterations R = rounds W (nat maxIterations) (R\<lparr>graph := sb_all resetHistory (graph R)\<rparr>)"

section \<open>Runs\<close>

lemma run_bind_simps [simp]:
  "run_bind (Some (Inr x)) f = f x" "run_bind (Some (Inl e)) f = Some (Inl e)" "run_bind None f = None"
  by (simp_all add: run_bind_def)

lemma run_fold_rule:
  assumes "I [] s" and "\<And>ys x zs s. xs = ys @ x # zs \<Longrightarrow> I ys s \<Longrightarrow> \<exists>s'. f x s = Some (Inr s') \<and> I (ys @ [x]) s'"
  shows "\<exists>s'. run_fold f xs s = Some (Inr s') \<and> I xs s'"
proof -
  have "\<exists>s'. run_fold f zs s = Some (Inr s') \<and> I (ys @ zs) s'" if "xs = ys @ zs" "I ys s" for ys zs s
    using that
  proof (induction zs arbitrary: ys s)
    case (Cons x zs)
    then obtain s1 where s1: "f x s = Some (Inr s1)" "I (ys @ [x]) s1" using assms(2) by blast
    with Cons.IH [of "ys @ [x]" s1] Cons.prems(1) show ?case by simp
  qed simp
  from this [of "[]"] assms(1) show ?thesis by simp
qed

section \<open>What routing does not change\<close>

definition static :: "'d SwitchboxConnect \<Rightarrow> Port list \<times> Port list \<times> (nat \<Rightarrow> nat \<Rightarrow> Connectivity) \<times> (nat \<Rightarrow> nat \<Rightarrow> int)" where
  "static sb = (srcPorts sb, dstPorts sb, connectivity sb, fixedPacketFlowCount sb)"

definition same_static :: "'d sb_graph \<Rightarrow> 'd sb_graph \<Rightarrow> bool" where
  "same_static g g' \<longleftrightarrow> map fst g' = map fst g \<and> (\<forall>k. map_option static (map_of g' k) = map_option static (map_of g k))"

lemma same_static_refl [simp]: "same_static g g"
  by (simp add: same_static_def)

lemma same_static_trans: "same_static g g' \<Longrightarrow> same_static g' g'' \<Longrightarrow> same_static g g''"
  by (simp add: same_static_def)

lemma same_static_all: "(\<And>sb. static (f sb) = static sb) \<Longrightarrow> same_static g (sb_all f g)"
  by (simp add: same_static_def option.map_comp comp_def)

lemma keys_sb_set_old: "map_of g k = Some sb0 \<Longrightarrow> map fst (sb_set k sb g) = map fst g"
  by (induction k sb g rule: sb_set.induct) (auto split: if_splits)

lemma same_static_set: "map_of g k = Some sb0 \<Longrightarrow> static sb = static sb0 \<Longrightarrow> same_static g (sb_set k sb g)"
  by (simp add: same_static_def keys_sb_set_old)

lemma same_static_at:
  assumes "same_static g g'"
  shows "static (sb_at W g' s t) = static (sb_at W g s t)" and "map_of g' (s, t) = None \<longleftrightarrow> map_of g (s, t) = None"
proof -
  have m: "map_option static (map_of g' (s, t)) = map_option static (map_of g (s, t))" using assms by (simp add: same_static_def)
  then show "map_of g' (s, t) = None \<longleftrightarrow> map_of g (s, t) = None" by (metis option.map_disc_iff)
  from m show "static (sb_at W g' s t) = static (sb_at W g s t)"
    unfolding sb_at_def by (auto split: option.splits)
qed

lemma same_static_ports:
  assumes "same_static g g'"
  shows "srcPorts (sb_at W g' s t) = srcPorts (sb_at W g s t)" "dstPorts (sb_at W g' s t) = dstPorts (sb_at W g s t)"
    "connectivity (sb_at W g' s t) = connectivity (sb_at W g s t)"
  using same_static_at(1) [OF assms, of W s t] by (simp_all add: static_def)

lemma same_static_channels:
  assumes "same_static g g'"
  shows "channelsOf W g' = channelsOf W g"
proof
  fix s
  have "intraChannels W g' s = intraChannels W g s" unfolding intraChannels_def Let_def by (simp only: same_static_ports [OF assms])
  moreover have "interChannels W g' s = interChannels W g s"
    unfolding interChannels_def Let_def by (simp only: same_static_ports [OF assms] same_static_at(2) [OF assms])
  ultimately show "channelsOf W g' s = channelsOf W g s" by (simp add: channelsOf_def)
qed

lemma same_static_edge: "same_static g g' \<Longrightarrow> edge W g' = edge W g"
  by (simp add: edge_def same_static_channels fun_eq_iff)

lemma same_static_cache: "same_static g g' \<Longrightarrow> cache_ok W g' = cache_ok W g"
  by (simp add: cache_ok_def same_static_channels fun_eq_iff)

lemma same_static_index: "same_static g g' \<Longrightarrow> channelIndex (sb_at W g' s t) p q = channelIndex (sb_at W g s t) p q"
  by (simp add: channelIndex_def same_static_ports)

lemma same_static_graph_ok:
  assumes "same_static g g'" and "graph_ok g"
  shows "graph_ok g'"
proof -
  have "sb_shape t t' sb" if "map_of g' (t, t') = Some sb" for t t' sb
  proof -
    have "map_option static (map_of g (t, t')) = Some (static sb)" using assms(1) that by (metis same_static_def option.map(2))
    then obtain sb0 where sb0: "map_of g (t, t') = Some sb0" "static sb0 = static sb" by (cases "map_of g (t, t')") simp_all
    then have "srcPorts sb0 = srcPorts sb" "dstPorts sb0 = dstPorts sb" by (simp_all add: static_def)
    moreover have "sb_shape t t' sb0" using assms(2) sb0(1) unfolding graph_ok_def by blast
    ultimately show ?thesis by (simp add: sb_shape_def)
  qed
  then show ?thesis using assms by (simp add: graph_ok_def same_static_def)
qed

section \<open>Costs and loads\<close>

text \<open>
  A step of a route never shortens it and never makes it infinite; this holds for the demands the
  source computes, and is kept when they are bumped.
\<close>

definition step_ok :: "'d :: linorder weight_ops \<Rightarrow> 'd \<Rightarrow> bool" where
  "step_ok W d \<longleftrightarrow> (\<forall>a < w_INF W. a \<le> w_add W a d \<and> w_add W a d < w_INF W)"

definition arithmetic_ok :: "'d :: linorder weight_ops \<Rightarrow> bool" where
  "arithmetic_ok W \<longleftrightarrow> w_zero W < w_INF W
     \<and> (\<forall>over \<ge> 0. \<forall>used \<ge> 0. step_ok W (w_mul W
          (w_add W (DEMAND_BASE W) (w_mul W (OVER_CAPACITY_COEFF W) (w_of_int W over)))
          (w_add W (DEMAND_BASE W) (w_mul W (USED_CAPACITY_COEFF W) (w_of_int W used)))))
     \<and> (\<forall>d. step_ok W d \<longrightarrow> step_ok W (w_mul W d (DEMAND_COEFF W)))"

definition counts_ok :: "'d SwitchboxConnect \<Rightarrow> bool" where
  "counts_ok sb \<longleftrightarrow> (\<forall>i j. 0 \<le> usedCapacity sb i j \<and> 0 \<le> overCapacity sb i j \<and> 0 \<le> fixedPacketFlowCount sb i j)"

definition loads_ok :: "'d :: linorder weight_ops \<Rightarrow> 'd SwitchboxConnect \<Rightarrow> bool" where
  "loads_ok W sb \<longleftrightarrow> counts_ok sb \<and> (\<forall>i j. 0 \<le> packetFlowCount sb i j \<and> step_ok W (demand sb i j))"

definition all_sb :: "('d SwitchboxConnect \<Rightarrow> bool) \<Rightarrow> 'd sb_graph \<Rightarrow> bool" where
  "all_sb Q g \<longleftrightarrow> (\<forall>k sb. map_of g k = Some sb \<longrightarrow> Q sb)"

lemma all_sb_all: "all_sb Q g \<Longrightarrow> (\<And>sb. Q sb \<Longrightarrow> Q' (f sb)) \<Longrightarrow> all_sb Q' (sb_all f g)"
  by (auto simp: all_sb_def)

lemma all_sb_set: "all_sb Q g \<Longrightarrow> Q sb \<Longrightarrow> all_sb Q (sb_set k sb g)"
  by (auto simp: all_sb_def)

lemma loads_weights: "arithmetic_ok W \<Longrightarrow> all_sb (loads_ok W) g \<Longrightarrow> weights_ok W g"
  unfolding weights_ok_def arithmetic_ok_def all_sb_def loads_ok_def step_ok_def by blast

text \<open>The uses of a channel: those counted, and one for its packet flows that are not counted yet.\<close>

definition load :: "'d SwitchboxConnect \<Rightarrow> nat \<Rightarrow> nat \<Rightarrow> int" where
  "load sb i j = usedCapacity sb i j + (if packetFlowCount sb i j > 0 then 1 else 0)"

lemma static_charge: "static (bumpDemand W i j (chargeChannel gid i j sb)) = static sb"
  by (simp add: bumpDemand_def chargeChannel_def static_def Let_def)

lemma static_ops [simp]:
  "static (closeGroup W sb) = static sb" "static (ripUp sb) = static sb" "static (updateDemand W sb) = static sb"
  "static (recordOver sb) = static sb" "static (resetHistory sb) = static sb"
  by (simp_all add: static_def closeGroup_def ripUp_def updateDemand_def recordOver_def resetHistory_def Let_def)

lemma bumpDemand_fields [simp]:
  "usedCapacity (bumpDemand W i j sb) = usedCapacity sb" "packetFlowCount (bumpDemand W i j sb) = packetFlowCount sb"
  "overCapacity (bumpDemand W i j sb) = overCapacity sb" "fixedPacketFlowCount (bumpDemand W i j sb) = fixedPacketFlowCount sb"
  by (simp_all add: bumpDemand_def)

lemma chargeChannel_fields [simp]:
  "overCapacity (chargeChannel gid i j sb) = overCapacity sb" "fixedPacketFlowCount (chargeChannel gid i j sb) = fixedPacketFlowCount sb"
  "demand (chargeChannel gid i j sb) = demand sb"
  by (simp_all add: chargeChannel_def Let_def)

lemma charge_other: "(k, l) \<noteq> (i, j) \<Longrightarrow> usedCapacity (chargeChannel gid i j sb) k l = usedCapacity sb k l
    \<and> packetFlowCount (chargeChannel gid i j sb) k l = packetFlowCount sb k l"
  by (auto simp: chargeChannel_def Let_def upd2_def)

lemma charge_circuit: "gid < 0 \<Longrightarrow> usedCapacity (chargeChannel gid i j sb) i j = usedCapacity sb i j + 1
    \<and> packetFlowCount (chargeChannel gid i j sb) i j = packetFlowCount sb i j"
  by (simp add: chargeChannel_def upd2_def)

lemma charge_load:
  assumes "0 \<le> packetFlowCount sb i j"
  shows "load sb i j \<le> load (chargeChannel gid i j sb) i j" and "packetFlowCount sb i j = 0 \<Longrightarrow> load (chargeChannel gid i j sb) i j = load sb i j + 1"
    and "0 \<le> packetFlowCount (chargeChannel gid i j sb) i j" and "usedCapacity sb i j \<le> usedCapacity (chargeChannel gid i j sb) i j"
  using assms by (auto simp: load_def chargeChannel_def Let_def upd2_def MAX_PACKET_STREAM_CAPACITY_def)

lemma loads_charge:
  assumes "arithmetic_ok W" and "loads_ok W sb"
  shows "loads_ok W (bumpDemand W i j (chargeChannel gid i j sb))"
proof -
  let ?sb = "bumpDemand W i j (chargeChannel gid i j sb)"
  have "0 \<le> usedCapacity ?sb k l \<and> 0 \<le> packetFlowCount ?sb k l \<and> step_ok W (demand ?sb k l)" for k l
  proof -
    have "0 \<le> usedCapacity sb k l" "0 \<le> packetFlowCount sb k l" "step_ok W (demand sb k l)" using assms(2) by (simp_all add: loads_ok_def counts_ok_def)
    moreover have "step_ok W (demand ?sb k l)"
      using assms calculation(3) by (auto simp: bumpDemand_def upd2_def arithmetic_ok_def)
    ultimately show ?thesis using charge_load(3,4) [of sb k l gid] charge_other [of k l i j gid sb] by (cases "(k, l) = (i, j)") auto
  qed
  then show ?thesis using assms(2) by (simp add: loads_ok_def counts_ok_def)
qed

lemma loads_close:
  assumes "arithmetic_ok W" and "loads_ok W sb"
  shows "loads_ok W (closeGroup W sb)" and "load (closeGroup W sb) i j = load sb i j" and "packetFlowCount (closeGroup W sb) i j = 0"
proof -
  have n: "0 \<le> packetFlowCount sb i j" for i j using assms(2) by (simp add: loads_ok_def)
  show "loads_ok W (closeGroup W sb)"
    using assms by (auto simp: loads_ok_def counts_ok_def closeGroup_def Let_def arithmetic_ok_def intro: add_nonneg_nonneg)
  show "load (closeGroup W sb) i j = load sb i j" by (simp add: closeGroup_def load_def Let_def)
  show "packetFlowCount (closeGroup W sb) i j = 0" using n [of i j] by (simp add: closeGroup_def Let_def)
qed

lemma loads_start:
  assumes "arithmetic_ok W" and "counts_ok sb"
  shows "loads_ok W (ripUp (updateDemand W sb))"
  using assms by (auto simp: loads_ok_def counts_ok_def ripUp_def updateDemand_def arithmetic_ok_def Let_def)

section \<open>The settings of a flow\<close>

text \<open>The connections a list of settings makes at a tile, and routes over them.\<close>

definition pairs :: "SwitchSettings \<Rightarrow> TileLoc \<Rightarrow> (Port \<times> Port) set" where
  "pairs S t = (case map_of S t of None \<Rightarrow> {} | Some s \<Rightarrow> set (zip (settingSrcs s) (settingDsts s)))"

definition settings_ok :: "SwitchSettings \<Rightarrow> bool" where
  "settings_ok S \<longleftrightarrow> distinct (map fst S) \<and> (\<forall>t s. map_of S t = Some s \<longrightarrow> length (settingSrcs s) = length (settingDsts s))"

lemma map_of_pushSetting: "map_of (pushSetting t a b S) =
    (map_of S)(t \<mapsto> case map_of S t of None \<Rightarrow> \<lparr>settingSrcs = [a], settingDsts = [b]\<rparr>
       | Some s \<Rightarrow> \<lparr>settingSrcs = settingSrcs s @ [a], settingDsts = settingDsts s @ [b]\<rparr>)"
  by (induction t a b S rule: pushSetting.induct) (auto simp: fun_eq_iff)

lemma keys_pushSetting: "set (map fst (pushSetting t a b S)) = insert t (set (map fst S))"
  by (induction t a b S rule: pushSetting.induct) auto

lemma settings_ok_push: "settings_ok S \<Longrightarrow> settings_ok (pushSetting t a b S)"
proof -
  assume S: "settings_ok S"
  have "distinct (map fst S) \<Longrightarrow> distinct (map fst (pushSetting t a b S))"
  proof (induction t a b S rule: pushSetting.induct)
    case (2 t a b t' s S)
    then show ?case using keys_pushSetting [of t a b S] by auto
  qed simp
  with S show ?thesis by (auto simp: settings_ok_def map_of_pushSetting split: option.splits)
qed

lemma pairs_push: "settings_ok S \<Longrightarrow> pairs (pushSetting t a b S) u = (if u = t then insert (a, b) (pairs S u) else pairs S u)"
  by (auto simp: pairs_def map_of_pushSetting settings_ok_def split: option.splits)

inductive routed :: "'d weight_ops \<Rightarrow> 'd sb_graph \<Rightarrow> SwitchSettings \<Rightarrow> PhysPort \<Rightarrow> PhysPort \<Rightarrow> bool" for W g S src where
  start: "routed W g S src src"
| hop: "routed W g S src p \<Longrightarrow> edge W g p q \<Longrightarrow> (tileLoc p = tileLoc q \<longrightarrow> (port p, port q) \<in> pairs S (tileLoc q))
    \<Longrightarrow> routed W g S src q"

section \<open>The way back\<close>

text \<open>The connections of the ports the flow has reached.\<close>

definition taken :: "(PhysPort \<rightharpoonup> PhysPort) \<Rightarrow> PhysPort set \<Rightarrow> TileLoc \<Rightarrow> (Port \<times> Port) set" where
  "taken P pr t = {(port p, port q) | p q. q \<in> pr \<and> P q = Some p \<and> tileLoc p = t \<and> tileLoc q = t}"

lemma taken_insert:
  assumes "P q = Some p"
  shows "taken P (insert q pr) t = (if tileLoc p = t \<and> tileLoc q = t then insert (port p, port q) (taken P pr t) else taken P pr t)"
  using assms by (auto simp: taken_def)

definition charge :: "'d weight_ops \<Rightarrow> int \<Rightarrow> PhysPort \<Rightarrow> PhysPort \<Rightarrow> nat \<times> nat \<Rightarrow> 'd sb_graph \<Rightarrow> 'd sb_graph" where
  "charge W gid p q ij g = sb_set (tileLoc p, tileLoc q)
     (bumpDemand W (fst ij) (snd ij) (chargeChannel gid (fst ij) (snd ij) (sb_at W g (tileLoc p) (tileLoc q)))) g"

text \<open>
  The invariant \<open>I\<close> of the graph and the reached ports is kept whenever a channel is charged that leads
  to a port not yet reached.
\<close>

definition kept :: "'d weight_ops \<Rightarrow> (PhysPort \<rightharpoonup> PhysPort) \<Rightarrow> int \<Rightarrow> ('d sb_graph \<Rightarrow> PhysPort set \<Rightarrow> bool) \<Rightarrow> bool" where
  "kept W P gid I \<longleftrightarrow> (\<forall>g pr p q. I g pr \<longrightarrow> P q = Some p \<longrightarrow> q \<notin> pr \<longrightarrow>
     (\<exists>ij. channelIndex (sb_at W g (tileLoc p) (tileLoc q)) (port p) (port q) = Inr ij \<and> I (charge W gid p q ij g) (insert q pr)))"

lemma traceBack_rule:
  assumes kept: "kept W P gid I" and "rooted P src cur"
    and "I g pr" and "src \<in> pr" and "settings_ok S" and "\<And>t. pairs S t = taken P pr t"
    and "\<forall>q \<in> pr. q = src \<or> (\<exists>p. P q = Some p \<and> (p \<in> pr \<or> p = cur))"
  shows "\<exists>g' pr' S'. traceBack W P gid cur (g, pr, S) = Some (Inr (g', pr', S')) \<and> I g' pr' \<and> pr \<subseteq> pr' \<and> cur \<in> pr'
    \<and> settings_ok S' \<and> (\<forall>t. pairs S' t = taken P pr' t) \<and> (\<forall>q \<in> pr'. q = src \<or> (\<exists>p \<in> pr'. P q = Some p))"
  using assms(2-7)
proof (induction arbitrary: g pr S)
  case root
  have "traceBack W P gid src (g, pr, S) = Some (Inr (g, pr, S))" using root.prems(2) by (subst traceBack.simps) simp
  then show ?case using root.prems by blast
next
  case (step d s)
  show ?case
  proof (cases "d \<in> pr")
    case True
    have "traceBack W P gid d (g, pr, S) = Some (Inr (g, pr, S))" using True by (subst traceBack.simps) simp
    then show ?thesis using step.prems True by blast
  next
    case False
    obtain ij where ij: "channelIndex (sb_at W g (tileLoc s) (tileLoc d)) (port s) (port d) = Inr ij"
      "I (charge W gid s d ij g) (insert d pr)" using kept step.prems(1) step.hyps(1) False unfolding kept_def by blast
    let ?S = "if tileLoc s = tileLoc d then pushSetting (tileLoc d) (port s) (port d) S else S"
    have run: "traceBack W P gid d (g, pr, S) = traceBack W P gid s (charge W gid s d ij g, insert d pr, ?S)"
      using False ij(1) step.hyps(1) by (subst traceBack.simps) (simp add: pred_at_def Let_def charge_def case_prod_unfold)
    have a: "src \<in> insert d pr" using step.prems(2) by simp
    have b: "settings_ok ?S" using step.prems(3) settings_ok_push by auto
    have c: "pairs ?S t = taken P (insert d pr) t" for t
      using step.prems(3,4) pairs_push taken_insert [where P = P, OF step.hyps(1)] by auto
    have e: "\<forall>q \<in> insert d pr. q = src \<or> (\<exists>p. P q = Some p \<and> (p \<in> insert d pr \<or> p = s))"
      using step.prems(5) step.hyps(1) by blast
    from step.IH [OF ij(2) a b c e] obtain g' pr' S' where
      r: "traceBack W P gid s (charge W gid s d ij g, insert d pr, ?S) = Some (Inr (g', pr', S'))"
      "I g' pr'" "insert d pr \<subseteq> pr'" "settings_ok S'" "\<forall>t. pairs S' t = taken P pr' t"
      "\<forall>q \<in> pr'. q = src \<or> (\<exists>p \<in> pr'. P q = Some p)" by blast
    from r(3) have "pr \<subseteq> pr'" "d \<in> pr'" by auto
    with r show ?thesis unfolding run by blast
  qed
qed

lemma routeDsts_rule:
  assumes kept: "kept W P gid I" and "\<forall>d \<in> set ds. rooted P src d \<and> d \<noteq> src" and "I g {src}"
    and "P src = None"
  shows "\<exists>g' pr S. run_fold (routeDst W P gid src) ds (g, {src}, []) = Some (Inr (g', pr, S)) \<and> I g' pr \<and> set ds \<subseteq> pr
    \<and> src \<in> pr \<and> settings_ok S \<and> (\<forall>t. pairs S t = taken P pr t) \<and> (\<forall>q \<in> pr. q = src \<or> (\<exists>p \<in> pr. P q = Some p))"
proof -
  let ?J = "\<lambda>done (g', pr, S). I g' pr \<and> set done \<subseteq> pr \<and> src \<in> pr \<and> settings_ok S \<and> (\<forall>t. pairs S t = taken P pr t)
    \<and> (\<forall>q \<in> pr. q = src \<or> (\<exists>p \<in> pr. P q = Some p))"
  have "\<exists>s'. run_fold (routeDst W P gid src) ds (g, {src}, []) = Some (Inr s') \<and> ?J ds s'"
  proof (rule run_fold_rule [where I = ?J])
    show "?J [] (g, {src}, [])" using assms(3,4) by (auto simp: settings_ok_def pairs_def taken_def)
    fix ys d zs s assume ds: "ds = ys @ d # zs" and J: "?J ys s"
    obtain g1 pr1 S1 where s: "s = (g1, pr1, S1)" by (cases s)
    have d: "rooted P src d" "d \<noteq> src" using assms(2) ds by auto
    have h: "I g1 pr1" "src \<in> pr1" "settings_ok S1" "\<And>t. pairs S1 t = taken P pr1 t" "set ys \<subseteq> pr1"
      "\<forall>q \<in> pr1. q = src \<or> (\<exists>p. P q = Some p \<and> (p \<in> pr1 \<or> p = d))" using J s by auto
    from traceBack_rule [OF kept d(1) h(1-4,6)] obtain g2 pr2 S2 where
      r: "traceBack W P gid d (g1, pr1, S1) = Some (Inr (g2, pr2, S2))" "I g2 pr2" "pr1 \<subseteq> pr2" "d \<in> pr2" "settings_ok S2"
      "\<forall>t. pairs S2 t = taken P pr2 t" "\<forall>q \<in> pr2. q = src \<or> (\<exists>p \<in> pr2. P q = Some p)" by blast
    have "routeDst W P gid src d s = Some (Inr (g2, pr2, S2))" using r(1) d(2) s by (simp add: routeDst_def)
    moreover have "?J (ys @ [d]) (g2, pr2, S2)" using r h(2,5) by auto
    ultimately show "\<exists>s'. routeDst W P gid src d s = Some (Inr s') \<and> ?J (ys @ [d]) s'" by blast
  qed
  then show ?thesis by auto
qed

lemma routed_taken:
  assumes "\<forall>d s. P d = Some s \<longrightarrow> edge W g s d" and "\<forall>t. pairs S t = taken P pr t"
    and "\<forall>q \<in> pr. q = src \<or> (\<exists>p \<in> pr. P q = Some p)" and "rooted P src d" and "d \<in> pr"
  shows "routed W g S src d"
  using assms(4,5)
proof induction
  case (step d s)
  show ?case
  proof (cases "d = src")
    case False
    then have "s \<in> pr" using assms(3) step.hyps(1) step.prems by force
    then have "routed W g S src s" by (rule step.IH)
    moreover have "edge W g s d" using assms(1) step.hyps(1) by blast
    moreover have "tileLoc s = tileLoc d \<longrightarrow> (port s, port d) \<in> pairs S (tileLoc d)"
      using assms(2) step.hyps(1) step.prems by (auto simp: taken_def)
    ultimately show ?thesis by (rule routed.hop)
  qed (simp add: routed.start)
qed (rule routed.start)

section \<open>What a flow does to the loads\<close>

definition load_at :: "'d weight_ops \<Rightarrow> 'd sb_graph \<Rightarrow> TileLoc \<Rightarrow> TileLoc \<Rightarrow> nat \<Rightarrow> nat \<Rightarrow> int" where
  "load_at W g t t' i j = load (sb_at W g t t') i j"

definition count_at :: "'d weight_ops \<Rightarrow> 'd sb_graph \<Rightarrow> TileLoc \<Rightarrow> TileLoc \<Rightarrow> nat \<Rightarrow> nat \<Rightarrow> int" where
  "count_at W g t t' i j = packetFlowCount (sb_at W g t t') i j"

text \<open>The next use of the channel brings its load above \<open>x\<close>, if it is not above already.\<close>

definition ready :: "'d weight_ops \<Rightarrow> int \<Rightarrow> 'd sb_graph \<Rightarrow> TileLoc \<Rightarrow> TileLoc \<Rightarrow> nat \<Rightarrow> nat \<Rightarrow> bool" where
  "ready W x g t t' i j \<longleftrightarrow> x < load_at W g t t' i j \<or> (x \<le> load_at W g t t' i j \<and> count_at W g t t' i j = 0)"

definition grown :: "'d weight_ops \<Rightarrow> 'd sb_graph \<Rightarrow> 'd sb_graph \<Rightarrow> bool" where
  "grown W g g' \<longleftrightarrow> (\<forall>t t' i j. load_at W g t t' i j \<le> load_at W g' t t' i j \<and> (\<forall>x. ready W x g t t' i j \<longrightarrow> ready W x g' t t' i j))"

definition charged :: "'d weight_ops \<Rightarrow> int \<Rightarrow> 'd sb_graph \<Rightarrow> 'd sb_graph \<Rightarrow> TileLoc \<Rightarrow> TileLoc \<Rightarrow> nat \<Rightarrow> nat \<Rightarrow> bool" where
  "charged W gid g g' t t' i j \<longleftrightarrow> (if gid < 0 then load_at W g t t' i j < load_at W g' t t' i j
     else \<forall>x. ready W x g t t' i j \<longrightarrow> x < load_at W g' t t' i j)"

lemma grown_refl [simp]: "grown W g g"
  by (simp add: grown_def)

lemma grown_trans: "grown W g g' \<Longrightarrow> grown W g' g'' \<Longrightarrow> grown W g g''"
  unfolding grown_def by (meson order_trans)

lemma charged_grown: "charged W gid g g' t t' i j \<Longrightarrow> grown W g' g'' \<Longrightarrow> charged W gid g g'' t t' i j"
  unfolding charged_def grown_def by (meson order_less_le_trans)

lemma grown_charged: "grown W g g' \<Longrightarrow> charged W gid g' g'' t t' i j \<Longrightarrow> charged W gid g g'' t t' i j"
  unfolding charged_def grown_def by (meson order_le_less_trans)

lemma sb_at_loads: "all_sb (loads_ok W) g \<Longrightarrow> 0 \<le> count_at W g t t' i j \<and> 0 \<le> load_at W g t t' i j"
  by (cases "map_of g (t, t')")
    (auto simp: all_sb_def count_at_def load_at_def load_def sb_at_def mk_SwitchboxConnect_def loads_ok_def counts_ok_def)

lemma charge_graph:
  assumes "arithmetic_ok W" and "all_sb (loads_ok W) g"
    and "channelIndex (sb_at W g (tileLoc p) (tileLoc q)) (port p) (port q) = Inr (i, j)"
  shows "same_static g (charge W gid p q (i, j) g) \<and> all_sb (loads_ok W) (charge W gid p q (i, j) g)
    \<and> grown W g (charge W gid p q (i, j) g) \<and> charged W gid g (charge W gid p q (i, j) g) (tileLoc p) (tileLoc q) i j"
proof -
  let ?s = "tileLoc p" and ?t = "tileLoc q"
  let ?g = "charge W gid p q (i, j) g" and ?sb = "sb_at W g (tileLoc p) (tileLoc q)"
  let ?new = "bumpDemand W i j (chargeChannel gid i j ?sb)"
  obtain sb where sb: "map_of g (?s, ?t) = Some sb" "?sb = sb"
    using assms(3) sb_at_None [of g ?s ?t W] by (cases "map_of g (?s, ?t)") (auto simp: channelIndex_def Let_def sb_at_def)
  have g: "?g = sb_set (?s, ?t) ?new g" by (simp add: charge_def)
  have at: "sb_at W ?g t t' = (if t = ?s \<and> t' = ?t then ?new else sb_at W g t t')" for t t' by (simp add: g sb_at_def)
  have ok: "loads_ok W sb" using assms(2) sb(1) by (auto simp: all_sb_def)
  then have n: "0 \<le> packetFlowCount sb i j" by (simp add: loads_ok_def)
  have other: "load_at W ?g t t' k l = load_at W g t t' k l \<and> count_at W ?g t t' k l = count_at W g t t' k l"
    if "\<not> (t = ?s \<and> t' = ?t \<and> k = i \<and> l = j)" for t t' k l
    using that charge_other [of k l i j gid sb] sb(2) by (auto simp: load_at_def count_at_def at load_def)
  have new: "load (bumpDemand W i j (chargeChannel gid i j sb)) = load (chargeChannel gid i j sb)" by (simp add: load_def fun_eq_iff)
  note L = charge_load [OF n, of gid]
  have own: "load_at W g ?s ?t i j \<le> load_at W ?g ?s ?t i j"
    "gid < 0 \<Longrightarrow> load_at W ?g ?s ?t i j = load_at W g ?s ?t i j + 1 \<and> count_at W ?g ?s ?t i j = count_at W g ?s ?t i j"
    "count_at W g ?s ?t i j = 0 \<Longrightarrow> load_at W ?g ?s ?t i j = load_at W g ?s ?t i j + 1"
    using L(1,2) charge_circuit [of gid i j sb] sb(2) by (simp_all add: load_at_def count_at_def at new) (simp add: load_def)
  have "same_static g ?g" unfolding g by (rule same_static_set [OF sb(1)]) (simp add: static_charge sb(2))
  moreover have "all_sb (loads_ok W) ?g" unfolding g using assms(1,2) loads_charge [OF assms(1) ok] sb(2) by (simp add: all_sb_set)
  moreover have "grown W g ?g"
    unfolding grown_def
  proof (intro allI)
    fix t t' k l
    show "load_at W g t t' k l \<le> load_at W ?g t t' k l \<and> (\<forall>x. ready W x g t t' k l \<longrightarrow> ready W x ?g t t' k l)"
    proof (cases "t = ?s \<and> t' = ?t \<and> k = i \<and> l = j")
      case True
      then show ?thesis using own(1,3) unfolding ready_def by auto
    next
      case False
      show ?thesis unfolding ready_def using other [OF False] by simp
    qed
  qed
  moreover have "charged W gid g ?g ?s ?t i j"
    using own unfolding charged_def ready_def by auto
  ultimately show ?thesis by blast
qed

text \<open>The invariant of a flow on its way through the graph.\<close>

definition flow_inv :: "'d :: linorder weight_ops \<Rightarrow> (PhysPort \<rightharpoonup> PhysPort) \<Rightarrow> int \<Rightarrow> 'd sb_graph \<Rightarrow> 'd sb_graph \<Rightarrow> PhysPort set \<Rightarrow> bool" where
  "flow_inv W P gid g0 g pr \<longleftrightarrow> same_static g0 g \<and> all_sb (loads_ok W) g \<and> grown W g0 g
     \<and> (\<forall>q \<in> pr. \<forall>p i j. P q = Some p \<longrightarrow> channelIndex (sb_at W g0 (tileLoc p) (tileLoc q)) (port p) (port q) = Inr (i, j)
          \<longrightarrow> charged W gid g0 g (tileLoc p) (tileLoc q) i j)"

lemma flow_invD:
  "flow_inv W P gid g0 g pr \<Longrightarrow> q \<in> pr \<Longrightarrow> P q = Some p
     \<Longrightarrow> channelIndex (sb_at W g0 (tileLoc p) (tileLoc q)) (port p) (port q) = Inr (i, j)
     \<Longrightarrow> charged W gid g0 g (tileLoc p) (tileLoc q) i j"
  unfolding flow_inv_def by blast

lemma flow_inv_kept:
  assumes "arithmetic_ok W" and "graph_ok g0" and "\<forall>d s. P d = Some s \<longrightarrow> edge W g0 s d"
  shows "kept W P gid (flow_inv W P gid g0)"
  unfolding kept_def
proof (intro allI impI)
  fix g pr p q assume inv: "flow_inv W P gid g0 g pr" and q: "P q = Some p" "q \<notin> pr"
  have ss: "same_static g0 g" and ld: "all_sb (loads_ok W) g" and gr: "grown W g0 g" using inv by (simp_all add: flow_inv_def)
  have "edge W g0 p q" using assms(3) q(1) by blast
  from edge_index [OF assms(2) this] obtain i j where
    ij: "channelIndex (sb_at W g0 (tileLoc p) (tileLoc q)) (port p) (port q) = Inr (i, j)" by blast
  then have ij': "channelIndex (sb_at W g (tileLoc p) (tileLoc q)) (port p) (port q) = Inr (i, j)"
    by (simp add: same_static_index [OF ss])
  note c = charge_graph [OF assms(1) ld ij', of gid]
  let ?g = "charge W gid p q (i, j) g"
  have "charged W gid g0 ?g (tileLoc p') (tileLoc q') i' j'"
    if "q' \<in> insert q pr" "P q' = Some p'" "channelIndex (sb_at W g0 (tileLoc p') (tileLoc q')) (port p') (port q') = Inr (i', j')"
    for q' p' i' j'
  proof (cases "q' = q")
    case True
    then show ?thesis using that ij q(1) c grown_charged [OF gr] by auto
  next
    case False
    then have "charged W gid g0 g (tileLoc p') (tileLoc q') i' j'" using that inv by (auto simp: flow_inv_def)
    then show ?thesis using c charged_grown by blast
  qed
  moreover have "same_static g0 ?g" using c ss same_static_trans by blast
  moreover have "grown W g0 ?g" using c gr grown_trans by blast
  ultimately have "flow_inv W P gid g0 ?g (insert q pr)" using c unfolding flow_inv_def by blast
  with ij' show "\<exists>ij. channelIndex (sb_at W g (tileLoc p) (tileLoc q)) (port p) (port q) = Inr ij
      \<and> flow_inv W P gid g0 (charge W gid p q ij g) (insert q pr)" by blast
qed

text \<open>What holds of a router while flows are routed.\<close>

definition router_ok :: "'d :: linorder weight_ops \<Rightarrow> 'd Router \<Rightarrow> bool" where
  "router_ok W R \<longleftrightarrow> graph_ok (graph R) \<and> cache_ok W (graph R) (channels R)"

definition flow_reachable :: "'d weight_ops \<Rightarrow> 'd sb_graph \<Rightarrow> Flow \<Rightarrow> bool" where
  "flow_reachable W g f \<longleftrightarrow> direction (flowSrc f) = SRC \<and> (\<forall>d \<in> set (flowDsts f). (edge W g)\<^sup>+\<^sup>+ (flowSrc f) d)"

lemma routeFlow_rule:
  assumes "arithmetic_ok W" and "router_ok W R" and "all_sb (loads_ok W) (graph R)" and "flow_reachable W (graph R) f"
  shows "\<exists>g' cache S. routeFlow W f (R, sol) = Some (Inr (R\<lparr>channels := cache, graph := g'\<rparr>, sol(flowSrc f \<mapsto> S)))
    \<and> same_static (graph R) g' \<and> cache_ok W (graph R) cache \<and> all_sb (loads_ok W) g' \<and> grown W (graph R) g'
    \<and> settings_ok S \<and> (\<forall>d \<in> set (flowDsts f). routed W (graph R) S (flowSrc f) d)
    \<and> (\<forall>t s d. (s, d) \<in> pairs S t \<longrightarrow> (\<exists>i j. channelIndex (sb_at W (graph R) t t) s d = Inr (i, j)
          \<and> charged W (flowGroupId f) (graph R) g' t t i j))"
proof -
  let ?g = "graph R" and ?src = "flowSrc f" and ?gid = "flowGroupId f"
  have gok: "graph_ok ?g" "cache_ok W ?g (channels R)" using assms(2) by (simp_all add: router_ok_def)
  have src: "direction ?src = SRC" "\<And>d. d \<in> set (flowDsts f) \<Longrightarrow> (edge W ?g)\<^sup>+\<^sup>+ ?src d" using assms(4) by (auto simp: flow_reachable_def)
  obtain P cache where P: "dijkstraShortestPaths W ?src R = Some (Inr (P, R\<lparr>channels := cache\<rparr>))" "cache_ok W ?g cache"
    "dom P = {d. (edge W ?g)\<^sup>+\<^sup>+ ?src d}" "\<forall>d s. P d = Some s \<longrightarrow> edge W ?g s d \<and> rooted P ?src d"
    using dijkstra_routes [OF gok(1) loads_weights [OF assms(1,3)] gok(2) src(1)] by blast
  have edges: "\<forall>d s. P d = Some s \<longrightarrow> edge W ?g s d" using P(4) by blast
  have psrc: "P ?src = None" using edges edge_index [OF gok(1)] src(1) by (cases "P ?src") fastforce+
  have dsts: "rooted P ?src d \<and> d \<noteq> ?src" if "d \<in> set (flowDsts f)" for d
  proof -
    have "d \<in> dom P" using src(2) [OF that] P(3) by blast
    then show ?thesis using P(4) psrc by auto
  qed
  have init: "flow_inv W P ?gid ?g ?g {?src}" using assms(3) psrc by (simp add: flow_inv_def)
  have "\<forall>d \<in> set (flowDsts f). rooted P ?src d \<and> d \<noteq> ?src" using dsts by blast
  from routeDsts_rule [OF flow_inv_kept [OF assms(1) gok(1) edges] this init psrc] obtain g' pr S where
    r: "run_fold (routeDst W P ?gid ?src) (flowDsts f) (?g, {?src}, []) = Some (Inr (g', pr, S))" "flow_inv W P ?gid ?g g' pr"
      "set (flowDsts f) \<subseteq> pr" "settings_ok S" "\<forall>t. pairs S t = taken P pr t"
      "\<forall>q \<in> pr. q = ?src \<or> (\<exists>p \<in> pr. P q = Some p)" by blast
  have run: "routeFlow W f (R, sol) = Some (Inr (R\<lparr>channels := cache, graph := g'\<rparr>, sol(?src \<mapsto> S)))"
    using P(1) r(1) by (simp add: routeFlow_def)
  have "routed W ?g S ?src d" if "d \<in> set (flowDsts f)" for d
    by (rule routed_taken [OF edges r(5,6)]) (use dsts [OF that] that r(3) in auto)
  moreover have "\<exists>i j. channelIndex (sb_at W ?g t t) s d = Inr (i, j) \<and> charged W ?gid ?g g' t t i j" if "(s, d) \<in> pairs S t" for t s d
  proof -
    from that r(5) obtain p q where pq: "q \<in> pr" "P q = Some p" "tileLoc p = t" "tileLoc q = t" "s = port p" "d = port q"
      by (auto simp: taken_def)
    have "edge W ?g p q" using edges pq(2) by blast
    from edge_index [OF gok(1) this] pq obtain i j where "channelIndex (sb_at W ?g t t) s d = Inr (i, j)" by auto
    moreover have "charged W ?gid ?g g' (tileLoc p) (tileLoc q) i j"
      by (rule flow_invD [OF r(2) pq(1,2)]) (use calculation pq in simp)
    ultimately show ?thesis using pq by auto
  qed
  ultimately show ?thesis using run r(2,4) P(2) unfolding flow_inv_def by blast
qed

section \<open>Groups and rounds\<close>

lemma routed_static: "same_static g0 g \<Longrightarrow> routed W g S src d \<longleftrightarrow> routed W g0 S src d"
proof -
  assume "same_static g0 g"
  note e = same_static_edge [OF this, of W]
  have "routed W g S src d \<Longrightarrow> routed W g0 S src d" by (induction rule: routed.induct) (auto intro: routed.intros simp: e)
  moreover have "routed W g0 S src d \<Longrightarrow> routed W g S src d" by (induction rule: routed.induct) (auto intro: routed.intros simp: e)
  ultimately show ?thesis by blast
qed

text \<open>A flow's settings use the connection \<open>i, j\<close> of the switchbox at \<open>t\<close>.\<close>

definition uses :: "'d weight_ops \<Rightarrow> 'd sb_graph \<Rightarrow> solution \<Rightarrow> Flow \<Rightarrow> TileLoc \<Rightarrow> nat \<Rightarrow> nat \<Rightarrow> bool" where
  "uses W g0 sol f t i j \<longleftrightarrow>
     (\<exists>S s d. sol (flowSrc f) = Some S \<and> (s, d) \<in> pairs S t \<and> channelIndex (sb_at W g0 t t) s d = Inr (i, j))"

text \<open>Two flows that must not share a connection: all but packet flows of one group.\<close>

definition conflict :: "Flow \<Rightarrow> Flow \<Rightarrow> bool" where
  "conflict f1 f2 \<longleftrightarrow> f1 \<noteq> f2 \<and> (flowGroupId f1 = flowGroupId f2 \<longrightarrow> flowGroupId f1 < 0)"

definition served :: "'d weight_ops \<Rightarrow> 'd sb_graph \<Rightarrow> solution \<Rightarrow> Flow \<Rightarrow> bool" where
  "served W g0 sol f \<longleftrightarrow> (\<exists>S. sol (flowSrc f) = Some S \<and> settings_ok S \<and> (\<forall>d \<in> set (flowDsts f). routed W g0 S (flowSrc f) d)
     \<and> (\<forall>t s d. (s, d) \<in> pairs S t \<longrightarrow> (\<exists>i j. channelIndex (sb_at W g0 t t) s d = Inr (i, j))))"

text \<open>
  The load that the routed flows \<open>F\<close> have put on a connection. A packet flow routed before counts as a
  use of its own, but for the packet flows of the group that is routed first, whose id is \<open>fst_id\<close>.
\<close>

definition counted_twice :: "int \<Rightarrow> int \<Rightarrow> bool" where
  "counted_twice fst_id gid \<longleftrightarrow> gid < 0 \<or> gid \<noteq> fst_id"

definition loaded :: "int \<Rightarrow> 'd weight_ops \<Rightarrow> 'd sb_graph \<Rightarrow> Flow set \<Rightarrow> solution \<Rightarrow> 'd sb_graph \<Rightarrow> TileLoc \<Rightarrow> nat \<Rightarrow> nat \<Rightarrow> bool" where
  "loaded h W g0 F sol g t i j \<longleftrightarrow>
     (\<forall>f \<in> F. uses W g0 sol f t i j \<longrightarrow> 1 \<le> load_at W g t t i j)
     \<and> (\<forall>f1 \<in> F. \<forall>f2 \<in> F. conflict f1 f2 \<longrightarrow> uses W g0 sol f1 t i j \<longrightarrow> uses W g0 sol f2 t i j \<longrightarrow> 2 \<le> load_at W g t t i j)
     \<and> (0 < fixedPacketFlowCount (sb_at W g0 t t) i j \<longrightarrow> 1 \<le> load_at W g t t i j
          \<and> (\<forall>f \<in> F. counted_twice h (flowGroupId f) \<longrightarrow> uses W g0 sol f t i j \<longrightarrow> 2 \<le> load_at W g t t i j))"

lemma loaded_grown: "loaded h W g0 F sol g t i j \<Longrightarrow> load_at W g t t i j \<le> load_at W g' t t i j \<Longrightarrow> loaded h W g0 F sol g' t i j"
  unfolding loaded_def by (meson order_trans)

definition base_ok :: "'d :: linorder weight_ops \<Rightarrow> 'd sb_graph \<Rightarrow> 'd Router \<Rightarrow> bool" where
  "base_ok W g0 R \<longleftrightarrow> same_static g0 (graph R) \<and> all_sb (loads_ok W) (graph R) \<and> cache_ok W g0 (channels R)"

definition routes_ok :: "int \<Rightarrow> 'd :: linorder weight_ops \<Rightarrow> 'd sb_graph \<Rightarrow> Flow list \<Rightarrow> Flow set \<Rightarrow> 'd Router \<Rightarrow> solution \<Rightarrow> bool" where
  "routes_ok h W g0 fs F R sol \<longleftrightarrow> base_ok W g0 R \<and> flows R = fs \<and> (\<forall>f \<in> F. served W g0 sol f)
     \<and> (\<forall>t i j. loaded h W g0 F sol (graph R) t i j)"

text \<open>One more flow; \<open>early\<close> are the flows of the groups before.\<close>

lemma loaded_step:
  assumes old: "loaded h W g0 F sol g t i j" and load: "load_at W g t t i j \<le> load_at W g' t t i j"
    and same: "\<And>f1. f1 \<in> F \<Longrightarrow> uses W g0 sol' f1 t i j = uses W g0 sol f1 t i j"
    and ch: "uses W g0 sol' f t i j \<Longrightarrow> charged W (flowGroupId f) g g' t t i j"
    and rf: "counted_twice h (flowGroupId f) \<Longrightarrow> 0 \<le> flowGroupId f \<Longrightarrow> 0 < fixedPacketFlowCount (sb_at W g0 t t) i j \<Longrightarrow> ready W 1 g t t i j"
    and rd: "\<And>f1. f1 \<in> F \<Longrightarrow> flowGroupId f1 \<noteq> flowGroupId f \<Longrightarrow> uses W g0 sol f1 t i j \<Longrightarrow> ready W 1 g t t i j"
    and pos: "0 \<le> load_at W g t t i j" "0 \<le> count_at W g t t i j" "0 \<le> load_at W g t t i j - (if 0 < count_at W g t t i j then 1 else 0)"
  shows "loaded h W g0 (insert f F) sol' g' t i j"
proof -
  have r0: "ready W 0 g t t i j" using pos unfolding ready_def by (auto split: if_splits)
  have one: "1 \<le> load_at W g' t t i j" if "uses W g0 sol' f t i j"
    using ch [OF that] r0 pos(1) unfolding charged_def by (auto split: if_splits)
  have two: "2 \<le> load_at W g' t t i j" if "uses W g0 sol' f t i j" "flowGroupId f < 0" "1 \<le> load_at W g t t i j"
    using ch [OF that(1)] that(2,3) unfolding charged_def by auto
  have cross: "2 \<le> load_at W g' t t i j" if f1: "f1 \<in> F" "conflict f1 f" "uses W g0 sol f1 t i j" "uses W g0 sol' f t i j" for f1
  proof (cases "flowGroupId f < 0")
    case True
    then show ?thesis using two f1 old unfolding loaded_def by blast
  next
    case False
    then have "ready W 1 g t t i j" using rd f1 by (auto simp: conflict_def)
    then show ?thesis using ch [OF f1(4)] False unfolding charged_def by (auto split: if_splits)
  qed
  have sym: "conflict f1 f2 \<longleftrightarrow> conflict f2 f1" for f1 f2 by (auto simp: conflict_def)
  have "f \<in> F \<or> \<not> conflict f f" by (simp add: conflict_def)
  have pair: "2 \<le> load_at W g' t t i j"
    if "f1 \<in> insert f F" "f2 \<in> insert f F" "conflict f1 f2" "uses W g0 sol' f1 t i j" "uses W g0 sol' f2 t i j" for f1 f2
  proof -
    consider "f1 = f" "f2 = f" | "f1 = f" "f2 \<in> F" | "f1 \<in> F" "f2 = f" | "f1 \<in> F" "f2 \<in> F" using \<open>f1 \<in> _\<close> \<open>f2 \<in> _\<close> by blast
    then show ?thesis
    proof cases
      case 1
      then show ?thesis using that(3) by (simp add: conflict_def)
    next
      case 2
      then show ?thesis using cross [of f2] that same sym by blast
    next
      case 3
      then show ?thesis using cross [of f1] that same by blast
    next
      case 4
      then show ?thesis using old load that same unfolding loaded_def by (meson order_trans)
    qed
  qed
  have fixed: "1 \<le> load_at W g' t t i j
      \<and> (\<forall>f1 \<in> insert f F. counted_twice h (flowGroupId f1) \<longrightarrow> uses W g0 sol' f1 t i j \<longrightarrow> 2 \<le> load_at W g' t t i j)"
    if fx: "0 < fixedPacketFlowCount (sb_at W g0 t t) i j"
  proof -
    have o: "1 \<le> load_at W g t t i j" "\<forall>f1 \<in> F. counted_twice h (flowGroupId f1) \<longrightarrow> uses W g0 sol f1 t i j \<longrightarrow> 2 \<le> load_at W g t t i j"
      using old fx unfolding loaded_def by blast+
    then have "\<forall>f1 \<in> F. counted_twice h (flowGroupId f1) \<longrightarrow> uses W g0 sol' f1 t i j \<longrightarrow> 2 \<le> load_at W g' t t i j"
      using same load by (meson order_trans)
    moreover have "2 \<le> load_at W g' t t i j" if u: "counted_twice h (flowGroupId f)" "uses W g0 sol' f t i j"
    proof (cases "flowGroupId f < 0")
      case True
      then show ?thesis using two [OF u(2)] o(1) by blast
    next
      case False
      then have "ready W 1 g t t i j" using rf u(1) fx by simp
      then show ?thesis using ch [OF u(2)] False unfolding charged_def by (auto split: if_splits)
    qed
    ultimately show ?thesis using o(1) load by auto
  qed
  have single: "\<forall>f1 \<in> insert f F. uses W g0 sol' f1 t i j \<longrightarrow> 1 \<le> load_at W g' t t i j"
    using one old same load unfolding loaded_def by (metis insertE order_trans)
  show ?thesis unfolding loaded_def using single pair fixed by blast
qed


lemma load_minus_count:
  "all_sb (loads_ok W) g \<Longrightarrow> 0 \<le> load_at W g t t' i j - (if 0 < count_at W g t t' i j then 1 else 0)"
  by (cases "map_of g (t, t')")
    (auto simp: all_sb_def count_at_def load_at_def load_def sb_at_def mk_SwitchboxConnect_def loads_ok_def counts_ok_def)

text \<open>The connections that earlier groups use are ready, and those of fixed packet flows: the next use shows.\<close>

definition early_ready :: "int \<Rightarrow> 'd weight_ops \<Rightarrow> 'd sb_graph \<Rightarrow> int \<Rightarrow> Flow set \<Rightarrow> solution \<Rightarrow> 'd sb_graph \<Rightarrow> bool" where
  "early_ready h W g0 gid F sol g \<longleftrightarrow>
     (\<forall>f1 \<in> F. flowGroupId f1 \<noteq> gid \<longrightarrow> (\<forall>t i j. uses W g0 sol f1 t i j \<longrightarrow> ready W 1 g t t i j))
     \<and> (counted_twice h gid \<and> 0 \<le> gid \<longrightarrow> (\<forall>t i j. 0 < fixedPacketFlowCount (sb_at W g0 t t) i j \<longrightarrow> ready W 1 g t t i j))"

lemma uses_other: "flowSrc f1 \<noteq> src \<Longrightarrow> uses W g0 (sol(src \<mapsto> S)) f1 t i j = uses W g0 sol f1 t i j"
  by (simp add: uses_def)

lemma served_other: "flowSrc f1 \<noteq> src \<Longrightarrow> served W g0 (sol(src \<mapsto> S)) f1 = served W g0 sol f1"
  by (simp add: served_def)

lemma routeFlow_step:
  assumes W: "arithmetic_ok W" "graph_ok g0" and inv: "routes_ok h W g0 fs F R sol" and early: "early_ready h W g0 (flowGroupId f) F sol (graph R)"
    and f: "flow_reachable W g0 f" "\<And>f1. f1 \<in> F \<Longrightarrow> flowSrc f1 \<noteq> flowSrc f"
  shows "\<exists>R' sol'. routeFlow W f (R, sol) = Some (Inr (R', sol')) \<and> routes_ok h W g0 fs (insert f F) R' sol'
    \<and> early_ready h W g0 (flowGroupId f) (insert f F) sol' (graph R')"
proof -
  have b: "same_static g0 (graph R)" "all_sb (loads_ok W) (graph R)" "cache_ok W g0 (channels R)" "flows R = fs"
    "\<And>f1. f1 \<in> F \<Longrightarrow> served W g0 sol f1" "\<And>t i j. loaded h W g0 F sol (graph R) t i j"
    using inv by (simp_all add: routes_ok_def base_ok_def)
  have ok: "router_ok W R" using same_static_graph_ok [OF b(1) W(2)] b(3) by (simp add: router_ok_def same_static_cache [OF b(1)])
  have fr: "flow_reachable W (graph R) f" using f(1) by (simp add: flow_reachable_def same_static_edge [OF b(1)])
  from routeFlow_rule [OF W(1) ok b(2) fr, of sol] obtain g' cache S where
    r: "routeFlow W f (R, sol) = Some (Inr (R\<lparr>channels := cache, graph := g'\<rparr>, sol(flowSrc f \<mapsto> S)))"
      "same_static (graph R) g'" "cache_ok W (graph R) cache" "all_sb (loads_ok W) g'" "grown W (graph R) g'" "settings_ok S"
      "\<forall>d \<in> set (flowDsts f). routed W (graph R) S (flowSrc f) d"
      "\<And>t s d. (s, d) \<in> pairs S t \<Longrightarrow> \<exists>i j. channelIndex (sb_at W (graph R) t t) s d = Inr (i, j)
          \<and> charged W (flowGroupId f) (graph R) g' t t i j" by blast
  let ?sol = "sol(flowSrc f \<mapsto> S)" and ?R = "R\<lparr>channels := cache, graph := g'\<rparr>"
  have base: "base_ok W g0 ?R" using b(1) r(2-4) same_static_trans by (auto simp: base_ok_def same_static_cache [OF b(1)])
  have sv: "served W g0 ?sol f1" if "f1 \<in> insert f F" for f1
  proof (cases "f1 = f")
    case True
    have "\<exists>i j. channelIndex (sb_at W g0 t t) s d = Inr (i, j)" if "(s, d) \<in> pairs S t" for t s d
      using r(8) [OF that] by (auto simp: same_static_index [OF b(1)])
    then show ?thesis using True r(6,7) routed_static [OF b(1)] by (auto simp: served_def)
  next
    case False
    then have "f1 \<in> F" using that by simp
    then show ?thesis using served_other [OF f(2)] b(5) by blast
  qed
  have same: "f1 \<in> F \<Longrightarrow> uses W g0 ?sol f1 t i j = uses W g0 sol f1 t i j" for f1 t i j using f(2) uses_other by blast
  have ch: "charged W (flowGroupId f) (graph R) g' t t i j" if u: "uses W g0 ?sol f t i j" for t i j
  proof -
    obtain s d where sd: "(s, d) \<in> pairs S t" "channelIndex (sb_at W g0 t t) s d = Inr (i, j)" using u by (auto simp: uses_def)
    from r(8) [OF sd(1)] sd(2) show ?thesis by (auto simp: same_static_index [OF b(1)])
  qed
  have gr: "load_at W (graph R) t t' i j \<le> load_at W g' t t' i j" for t t' i j using r(5) by (simp add: grown_def)
  have ld: "loaded h W g0 (insert f F) ?sol g' t i j" for t i j
  proof (rule loaded_step [OF b(6) gr same ch])
    show "ready W 1 (graph R) t t i j" if "counted_twice h (flowGroupId f)" "0 \<le> flowGroupId f"
        "0 < fixedPacketFlowCount (sb_at W g0 t t) i j"
      using early that unfolding early_ready_def by blast
    show "ready W 1 (graph R) t t i j" if "f1 \<in> F" "flowGroupId f1 \<noteq> flowGroupId f" "uses W g0 sol f1 t i j" for f1
      using early that unfolding early_ready_def by blast
  qed (use sb_at_loads [OF b(2)] load_minus_count [OF b(2)] in blast)+
  have er: "early_ready h W g0 (flowGroupId f) (insert f F) ?sol g'"
  proof -
    have rdy: "ready W 1 (graph R) t t i j \<Longrightarrow> ready W 1 g' t t i j" for t i j using r(5) unfolding grown_def by blast
    show ?thesis using early same rdy unfolding early_ready_def by blast
  qed
  have "routes_ok h W g0 fs (insert f F) ?R ?sol" using base b(4) sv ld by (simp add: routes_ok_def)
  with r(1) er show ?thesis by auto
qed

lemma closeGroup_at:
  "all_sb (loads_ok W) g \<Longrightarrow> arithmetic_ok W \<Longrightarrow> load_at W (sb_all (closeGroup W) g) t t' i j = load_at W g t t' i j
    \<and> count_at W (sb_all (closeGroup W) g) t t' i j = 0"
  by (cases "map_of g (t, t')") (auto simp: load_at_def count_at_def sb_at_def all_sb_def loads_close(2,3) mk_SwitchboxConnect_def)

definition idle :: "'d weight_ops \<Rightarrow> 'd sb_graph \<Rightarrow> bool" where
  "idle W g \<longleftrightarrow> (\<forall>t t' i j. count_at W g t t' i j = 0)"

lemma routeGroup_step:
  assumes W: "arithmetic_ok W" "graph_ok g0" and inv: "routes_ok h W g0 fs F R sol" and "(F = {} \<and> gid = h) \<or> idle W (graph R)"
    and F: "F \<subseteq> set fs" "\<And>f. f \<in> F \<Longrightarrow> flowGroupId f \<noteq> gid" and fs: "distinct (map flowSrc fs)" "\<And>f. f \<in> set fs \<Longrightarrow> flow_reachable W g0 f"
  shows "\<exists>R' sol'. routeGroup W gid (R, sol) = Some (Inr (R', sol')) \<and> routes_ok h W g0 fs (F \<union> {f \<in> set fs. flowGroupId f = gid}) R' sol'
    \<and> idle W (graph R')"
proof -
  let ?group = "filter (\<lambda>f. flowGroupId f = gid) fs"
  let ?I = "\<lambda>ys (R, sol). routes_ok h W g0 fs (F \<union> set ys) R sol \<and> early_ready h W g0 gid (F \<union> set ys) sol (graph R)"
  have start: "early_ready h W g0 gid F sol (graph R)"
    unfolding early_ready_def
  proof (intro conjI ballI impI allI)
    fix t i j assume c: "counted_twice h gid \<and> 0 \<le> gid" "0 < fixedPacketFlowCount (sb_at W g0 t t) i j"
    then have "idle W (graph R)" using assms(4) by (auto simp: counted_twice_def)
    moreover have "1 \<le> load_at W (graph R) t t i j" using inv c(2) unfolding routes_ok_def loaded_def by blast
    ultimately show "ready W 1 (graph R) t t i j" by (simp add: ready_def idle_def)
  next
    fix f1 t i j assume f1: "f1 \<in> F" "uses W g0 sol f1 t i j"
    then have "1 \<le> load_at W (graph R) t t i j" using inv unfolding routes_ok_def loaded_def by blast
    moreover have "count_at W (graph R) t t i j = 0" using assms(4) f1(1) unfolding idle_def by blast
    ultimately show "ready W 1 (graph R) t t i j" by (simp add: ready_def)
  qed
  have "\<exists>s'. run_fold (routeFlow W) ?group (R, sol) = Some (Inr s') \<and> ?I ?group s'"
  proof (rule run_fold_rule [where I = ?I])
    show "?I [] (R, sol)" using inv start by simp
    fix ys f zs s assume g: "?group = ys @ f # zs" and I: "?I ys s"
    obtain R1 sol1 where s: "s = (R1, sol1)" by (cases s)
    have "f \<in> set ?group" unfolding g by simp
    then have f: "f \<in> set fs" "flowGroupId f = gid" by simp_all
    have inj: "inj_on flowSrc (set fs)" "distinct fs" using fs(1) by (simp_all add: distinct_map)
    then have "distinct ?group" by simp
    then have fy: "f \<notin> set ys" unfolding g by simp
    have "set ys \<subseteq> set ?group" unfolding g by auto
    then have ys: "set ys \<subseteq> set fs" by auto
    have new: "flowSrc f1 \<noteq> flowSrc f" if "f1 \<in> F \<union> set ys" for f1
    proof -
      have "f1 \<in> set fs" "f1 \<noteq> f" using that F f ys fy by auto
      then show ?thesis using inj(1) f(1) by (auto simp: inj_on_def)
    qed
    have "routes_ok h W g0 fs (F \<union> set ys) R1 sol1" "early_ready h W g0 (flowGroupId f) (F \<union> set ys) sol1 (graph R1)" using I s f(2) by simp_all
    from routeFlow_step [OF W this fs(2) [OF f(1)] new] obtain R2 sol2 where
      r: "routeFlow W f (R1, sol1) = Some (Inr (R2, sol2))" "routes_ok h W g0 fs (insert f (F \<union> set ys)) R2 sol2"
        "early_ready h W g0 gid (insert f (F \<union> set ys)) sol2 (graph R2)" unfolding f(2) by blast
    have "F \<union> set (ys @ [f]) = insert f (F \<union> set ys)" by auto
    with r s show "\<exists>s'. routeFlow W f s = Some (Inr s') \<and> ?I (ys @ [f]) s'" by auto
  qed
  then obtain R1 sol1 where r: "run_fold (routeFlow W) ?group (R, sol) = Some (Inr (R1, sol1))"
    "routes_ok h W g0 fs (F \<union> set ?group) R1 sol1" by auto
  let ?R = "R1\<lparr>graph := sb_all (closeGroup W) (graph R1)\<rparr>"
  have fl: "flows R = fs" using inv by (simp add: routes_ok_def)
  have run: "routeGroup W gid (R, sol) = Some (Inr (?R, sol1))" using r(1) fl by (simp add: routeGroup_def)
  have b: "same_static g0 (graph R1)" "all_sb (loads_ok W) (graph R1)" "cache_ok W g0 (channels R1)"
    using r(2) by (simp_all add: routes_ok_def base_ok_def)
  have "same_static g0 (graph ?R)" using same_static_trans [OF b(1) same_static_all [of "closeGroup W"]] by simp
  moreover have "all_sb (loads_ok W) (graph ?R)" using all_sb_all [OF b(2), of "loads_ok W" "closeGroup W"] loads_close(1) [OF W(1)] by simp
  moreover have "loaded h W g0 (F \<union> set ?group) sol1 (graph ?R) t i j" for t i j
  proof (rule loaded_grown)
    show "loaded h W g0 (F \<union> set ?group) sol1 (graph R1) t i j" using r(2) unfolding routes_ok_def by blast
    show "load_at W (graph R1) t t i j \<le> load_at W (graph ?R) t t i j" using closeGroup_at [OF b(2) W(1)] by simp
  qed
  ultimately have "routes_ok h W g0 fs (F \<union> set ?group) ?R sol1" using r(2) b(3) by (simp add: routes_ok_def base_ok_def)
  moreover have "idle W (graph ?R)" using closeGroup_at [OF b(2) W(1)] by (simp add: idle_def)
  ultimately show ?thesis using run by auto
qed

lemma routeGroups_rule:
  fixes fs :: "Flow list"
  defines "h \<equiv> hd (groupIds fs)"
  assumes W: "arithmetic_ok W" "graph_ok g0" and inv: "routes_ok h W g0 fs {} R Map.empty"
    and fs: "distinct (map flowSrc fs)" "\<And>f. f \<in> set fs \<Longrightarrow> flow_reachable W g0 f"
  shows "\<exists>R' sol. run_fold (routeGroup W) (groupIds fs) (R, Map.empty) = Some (Inr (R', sol)) \<and> routes_ok h W g0 fs (set fs) R' sol
    \<and> (fs \<noteq> [] \<longrightarrow> idle W (graph R'))"
proof -
  let ?F = "\<lambda>ids. {f \<in> set fs. flowGroupId f \<in> set ids}"
  let ?I = "\<lambda>ids (R, sol). routes_ok h W g0 fs (?F ids) R sol \<and> (ids \<noteq> [] \<longrightarrow> idle W (graph R))"
  have "\<exists>s'. run_fold (routeGroup W) (groupIds fs) (R, Map.empty) = Some (Inr s') \<and> ?I (groupIds fs) s'"
  proof (rule run_fold_rule [where I = ?I])
    show "?I [] (R, Map.empty)" using inv by simp
    fix ys gid zs s assume g: "groupIds fs = ys @ gid # zs" and I: "?I ys s"
    obtain R1 sol1 where s: "s = (R1, sol1)" by (cases s)
    have "distinct (groupIds fs)" by (simp add: groupIds_def)
    then have new: "gid \<notin> set ys" using g by simp
    have inv1: "routes_ok h W g0 fs (?F ys) R1 sol1" and "ys \<noteq> [] \<longrightarrow> idle W (graph R1)" using I s by auto
    moreover have "?F ys = {} \<and> gid = h" if "ys = []" using that g unfolding h_def by simp
    ultimately have "(?F ys = {} \<and> gid = h) \<or> idle W (graph R1)" by blast
    moreover have "flowGroupId f \<noteq> gid" if "f \<in> ?F ys" for f using that new by auto
    ultimately obtain R2 sol2 where r: "routeGroup W gid (R1, sol1) = Some (Inr (R2, sol2))"
      "routes_ok h W g0 fs (?F ys \<union> {f \<in> set fs. flowGroupId f = gid}) R2 sol2" "idle W (graph R2)"
      using routeGroup_step [OF W inv1 _ _ _ fs, of gid] by blast
    have "?F ys \<union> {f \<in> set fs. flowGroupId f = gid} = ?F (ys @ [gid])" by auto
    with r s show "\<exists>s'. routeGroup W gid s = Some (Inr s') \<and> ?I (ys @ [gid]) s'" by auto
  qed
  then obtain R' sol where r: "run_fold (routeGroup W) (groupIds fs) (R, Map.empty) = Some (Inr (R', sol))"
    "routes_ok h W g0 fs (?F (groupIds fs)) R' sol" "groupIds fs \<noteq> [] \<longrightarrow> idle W (graph R')" by auto
  have ids: "set (groupIds fs) = flowGroupId ` set fs" by (simp add: groupIds_def)
  then have "?F (groupIds fs) = set fs" by auto
  moreover have "groupIds fs \<noteq> []" if "fs \<noteq> []" using ids that by auto
  ultimately show ?thesis using r by auto
qed

lemma illegalEdges_used:
  assumes "illegalEdges g = 0" and "map_of g (t, t') = Some sb" and "i < length (srcPorts sb)" and "j < length (dstPorts sb)"
  shows "usedCapacity sb i j \<le> 1"
proof -
  have "((t, t'), sb) \<in> set g" using assms(2) by (rule map_of_SomeD)
  then have "overCapacities sb = 0" using assms(1) unfolding illegalEdges_def by force
  then have "filter (\<lambda>(i, j). usedCapacity sb i j > MAX_CIRCUIT_STREAM_CAPACITY)
       (List.product [0..<length (srcPorts sb)] [0..<length (dstPorts sb)]) = []" by (simp add: overCapacities_def)
  then have "\<forall>x \<in> set (List.product [0..<length (srcPorts sb)] [0..<length (dstPorts sb)]).
      \<not> (case x of (i, j) \<Rightarrow> usedCapacity sb i j > MAX_CIRCUIT_STREAM_CAPACITY)" unfolding filter_empty_conv .
  moreover have "(i, j) \<in> set (List.product [0..<length (srcPorts sb)] [0..<length (dstPorts sb)])" using assms(3,4) by simp
  ultimately have "\<not> (case (i, j) of (i, j) \<Rightarrow> usedCapacity sb i j > MAX_CIRCUIT_STREAM_CAPACITY)" by (rule bspec)
  then show ?thesis by (simp add: MAX_CIRCUIT_STREAM_CAPACITY_def)
qed

text \<open>What a solution promises.\<close>

definition solution_ok :: "'d weight_ops \<Rightarrow> 'd sb_graph \<Rightarrow> Flow list \<Rightarrow> solution \<Rightarrow> bool" where
  "solution_ok W g0 fs sol \<longleftrightarrow> (\<forall>f \<in> set fs. served W g0 sol f)
     \<and> (\<forall>f1 \<in> set fs. \<forall>f2 \<in> set fs. conflict f1 f2 \<longrightarrow> (\<forall>t i j. \<not> (uses W g0 sol f1 t i j \<and> uses W g0 sol f2 t i j)))
     \<and> (\<forall>f \<in> set fs. counted_twice (hd (groupIds fs)) (flowGroupId f) \<longrightarrow> (\<forall>t i j. uses W g0 sol f t i j \<longrightarrow> \<not> 0 < fixedPacketFlowCount (sb_at W g0 t t) i j))"

lemma round_solution:
  assumes "routes_ok (hd (groupIds fs)) W g0 fs (set fs) R sol" and "fs \<noteq> [] \<longrightarrow> idle W (graph R)" and "illegalEdges (graph R) = 0"
  shows "solution_ok W g0 fs sol"
proof -
  have ss: "same_static g0 (graph R)" using assms(1) by (simp add: routes_ok_def base_ok_def)
  have one: "load_at W (graph R) t t i j \<le> 1" if f: "f \<in> set fs" "uses W g0 sol f t i j" for f t i j
  proof -
    obtain s d where "channelIndex (sb_at W g0 t t) s d = Inr (i, j)" using f(2) by (auto simp: uses_def)
    then have "channelIndex (sb_at W (graph R) t t) s d = Inr (i, j)" by (simp add: same_static_index [OF ss])
    then have ij: "i < length (srcPorts (sb_at W (graph R) t t))" "j < length (dstPorts (sb_at W (graph R) t t))"
      by (auto simp: channelIndex_def Let_def split: if_splits)
    then obtain sb where sb: "map_of (graph R) (t, t) = Some sb"
      using sb_at_None [of "graph R" t t W] by (cases "map_of (graph R) (t, t)") auto
    then have at: "sb_at W (graph R) t t = sb" by (simp add: sb_at_def)
    have "usedCapacity sb i j \<le> 1" by (rule illegalEdges_used [OF assms(3) sb]) (use ij at in simp_all)
    moreover have "fs \<noteq> []" using f(1) by auto
    then have "packetFlowCount sb i j = 0" using assms(2) at by (auto simp: idle_def count_at_def)
    ultimately show ?thesis by (simp add: load_at_def at load_def)
  qed
  have ld: "loaded (hd (groupIds fs)) W g0 (set fs) sol (graph R) t i j" for t i j using assms(1) by (simp add: routes_ok_def)
  have "\<not> (uses W g0 sol f1 t i j \<and> uses W g0 sol f2 t i j)" if "f1 \<in> set fs" "f2 \<in> set fs" "conflict f1 f2" for f1 f2 t i j
  proof
    assume u: "uses W g0 sol f1 t i j \<and> uses W g0 sol f2 t i j"
    then have "2 \<le> load_at W (graph R) t t i j" using ld [of t i j] that unfolding loaded_def by blast
    then show False using one [OF that(1), of t i j] u by simp
  qed
  moreover have "\<not> 0 < fixedPacketFlowCount (sb_at W g0 t t) i j" if "f \<in> set fs" "counted_twice (hd (groupIds fs)) (flowGroupId f)" "uses W g0 sol f t i j" for f t i j
  proof
    assume "0 < fixedPacketFlowCount (sb_at W g0 t t) i j"
    then have "2 \<le> load_at W (graph R) t t i j" using ld [of t i j] that unfolding loaded_def by blast
    then show False using one [OF that(1,3)] by simp
  qed
  moreover have "served W g0 sol f" if "f \<in> set fs" for f using assms(1) that by (simp add: routes_ok_def)
  ultimately show ?thesis unfolding solution_ok_def by blast
qed

lemma startRound_ok:
  assumes "arithmetic_ok W" and "same_static g0 (graph R)" and "all_sb counts_ok (graph R)" and "cache_ok W g0 (channels R)"
  shows "routes_ok h W g0 (flows R) {} (startRound W R) Map.empty"
proof -
  let ?g = "sb_all ripUp (sb_all (updateDemand W) (graph R))"
  have "same_static (graph R) ?g"
    using same_static_trans [OF same_static_all [of "updateDemand W"] same_static_all [of ripUp]] by simp
  then have ss: "same_static g0 ?g" using assms(2) same_static_trans by blast
  have at: "map_of ?g k = map_option (\<lambda>sb. ripUp (updateDemand W sb)) (map_of (graph R) k)" for k by (simp add: option.map_comp comp_def)
  have ld: "all_sb (loads_ok W) ?g" using loads_start [OF assms(1)] assms(3) by (auto simp: all_sb_def at)
  have "1 \<le> load_at W ?g t t i j" if "0 < fixedPacketFlowCount (sb_at W g0 t t) i j" for t i j
  proof -
    have "fixedPacketFlowCount (sb_at W ?g t t) = fixedPacketFlowCount (sb_at W g0 t t)"
      using same_static_at(1) [OF ss, of W t t] by (simp add: static_def)
    then have f: "0 < fixedPacketFlowCount (sb_at W ?g t t) i j" using that by simp
    then obtain sb where sb: "map_of (graph R) (t, t) = Some sb"
      by (cases "map_of (graph R) (t, t)") (auto simp: sb_at_def at mk_SwitchboxConnect_def)
    then have "sb_at W ?g t t = ripUp (updateDemand W sb)" by (simp add: sb_at_def at)
    with f show ?thesis by (simp add: load_at_def load_def ripUp_def)
  qed
  then have "loaded h W g0 {} Map.empty ?g t i j" for t i j by (simp add: loaded_def)
  with ss ld assms(4) show ?thesis by (simp add: routes_ok_def base_ok_def startRound_def)
qed

lemma rounds_rule:
  assumes W: "arithmetic_ok W" "graph_ok g0" and fs: "distinct (map flowSrc fs)" "\<And>f. f \<in> set fs \<Longrightarrow> flow_reachable W g0 f"
    and "same_static g0 (graph R)" "all_sb counts_ok (graph R)" "cache_ok W g0 (channels R)" "flows R = fs"
  shows "\<exists>r R'. rounds W n R = Some (Inr (r, R')) \<and> flows R' = fs \<and> same_static g0 (graph R') \<and> cache_ok W g0 (channels R')
    \<and> (\<forall>sol. r = Some sol \<longrightarrow> solution_ok W g0 fs sol)"
  using assms(5-8)
proof (induction n arbitrary: R)
  case (Suc n)
  have "routes_ok (hd (groupIds fs)) W g0 fs {} (startRound W R) Map.empty" using startRound_ok [OF W(1) Suc.prems(1-3)] Suc.prems(4) by simp
  from routeGroups_rule [OF W this fs] obtain R1 sol where
    r: "run_fold (routeGroup W) (groupIds fs) (startRound W R, Map.empty) = Some (Inr (R1, sol))"
      "routes_ok (hd (groupIds fs)) W g0 fs (set fs) R1 sol" "fs \<noteq> [] \<longrightarrow> idle W (graph R1)" by blast
  have b: "same_static g0 (graph R1)" "all_sb (loads_ok W) (graph R1)" "cache_ok W g0 (channels R1)" "flows R1 = fs"
    using r(2) by (simp_all add: routes_ok_def base_ok_def)
  let ?R = "R1\<lparr>graph := sb_all recordOver (graph R1)\<rparr>"
  have step: "rounds W (Suc n) R = (if illegalEdges (graph R1) > 0 then rounds W n ?R else Some (Inr (Some sol, ?R)))"
    using r(1) Suc.prems(4) by (simp add: Let_def)
  have ss: "same_static g0 (graph ?R)" using same_static_trans [OF b(1) same_static_all [of recordOver]] by simp
  have "counts_ok (recordOver sb)" if "loads_ok W sb" for sb :: "'a SwitchboxConnect"
    using that by (auto simp: loads_ok_def counts_ok_def recordOver_def)
  then have "all_sb counts_ok (graph ?R)" using all_sb_all [OF b(2), of counts_ok recordOver] by simp
  with ss b have IH: "\<exists>r R'. rounds W n ?R = Some (Inr (r, R')) \<and> flows R' = fs \<and> same_static g0 (graph R') \<and> cache_ok W g0 (channels R')
    \<and> (\<forall>sol. r = Some sol \<longrightarrow> solution_ok W g0 fs sol)" using Suc.IH [of ?R] by simp
  show ?case
  proof (cases "illegalEdges (graph R1) = 0")
    case True
    then have "solution_ok W g0 fs sol" using round_solution [OF r(2,3)] by blast
    then show ?thesis unfolding step using True ss b by simp
  next
    case False
    then show ?thesis unfolding step using IH by simp
  qed
qed simp

text \<open>
  A router whose flows can be routed: what \<open>initialize\<close>, \<open>addFlow\<close> and the fixed connections make,
  and a way through the graph for every request.
\<close>

definition routable :: "'d :: linorder weight_ops \<Rightarrow> 'd Router \<Rightarrow> bool" where
  "routable W R \<longleftrightarrow> arithmetic_ok W \<and> graph_ok (graph R) \<and> cache_ok W (graph R) (channels R) \<and> flows_ok R
     \<and> all_sb (\<lambda>sb. \<forall>i j. 0 \<le> fixedPacketFlowCount sb i j) (graph R)
     \<and> (\<forall>(s, d) \<in> requests R. (edge W (graph R))\<^sup>+\<^sup>+ s d)"

lemma findPaths_rule:
  assumes "routable W R"
  shows "\<exists>r R'. findPaths W maxIterations R = Some (Inr (r, R')) \<and> flows R' = flows R \<and> same_static (graph R) (graph R')
    \<and> (\<forall>sol. r = Some sol \<longrightarrow> solution_ok W (graph R) (flows R) sol)"
proof -
  have h: "arithmetic_ok W" "graph_ok (graph R)" "cache_ok W (graph R) (channels R)" "flows_ok R"
    "all_sb (\<lambda>sb. \<forall>i j. 0 \<le> fixedPacketFlowCount sb i j) (graph R)" "\<forall>(s, d) \<in> requests R. (edge W (graph R))\<^sup>+\<^sup>+ s d"
    using assms by (simp_all add: routable_def)
  let ?R = "R\<lparr>graph := sb_all resetHistory (graph R)\<rparr>"
  have "flow_reachable W (graph R) f" if "f \<in> set (flows R)" for f
    using h(4,6) that unfolding flow_reachable_def flows_ok_def requests_def by blast
  moreover have "distinct (map flowSrc (flows R))" using h(4) by (simp add: flows_ok_def)
  moreover have "same_static (graph R) (graph ?R)" by (simp add: same_static_all)
  moreover have "all_sb counts_ok (graph ?R)" using all_sb_all [OF h(5), of counts_ok resetHistory] by (simp add: counts_ok_def resetHistory_def)
  ultimately obtain r R' where "rounds W (nat maxIterations) ?R = Some (Inr (r, R'))" "flows R' = flows R" "same_static (graph R) (graph R')"
    "\<forall>sol. r = Some sol \<longrightarrow> solution_ok W (graph R) (flows R) sol"
    using rounds_rule [OF h(1,2), of "flows R" ?R "nat maxIterations"] h(3) by auto
  then show ?thesis unfolding findPaths_def by blast
qed

section \<open>Properties\<close>




section \<open>Closed examples\<close>

declare traceBack.simps [code]

text \<open>One switchbox with two inputs and two outputs, all connected.\<close>

definition pairSwitch :: "enat SwitchboxConnect" where
  "pairSwitch = (mk_SwitchboxConnect sampleWeights (TileLoc 0 0) (TileLoc 0 0) [Port DMA 0, Port DMA 1] [Port CORE 0, Port CORE 1])
     \<lparr>connectivity := \<lambda>i j. AVAILABLE\<rparr>"

definition pairRouter :: "enat Router" where
  "pairRouter = (mk_Router 0 0)\<lparr>graph := [((TileLoc 0 0, TileLoc 0 0), pairSwitch)]\<rparr>"

abbreviation at00 :: "Port \<Rightarrow> PortDirection \<Rightarrow> PhysPort" where
  "at00 p d \<equiv> PhysPort (TileLoc 0 0) p d"

definition twoFlows :: "enat Router" where
  "twoFlows = addFlow (TileLoc 0 0) (Port DMA 1) (TileLoc 0 0) (Port CORE 1) False
     (addFlow (TileLoc 0 0) (Port DMA 0) (TileLoc 0 0) (Port CORE 0) False pairRouter)"

lemma two_flows_solution:
  "\<exists>sol R'. findPaths sampleWeights 5 twoFlows = Some (Inr (Some sol, R'))
     \<and> sol (at00 (Port DMA 0) SRC) = Some [(TileLoc 0 0, \<lparr>settingSrcs = [Port DMA 0], settingDsts = [Port CORE 0]\<rparr>)]
     \<and> sol (at00 (Port DMA 1) SRC) = Some [(TileLoc 0 0, \<lparr>settingSrcs = [Port DMA 1], settingDsts = [Port CORE 1]\<rparr>)]"
proof -
  have "case findPaths sampleWeights 5 twoFlows of
     Some (Inr (Some sol, _)) \<Rightarrow>
       sol (at00 (Port DMA 0) SRC) = Some [(TileLoc 0 0, \<lparr>settingSrcs = [Port DMA 0], settingDsts = [Port CORE 0]\<rparr>)]
       \<and> sol (at00 (Port DMA 1) SRC) = Some [(TileLoc 0 0, \<lparr>settingSrcs = [Port DMA 1], settingDsts = [Port CORE 1]\<rparr>)]
   | _ \<Rightarrow> False"
    by code_simp
  then show ?thesis by (auto split: option.splits sum.splits)
qed

lemma sample_arithmetic: "arithmetic_ok sampleWeights"
proof -
  have fin: "step_ok sampleWeights d \<longleftrightarrow> d \<noteq> \<infinity>" for d :: enat
  proof
    assume "step_ok sampleWeights d"
    moreover have "(0 :: enat) < w_INF sampleWeights" by (simp add: sampleWeights_def)
    ultimately have "w_add sampleWeights 0 d < w_INF sampleWeights" unfolding step_ok_def by blast
    then show "d \<noteq> \<infinity>" by (simp add: sampleWeights_def)
  next
    assume "d \<noteq> \<infinity>"
    then obtain n where d: "d = enat n" by auto
    have "a \<le> a + enat n \<and> a + enat n < \<infinity>" if "a < \<infinity>" for a using that by (cases a) simp_all
    then show "step_ok sampleWeights d" by (simp add: step_ok_def sampleWeights_def d)
  qed
  have "(1 + 1 * enat m) * (1 + 1 * enat n) \<noteq> \<infinity>" for m n by (simp add: one_enat_def)
  moreover have "d * 2 \<noteq> \<infinity>" if "d \<noteq> \<infinity>" for d :: enat using that by (cases d) (simp_all add: numeral_eq_enat)
  ultimately show ?thesis unfolding arithmetic_ok_def fin by (simp add: sampleWeights_def)
qed

lemma twoFlows_routable: "routable sampleWeights twoFlows"
proof -
  have g: "graph twoFlows = [((TileLoc 0 0, TileLoc 0 0), pairSwitch)]" "channels twoFlows = Map.empty"
    "flows twoFlows = [\<lparr>flowGroupId = -1, flowSrc = at00 (Port DMA 0) SRC, flowDsts = [at00 (Port CORE 0) DST]\<rparr>,
       \<lparr>flowGroupId = -1, flowSrc = at00 (Port DMA 1) SRC, flowDsts = [at00 (Port CORE 1) DST]\<rparr>]"
    "nextAvailablePacketGroupId twoFlows = 0"
    by (simp_all add: twoFlows_def pairRouter_def mk_Router_def addFlow_def)
  have "graph_ok (graph twoFlows)" by (simp add: graph_ok_def g sb_shape_def pairSwitch_def mk_SwitchboxConnect_def)
  moreover have "cache_ok sampleWeights (graph twoFlows) (channels twoFlows)" by (simp add: cache_ok_def g)
  moreover have "flows_ok twoFlows" by (simp add: flows_ok_def g)
  moreover have "all_sb (\<lambda>sb. \<forall>i j. 0 \<le> fixedPacketFlowCount sb i j) (graph twoFlows)"
    by (simp add: all_sb_def g pairSwitch_def mk_SwitchboxConnect_def)
  moreover have "edge sampleWeights (graph twoFlows) (at00 (Port DMA 0) SRC) (at00 (Port CORE 0) DST)"
    "edge sampleWeights (graph twoFlows) (at00 (Port DMA 1) SRC) (at00 (Port CORE 1) DST)" unfolding edge_def g(1) by code_simp+
  then have "\<forall>(s, d) \<in> requests twoFlows. (edge sampleWeights (graph twoFlows))\<^sup>+\<^sup>+ s d" by (auto simp: requests_def g(3))
  ultimately show ?thesis using sample_arithmetic by (simp add: routable_def)
qed




definition unreachableFlow :: "enat Router" where
  "unreachableFlow = addFlow (TileLoc 0 0) (Port DMA 0) (TileLoc 0 0) (Port TRACE 0) False turnRouter"



text \<open>
  The search takes the port by which a flow leaves a switchbox for the port of the same name by which
  it could enter: a flow from DMA 0 to CORE 0 is solved by going out at SOUTH 0 and in at SOUTH 0 of the
  same tile.
\<close>

theorem turn_around:
  "\<exists>sol R'. findPaths sampleWeights 5 (addFlow (TileLoc 0 0) (Port DMA 0) (TileLoc 0 0) (Port CORE 0) False turnRouter)
       = Some (Inr (Some sol, R'))
     \<and> sol (at00 (Port DMA 0) SRC) = Some [(TileLoc 0 0,
         \<lparr>settingSrcs = [Port SOUTH 0, Port DMA 0], settingDsts = [Port CORE 0, Port SOUTH 0]\<rparr>)]"
proof -
  have "case findPaths sampleWeights 5 (addFlow (TileLoc 0 0) (Port DMA 0) (TileLoc 0 0) (Port CORE 0) False turnRouter) of
     Some (Inr (Some sol, _)) \<Rightarrow>
       sol (at00 (Port DMA 0) SRC) = Some [(TileLoc 0 0,
         \<lparr>settingSrcs = [Port SOUTH 0, Port DMA 0], settingDsts = [Port CORE 0, Port SOUTH 0]\<rparr>)]
   | _ \<Rightarrow> False"
    by code_simp
  then show ?thesis by (auto split: option.splits sum.splits)
qed

definition detourSwitch :: "enat SwitchboxConnect" where
  "detourSwitch = (mk_SwitchboxConnect sampleWeights (TileLoc 0 0) (TileLoc 0 0)
       [Port DMA 0, Port SOUTH 0, Port SOUTH 2] [Port SOUTH 0, Port SOUTH 1, Port SOUTH 2])
     \<lparr>connectivity := \<lambda>i j. if i = 0 \<or> (i, j) = (2, 0) \<or> (i, j) = (1, 1) then AVAILABLE else INVALID,
      demand := \<lambda>i j. if (i, j) = (0, 0) then 10 else if (i, j) = (0, 1) then 5 else 1\<rparr>"

definition detourRouter :: "enat Router" where
  "detourRouter = (mk_Router 0 0)\<lparr>graph := [((TileLoc 0 0, TileLoc 0 0), detourSwitch)]\<rparr>"

text \<open>
  The search does not always find the cheapest route: a port that gets a better distance while it
  is in the queue keeps its place there, because \<open>Q.update\<close> is never called. Here SOUTH 0 gets
  from 10 to 2 behind SOUTH 1 with 5, and SOUTH 1 is finished before its route of cost 3 is seen.
\<close>

theorem cheapest_route_missed:
  "\<exists>P R'. dijkstraShortestPaths sampleWeights (at00 (Port DMA 0) SRC) detourRouter = Some (Inr (P, R'))
     \<and> P (at00 (Port SOUTH 1) DST) = Some (at00 (Port DMA 0) SRC)
     \<and> P (at00 (Port SOUTH 0) DST) = Some (at00 (Port SOUTH 2) DST)
     \<and> P (at00 (Port SOUTH 2) DST) = Some (at00 (Port DMA 0) SRC)
     \<and> edge sampleWeights (graph detourRouter) (at00 (Port SOUTH 0) DST) (at00 (Port SOUTH 1) DST)
     \<and> demand detourSwitch 0 2 + demand detourSwitch 2 0 + demand detourSwitch 1 1 < demand detourSwitch 0 1"
proof -
  have "case dijkstraShortestPaths sampleWeights (at00 (Port DMA 0) SRC) detourRouter of
     Some (Inr (P, _)) \<Rightarrow>
       P (at00 (Port SOUTH 1) DST) = Some (at00 (Port DMA 0) SRC)
       \<and> P (at00 (Port SOUTH 0) DST) = Some (at00 (Port SOUTH 2) DST)
       \<and> P (at00 (Port SOUTH 2) DST) = Some (at00 (Port DMA 0) SRC)
   | _ \<Rightarrow> False"
    by code_simp
  moreover have "edge sampleWeights (graph detourRouter) (at00 (Port SOUTH 0) DST) (at00 (Port SOUTH 1) DST)"
    unfolding edge_def by code_simp
  moreover have "demand detourSwitch 0 2 + demand detourSwitch 2 0 + demand detourSwitch 1 1 < demand detourSwitch 0 1"
    by (simp add: detourSwitch_def mk_SwitchboxConnect_def one_enat_def numeral_eq_enat)
  ultimately show ?thesis by (auto split: option.splits sum.splits)
qed

end
