(* ===== verification/Router_Emit.thy ===== *)
theory Router_Emit
  imports Router_Find_Paths
begin

text \<open>
  What becomes of the routes: \<open>emitConnections\<close> turns the settings of a flow into connections of switch
  boxes and shim multiplexers, and \<open>existsPathToDest\<close> follows the settings from tile to tile.
\<close>

section \<open>Connections\<close>

definition tileConnect :: "TileLoc \<Rightarrow> Interconnect \<Rightarrow> Port \<Rightarrow> Port \<Rightarrow> Connect" where
  "tileConnect t op src dst = Connect src dst op (word_of_int (col t)) (word_of_int (row t))"

definition shimMux :: "AMDAIEDeviceModel \<Rightarrow> TileLoc \<Rightarrow> DMAChannelDir \<Rightarrow> Port \<Rightarrow> Port option" where
  "shimMux m t dir p =
     (if isShimNOCTile m (word_of_int (col t)) (word_of_int (row t))
      then map_option (\<lambda>(b, c). Port b (uint c)) (getShimMuxPortMappingForDmaOrNoc (portBundle p) (word_of_int (portChannel p)) dir)
      else None)"

text \<open>The side of the shim switchbox that faces a port of the shim multiplexer.\<close>

definition facing :: "Port \<Rightarrow> Port" where
  "facing p = Port (getConnectingBundle (portBundle p)) (portChannel p)"

definition emitPair :: "AMDAIEDeviceModel \<Rightarrow> TileLoc \<Rightarrow> Port option \<Rightarrow> Port \<times> Port \<Rightarrow> Connect list" where
  "emitPair m t newSrc = (\<lambda>(src, dst).
     (case newSrc of
        Some mux \<Rightarrow> [tileConnect t SWB (facing mux) dst]
      | None \<Rightarrow>
          (case shimMux m t S2MM dst of
             Some mux \<Rightarrow> [tileConnect t SWB src (facing mux), tileConnect t SHIMMUX mux dst]
           | None \<Rightarrow> [tileConnect t SWB src dst])))"

definition emitSetting :: "AMDAIEDeviceModel \<Rightarrow> PhysPort \<Rightarrow> TileLoc \<times> SwitchSetting \<Rightarrow> Connect list result" where
  "emitSetting m srcPoint = (\<lambda>(t, setting).
     (let newSrc = (if t = tileLoc srcPoint then shimMux m t MM2S (port srcPoint) else None);
          first = (case newSrc of Some mux \<Rightarrow> [tileConnect t SHIMMUX (port srcPoint) mux] | None \<Rightarrow> [])
      in if length (settingDsts setting) < length (settingSrcs setting) then Inl OutOfBounds
         else Inr (first @ concat (map (emitPair m t newSrc) (zip (settingSrcs setting) (settingDsts setting))))))"

text \<open>The map of the connections, a list of its entries; a tile without a connection has no entry.\<close>

fun emitSettings :: "AMDAIEDeviceModel \<Rightarrow> PhysPort \<Rightarrow> SwitchSettings \<Rightarrow> (TileLoc \<times> Connect list) list result" where
  "emitSettings m srcPoint [] = Inr []"
| "emitSettings m srcPoint (s # ss) =
     res_bind (emitSetting m srcPoint s) (\<lambda>conns. res_bind (emitSettings m srcPoint ss) (\<lambda>rest.
       Inr (if conns = [] then rest else (fst s, sort conns) # rest)))"

definition emitConnections :: "solution \<Rightarrow> PhysPort \<Rightarrow> AMDAIEDeviceModel \<Rightarrow> (TileLoc \<times> Connect list) list result" where
  "emitConnections flowSolutions srcPoint m =
     res_bind (res_of_option OutOfBounds (flowSolutions srcPoint)) (emitSettings m srcPoint)"

section \<open>Following the settings\<close>

text \<open>The port of the neighbouring tile an output port leads to.\<close>

definition acrossTile :: "TileLoc \<Rightarrow> Port \<Rightarrow> (TileLoc \<times> Port) option" where
  "acrossTile t p =
     (case portBundle p of
        EAST \<Rightarrow> Some (TileLoc (col t + 1) (row t), Port WEST (portChannel p))
      | WEST \<Rightarrow> Some (TileLoc (col t - 1) (row t), Port EAST (portChannel p))
      | NORTH \<Rightarrow> Some (TileLoc (col t) (row t + 1), Port SOUTH (portChannel p))
      | SOUTH \<Rightarrow> Some (TileLoc (col t) (row t - 1), Port NORTH (portChannel p))
      | _ \<Rightarrow> None)"

text \<open>The recursive calls a call makes, in order: outputs of the neighbour that its input leads to.\<close>

definition pathCalls :: "SwitchSettings \<Rightarrow> TileLoc \<times> Port \<Rightarrow> (TileLoc \<times> Port) list" where
  "pathCalls settings = (\<lambda>(t, p).
     (case acrossTile t p of
        None \<Rightarrow> []
      | Some (t', q) \<Rightarrow>
          concat (map (\<lambda>(tile, setting).
            if tile = t' then map (\<lambda>(_, d). (t', d)) (filter (\<lambda>(s, _). s = q) (zip (settingSrcs setting) (settingDsts setting)))
            else []) settings)))"

text \<open>
  A call returns true as soon as one of its calls does. \<open>anyPath\<close> has the calls that are still to be
  made, in order; \<open>None\<close> is a recursion that does not end.
\<close>

partial_function (option) anyPath :: "SwitchSettings \<Rightarrow> TileLoc \<times> Port \<Rightarrow> (TileLoc \<times> Port) list \<Rightarrow> bool option" where
  "anyPath settings final calls =
     (case calls of
        [] \<Rightarrow> Some False
      | c # cs \<Rightarrow> if c = final then Some True else anyPath settings final (pathCalls settings c @ cs))"

definition existsPathToDest :: "SwitchSettings \<Rightarrow> TileLoc \<Rightarrow> Port \<Rightarrow> TileLoc \<Rightarrow> Port \<Rightarrow> bool option" where
  "existsPathToDest settings currTile currDest finalTile finalDest = anyPath settings (finalTile, finalDest) [(currTile, currDest)]"

declare anyPath.simps [code]

section \<open>Paths over the settings\<close>

inductive path_to :: "SwitchSettings \<Rightarrow> TileLoc \<times> Port \<Rightarrow> TileLoc \<times> Port \<Rightarrow> bool" for S where
  here: "path_to S c c"
| across: "c' \<in> set (pathCalls S c) \<Longrightarrow> path_to S c' d \<Longrightarrow> path_to S c d"

lemma path_to_iff: "path_to S c d \<longleftrightarrow> c = d \<or> (\<exists>c' \<in> set (pathCalls S c). path_to S c' d)"
  by (subst path_to.simps) blast

lemma anyPath_sound:
  assumes "anyPath S d cs = Some b"
  shows "b \<longleftrightarrow> (\<exists>c \<in> set cs. path_to S c d)"
proof (rule anyPath.raw_induct [where P = "\<lambda>S d cs b. b \<longleftrightarrow> (\<exists>c \<in> set cs. path_to S c d)", OF _ assms])
  fix rec :: "SwitchSettings \<Rightarrow> TileLoc \<times> Port \<Rightarrow> (TileLoc \<times> Port) list \<Rightarrow> bool option" and S d cs b
  assume IH: "\<And>S d cs b. rec S d cs = Some b \<Longrightarrow> b \<longleftrightarrow> (\<exists>c \<in> set cs. path_to S c d)"
    and eq: "(case cs of [] \<Rightarrow> Some False | c # cs \<Rightarrow> if c = d then Some True else rec S d (pathCalls S c @ cs)) = Some b"
  show "b \<longleftrightarrow> (\<exists>c \<in> set cs. path_to S c d)"
  proof (cases cs)
    case Nil
    then show ?thesis using eq by simp
  next
    case (Cons c cs')
    show ?thesis
    proof (cases "c = d")
      case True
      then show ?thesis using eq Cons path_to.here [of S d] by auto
    next
      case False
      then have "rec S d (pathCalls S c @ cs') = Some b" using eq Cons by simp
      from IH [OF this] have "b \<longleftrightarrow> (\<exists>c' \<in> set (pathCalls S c @ cs'). path_to S c' d)" .
      then show ?thesis using Cons False path_to_iff [of S c d] by auto
    qed
  qed
qed

lemma anyPath_ends:
  assumes "wf {(c', c). c' \<in> set (pathCalls S c)}"
  shows "\<exists>b. anyPath S d cs = Some b"
proof (induction "mset cs" arbitrary: cs rule: wf_induct_rule [OF wf_mult [OF assms]])
  case 1
  show ?case
  proof (cases cs)
    case Nil
    then have "anyPath S d cs = Some False" by (subst anyPath.simps) simp
    then show ?thesis by blast
  next
    case (Cons c cs')
    have "(mset cs' + mset (pathCalls S c), mset cs' + {#c#}) \<in> mult {(c', c). c' \<in> set (pathCalls S c)}"
      by (rule one_step_implies_mult) auto
    then have "(mset (pathCalls S c @ cs'), mset cs) \<in> mult {(c', c). c' \<in> set (pathCalls S c)}" using Cons by (simp add: add.commute)
    from 1 [OF this] obtain b where "anyPath S d (pathCalls S c @ cs') = Some b" by blast
    then have "anyPath S d cs = Some (if c = d then True else b)" using Cons by (subst anyPath.simps) simp
    then show ?thesis by blast
  qed
qed

text \<open>
  \<open>existsPathToDest\<close> returns whether the settings lead from an output port to another, from tile
  to tile, whenever it returns; and it returns when the settings have no cycle.
\<close>

theorem exists_path_correct:
  "(\<forall>b. existsPathToDest S t p t' p' = Some b \<longrightarrow> b = path_to S (t, p) (t', p'))
   \<and> (wf {(c', c). c' \<in> set (pathCalls S c)} \<longrightarrow> existsPathToDest S t p t' p' \<noteq> None)"
  unfolding existsPathToDest_def
proof (intro conjI allI impI)
  show "b = path_to S (t, p) (t', p')" if "anyPath S (t', p') [(t, p)] = Some b" for b
    using anyPath_sound [OF that] by simp
  show "anyPath S (t', p') [(t, p)] \<noteq> None" if "wf {(c', c). c' \<in> set (pathCalls S c)}"
    using anyPath_ends [OF that, of "(t', p')" "[(t, p)]"] by auto
qed

text \<open>Settings over two tiles, and settings that lead from each of two tiles back to the other.\<close>

definition hopSettings :: SwitchSettings where
  "hopSettings = [(TileLoc 1 0, \<lparr>settingSrcs = [Port WEST 0], settingDsts = [Port CORE 0]\<rparr>)]"

definition cycleSettings :: SwitchSettings where
  "cycleSettings = [(TileLoc 0 0, \<lparr>settingSrcs = [Port EAST 0], settingDsts = [Port EAST 0]\<rparr>),
     (TileLoc 1 0, \<lparr>settingSrcs = [Port WEST 0], settingDsts = [Port WEST 0]\<rparr>)]"

theorem exists_path_correct_witness:
  "path_to hopSettings (TileLoc 0 0, Port EAST 0) (TileLoc 1 0, Port CORE 0)"
proof -
  have "case existsPathToDest hopSettings (TileLoc 0 0) (Port EAST 0) (TileLoc 1 0) (Port CORE 0) of Some True \<Rightarrow> True | _ \<Rightarrow> False"
    by code_simp
  then have "existsPathToDest hopSettings (TileLoc 0 0) (Port EAST 0) (TileLoc 1 0) (Port CORE 0) = Some True"
    by (auto split: option.splits bool.splits)
  with exists_path_correct show ?thesis by blast
qed

lemma cycle_diverges: "existsPathToDest cycleSettings (TileLoc 0 0) (Port EAST 0) (TileLoc 5 5) (Port CORE 0) = None"
proof -
  have step: "pathCalls cycleSettings (TileLoc 0 0, Port EAST 0) = [(TileLoc 1 0, Port WEST 0)]"
    "pathCalls cycleSettings (TileLoc 1 0, Port WEST 0) = [(TileLoc 0 0, Port EAST 0)]"
    by (simp_all add: pathCalls_def acrossTile_def cycleSettings_def)
  let ?stuck = "{[(TileLoc 0 0, Port EAST 0)], [(TileLoc 1 0, Port WEST 0)]}" and ?goal = "(TileLoc 5 5, Port CORE 0)"
  have "cs \<notin> ?stuck" if run: "anyPath cycleSettings ?goal cs = Some b" for cs b
  proof -
    have "cycleSettings = cycleSettings \<longrightarrow> ?goal = ?goal \<longrightarrow> cs \<notin> ?stuck"
    proof (rule anyPath.raw_induct [where P = "\<lambda>S d cs b. S = cycleSettings \<longrightarrow> d = ?goal \<longrightarrow> cs \<notin> ?stuck", OF _ run])
      fix rec :: "SwitchSettings \<Rightarrow> TileLoc \<times> Port \<Rightarrow> (TileLoc \<times> Port) list \<Rightarrow> bool option" and S d cs b
      assume IH: "\<And>S d cs b. rec S d cs = Some b \<Longrightarrow> S = cycleSettings \<longrightarrow> d = ?goal \<longrightarrow> cs \<notin> ?stuck"
        and eq: "(case cs of [] \<Rightarrow> Some False | c # cs \<Rightarrow> if c = d then Some True else rec S d (pathCalls S c @ cs)) = Some b"
      show "S = cycleSettings \<longrightarrow> d = ?goal \<longrightarrow> cs \<notin> ?stuck"
      proof (intro impI notI)
        assume S: "S = cycleSettings" "d = ?goal" "cs \<in> ?stuck"
        then have "rec cycleSettings ?goal [(TileLoc 1 0, Port WEST 0)] = Some b \<or> rec cycleSettings ?goal [(TileLoc 0 0, Port EAST 0)] = Some b"
          using eq step by auto
        then show False using IH by blast
      qed
    qed
    then show ?thesis by blast
  qed
  then show ?thesis unfolding existsPathToDest_def
    by (cases "anyPath cycleSettings (TileLoc 5 5, Port CORE 0) [(TileLoc 0 0, Port EAST 0)]") auto
qed

section \<open>Wires\<close>

text \<open>
  A signal passes a tile through the switchbox alone, or through the shim multiplexer before or after
  it.
\<close>

definition wired :: "TileLoc \<Rightarrow> Connect list \<Rightarrow> Port \<Rightarrow> Port \<Rightarrow> bool" where
  "wired t conns p q \<longleftrightarrow> tileConnect t SWB p q \<in> set conns
     \<or> (\<exists>mux. tileConnect t SHIMMUX p mux \<in> set conns \<and> tileConnect t SWB (facing mux) q \<in> set conns)
     \<or> (\<exists>mux. tileConnect t SWB p (facing mux) \<in> set conns \<and> tileConnect t SHIMMUX mux q \<in> set conns)"

text \<open>The input of a connection: the source of the flow where its signal comes out of the multiplexer.\<close>

definition inputOf :: "AMDAIEDeviceModel \<Rightarrow> PhysPort \<Rightarrow> TileLoc \<Rightarrow> Port \<Rightarrow> Port" where
  "inputOf m srcPoint t s = (if t = tileLoc srcPoint \<and> shimMux m t MM2S (port srcPoint) \<noteq> None then port srcPoint else s)"

lemma emitSetting_wired:
  assumes "length (settingSrcs setting) = length (settingDsts setting)"
  shows "\<exists>conns. emitSetting m srcPoint (t, setting) = Inr conns
    \<and> (\<forall>(s, d) \<in> set (zip (settingSrcs setting) (settingDsts setting)). wired t (sort conns) (inputOf m srcPoint t s) d)"
proof -
  define mux where "mux = (if t = tileLoc srcPoint then shimMux m t MM2S (port srcPoint) else None)"
  define first where "first = (case mux of Some mx \<Rightarrow> [tileConnect t SHIMMUX (port srcPoint) mx] | None \<Rightarrow> [])"
  let ?ps = "zip (settingSrcs setting) (settingDsts setting)"
  let ?conns = "first @ concat (map (emitPair m t mux) ?ps)"
  have run: "emitSetting m srcPoint (t, setting) = Inr ?conns" using assms by (simp add: emitSetting_def Let_def mux_def first_def)
  have "wired t (sort ?conns) (inputOf m srcPoint t s) d" if sd: "(s, d) \<in> set ?ps" for s d
  proof -
    have sub: "set (emitPair m t mux (s, d)) \<subseteq> set (sort ?conns)" "set first \<subseteq> set (sort ?conns)" using sd by auto
    show ?thesis
    proof (cases mux)
      case (Some mx)
      then have i: "inputOf m srcPoint t s = port srcPoint" by (auto simp: inputOf_def mux_def split: if_splits)
      have "tileConnect t SHIMMUX (port srcPoint) mx \<in> set (sort ?conns)" "tileConnect t SWB (facing mx) d \<in> set (sort ?conns)"
        using sub Some by (auto simp: first_def emitPair_def)
      then show ?thesis unfolding wired_def i by blast
    next
      case None
      then have i: "inputOf m srcPoint t s = s" by (auto simp: inputOf_def mux_def split: if_splits)
      show ?thesis
      proof (cases "shimMux m t S2MM d")
        case None
        then have "tileConnect t SWB s d \<in> set (sort ?conns)" using sub(1) \<open>mux = None\<close> by (auto simp: emitPair_def)
        then show ?thesis unfolding wired_def i by blast
      next
        case (Some mx)
        then have "tileConnect t SWB s (facing mx) \<in> set (sort ?conns)" "tileConnect t SHIMMUX mx d \<in> set (sort ?conns)"
          using sub(1) \<open>mux = None\<close> by (auto simp: emitPair_def)
        then show ?thesis unfolding wired_def i by blast
      qed
    qed
  qed
  then show ?thesis using run by blast
qed


text \<open>A flow from a shim DMA to the tile above.\<close>

definition shimSettings :: SwitchSettings where
  "shimSettings = [(TileLoc 0 0, \<lparr>settingSrcs = [Port DMA 0], settingDsts = [Port NORTH 1]\<rparr>)]"


text \<open>
  A flow from a shim DMA to a DMA of the same shim tile gets the multiplexer at its source only: the
  DMA it should arrive at is connected to the switchbox, which has no such port.
\<close>

theorem shim_loopback:
  assumes "shimMux m t MM2S (Port DMA c) = Some mux"
  shows "emitSetting m (PhysPort t (Port DMA c) SRC) (t, \<lparr>settingSrcs = [Port DMA c], settingDsts = [Port DMA c']\<rparr>) =
     Inr [tileConnect t SHIMMUX (Port DMA c) mux, tileConnect t SWB (facing mux) (Port DMA c')]"
  using assms by (simp add: emitSetting_def emitPair_def)

theorem shim_loopback_witness:
  "emitSetting (sampleModel npu1) (PhysPort (TileLoc 0 0) (Port DMA 0) SRC) (TileLoc 0 0, \<lparr>settingSrcs = [Port DMA 0], settingDsts = [Port DMA 0]\<rparr>) =
     Inr [tileConnect (TileLoc 0 0) SHIMMUX (Port DMA 0) (Port NORTH 3), tileConnect (TileLoc 0 0) SWB (Port SOUTH 3) (Port DMA 0)]"
proof -
  have "shimMux (sampleModel npu1) (TileLoc 0 0) MM2S (Port DMA 0) = Some (Port NORTH 3)"
    by (simp add: shimMux_def isShimNOCTile_def getTileType_def sample_defs getShimMuxPortMappingForDmaOrNoc_def mm2sDmaNocToSpecialShimPortMap_def)
  from shim_loopback [OF this, of 0] show ?thesis by (simp add: facing_def)
qed

end
