(* ===== verification/Router_Build.thy ===== *)
theory Router_Build
  imports Router_Emit
begin

text \<open>
  The life of a router before \<open>findPaths\<close>: every order of its operations leaves a router whose state has
  the invariants that routing needs.
\<close>

section \<open>The router from its construction to a solution\<close>

text \<open>The routers a client can have: what the operations make of an initialised router, in any order.\<close>

inductive router_built :: "'d weight_ops \<Rightarrow> AMDAIEDeviceModel \<Rightarrow> int \<Rightarrow> int \<Rightarrow> 'd Router \<Rightarrow> bool" for W m mc mr where
  initialized: "initialize W m (mk_Router mc mr) = Inr R \<Longrightarrow> router_built W m mc mr R"
| flow: "router_built W m mc mr R \<Longrightarrow> router_built W m mc mr (addFlow sc sp dc dp pkt R)"
| fixed_circuit: "router_built W m mc mr R \<Longrightarrow> router_built W m mc mr (snd (addFixedCircuitConnection W c r connects R))"
| fixed_packet: "router_built W m mc mr R \<Longrightarrow> router_built W m mc mr (snd (addFixedPacketConnection W src dst R))"

definition fixed_nonneg :: "'d SwitchboxConnect \<Rightarrow> bool" where
  "fixed_nonneg sb \<longleftrightarrow> (\<forall>i j. 0 \<le> fixedPacketFlowCount sb i j)"

text \<open>What all of these operations keep of the graph.\<close>

definition graph_kept :: "'d sb_graph \<Rightarrow> bool" where
  "graph_kept g \<longleftrightarrow> graph_ok g \<and> all_sb fixed_nonneg g"

lemma graph_kept_set:
  assumes "graph_kept g" and "sb_shape t t' sb" and "fixed_nonneg sb"
  shows "graph_kept (sb_set (t, t') sb g)"
  using assms by (auto simp: graph_kept_def graph_ok_def all_sb_def)

lemma sb_at_kept: "graph_kept g \<Longrightarrow> sb_shape t t (sb_at W g t t) \<and> fixed_nonneg (sb_at W g t t)"
  by (cases "map_of g (t, t)") (auto simp: graph_kept_def graph_ok_def all_sb_def sb_at_def sb_shape_def mk_SwitchboxConnect_def fixed_nonneg_def)

lemma fixConnections_fields:
  "srcPorts (snd (fixConnections cs sb)) = srcPorts sb \<and> dstPorts (snd (fixConnections cs sb)) = dstPorts sb
    \<and> fixedPacketFlowCount (snd (fixConnections cs sb)) = fixedPacketFlowCount sb"
  by (induction cs sb rule: fixConnections.induct) (auto simp: fixConnection_def Let_def split: prod.splits)

lemma fixed_circuit_kept: "graph_kept (graph R) \<Longrightarrow> graph_kept (graph (snd (addFixedCircuitConnection W c r cs R)))"
proof -
  assume g: "graph_kept (graph R)"
  let ?t = "TileLoc c r"
  let ?sb = "snd (fixConnections cs (sb_at W (graph R) ?t ?t))"
  have "sb_shape ?t ?t ?sb \<and> fixed_nonneg ?sb"
    using sb_at_kept [OF g, of ?t W] fixConnections_fields [of cs "sb_at W (graph R) ?t ?t"] by (simp add: sb_shape_def fixed_nonneg_def)
  then have "graph_kept (sb_set (?t, ?t) ?sb (graph R))" using graph_kept_set [OF g] by blast
  then show ?thesis by (simp add: addFixedCircuitConnection_def Let_def case_prod_unfold)
qed

lemma countFixed_kept: "graph_kept (graph R) \<Longrightarrow> graph_kept (graph (snd (countFixed W src dst R)))"
proof -
  assume g: "graph_kept (graph R)"
  let ?sb = "sb_at W (graph R) (tileLoc src) (tileLoc dst)"
  let ?i = "find_index (port src) (srcPorts ?sb)" and ?j = "find_index (port dst) (dstPorts ?sb)"
  show ?thesis
  proof (cases "?i < length (srcPorts ?sb) \<and> ?j < length (dstPorts ?sb)")
    case True
    then obtain sb where sb: "map_of (graph R) (tileLoc src, tileLoc dst) = Some sb" "?sb = sb"
      using sb_at_None [of "graph R" "tileLoc src" "tileLoc dst" W]
      by (cases "map_of (graph R) (tileLoc src, tileLoc dst)") (auto simp: sb_at_def)
    let ?new = "sb\<lparr>fixedPacketFlowCount := upd2 (fixedPacketFlowCount sb) ?i ?j (fixedPacketFlowCount sb ?i ?j + 1)\<rparr>"
    have "sb_shape (tileLoc src) (tileLoc dst) ?new \<and> fixed_nonneg ?new"
      using g sb(1) by (auto simp: graph_kept_def graph_ok_def all_sb_def sb_shape_def fixed_nonneg_def upd2_def add_nonneg_nonneg)
    then have "graph_kept (sb_set (tileLoc src, tileLoc dst) ?new (graph R))" using graph_kept_set [OF g] by blast
    moreover have "snd (countFixed W src dst R) = R\<lparr>graph := sb_set (tileLoc src, tileLoc dst) ?new (graph R)\<rparr>"
      using True sb(2) by (simp add: countFixed_def Let_def not_le del: find_index_less)
    ultimately show ?thesis by simp
  next
    case False
    then have "countFixed W src dst R = (False, R)" by (simp add: countFixed_def Let_def del: find_index_less) (meson not_le)
    then show ?thesis using g by simp
  qed
qed

lemma countFixed_frame: "flows (snd (countFixed W src dst R)) = flows R \<and> channels (snd (countFixed W src dst R)) = channels R
    \<and> nextAvailablePacketGroupId (snd (countFixed W src dst R)) = nextAvailablePacketGroupId R"
  by (simp add: countFixed_def Let_def)

text \<open>Any property that \<open>countFixed\<close> keeps is kept by the propagation, and by the whole operation.\<close>

lemma propagateFixed_keeps:
  assumes "\<And>src dst R. Q R \<Longrightarrow> Q (snd (countFixed W src dst R))"
  shows "Q R \<Longrightarrow> Q (snd (propagateFixed W t s d ns R))"
proof (induction ns arbitrary: R)
  case (Cons n ns)
  obtain near far t' where n: "n = ((near, far), t')" by (metis surj_pair)
  define r1 where "r1 = (if portBundle s = near
    then countFixed W (PhysPort t' (Port far (portChannel s)) SRC) (PhysPort t (Port near (portChannel s)) DST) R else (True, R))"
  define r2 where "r2 = (if portBundle d = near
    then countFixed W (PhysPort t (Port near (portChannel d)) SRC) (PhysPort t' (Port far (portChannel d)) DST) (snd r1) else (True, snd r1))"
  have q1: "Q (snd r1)" using assms Cons.prems by (simp add: r1_def)
  then have q2: "Q (snd r2)" using assms by (simp add: r2_def)
  have "propagateFixed W t s d (n # ns) R = (if \<not> fst r1 then (False, snd r1)
      else if \<not> fst r2 then (False, snd r2) else propagateFixed W t s d ns (snd r2))"
    unfolding n propagateFixed.simps r1_def [symmetric] by (simp add: case_prod_unfold r2_def)
  then show ?case using q1 q2 Cons.IH by simp
qed simp

lemma addFixedPacket_keeps:
  assumes "\<And>src dst R. Q R \<Longrightarrow> Q (snd (countFixed W src dst R))" and "Q R"
  shows "Q (snd (addFixedPacketConnection W src dst R))"
proof -
  obtain ok R' where r: "countFixed W src dst R = (ok, R')" by (cases "countFixed W src dst R")
  then have "Q R'" using assms(1) [OF assms(2), of src dst] by simp
  then show ?thesis using propagateFixed_keeps [of Q W, OF assms(1)] r by (auto simp: addFixedPacketConnection_def split: bool.splits)
qed

lemma initialize_counts:
  assumes "initialize W m (mk_Router mc mr) = Inr R"
  shows "all_sb (\<lambda>sb. fixedPacketFlowCount sb = (\<lambda>_ _. 0)) (graph R)"
proof (rule res_fold_inv [where I = "\<lambda>_ R. all_sb (\<lambda>sb. fixedPacketFlowCount sb = (\<lambda>_ _. 0)) (graph R)"])
  show "res_fold (initTile W m) (tilesOf mc mr) (mk_Router mc mr) = Inr R"
    using assms by (simp add: initialize_def mk_Router_def)
  show "all_sb (\<lambda>sb. fixedPacketFlowCount sb = (\<lambda>_ _. 0)) (graph (mk_Router mc mr))" by (simp add: all_sb_def mk_Router_def)
  fix x s s' assume s: "initTile W m x s = Inr s'" "all_sb (\<lambda>sb. fixedPacketFlowCount sb = (\<lambda>_ _. 0)) (graph s)"
  obtain c r where x: "x = (c, r)" by (cases x)
  from initTile_graph [OF s(1) [unfolded x]] obtain sb mx where i: "intraconnect W m c r = Inr (sb, mx)"
    and g: "\<And>u u'. map_of (graph s') (u, u') =
         (if u = TileLoc c r then
            (if u' = u then Some sb
             else case map_of (map prod.swap (neighbours (maxCol s) (maxRow s) c r)) u' of
                    Some (a, b) \<Rightarrow> Some (interconnectTiles W mx u u' a b) | None \<Rightarrow> map_of (graph s) (u, u'))
          else map_of (graph s) (u, u'))" by blast
  have new: "fixedPacketFlowCount sb = (\<lambda>_ _. 0)" "fixedPacketFlowCount (interconnectTiles W mx u u' a b) = (\<lambda>_ _. 0)" for u u' a b
    using i by (auto simp: intraconnect_def interconnectTiles_def Let_def mk_SwitchboxConnect_def)
  have "fixedPacketFlowCount sb' = (\<lambda>_ _. 0)" if "map_of (graph s') (u, u') = Some sb'" for u u' sb'
    using that s(2) new unfolding g all_sb_def by (auto split: if_splits option.splits)
  then show "all_sb (\<lambda>sb. fixedPacketFlowCount sb = (\<lambda>_ _. 0)) (graph s')" unfolding all_sb_def by auto
qed

lemma router_built_inv:
  assumes "router_built W m mc mr R"
  shows "graph_ok (graph R) \<and> flows_ok R \<and> channels R = Map.empty \<and> all_sb (\<lambda>sb. \<forall>i j. 0 \<le> fixedPacketFlowCount sb i j) (graph R)"
proof -
  have "graph_kept (graph R) \<and> flows_ok R \<and> channels R = Map.empty"
    using assms
  proof induction
    case (initialized R)
    note b = initialize_built [OF initialized]
    have "fixed_nonneg sb" if "map_of (graph R) k = Some sb" for k sb
    proof -
      have "fixedPacketFlowCount sb = (\<lambda>_ _. 0)" using initialize_counts [OF initialized] that unfolding all_sb_def by blast
      then show ?thesis by (simp add: fixed_nonneg_def)
    qed
    then show ?case using initialize_graph_ok [OF initialized] b by (simp add: graph_kept_def all_sb_def flows_ok_def)
  next
    case (flow R sc sp dc dp pkt)
    have "graph (addFlow sc sp dc dp pkt R) = graph R \<and> channels (addFlow sc sp dc dp pkt R) = channels R"
      by (simp add: addFlow_def Let_def split: option.splits prod.splits)
    then show ?case using flow add_flow_spec [of R sc sp dc dp pkt] by simp
  next
    case (fixed_circuit R c r connects)
    have "flows_ok (snd (addFixedCircuitConnection W c r connects R)) \<longleftrightarrow> flows_ok R"
      "channels (snd (addFixedCircuitConnection W c r connects R)) = channels R"
      by (simp_all add: addFixedCircuitConnection_def Let_def case_prod_unfold flows_ok_def)
    then show ?case using fixed_circuit fixed_circuit_kept by auto
  next
    case (fixed_packet R src dst)
    let ?Q = "\<lambda>R. graph_kept (graph R) \<and> flows_ok R \<and> channels R = Map.empty"
    have "?Q (snd (countFixed W src dst R))" if "?Q R" for src dst R
    proof -
      have "graph_kept (graph (snd (countFixed W src dst R)))" using countFixed_kept that by blast
      with that countFixed_frame [of W src dst R] show ?thesis by (simp add: flows_ok_def)
    qed
    from addFixedPacket_keeps [of ?Q, OF this fixed_packet.IH] show ?case .
  qed
  then show ?thesis by (simp add: graph_kept_def fixed_nonneg_def [abs_def])
qed


text \<open>Such a router can route, provided there is a way for every request.\<close>

lemma router_built_routable:
  assumes "router_built W m mc mr R" and "arithmetic_ok W" and "\<forall>(s, d) \<in> requests R. (edge W (graph R))\<^sup>+\<^sup>+ s d"
  shows "routable W R"
  using router_built_inv [OF assms(1)] assms(2,3) by (simp add: routable_def cache_ok_def)

text \<open>
  C17. Whatever flows and fixed connections a client adds to an initialised router, in whatever order: its
  graph has the shape of the device, the flows have different sources and groups within bounds, no
  channel is cached yet, and no count of fixed packet flows is negative.
\<close>

theorem router_built_ok:
  assumes "router_built W m mc mr R"
  shows "graph_ok (graph R) \<and> flows_ok R \<and> channels R = Map.empty \<and> all_sb (\<lambda>sb. \<forall>i j. 0 \<le> fixedPacketFlowCount sb i j) (graph R)"
  using router_built_inv [OF assms] .

theorem router_built_ok_witness:
  "\<exists>R. initialize sampleWeights (sampleModel npu1) (mk_Router 3 5) = Inr R
     \<and> flows_ok (addFlow (TileLoc 0 0) (Port DMA 0) (TileLoc 0 2) (Port DMA 1) True R)"
proof -
  obtain R where R: "initialize sampleWeights (sampleModel npu1) (mk_Router 3 5) = Inr R" using initialize_sample by blast
  have "router_built sampleWeights (sampleModel npu1) 3 5 (addFlow (TileLoc 0 0) (Port DMA 0) (TileLoc 0 2) (Port DMA 1) True R)"
    by (intro router_built.intros R)
  from router_built_ok [OF this] R show ?thesis by blast
qed


end
