(* ===== verification/Transaction.thy ===== *)
theory Transaction
  imports AIE_Prelude
begin

unbundle bit_operations_syntax

text \<open>
  The table of address patches that the compiler derives from a serialized transaction
  (\<open>deriveHostPatchTableFromTransaction\<close> of AMDAIETransactionBuilder.cpp), the payloads of the custom
  operations the builder appends, and the abstract syntax of transactions that the table is specified on.
  A vector of words is read as its bytes in little-endian order; \<open>size_t\<close> is \<open>nat\<close>, the vectors are
  far below its range.
\<close>

named_theorems txn_simps "reading and writing words of a byte buffer"

section \<open>Words in a byte buffer\<close>

definition le32 :: "u32 \<Rightarrow> u8 list" where
  "le32 w = [ucast w, ucast (drop_bit 8 w), ucast (drop_bit 16 w), ucast (drop_bit 24 w)]"

definition un32 :: "u8 \<Rightarrow> u8 \<Rightarrow> u8 \<Rightarrow> u8 \<Rightarrow> u32" where
  "un32 b0 b1 b2 b3 = ucast b0 OR push_bit 8 (ucast b1) OR push_bit 16 (ucast b2) OR push_bit 24 (ucast b3)"

definition words_bytes :: "u32 list \<Rightarrow> u8 list" where
  "words_bytes ws = concat (map le32 ws)"

text \<open>The lambda \<open>rd\<close>: a copy of four bytes, out of bounds when they are not all in the buffer.\<close>

definition word_at :: "u8 list \<Rightarrow> nat \<Rightarrow> u32" where
  "word_at b off = un32 (b ! off) (b ! (off + 1)) (b ! (off + 2)) (b ! (off + 3))"

definition rd :: "u8 list \<Rightarrow> nat \<Rightarrow> u32 result" where
  "rd b off = (if off + 4 \<le> length b then Inr (word_at b off) else Inl OutOfBounds)"

lemma length_le32 [simp]: "length (le32 w) = 4"
  by (simp add: le32_def)

lemma length_words_bytes [simp]: "length (words_bytes ws) = 4 * length ws"
  by (induction ws) (simp_all add: words_bytes_def)

lemma words_bytes_simps [simp]: "words_bytes [] = []" "words_bytes (w # ws) = le32 w @ words_bytes ws"
  "words_bytes (us @ ws) = words_bytes us @ words_bytes ws"
  by (simp_all add: words_bytes_def)

lemma un32_le32: "un32 (ucast w) (ucast (drop_bit 8 w)) (ucast (drop_bit 16 w)) (ucast (drop_bit 24 w)) = w"
proof (rule bit_eqI)
  fix n assume "possible_bit TYPE(32 word) n"
  then have n: "n < 32" by simp
  then show "bit (un32 (ucast w) (ucast (drop_bit 8 w)) (ucast (drop_bit 16 w)) (ucast (drop_bit 24 w))) n = bit w n"
    by (cases "n < 8"; cases "n < 16"; cases "n < 24")
       (auto simp: un32_def bit_simps)
qed

lemma rd_append [txn_simps]: "rd (pre @ xs) (length pre + k) = rd xs k"
  by (simp add: rd_def word_at_def nth_append add.assoc)

lemma rd_le32 [txn_simps]: "rd (le32 w @ post) 0 = Inr w"
  by (simp add: rd_def word_at_def le32_def un32_le32)

lemma rd_at: "length pre = k \<Longrightarrow> rd (pre @ le32 w @ post) k = Inr w"
  using rd_append [of pre "le32 w @ post" 0] by (simp add: txn_simps)

lemma rd_words: "k < length ws \<Longrightarrow> rd (words_bytes ws @ post) (4 * k) = Inr (ws ! k)"
proof -
  assume k: "k < length ws"
  then have "words_bytes ws = words_bytes (take k ws) @ le32 (ws ! k) @ words_bytes (drop (Suc k) ws)"
    by (metis id_take_nth_drop words_bytes_simps(2,3))
  then show ?thesis using rd_at [of "words_bytes (take k ws)" "4 * k"] k by simp
qed

section \<open>The patch table\<close>

definition kWrite32 :: u8 where "kWrite32 = 0"
definition kBlockWrite :: u8 where "kBlockWrite = 1"
definition kMaskWrite :: u8 where "kMaskWrite = 3"
definition kMaskPoll :: u8 where "kMaskPoll = 4"
definition kCustomOpBase :: u8 where "kCustomOpBase = 128"
definition kDdrPatch :: u8 where "kDdrPatch = 129"

lemmas opcode_defs = kWrite32_def kBlockWrite_def kMaskWrite_def kMaskPoll_def kCustomOpBase_def kDdrPatch_def

lemma opcodes [simp]: "kMaskWrite \<noteq> kWrite32" "kMaskPoll \<noteq> kWrite32" "kBlockWrite \<noteq> kWrite32" "kMaskWrite \<noteq> kBlockWrite"
  "kMaskPoll \<noteq> kBlockWrite" "kDdrPatch \<noteq> kBlockWrite" "kDdrPatch \<ge> kCustomOpBase" "kBlockWrite \<noteq> kDdrPatch"
  "kWrite32 \<noteq> kDdrPatch" "kWrite32 \<noteq> kBlockWrite" "kMaskWrite \<noteq> kDdrPatch" "kMaskPoll \<noteq> kDdrPatch"
  "kBlockWrite \<noteq> kMaskWrite" "kBlockWrite \<noteq> kMaskPoll" "kDdrPatch \<noteq> kMaskWrite" "kDdrPatch \<noteq> kMaskPoll"
  by (simp_all add: opcode_defs)

lemma custom_opcodes: "opc \<ge> kCustomOpBase \<Longrightarrow> opc \<noteq> kWrite32 \<and> opc \<noteq> kBlockWrite \<and> opc \<noteq> kMaskWrite \<and> opc \<noteq> kMaskPoll"
  by (auto simp: opcode_defs word_le_nat_alt)

record BlockWrite =
  bwReg :: u32
  bwBytes :: u32
  payloadOff :: nat

definition opSize :: "u8 list \<Rightarrow> nat \<Rightarrow> u32 result" where
  "opSize b p =
     (let op = b ! p
      in if op = kWrite32 then rd b (p + 20)
         else if op = kBlockWrite then rd b (p + 12)
         else if op = kMaskWrite \<or> op = kMaskPoll then rd b (p + 24)
         else if op \<ge> kCustomOpBase then rd b (p + 4)
         else Inr 4)"

definition bdBaseOf :: "u32 \<Rightarrow> u32" where
  "bdBaseOf regAddr = regAddr AND NOT 0xF"

definition covers :: "u32 \<Rightarrow> BlockWrite \<Rightarrow> bool" where
  "covers bdBase bw \<longleftrightarrow> bdBase \<ge> bwReg bw \<and> bdBase < bwReg bw + bwBytes bw"

text \<open>The loop over the operations; its first argument is \<open>numOps - i\<close>.\<close>

fun deriveLoop :: "nat \<Rightarrow> u8 list \<Rightarrow> nat \<Rightarrow> BlockWrite list \<Rightarrow> u32 list \<Rightarrow> u32 list result" where
  "deriveLoop 0 b p bws table = Inr table"
| "deriveLoop (Suc n) b p bws table =
     (if \<not> p + 8 \<le> length b then Inr table
      else res_bind (opSize b p) (\<lambda>sz.
        if sz < 4 \<or> p + unat sz > length b then Inr table
        else if b ! p = kBlockWrite \<and> sz \<ge> 16 then
          res_bind (rd b (p + 8)) (\<lambda>reg.
            deriveLoop n b (p + unat sz) (bws @ [\<lparr>bwReg = reg, bwBytes = sz - 16, payloadOff = p + 16\<rparr>]) table)
        else if b ! p = kDdrPatch \<and> sz \<ge> 44 then
          res_bind (rd b (p + 24)) (\<lambda>regAddr. res_bind (rd b (p + 32)) (\<lambda>argIdx. res_bind (rd b (p + 40)) (\<lambda>argPlus.
            let bdBase = bdBaseOf regAddr
            in case find (covers bdBase) bws of
                 Some bw \<Rightarrow> deriveLoop n b (p + unat sz) bws
                   (table @ [of_nat (payloadOff bw + unat (bdBase - bwReg bw)), argIdx, argPlus])
               | None \<Rightarrow> Inl Fatal)))
        else deriveLoop n b (p + unat sz) bws table))"

definition deriveHostPatchTableFromTransaction :: "u32 list \<Rightarrow> u32 list result" where
  "deriveHostPatchTableFromTransaction txn =
     (let b = words_bytes txn
      in if length b < 16 then Inr []
         else res_bind (rd b 8) (\<lambda>numOps. deriveLoop (unat numOps) b 16 [] []))"

section \<open>Payloads of the custom operations\<close>

definition appendAddressPatch :: "u32 \<Rightarrow> u32 \<Rightarrow> u32 \<Rightarrow> u8 \<times> u32 list" where
  "appendAddressPatch addr argIdx offset = (kDdrPatch, [0, 0, 0, 0, addr, 0, argIdx, 0, offset, 0])"

definition appendTCTSync :: "u32 \<Rightarrow> u32 \<Rightarrow> u32 \<Rightarrow> u32 \<Rightarrow> u32 \<Rightarrow> u32 \<Rightarrow> u8 \<times> u32 list" where
  "appendTCTSync col row direction rowNum colNum channel =
     (kCustomOpBase,
      [(direction AND 0xff) OR push_bit 8 (row AND 0xff) OR push_bit 16 (col AND 0xff),
       push_bit 8 (rowNum AND 0xff) OR push_bit 16 (colNum AND 0xff) OR push_bit 24 (channel AND 0xff)])"

section \<open>Transactions\<close>

text \<open>
  The operations of a transaction and their serialized form, as the comments of the parser and its unit
  test give it: the opcode in the first byte, the size of the whole operation at the offset the kind
  has it, and bytes the parser does not read.
\<close>

datatype txn_op =
    WRITE32 "u8 list" u32 u32 u32
  | BLOCKWRITE "u8 list" u32 "u32 list"
  | MASKOP u8 "u8 list" "u8 list"
  | CUSTOM u8 "u8 list" "u32 list"
  | PLAIN u8 "u8 list"

fun ser :: "txn_op \<Rightarrow> u8 list" where
  "ser (WRITE32 pad regLo regHi val) = kWrite32 # pad @ le32 regLo @ le32 regHi @ le32 val @ le32 24"
| "ser (BLOCKWRITE pad reg payload) = kBlockWrite # pad @ le32 reg @ le32 (of_nat (16 + 4 * length payload)) @ words_bytes payload"
| "ser (MASKOP opc body post) = opc # body @ le32 (of_nat (28 + length post)) @ post"
| "ser (CUSTOM opc pad data) = opc # pad @ le32 (of_nat (8 + 4 * length data)) @ words_bytes data"
| "ser (PLAIN opc pad) = opc # pad"

fun wf_op :: "txn_op \<Rightarrow> bool" where
  "wf_op (WRITE32 pad regLo regHi val) \<longleftrightarrow> length pad = 7"
| "wf_op (BLOCKWRITE pad reg payload) \<longleftrightarrow> length pad = 7"
| "wf_op (MASKOP opc body post) \<longleftrightarrow> (opc = kMaskWrite \<or> opc = kMaskPoll) \<and> length body = 23 \<and> 4 dvd length post"
| "wf_op (CUSTOM opc pad data) \<longleftrightarrow> opc \<ge> kCustomOpBase \<and> length pad = 3"
| "wf_op (PLAIN opc pad) \<longleftrightarrow> opc \<notin> {kWrite32, kBlockWrite, kMaskWrite, kMaskPoll} \<and> opc < kCustomOpBase \<and> length pad = 3"

definition serialize :: "txn_op list \<Rightarrow> u8 list" where
  "serialize ops = concat (map ser ops)"

text \<open>A vector of words that holds a header and the operations.\<close>

definition holds_txn :: "u32 list \<Rightarrow> txn_op list \<Rightarrow> bool" where
  "holds_txn txn ops \<longleftrightarrow> (\<exists>hdr. length hdr = 4 \<and> hdr ! 2 = of_nat (length ops) \<and> words_bytes txn = words_bytes hdr @ serialize ops)
     \<and> (\<forall>op \<in> set ops. wf_op op) \<and> 4 * length txn < 2 ^ 32"

text \<open>
  The specification: the blocks written so far with the place of their payload, and for every DDR
  patch the place, in the payload of the first block that covers it, of the buffer descriptor it patches.
\<close>

fun blockOf :: "nat \<Rightarrow> txn_op \<Rightarrow> BlockWrite list" where
  "blockOf off (BLOCKWRITE pad reg payload) = [\<lparr>bwReg = reg, bwBytes = of_nat (4 * length payload), payloadOff = off + 16\<rparr>]"
| "blockOf off _ = []"

fun patchOf :: "txn_op \<Rightarrow> (u32 \<times> u32 \<times> u32) option" where
  "patchOf (CUSTOM opc pad data) =
     (if opc = kDdrPatch \<and> length data \<ge> 9 then Some (bdBaseOf (data ! 4), data ! 6, data ! 8) else None)"
| "patchOf _ = None"

fun patches :: "nat \<Rightarrow> BlockWrite list \<Rightarrow> txn_op list \<Rightarrow> (BlockWrite \<times> u32 \<times> u32 \<times> u32) list result" where
  "patches off bws [] = Inr []"
| "patches off bws (op # ops) =
     res_bind (case patchOf op of
         None \<Rightarrow> Inr []
       | Some (bdBase, argIdx, argPlus) \<Rightarrow>
           (case find (covers bdBase) bws of None \<Rightarrow> Inl Fatal | Some bw \<Rightarrow> Inr [(bw, bdBase, argIdx, argPlus)]))
       (\<lambda>now. res_bind (patches (off + length (ser op)) (bws @ blockOf off op) ops) (\<lambda>later. Inr (now @ later)))"

definition triple :: "BlockWrite \<times> u32 \<times> u32 \<times> u32 \<Rightarrow> u32 list" where
  "triple = (\<lambda>(bw, bdBase, argIdx, argPlus). [of_nat (payloadOff bw + unat (bdBase - bwReg bw)), argIdx, argPlus])"

definition map_res :: "('a \<Rightarrow> 'b) \<Rightarrow> 'a result \<Rightarrow> 'b result" where
  "map_res f m = res_bind m (\<lambda>x. Inr (f x))"

section \<open>The parser against the specification\<close>

lemma res_bind_Inr [simp]: "res_bind m Inr = m"
  by (cases m) simp_all

lemma res_bind_assoc: "res_bind (res_bind m f) g = res_bind m (\<lambda>x. res_bind (f x) g)"
  by (cases m) simp_all

lemma ser_length: "wf_op op \<Longrightarrow> 4 \<le> length (ser op)"
  by (cases op) simp_all

lemma unat_of_nat_small: "n < 2 ^ 32 \<Longrightarrow> unat (of_nat n :: u32) = n"
  by (simp add: unat_of_nat take_bit_nat_eq_self)

lemma opSize_ser:
  assumes "wf_op op" and "length (ser op) < 2 ^ 32" and "8 \<le> length (ser op @ post)"
  shows "opSize (pre @ ser op @ post) (length pre) = Inr (of_nat (length (ser op)))"
proof -
  have first: "(pre @ ser op @ post) ! length pre = hd (ser op)" by (cases op) (simp_all add: nth_append)
  have at: "rd (pre @ ser op @ post) (length pre + k) = rd (ser op @ post) k" for k by (rule rd_append)
  show ?thesis
  proof (cases op)
    case (WRITE32 pad regLo regHi val)
    have "rd ((kWrite32 # pad @ le32 regLo @ le32 regHi @ le32 val) @ le32 24 @ post) 20 = Inr 24"
      using assms(1) WRITE32 by (intro rd_at) simp
    then show ?thesis using WRITE32 assms(1) at [of 20] first by (simp add: opSize_def Let_def)
  next
    case (BLOCKWRITE pad reg payload)
    have "rd ((kBlockWrite # pad @ le32 reg) @ le32 (of_nat (16 + 4 * length payload)) @ words_bytes payload @ post) 12
        = Inr (of_nat (16 + 4 * length payload))"
      using assms(1) BLOCKWRITE by (intro rd_at) simp
    then show ?thesis using BLOCKWRITE assms(1) at [of 12] first by (simp add: opSize_def Let_def algebra_simps)
  next
    case (MASKOP opc body rest)
    have "rd ((opc # body) @ le32 (of_nat (28 + length rest)) @ rest @ post) 24 = Inr (of_nat (28 + length rest))"
      using assms(1) MASKOP by (intro rd_at) simp
    then show ?thesis using MASKOP assms(1) at [of 24] first by (auto simp add: opSize_def Let_def algebra_simps)
  next
    case (CUSTOM opc pad data)
    have "rd ((opc # pad) @ le32 (of_nat (8 + 4 * length data)) @ words_bytes data @ post) 4 = Inr (of_nat (8 + 4 * length data))"
      using assms(1) CUSTOM by (intro rd_at) simp
    moreover have "opc \<noteq> kWrite32 \<and> opc \<noteq> kBlockWrite \<and> opc \<noteq> kMaskWrite \<and> opc \<noteq> kMaskPoll"
      using assms(1) CUSTOM by (simp add: custom_opcodes)
    ultimately show ?thesis using CUSTOM assms(1) at [of 4] first by (simp add: opSize_def Let_def algebra_simps)
  next
    case (PLAIN opc pad)
    then show ?thesis using assms(1) first by (auto simp: opSize_def Let_def)
  qed
qed

lemma ser_first: "wf_op op \<Longrightarrow> (pre @ ser op @ post) ! length pre = hd (ser op)"
  by (cases op) (simp_all add: nth_append)

text \<open>What the parser reads of a block write and of a DDR patch.\<close>

lemma rd_block:
  assumes "wf_op (BLOCKWRITE pad reg payload)"
  shows "rd (pre @ ser (BLOCKWRITE pad reg payload) @ post) (length pre + 8) = Inr reg"
proof -
  have "rd ((kBlockWrite # pad) @ le32 reg @ le32 (of_nat (16 + 4 * length payload)) @ words_bytes payload @ post) 8 = Inr reg"
    using assms by (intro rd_at) simp
  then show ?thesis by (simp add: rd_append)
qed

lemma rd_custom:
  assumes "wf_op (CUSTOM opc pad data)" and "k < length data"
  shows "rd (pre @ ser (CUSTOM opc pad data) @ post) (length pre + (8 + 4 * k)) = Inr (data ! k)"
proof -
  have "rd ((opc # pad @ le32 (of_nat (8 + 4 * length data))) @ words_bytes data @ post) (length (opc # pad @ le32 (of_nat (8 + 4 * length data))) + 4 * k)
      = Inr (data ! k)"
    unfolding rd_append by (rule rd_words [OF assms(2)])
  then show ?thesis using assms(1) rd_append [of pre "ser (CUSTOM opc pad data) @ post" "8 + 4 * k"] by (simp add: add.assoc)
qed

lemma deriveLoop_ser:
  assumes "\<forall>op \<in> set ops. wf_op op" and "length (pre @ serialize ops) < 2 ^ 32"
  shows "deriveLoop (length ops) (pre @ serialize ops) (length pre) bws table =
    map_res (\<lambda>ps. table @ concat (map triple ps)) (patches (length pre) bws ops)"
  using assms
proof (induction ops arbitrary: pre bws table)
  case Nil
  then show ?case by (simp add: map_res_def)
next
  case (Cons op ops)
  let ?b = "pre @ serialize (op # ops)"
  have wf: "wf_op op" using Cons.prems by simp
  have b: "?b = pre @ ser op @ serialize ops" by (simp add: serialize_def)
  have len: "length (ser op) < 2 ^ 32" using Cons.prems(2) by (simp add: serialize_def)
  have IH: "deriveLoop (length ops) ?b (length pre + length (ser op)) bws' table'
      = map_res (\<lambda>ps. table' @ concat (map triple ps)) (patches (length pre + length (ser op)) bws' ops)" for bws' table'
    using Cons.IH [of "pre @ ser op" bws' table'] Cons.prems by (simp add: serialize_def)
  show ?case
  proof (cases "length pre + 8 \<le> length ?b")
    case False
    then have "length (ser op) < 8" "length (serialize ops) < 4" using ser_length [OF wf] by (auto simp: serialize_def)
    moreover have "ops = []"
    proof (cases ops)
      case (Cons o' os)
      then have "4 \<le> length (ser o')" using Cons.prems(1) ser_length by simp
      then show ?thesis using \<open>length (serialize ops) < 4\<close> Cons by (simp add: serialize_def)
    qed simp
    moreover obtain opc pad where "op = PLAIN opc pad" using \<open>length (ser op) < 8\<close> wf by (cases op) auto
    ultimately show ?thesis using False by (simp add: map_res_def)
  next
    case True
    have sz: "opSize ?b (length pre) = Inr (of_nat (length (ser op)))"
      unfolding b using True len by (intro opSize_ser [OF wf]) (simp_all add: serialize_def)
    have u: "unat (of_nat (length (ser op)) :: u32) = length (ser op)" by (rule unat_of_nat_small [OF len])
    have ge: "\<not> (of_nat (length (ser op)) :: u32) < 4" using ser_length [OF wf] u by (simp add: word_less_nat_alt)
    have fits: "\<not> length pre + length (ser op) > length ?b" by (simp add: serialize_def)
    have first: "?b ! length pre = hd (ser op)" unfolding b by (rule ser_first [OF wf])
    have step: "deriveLoop (length (op # ops)) ?b (length pre) bws table =
       (if ?b ! length pre = kBlockWrite \<and> (of_nat (length (ser op)) :: u32) \<ge> 16 then
          res_bind (rd ?b (length pre + 8)) (\<lambda>reg.
            deriveLoop (length ops) ?b (length pre + length (ser op))
              (bws @ [\<lparr>bwReg = reg, bwBytes = of_nat (length (ser op)) - 16, payloadOff = length pre + 16\<rparr>]) table)
        else if ?b ! length pre = kDdrPatch \<and> (of_nat (length (ser op)) :: u32) \<ge> 44 then
          res_bind (rd ?b (length pre + 24)) (\<lambda>regAddr. res_bind (rd ?b (length pre + 32)) (\<lambda>argIdx. res_bind (rd ?b (length pre + 40)) (\<lambda>argPlus.
            let bdBase = bdBaseOf regAddr
            in case find (covers bdBase) bws of
                 Some bw \<Rightarrow> deriveLoop (length ops) ?b (length pre + length (ser op)) bws
                   (table @ [of_nat (payloadOff bw + unat (bdBase - bwReg bw)), argIdx, argPlus])
               | None \<Rightarrow> Inl Fatal)))
        else deriveLoop (length ops) ?b (length pre + length (ser op)) bws table)"
      using True ge fits by (simp only: deriveLoop.simps list.size(4) add_Suc_right add_0_right sz res_bind.simps u if_False simp_thms if_True)
    have skip: "map_res (\<lambda>ps. table @ concat (map triple ps)) (patches (length pre) bws (op # ops)) = deriveLoop (length ops) ?b (length pre + length (ser op)) bws table"
      if "patchOf op = None" "blockOf (length pre) op = []"
      using that IH [of bws table] by (simp add: map_res_def)
    show ?thesis
    proof (cases op)
      case (BLOCKWRITE pad reg payload)
      have r: "rd ?b (length pre + 8) = Inr reg" unfolding b unfolding BLOCKWRITE using rd_block wf BLOCKWRITE by simp
      have l: "length (ser op) = 16 + 4 * length payload" using wf BLOCKWRITE by simp
      have "(of_nat (length (ser op)) :: u32) \<ge> 16" using u l by (simp add: word_le_nat_alt)
      then show ?thesis unfolding step using first r IH l BLOCKWRITE by (simp add: map_res_def)
    next
      case (CUSTOM opc pad data)
      have l: "length (ser op) = 8 + 4 * length data" using wf CUSTOM by simp
      have nb: "opc \<noteq> kBlockWrite" using wf CUSTOM custom_opcodes by simp
      have f: "?b ! length pre = opc" using first CUSTOM by simp
      show ?thesis
      proof (cases "opc = kDdrPatch \<and> 9 \<le> length data")
        case True
        then have big: "(of_nat (length (ser op)) :: u32) \<ge> 44" using u l by (simp add: word_le_nat_alt)
        have "rd ?b (length pre + (8 + 4 * k)) = Inr (data ! k)" if "k < 9" for k
          unfolding b unfolding CUSTOM using that True wf CUSTOM by (intro rd_custom) auto
        from this [of 4] this [of 6] this [of 8]
        have r: "rd ?b (length pre + 24) = Inr (data ! 4)" "rd ?b (length pre + 32) = Inr (data ! 6)" "rd ?b (length pre + 40) = Inr (data ! 8)"
          by (simp_all add: add.assoc)
        let ?base = "bdBaseOf (data ! 4)"
        have "deriveLoop (length (op # ops)) ?b (length pre) bws table = (case find (covers ?base) bws of
            Some bw \<Rightarrow> deriveLoop (length ops) ?b (length pre + length (ser op)) bws (table @ triple (bw, ?base, data ! 6, data ! 8))
          | None \<Rightarrow> Inl Fatal)"
          unfolding step f by (simp only: True opcodes big r res_bind.simps Let_def triple_def prod.case simp_thms if_True if_False)
        moreover have "patchOf op = Some (?base, data ! 6, data ! 8)" "blockOf (length pre) op = []" using True CUSTOM by simp_all
        ultimately show ?thesis using IH [of bws] by (simp add: map_res_def res_bind_assoc split: option.split)
      next
        case False
        then have "(opc = kDdrPatch \<and> (of_nat (length (ser op)) :: u32) \<ge> 44) = False" using u l by (auto simp add: word_le_nat_alt)
        then have "deriveLoop (length (op # ops)) ?b (length pre) bws table = deriveLoop (length ops) ?b (length pre + length (ser op)) bws table"
          unfolding step f by (simp only: nb simp_thms if_False)
        moreover have "patchOf op = None" "blockOf (length pre) op = []" using False CUSTOM by simp_all
        ultimately show ?thesis using skip by simp
      qed
    next
      case (WRITE32 pad regLo regHi val)
      then have "?b ! length pre = kWrite32" using first by simp
      then show ?thesis unfolding step using skip WRITE32 by simp
    next
      case (MASKOP opc body rest)
      then have "?b ! length pre = opc" "opc \<noteq> kBlockWrite" "opc \<noteq> kDdrPatch" using first wf opcodes by auto
      then show ?thesis unfolding step using skip MASKOP by simp
    next
      case (PLAIN opc pad)
      then have "?b ! length pre = opc" "opc \<noteq> kBlockWrite" "opc \<noteq> kDdrPatch" using first wf opcodes by (auto simp flip: not_less)
      then show ?thesis unfolding step using skip PLAIN by simp
    qed
  qed
qed

lemma ops_count: "\<forall>op \<in> set ops. wf_op op \<Longrightarrow> length ops \<le> length (serialize ops)"
proof (induction ops)
  case (Cons op ops)
  then show ?case using ser_length [of op] by (simp add: serialize_def)
qed (simp add: serialize_def)

lemma derive_serialized:
  assumes "holds_txn txn ops"
  shows "deriveHostPatchTableFromTransaction txn = map_res (\<lambda>ps. concat (map triple ps)) (patches 16 [] ops)"
proof -
  obtain hdr where h: "length hdr = 4" "hdr ! 2 = of_nat (length ops)" "words_bytes txn = words_bytes hdr @ serialize ops"
    and wf: "\<forall>op \<in> set ops. wf_op op" and small: "4 * length txn < 2 ^ 32" using assms unfolding holds_txn_def by blast
  have total: "length (words_bytes hdr @ serialize ops) < 2 ^ 32" using small h(3) by (metis length_words_bytes)
  have "length ops \<le> length (serialize ops)" by (rule ops_count [OF wf])
  then have n: "unat (of_nat (length ops) :: u32) = length ops" using total by (intro unat_of_nat_small) simp
  have "rd (words_bytes txn) 8 = Inr (of_nat (length ops))" using rd_words [of 2 hdr "serialize ops"] h by simp
  moreover have "length (words_bytes txn) \<ge> 16" using h by simp
  ultimately show ?thesis
    using deriveLoop_ser [OF wf total, of "[]" "[]"] h(1) n
    by (simp add: deriveHostPatchTableFromTransaction_def Let_def h(3))
qed

end
