(* ===== verification/Host_Patch.thy ===== *)
theory Host_Patch
  imports Transaction
begin

text \<open>
  The runtime side of a transaction (direct_command_buffer.cc of the amdxdna driver): constants are
  written into the tagged register writes, and the table of patches is applied to the buffer descriptors
  of the control code. The buffer is the list of its bytes; an operation returns its status and the
  buffer it leaves.
\<close>

section \<open>The operations on the control code\<close>

definition overwrite :: "u8 list \<Rightarrow> nat \<Rightarrow> u8 list \<Rightarrow> u8 list" where
  "overwrite b off xs = take off b @ xs @ drop (off + length xs) b"

definition put32 :: "u8 list \<Rightarrow> nat \<Rightarrow> u32 \<Rightarrow> u8 list" where
  "put32 b off w = overwrite b off (le32 w)"

definition kDdrAieAddrOffset :: "64 word" where "kDdrAieAddrOffset = 0x80000000"
definition kWrite32ConstantSentinel :: u32 where "kWrite32ConstantSentinel = 0xA1EC0000"
definition kWrite32ConstantMask :: u32 where "kWrite32ConstantMask = 0xFFFF0000"

definition txn_op_size :: "u8 list \<Rightarrow> nat \<Rightarrow> u32" where
  "txn_op_size b p =
     (if p \<ge> length b then 0
      else if b ! p = 0 then (if p + 24 > length b then 0 else word_at b (p + 20))
      else if b ! p = 1 then (if p + 16 > length b then 0 else word_at b (p + 12))
      else if b ! p = 3 \<or> b ! p = 4 then (if p + 28 > length b then 0 else word_at b (p + 24))
      else if b ! p \<ge> 128 then (if p + 8 > length b then 0 else word_at b (p + 4))
      else 4)"

fun constantsLoop :: "nat \<Rightarrow> u8 list \<Rightarrow> nat \<Rightarrow> u8 list \<Rightarrow> unit result \<times> u8 list" where
  "constantsLoop 0 constants p b = (Inr (), b)"
| "constantsLoop (Suc n) constants p b =
     (let sz = txn_op_size b p
      in if sz = 0 \<or> p + unat sz > length b then (Inl Failure, b)
         else if b ! p = 0 \<and> word_at b (p + 16) AND kWrite32ConstantMask = kWrite32ConstantSentinel then
           (let constant_index = word_at b (p + 16) AND NOT kWrite32ConstantMask;
                byte_offset = unat constant_index * 4
            in if byte_offset + 4 > length constants then (Inl Failure, b)
               else constantsLoop n constants (p + unat sz) (overwrite b (p + 16) (take 4 (drop byte_offset constants))))
         else constantsLoop n constants (p + unat sz) b)"

definition patch_write32_constants :: "u8 list \<Rightarrow> u8 list \<Rightarrow> unit result \<times> u8 list" where
  "patch_write32_constants b constants =
     (if length b div 4 < 4 then (Inr (), b) else constantsLoop (unat (word_at b 8)) constants 16 b)"

definition bd_address :: "u32 \<Rightarrow> u32 \<Rightarrow> 64 word" where
  "bd_address bd1 bd2 = push_bit 32 (ucast (bd2 AND 0xFFFF)) OR ucast bd1"

definition new_address :: "u32 \<Rightarrow> u32 \<Rightarrow> 64 word \<Rightarrow> u32 \<Rightarrow> 64 word" where
  "new_address bd1 bd2 arg arg_plus = bd_address bd1 bd2 + (arg + ucast arg_plus + kDdrAieAddrOffset)"

definition new_bd1 :: "64 word \<Rightarrow> u32" where
  "new_bd1 base = ucast (base AND 0xFFFFFFFC)"

definition new_bd2 :: "u32 \<Rightarrow> 64 word \<Rightarrow> u32" where
  "new_bd2 bd2 base = (bd2 AND 0xFFFF0000) OR ucast (drop_bit 32 base)"

definition patch_bd :: "u8 list \<Rightarrow> nat \<Rightarrow> 64 word \<Rightarrow> u32 \<Rightarrow> u8 list" where
  "patch_bd b off arg arg_plus =
     (let bd1 = word_at b (off + 4); bd2 = word_at b (off + 8); base = new_address bd1 bd2 arg arg_plus
      in put32 (put32 b (off + 4) (new_bd1 base)) (off + 8) (new_bd2 bd2 base))"

fun applyLoop :: "64 word list \<Rightarrow> u32 list \<Rightarrow> u8 list \<Rightarrow> bool \<times> u8 list" where
  "applyLoop args (offset # arg_idx # arg_plus # table) b =
     (if unat arg_idx \<ge> length args then (False, b)
      else if unat offset + 12 > length b \<or> offset AND 3 \<noteq> 0 then (False, b)
      else applyLoop args table (patch_bd b (unat offset) (args ! unat arg_idx) arg_plus))"
| "applyLoop args _ b = (True, b)"

definition apply_patch_table :: "u8 list \<Rightarrow> u32 list \<Rightarrow> 64 word list \<Rightarrow> bool \<times> u8 list" where
  "apply_patch_table b table args = (if length table mod 3 \<noteq> 0 then (False, b) else applyLoop args table b)"

text \<open>The control code of a command: a copy of the transaction, with constants and addresses.\<close>

definition make_ctrl_code :: "u32 list \<Rightarrow> u32 list \<Rightarrow> 64 word list \<Rightarrow> u8 list \<Rightarrow> u8 list result" where
  "make_ctrl_code txn table args constants =
     (case patch_write32_constants (words_bytes txn) constants of
        (Inl e, dst) \<Rightarrow> Inl e
      | (Inr u, dst) \<Rightarrow>
          (case apply_patch_table dst table args of (False, dst') \<Rightarrow> Inl Failure | (True, dst') \<Rightarrow> Inr dst'))"

section \<open>What they do to a transaction\<close>

text \<open>The constants of the tagged register writes.\<close>

fun fill :: "u8 list \<Rightarrow> txn_op \<Rightarrow> txn_op" where
  "fill constants (WRITE32 pad regLo regHi val) =
     WRITE32 pad regLo regHi (if val AND kWrite32ConstantMask = kWrite32ConstantSentinel
       then word_at constants (unat (val AND NOT kWrite32ConstantMask) * 4) else val)"
| "fill constants op = op"

fun constant_known :: "u8 list \<Rightarrow> txn_op \<Rightarrow> bool" where
  "constant_known constants (WRITE32 pad regLo regHi val) \<longleftrightarrow>
     (val AND kWrite32ConstantMask = kWrite32ConstantSentinel \<longrightarrow> unat (val AND NOT kWrite32ConstantMask) * 4 + 4 \<le> length constants)"
| "constant_known constants op \<longleftrightarrow> True"

text \<open>The address words of a buffer descriptor in the payload of a block write.\<close>

definition patch_words :: "nat \<Rightarrow> 64 word \<Rightarrow> u32 \<Rightarrow> u32 list \<Rightarrow> u32 list" where
  "patch_words k arg arg_plus ws =
     (let base = new_address (ws ! (k + 1)) (ws ! (k + 2)) arg arg_plus
      in ws[k + 1 := new_bd1 base, k + 2 := new_bd2 (ws ! (k + 2)) base])"

fun patch_payload :: "nat \<Rightarrow> nat \<Rightarrow> (u32 list \<Rightarrow> u32 list) \<Rightarrow> txn_op list \<Rightarrow> txn_op list" where
  "patch_payload off target f [] = []"
| "patch_payload off target f (op # ops) =
     (case op of
        BLOCKWRITE pad reg payload \<Rightarrow> if off + 16 = target then BLOCKWRITE pad reg (f payload) # ops
          else op # patch_payload (off + length (ser op)) target f ops
      | _ \<Rightarrow> op # patch_payload (off + length (ser op)) target f ops)"

definition patch_op :: "64 word list \<Rightarrow> txn_op list \<Rightarrow> BlockWrite \<times> u32 \<times> u32 \<times> u32 \<Rightarrow> txn_op list" where
  "patch_op args ops = (\<lambda>(bw, bdBase, argIdx, argPlus).
     patch_payload 16 (payloadOff bw) (patch_words (unat (bdBase - bwReg bw) div 4) (args ! unat argIdx) argPlus) ops)"

definition patch_ops :: "64 word list \<Rightarrow> (BlockWrite \<times> u32 \<times> u32 \<times> u32) list \<Rightarrow> txn_op list \<Rightarrow> txn_op list" where
  "patch_ops args ps ops = foldl (patch_op args) ops ps"

definition bd_inside :: "64 word list \<Rightarrow> BlockWrite \<times> u32 \<times> u32 \<times> u32 \<Rightarrow> bool" where
  "bd_inside args = (\<lambda>(bw, bdBase, argIdx, argPlus).
     bwReg bw AND 3 = 0 \<and> unat (bdBase - bwReg bw) + 12 \<le> unat (bwBytes bw) \<and> unat argIdx < length args)"

section \<open>Reading and writing words\<close>

lemma length_overwrite [simp]: "off + length xs \<le> length b \<Longrightarrow> length (overwrite b off xs) = length b"
  by (simp add: overwrite_def)

lemma overwrite_at: "length pre = off \<Longrightarrow> length ys = length xs \<Longrightarrow> overwrite (pre @ ys @ post) off xs = pre @ xs @ post"
  by (simp add: overwrite_def)

lemma put32_at: "length pre = off \<Longrightarrow> put32 (pre @ le32 v @ post) off w = pre @ le32 w @ post"
  unfolding put32_def by (rule overwrite_at) simp_all

lemma word_at_at: "length pre = off \<Longrightarrow> word_at (pre @ le32 w @ post) off = w"
  using rd_at [of pre off w post] by (simp add: rd_def)

lemma word_at_words: "k < length ws \<Longrightarrow> word_at (pre @ words_bytes ws @ post) (length pre + 4 * k) = ws ! k"
  using rd_words [of k ws post] rd_append [of pre "words_bytes ws @ post" "4 * k"] by (simp add: rd_def)

lemma put32_words:
  assumes "k < length ws"
  shows "put32 (pre @ words_bytes ws @ post) (length pre + 4 * k) w = pre @ words_bytes (ws[k := w]) @ post"
proof -
  have "words_bytes ws = words_bytes (take k ws) @ le32 (ws ! k) @ words_bytes (drop (Suc k) ws)"
    using assms by (metis id_take_nth_drop words_bytes_simps(2,3))
  moreover have "words_bytes (ws[k := w]) = words_bytes (take k ws) @ le32 w @ words_bytes (drop (Suc k) ws)"
    using assms by (simp add: upd_conv_take_nth_drop)
  ultimately show ?thesis
    using put32_at [of "pre @ words_bytes (take k ws)" "length pre + 4 * k" "ws ! k" "words_bytes (drop (Suc k) ws) @ post" w] assms by simp
qed

lemma le32_word_at: "off + 4 \<le> length b \<Longrightarrow> le32 (word_at b off) = take 4 (drop off b)"
proof -
  assume len: "off + 4 \<le> length b"
  have bytes: "ucast (un32 b0 b1 b2 b3) = b0" "ucast (drop_bit 8 (un32 b0 b1 b2 b3)) = b1"
    "ucast (drop_bit 16 (un32 b0 b1 b2 b3)) = b2" "ucast (drop_bit 24 (un32 b0 b1 b2 b3)) = b3" for b0 b1 b2 b3 :: u8
    by (rule bit_eqI; auto simp: un32_def bit_simps dest: bit_imp_le_length)+
  have "take 4 (drop off b) = [b ! off, b ! (off + 1), b ! (off + 2), b ! (off + 3)]"
    using len by (intro nth_equalityI) (auto simp: less_Suc_eq numeral_eq_Suc)
  then show ?thesis by (simp add: le32_def word_at_def bytes)
qed

section \<open>Constants\<close>

lemma txn_op_size_ser:
  assumes "wf_op op" and "length (ser op) < 2 ^ 32"
  shows "txn_op_size (pre @ ser op @ post) (length pre) = of_nat (length (ser op))"
proof -
  have first: "(pre @ ser op @ post) ! length pre = hd (ser op)" by (rule ser_first [OF assms(1)])
  show ?thesis
  proof (cases "8 \<le> length (ser op @ post)")
    case True
    have "opSize (pre @ ser op @ post) (length pre) = Inr (of_nat (length (ser op)))"
      by (rule opSize_ser [OF assms True])
    then show ?thesis using first assms(1)
      by (cases op) (auto simp: opSize_def txn_op_size_def rd_def opcode_defs Let_def not_le split: if_splits)
  next
    case False
    then obtain opc pad where "op = PLAIN opc pad" using assms(1) by (cases op) auto
    then show ?thesis using first assms(1) by (auto simp: txn_op_size_def opcode_defs)
  qed
qed

lemma fill_length [simp]: "length (ser (fill constants op)) = length (ser op)"
  by (cases op) simp_all

lemma fill_wf [simp]: "wf_op (fill constants op) = wf_op op"
  by (cases op) simp_all

lemma constantsLoop_ser:
  assumes "\<forall>op \<in> set ops. wf_op op" and "length (pre @ serialize ops) < 2 ^ 32" and "\<forall>op \<in> set ops. constant_known constants op"
  shows "constantsLoop (length ops) constants (length pre) (pre @ serialize ops) = (Inr (), pre @ serialize (map (fill constants) ops))"
  using assms
proof (induction ops arbitrary: pre)
  case (Cons op ops)
  let ?b = "pre @ serialize (op # ops)"
  have wf: "wf_op op" and known: "constant_known constants op" using Cons.prems by simp_all
  have b: "?b = pre @ ser op @ serialize ops" by (simp add: serialize_def)
  have len: "length (ser op) < 2 ^ 32" using Cons.prems(2) by (simp add: serialize_def)
  have sz: "txn_op_size ?b (length pre) = of_nat (length (ser op))" unfolding b by (rule txn_op_size_ser [OF wf len])
  have u: "unat (of_nat (length (ser op)) :: u32) = length (ser op)" by (rule unat_of_nat_small [OF len])
  have pos: "(of_nat (length (ser op)) :: u32) \<noteq> 0" using ser_length [OF wf] u by (metis not_numeral_le_zero unat_0)
  have fits: "\<not> length pre + length (ser op) > length ?b" by (simp add: serialize_def)
  have first: "?b ! length pre = hd (ser op)" unfolding b by (rule ser_first [OF wf])
  have go: "constantsLoop (length ops) constants (length pre + length (ser op)) (pre @ ser (fill constants op) @ serialize ops)
      = (Inr (), pre @ serialize (map (fill constants) (op # ops)))"
    using Cons.IH [of "pre @ ser (fill constants op)"] Cons.prems by (simp add: serialize_def)
  have step: "constantsLoop (length (op # ops)) constants (length pre) ?b =
      (if ?b ! length pre = 0 \<and> word_at ?b (length pre + 16) AND kWrite32ConstantMask = kWrite32ConstantSentinel then
         (let constant_index = word_at ?b (length pre + 16) AND NOT kWrite32ConstantMask;
              byte_offset = unat constant_index * 4
          in if byte_offset + 4 > length constants then (Inl Failure, ?b)
             else constantsLoop (length ops) constants (length pre + length (ser op))
               (overwrite ?b (length pre + 16) (take 4 (drop byte_offset constants))))
       else constantsLoop (length ops) constants (length pre + length (ser op)) ?b)"
    using pos fits by (simp only: constantsLoop.simps list.size(4) add_Suc_right add_0_right sz u Let_def simp_thms if_False)
  show ?case
  proof (cases op)
    case (WRITE32 pad regLo regHi val)
    let ?pre = "pre @ kWrite32 # pad @ le32 regLo @ le32 regHi"
    have l: "length ?pre = length pre + 16" using wf WRITE32 by simp
    have b': "?b = ?pre @ le32 val @ le32 24 @ serialize ops" unfolding b unfolding WRITE32 by simp
    have v: "word_at ?b (length pre + 16) = val" unfolding b' by (rule word_at_at [OF l])
    show ?thesis
    proof (cases "val AND kWrite32ConstantMask = kWrite32ConstantSentinel")
      case True
      let ?k = "unat (val AND NOT kWrite32ConstantMask) * 4"
      have k: "?k + 4 \<le> length constants" using known True WRITE32 by simp
      have "overwrite ?b (length pre + 16) (take 4 (drop ?k constants)) = pre @ ser (fill constants op) @ serialize ops"
        unfolding le32_word_at [OF k, symmetric] b' unfolding put32_def [symmetric] put32_at [OF l] using True WRITE32 by simp
      moreover have "?b ! length pre = 0" using first WRITE32 by (simp add: opcode_defs)
      ultimately show ?thesis unfolding step v Let_def using True k go by simp
    next
      case False
      then have "fill constants op = op" using WRITE32 by simp
      then show ?thesis unfolding step v using False go b by simp
    qed
  next
    case (BLOCKWRITE pad reg payload)
    then show ?thesis unfolding step using go b first by (simp add: opcode_defs)
  next
    case (MASKOP opc body post)
    then show ?thesis unfolding step using go b first wf by (auto simp add: opcode_defs)
  next
    case (CUSTOM opc pad data)
    then have "opc \<noteq> 0" using wf custom_opcodes by (auto simp add: opcode_defs)
    then show ?thesis unfolding step using go b first CUSTOM by simp
  next
    case (PLAIN opc pad)
    then have "opc \<noteq> 0" using wf by (auto simp add: opcode_defs)
    then show ?thesis unfolding step using go b first PLAIN by simp
  qed
qed (simp add: serialize_def)

section \<open>Addresses\<close>

text \<open>Where the blocks of a transaction have their payloads.\<close>

fun blocks :: "nat \<Rightarrow> txn_op list \<Rightarrow> BlockWrite list" where
  "blocks off [] = []"
| "blocks off (op # ops) = blockOf off op @ blocks (off + length (ser op)) ops"

lemma patches_from:
  assumes "patches off bws ops = Inr ps" and "(bw, bdBase, argIdx, argPlus) \<in> set ps"
  shows "bw \<in> set bws \<union> set (blocks off ops) \<and> covers bdBase bw \<and> (\<exists>r. bdBase = bdBaseOf r)"
  using assms
proof (induction ops arbitrary: off bws ps)
  case (Cons op ops)
  from Cons.prems(1) obtain now later where n: "(case patchOf op of None \<Rightarrow> Inr [] | Some (bdBase, argIdx, argPlus) \<Rightarrow>
        (case find (covers bdBase) bws of None \<Rightarrow> Inl Fatal | Some bw \<Rightarrow> Inr [(bw, bdBase, argIdx, argPlus)])) = Inr now"
    and l: "patches (off + length (ser op)) (bws @ blockOf off op) ops = Inr later" and ps: "ps = now @ later" by auto
  from Cons.prems(2) ps consider "(bw, bdBase, argIdx, argPlus) \<in> set now" | "(bw, bdBase, argIdx, argPlus) \<in> set later" by auto
  then show ?case
  proof cases
    case 1
    then obtain base where "patchOf op = Some (bdBase, argIdx, argPlus)" "find (covers bdBase) bws = Some bw"
      using n by (auto split: option.splits prod.splits)
    moreover from this(1) have "\<exists>r. bdBase = bdBaseOf r" by (cases op) (auto split: if_splits)
    ultimately show ?thesis using find_Some_props [of "covers bdBase" bws bw] by blast
  next
    case 2
    from Cons.IH [OF l this] show ?thesis by auto
  qed
qed simp

lemma blocks_after: "bw \<in> set (blocks off ops) \<Longrightarrow> off + 16 \<le> payloadOff bw"
proof (induction ops arbitrary: off)
  case (Cons op ops)
  then show ?case using Cons.IH [of "off + length (ser op)"] by (cases op) auto
qed simp

lemma ser_dvd: "wf_op op \<Longrightarrow> 4 dvd length (ser op)"
  by (cases op) (auto simp: dvd_add_left_iff intro!: dvd_add)

lemma blocks_dvd: "\<forall>op \<in> set ops. wf_op op \<Longrightarrow> 4 dvd off \<Longrightarrow> bw \<in> set (blocks off ops) \<Longrightarrow> 4 dvd payloadOff bw"
proof (induction ops arbitrary: off)
  case (Cons op ops)
  have "4 dvd off + length (ser op)" using Cons.prems ser_dvd by simp
  moreover have "4 dvd off + 16" using Cons.prems(2) by simp
  ultimately show ?case using Cons.prems Cons.IH [of "off + length (ser op)"] by (cases op) auto
qed simp

lemma blocks_patch_payload: "(\<And>xs. length (f xs) = length xs) \<Longrightarrow> blocks off (patch_payload off' target f ops) = blocks off ops"
proof (induction ops arbitrary: off off')
  case (Cons op ops)
  then show ?case by (cases op) auto
qed simp

lemma wf_patch_payload: "\<forall>op \<in> set ops. wf_op op \<Longrightarrow> \<forall>op \<in> set (patch_payload off target f ops). wf_op op"
proof (induction ops arbitrary: off)
  case (Cons op ops)
  then show ?case by (cases op) auto
qed simp

lemma payload_place:
  assumes "bw \<in> set (blocks (length pre) ops)" and "\<forall>op \<in> set ops. wf_op op"
  shows "\<exists>pre' payload post. pre @ serialize ops = pre' @ words_bytes payload @ post \<and> length pre' = payloadOff bw
    \<and> bwBytes bw = of_nat (4 * length payload)
    \<and> (\<forall>f. pre @ serialize (patch_payload (length pre) (payloadOff bw) f ops) = pre' @ words_bytes (f payload) @ post
        \<or> length (f payload) \<noteq> length payload)"
  using assms
proof (induction ops arbitrary: pre)
  case (Cons op ops)
  show ?case
  proof (cases "bw \<in> set (blocks (length pre + length (ser op)) ops)")
    case True
    then have "bw \<in> set (blocks (length (pre @ ser op)) ops)" by simp
    from Cons.IH [OF this] Cons.prems(2) obtain pre' payload post where
      p: "(pre @ ser op) @ serialize ops = pre' @ words_bytes payload @ post" "length pre' = payloadOff bw"
        "bwBytes bw = of_nat (4 * length payload)"
      and f: "\<And>f. (pre @ ser op) @ serialize (patch_payload (length (pre @ ser op)) (payloadOff bw) f ops) = pre' @ words_bytes (f payload) @ post
        \<or> length (f payload) \<noteq> length payload" by auto
    have "length pre + 16 \<noteq> payloadOff bw"
      using blocks_after [OF True] ser_length [of op] Cons.prems(2) by auto
    then have "patch_payload (length pre) (payloadOff bw) f (op # ops) = op # patch_payload (length (pre @ ser op)) (payloadOff bw) f ops" for f
      by (cases op) simp_all
    then show ?thesis using p f by (intro exI [of _ pre'] exI [of _ payload] exI [of _ post]) (simp add: serialize_def)
  next
    case False
    then have "bw \<in> set (blockOf (length pre) op)" using Cons.prems(1) by simp
    then obtain pad reg payload where op: "op = BLOCKWRITE pad reg payload"
      and bw: "bw = \<lparr>bwReg = reg, bwBytes = of_nat (4 * length payload), payloadOff = length pre + 16\<rparr>" by (cases op) auto
    let ?pre = "pre @ kBlockWrite # pad @ le32 reg @ le32 (of_nat (16 + 4 * length payload))"
    have "length ?pre = payloadOff bw" using Cons.prems(2) op bw by simp
    moreover have "pre @ serialize (op # ops) = ?pre @ words_bytes payload @ serialize ops" by (simp add: serialize_def op)
    moreover have "pre @ serialize (patch_payload (length pre) (payloadOff bw) f (op # ops)) = ?pre @ words_bytes (f payload) @ serialize ops
        \<or> length (f payload) \<noteq> length payload" for f
      by (cases "length (f payload) = length payload") (simp_all add: serialize_def op bw)
    moreover have "bwBytes bw = of_nat (4 * length payload)" by (simp add: bw)
    ultimately show ?thesis by blast
  qed
qed simp

lemma length_patch_words [simp]: "length (patch_words k arg arg_plus ws) = length ws"
  by (simp add: patch_words_def Let_def)

lemma patch_bd_payload:
  assumes "k + 2 < length ws" and "length pre = off"
  shows "patch_bd (pre @ words_bytes ws @ post) (off + 4 * k) arg arg_plus = pre @ words_bytes (patch_words k arg arg_plus ws) @ post"
proof -
  have at: "word_at (pre @ words_bytes ws @ post) (off + 4 * k + 4) = ws ! (k + 1)"
    "word_at (pre @ words_bytes ws @ post) (off + 4 * k + 8) = ws ! (k + 2)"
    using word_at_words [of "k + 1" ws pre post] word_at_words [of "k + 2" ws pre post] assms by (simp_all add: algebra_simps)
  have put: "put32 (pre @ words_bytes xs @ post) (off + 4 * k + 4) w = pre @ words_bytes (xs[k + 1 := w]) @ post"
    "put32 (pre @ words_bytes xs @ post) (off + 4 * k + 8) w = pre @ words_bytes (xs[k + 2 := w]) @ post"
    if "length xs = length ws" for xs w
    using put32_words [of "k + 1" xs pre post w] put32_words [of "k + 2" xs pre post w] assms that by (simp_all add: algebra_simps)
  show ?thesis by (simp only: patch_bd_def at put length_list_update Let_def patch_words_def)
qed

lemma and_3_iff: "(w :: u32) AND 3 = 0 \<longleftrightarrow> 4 dvd unat w"
proof -
  have "w AND 3 = take_bit 2 w" by (simp add: take_bit_eq_mask mask_eq_exp_minus_1)
  then have "unat (w AND 3) = take_bit 2 (unat w)" by (simp only: unsigned_take_bit_eq)
  then have "unat (w AND 3) = unat w mod 4" by (simp add: take_bit_eq_mod)
  then show ?thesis by (metis dvd_eq_mod_eq_0 unat_0 unat_eq_zero)
qed

lemma bdBaseOf_dvd: "4 dvd unat (bdBaseOf r)"
proof -
  have "bdBaseOf r AND 3 = 0"
    by (simp add: bdBaseOf_def and.assoc)
  then show ?thesis by (simp add: and_3_iff)
qed

lemma patch_op_keeps:
  "blocks off (patch_op args ops q) = blocks off ops"
  "\<forall>op \<in> set ops. wf_op op \<Longrightarrow> \<forall>op \<in> set (patch_op args ops q). wf_op op"
  using blocks_patch_payload [of "patch_words k a p" for k a p] wf_patch_payload
  by (auto simp: patch_op_def split: prod.splits)

lemma blocks_patch_ops [simp]: "blocks off (patch_ops args ps ops) = blocks off ops"
  unfolding patch_ops_def by (induction ps arbitrary: ops) (simp_all add: patch_op_keeps)

text \<open>One entry of the table, on a buffer that holds the transaction after a header of 16 bytes.\<close>

lemma patch_bd_op:
  assumes "length hdr = 16" and "\<forall>op \<in> set ops. wf_op op" and "length (hdr @ serialize ops) < 2 ^ 32"
    and "bw \<in> set (blocks 16 ops)" and "covers bdBase bw" and "bdBase = bdBaseOf r" and "bd_inside args (bw, bdBase, argIdx, argPlus)"
  defines "off \<equiv> of_nat (payloadOff bw + unat (bdBase - bwReg bw)) :: u32"
  shows "unat off + 12 \<le> length (hdr @ serialize ops)" and "off AND 3 = 0"
    and "patch_bd (hdr @ serialize ops) (unat off) (args ! unat argIdx) argPlus = hdr @ serialize (patch_op args ops (bw, bdBase, argIdx, argPlus))"
    and "length (hdr @ serialize (patch_op args ops (bw, bdBase, argIdx, argPlus))) = length (hdr @ serialize ops)"
proof -
  let ?d = "unat (bdBase - bwReg bw)"
  have in_bd: "4 dvd unat (bwReg bw)" "?d + 12 \<le> unat (bwBytes bw)" using assms(7) by (simp_all add: bd_inside_def and_3_iff)
  obtain pre payload post where place: "hdr @ serialize ops = pre @ words_bytes payload @ post" "length pre = payloadOff bw"
      "bwBytes bw = of_nat (4 * length payload)"
    and new: "\<And>f. hdr @ serialize (patch_payload (length hdr) (payloadOff bw) f ops) = pre @ words_bytes (f payload) @ post
        \<or> length (f payload) \<noteq> length payload"
    using payload_place [of bw hdr ops] assms(1,2,4) by auto
  have total: "length (hdr @ serialize ops) = payloadOff bw + 4 * length payload + length post" unfolding place by (simp add: place(2))
  then have "unat (bwBytes bw) = 4 * length payload" unfolding place(3) using assms(3) by (intro unat_of_nat_small) simp
  then have fits: "?d + 12 \<le> 4 * length payload" using in_bd(2) by simp
  have "?d = unat bdBase - unat (bwReg bw)" using assms(5) by (simp add: covers_def unat_sub)
  then have "4 dvd ?d" using in_bd(1) bdBaseOf_dvd assms(6) by (simp add: dvd_diff_nat)
  then obtain k where k: "?d = 4 * k" ..
  have u: "unat off = payloadOff bw + 4 * k" unfolding off_def using k fits total assms(3) by (subst unat_of_nat_small) simp_all
  show "unat off + 12 \<le> length (hdr @ serialize ops)" using u k fits total by simp
  have "4 dvd payloadOff bw" using blocks_dvd [OF assms(2) _ assms(4)] by simp
  then show "off AND 3 = 0" using u by (simp add: and_3_iff)
  have "patch_bd (hdr @ serialize ops) (unat off) (args ! unat argIdx) argPlus
      = pre @ words_bytes (patch_words k (args ! unat argIdx) argPlus payload) @ post"
    unfolding place(1) u using fits k by (intro patch_bd_payload place(2)) simp
  also have "\<dots> = hdr @ serialize (patch_op args ops (bw, bdBase, argIdx, argPlus))"
    using new [of "patch_words k (args ! unat argIdx) argPlus"] k assms(1) by (simp add: patch_op_def)
  finally show eq: "patch_bd (hdr @ serialize ops) (unat off) (args ! unat argIdx) argPlus
      = hdr @ serialize (patch_op args ops (bw, bdBase, argIdx, argPlus))" .
  show "length (hdr @ serialize (patch_op args ops (bw, bdBase, argIdx, argPlus))) = length (hdr @ serialize ops)"
    using new [of "patch_words k (args ! unat argIdx) argPlus"] k assms(1) total place(2) by (simp add: patch_op_def)
qed

definition patch_ok :: "64 word list \<Rightarrow> txn_op list \<Rightarrow> BlockWrite \<times> u32 \<times> u32 \<times> u32 \<Rightarrow> bool" where
  "patch_ok args ops = (\<lambda>(bw, bdBase, argIdx, argPlus).
     bw \<in> set (blocks 16 ops) \<and> covers bdBase bw \<and> (\<exists>r. bdBase = bdBaseOf r) \<and> bd_inside args (bw, bdBase, argIdx, argPlus))"

lemma applyLoop_ops:
  assumes "length hdr = 16" and "\<forall>op \<in> set ops. wf_op op" and "length (hdr @ serialize ops) < 2 ^ 32" and "\<forall>q \<in> set ps. patch_ok args ops q"
  shows "applyLoop args (concat (map triple ps)) (hdr @ serialize ops) = (True, hdr @ serialize (patch_ops args ps ops))"
  using assms(2-)
proof (induction ps arbitrary: ops)
  case (Cons q ps)
  obtain bw bdBase argIdx argPlus where q: "q = (bw, bdBase, argIdx, argPlus)" by (cases q)
  have ok: "bw \<in> set (blocks 16 ops)" "covers bdBase bw" "\<exists>r. bdBase = bdBaseOf r" "bd_inside args (bw, bdBase, argIdx, argPlus)"
    using Cons.prems(3) by (simp_all add: patch_ok_def q)
  from ok(3) obtain r where r: "bdBase = bdBaseOf r" ..
  note one = patch_bd_op [OF assms(1) Cons.prems(1,2) ok(1,2) r ok(4)]
  let ?ops = "patch_op args ops q"
  have "applyLoop args (concat (map triple ps)) (hdr @ serialize ?ops) = (True, hdr @ serialize (patch_ops args ps ?ops))"
  proof (rule Cons.IH)
    show "\<forall>op \<in> set ?ops. wf_op op" using patch_op_keeps(2) Cons.prems(1) by blast
    show "length (hdr @ serialize ?ops) < 2 ^ 32" using one(4) Cons.prems(2) q by simp
    show "\<forall>q \<in> set ps. patch_ok args ?ops q" using Cons.prems(3) by (simp add: patch_ok_def patch_op_keeps)
  qed
  moreover have "unat argIdx < length args" using ok(4) by (simp add: bd_inside_def)
  ultimately show ?case using one(1-3) by (simp add: triple_def q patch_ops_def not_le)
qed (simp add: patch_ops_def)

lemma length_triples: "length (concat (map triple ps)) mod 3 = 0"
  by (induction ps) (auto simp: triple_def split: prod.splits)

lemma blocks_fill [simp]: "blocks off (map (fill constants) ops) = blocks off ops"
proof (induction ops arbitrary: off)
  case (Cons op ops)
  then show ?case by (cases op) simp_all
qed simp

lemma length_fill_all [simp]: "length (serialize (map (fill constants) ops)) = length (serialize ops)"
  by (induction ops) (simp_all add: serialize_def)

section \<open>Properties\<close>


lemma mask_words: "(0xFFFF :: u32) = mask 16" "(0xFFFF0000 :: u32) = push_bit 16 (mask 16)"
  "(0xFFFFFFFC :: 64 word) = push_bit 2 (mask 30)" "(3 :: 64 word) = mask 2"
  by code_simp+

lemma bit_masks:
  "bit (0xFFFF :: u32) n \<longleftrightarrow> n < 16" "bit (0xFFFF0000 :: u32) n \<longleftrightarrow> 16 \<le> n \<and> n < 32"
  "bit (0xFFFFFFFC :: 64 word) n \<longleftrightarrow> 2 \<le> n \<and> n < 32" "bit (3 :: 64 word) n \<longleftrightarrow> n < 2"
  unfolding mask_words bit_push_bit_iff bit_mask_iff by auto

lemma bit_bd_address: "bit (bd_address bd1 bd2) n \<longleftrightarrow> (if n < 32 then bit bd1 n else n < 48 \<and> bit bd2 (n - 32))"
  unfolding bd_address_def bit_or_iff bit_push_bit_iff bit_unsigned_iff bit_and_iff bit_masks
  by (auto dest: bit_imp_le_length)

lemma small_bits: "unat (w :: 64 word) < 2 ^ 48 \<Longrightarrow> 48 \<le> n \<Longrightarrow> \<not> bit w n"
proof -
  assume a: "unat w < 2 ^ 48" "48 \<le> n"
  then have "take_bit 48 (unat w) = unat w" by (intro take_bit_nat_eq_self)
  then have "bit (unat w) n \<longleftrightarrow> bit (take_bit 48 (unat w)) n" by simp
  then show "\<not> bit w n" using a(2) by (simp add: bit_take_bit_iff bit_unsigned_iff)
qed

lemma new_address_split:
  assumes "unat base < 2 ^ 48"
  shows "bd_address (new_bd1 base) (new_bd2 bd2 base) = base AND NOT 3" and "new_bd2 bd2 base AND 0xFFFF0000 = bd2 AND 0xFFFF0000"
proof -
  have high: "\<not> bit base n" if "48 \<le> n" for n by (rule small_bits [OF assms that])
  show "bd_address (new_bd1 base) (new_bd2 bd2 base) = base AND NOT 3"
  proof (rule bit_eqI)
    fix n assume "possible_bit TYPE(64 word) n"
    then have "n < 64" by simp
    then show "bit (bd_address (new_bd1 base) (new_bd2 bd2 base)) n = bit (base AND NOT 3) n"
      using high [of n] unfolding bit_bd_address new_bd1_def new_bd2_def bit_or_iff bit_and_iff bit_not_iff bit_unsigned_iff bit_drop_bit_eq bit_masks
      by (cases "n < 48") auto
  qed
  show "new_bd2 bd2 base AND 0xFFFF0000 = bd2 AND 0xFFFF0000"
  proof (rule bit_eqI)
    fix n assume "possible_bit TYPE(32 word) n"
    then show "bit (new_bd2 bd2 base AND 0xFFFF0000) n = bit (bd2 AND 0xFFFF0000) n"
      using high [of "n + 32"] unfolding new_bd2_def bit_or_iff bit_and_iff bit_unsigned_iff bit_drop_bit_eq bit_masks
      by (auto simp: add.commute)
  qed
qed

text \<open>
  The patched buffer descriptor holds the sum of the address it had, the address of the argument, the
  offset into it and the base of the aperture, as long as the sum has 48 bits: up to its two low bits,
  which are cleared. The upper half of the third word and all other bytes are kept.
\<close>

theorem patched_address:
  assumes "off + 12 \<le> length b"
    and "unat (bd_address (word_at b (off + 4)) (word_at b (off + 8))) + unat arg + unat arg_plus + 2 ^ 31 < 2 ^ 48"
  defines "b' \<equiv> patch_bd b off arg arg_plus"
  shows "unat (bd_address (word_at b' (off + 4)) (word_at b' (off + 8)))
      = (unat (bd_address (word_at b (off + 4)) (word_at b (off + 8))) + unat arg + unat arg_plus + 2 ^ 31) div 4 * 4
    \<and> word_at b' (off + 8) AND 0xFFFF0000 = word_at b (off + 8) AND 0xFFFF0000
    \<and> length b' = length b \<and> (\<forall>i. i < off + 4 \<or> off + 12 \<le> i \<longrightarrow> b' ! i = b ! i)"
proof -
  let ?w1 = "word_at b (off + 4)" and ?w2 = "word_at b (off + 8)"
  define base where "base = new_address ?w1 ?w2 arg arg_plus"
  have b: "b = take (off + 4) b @ le32 ?w1 @ le32 ?w2 @ drop (off + 12) b"
  proof -
    have cut: "drop k b = take 4 (drop k b) @ drop (k + 4) b" for k
      using append_take_drop_id [of 4 "drop k b"] by (simp add: add.commute)
    have "b = take (off + 4) b @ drop (off + 4) b" by simp
    also have "drop (off + 4) b = take 4 (drop (off + 4) b) @ take 4 (drop (off + 8) b) @ drop (off + 12) b"
      using cut [of "off + 4"] cut [of "off + 8"] by (simp add: add.assoc)
    finally show ?thesis using assms(1) by (simp add: le32_word_at add.assoc)
  qed
  let ?pre = "take (off + 4) b" and ?post = "drop (off + 12) b"
  have l: "length ?pre = off + 4" "length (?pre @ le32 (new_bd1 base)) = off + 8" using assms(1) by simp_all
  have "put32 b (off + 4) (new_bd1 base) = ?pre @ le32 (new_bd1 base) @ le32 ?w2 @ ?post" by (subst b) (rule put32_at [OF l(1)])
  moreover have "put32 ((?pre @ le32 (new_bd1 base)) @ le32 ?w2 @ ?post) (off + 8) (new_bd2 ?w2 base)
      = (?pre @ le32 (new_bd1 base)) @ le32 (new_bd2 ?w2 base) @ ?post" by (rule put32_at [OF l(2)])
  ultimately have b': "b' = ?pre @ le32 (new_bd1 base) @ le32 (new_bd2 ?w2 base) @ ?post"
    by (simp add: b'_def patch_bd_def Let_def base_def)
  have w: "word_at b' (off + 4) = new_bd1 base" "word_at b' (off + 8) = new_bd2 ?w2 base"
    using word_at_at [OF l(1), of "new_bd1 base"] word_at_at [OF l(2), of "new_bd2 ?w2 base" ?post] by (simp_all add: b')
  have "unat arg_plus < 2 ^ 32" using unsigned_less [of arg_plus, where ?'a = nat] by simp
  then have c: "unat (ucast arg_plus :: 64 word) = unat arg_plus" by (simp add: unsigned_ucast_eq take_bit_nat_eq_self)
  have base: "unat base = unat (bd_address ?w1 ?w2) + unat arg + unat arg_plus + 2 ^ 31"
    using assms(2) c by (simp add: base_def new_address_def kDdrAieAddrOffset_def unat_word_ariths)
  then have small: "unat base < 2 ^ 48" using assms(2) by simp
  have "unat (base AND NOT 3) = unat base div 4 * 4"
  proof -
    have "unat (base AND NOT 3) = push_bit 2 (drop_bit 2 (unat base))"
    proof (rule bit_eqI)
      fix n
      show "bit (unat (base AND NOT 3)) n = bit (push_bit 2 (drop_bit 2 (unat base))) n"
        unfolding bit_unsigned_iff bit_and_iff bit_not_iff bit_masks bit_push_bit_iff bit_drop_bit_eq
        by (cases "2 \<le> n") (auto simp flip: Suc_diff_le dest: bit_imp_le_length)
    qed
    then show ?thesis by (simp add: push_bit_eq_mult drop_bit_eq_div)
  qed
  then show ?thesis using new_address_split [OF small, of ?w2] w base b' assms(1) by (auto simp: nth_append)
qed

section \<open>Examples\<close>

text \<open>A transaction with a tagged register write, a block of one buffer descriptor and a patch of it.\<close>

definition sampleOps :: "txn_op list" where
  "sampleOps = [WRITE32 (replicate 7 0) 0 0 0xA1EC0001, BLOCKWRITE (replicate 7 0) 0x1D000 [5, 6, 7, 8, 0, 0, 0, 0],
     CUSTOM (fst (appendAddressPatch 0x1D004 0 64)) (replicate 3 0) (snd (appendAddressPatch 0x1D004 0 64))]"

definition sampleTxn :: "u32 list" where
  "sampleTxn = [0, 0, 3, 136] @ [0, 0, 0, 0, 0xA1EC0001, 24] @ [1, 0, 0x1D000, 48, 5, 6, 7, 8, 0, 0, 0, 0]
     @ [129, 48, 0, 0, 0, 0, 0x1D004, 0, 0, 0, 64, 0]"

lemma sample_holds: "holds_txn sampleTxn sampleOps"
proof -
  have "words_bytes sampleTxn = words_bytes [0, 0, 3, 136] @ serialize sampleOps" by code_simp
  moreover have "\<forall>op \<in> set sampleOps. wf_op op" by code_simp
  moreover have "(of_nat (length sampleOps) :: u32) = 3" by (simp add: sampleOps_def)
  moreover have "4 * length sampleTxn < 2 ^ 32" by (simp add: sampleTxn_def)
  ultimately show ?thesis unfolding holds_txn_def by (intro conjI exI [of _ "[0, 0, 3, 136]"]) simp_all
qed

lemma sample_patches:
  "patches 16 [] sampleOps = Inr [(\<lparr>bwReg = 0x1D000, bwBytes = 32, payloadOff = 56\<rparr>, 0x1D000, 0, 64)]"
  by code_simp


theorem patched_address_witness:
  "unat (bd_address (word_at (patch_bd (replicate 12 0) 0 0x1000 64) 4) (word_at (patch_bd (replicate 12 0) 0 0x1000 64) 8)) = 2 ^ 31 + 0x1040"
proof -
  have "word_at (replicate 12 (0 :: u8)) (0 + 4) = 0" "word_at (replicate 12 (0 :: u8)) (0 + 8) = 0" by code_simp+
  moreover have "unat (bd_address 0 0) = 0" by code_simp
  ultimately show ?thesis using patched_address [of 0 "replicate 12 0" "0x1000" 64] by simp
qed

text \<open>
  C38. A patch goes to the first block that covers the descriptor, not to the last one before it: when a
  descriptor is written a second time, with an address of its own, both addresses are added up in the first
  block and the second one is left without.
\<close>

theorem reused_descriptor:
  assumes "holds_txn txn [BLOCKWRITE pad1 reg payload1, CUSTOM kDdrPatch pad2 patch1, BLOCKWRITE pad3 reg payload2, CUSTOM kDdrPatch pad4 patch2]"
    and "9 \<le> length patch1" and "9 \<le> length patch2"
    and "covers (bdBaseOf (patch1 ! 4)) \<lparr>bwReg = reg, bwBytes = of_nat (4 * length payload1), payloadOff = 32\<rparr>"
    and "bdBaseOf (patch2 ! 4) = bdBaseOf (patch1 ! 4)"
  shows "deriveHostPatchTableFromTransaction txn =
    Inr (let off = of_nat (32 + unat (bdBaseOf (patch1 ! 4) - reg)) in [off, patch1 ! 6, patch1 ! 8, off, patch2 ! 6, patch2 ! 8])"
  using derive_serialized [OF assms(1)] assms(2-) by (simp add: map_res_def triple_def Let_def)

definition reuseTxn :: "u32 list" where
  "reuseTxn = [0, 0, 4, 176] @ [1, 0, 0x1D000, 32, 0, 0, 0, 0] @ [129, 48, 0, 0, 0, 0, 0x1D004, 0, 0, 0, 0, 0]
     @ [1, 0, 0x1D000, 32, 0, 0, 0, 0] @ [129, 48, 0, 0, 0, 0, 0x1D004, 0, 1, 0, 0, 0]"

theorem reused_descriptor_witness: "deriveHostPatchTableFromTransaction reuseTxn = Inr [32, 0, 0, 32, 1, 0]"
proof -
  let ?p1 = "[0, 0, 0, 0, 0x1D004, 0, 0, 0, 0, 0] :: u32 list" and ?p2 = "[0, 0, 0, 0, 0x1D004, 0, 1, 0, 0, 0] :: u32 list"
  let ?ops = "[BLOCKWRITE (replicate 7 0) 0x1D000 [0, 0, 0, 0], CUSTOM kDdrPatch (replicate 3 0) ?p1,
     BLOCKWRITE (replicate 7 0) 0x1D000 [0, 0, 0, 0], CUSTOM kDdrPatch (replicate 3 0) ?p2]"
  have "words_bytes reuseTxn = words_bytes [0, 0, 4, 176] @ serialize ?ops" by code_simp
  moreover have "\<forall>op \<in> set ?ops. wf_op op" by code_simp
  moreover have "4 * length reuseTxn < 2 ^ 32" by (simp add: reuseTxn_def)
  ultimately have h: "holds_txn reuseTxn ?ops" unfolding holds_txn_def by (intro conjI exI [of _ "[0, 0, 4, 176]"]) simp_all
  have c: "covers (bdBaseOf (?p1 ! 4)) \<lparr>bwReg = 0x1D000, bwBytes = of_nat (4 * length ([0, 0, 0, 0] :: u32 list)), payloadOff = 32\<rparr>" by code_simp
  have o: "bdBaseOf (?p1 ! 4) = 0x1D000" by code_simp
  show ?thesis using reused_descriptor [OF h _ _ c] o by simp
qed

text \<open>
  The sizes of the operations are read without a test of the bounds: of a mask write cut off after 8 bytes
  the size is read past the end, where the parser of the runtime reports a malformed transaction.
\<close>

theorem truncated_transaction:
  "deriveHostPatchTableFromTransaction [0, 0, 1, 24, 3, 0] = Inl OutOfBounds
    \<and> fst (patch_write32_constants (words_bytes [0, 0, 1, 24, 3, 0]) []) = Inl Failure"
  by code_simp

end
