(* ===== verification/Command_Chain.thy ===== *)
theory Command_Chain
  imports Host_Patch
begin

text \<open>
  The dispatches of a direct command buffer of the amdxdna driver (direct_command_buffer.cc): run at once,
  one command after the other, or accumulated and submitted as chains at the end of the command buffer.
  The native layer (allocation, mapping, submission) is not part of the model: allocations and submissions
  succeed, the addresses of the control packet buffers are an argument, and what is submitted is logged
  in order.
\<close>

section \<open>Commands\<close>

record kernel_params =
  n_kernel_runs :: u32
  n_reconfigure_runs :: u32
  asm_inst_runlist :: "u32 list list"
  reconf_data_runlist :: "u32 list list"
  patch_runlist :: "u32 list list"

record binding =
  device_address :: "64 word"
  byte_offset :: "64 word"
  binding_offset :: "64 word"

text \<open>
  A command: its compute unit, its control code and, on the path where the firmware patches the
  addresses, the addresses of its arguments.
\<close>

datatype device_command = START_CU u32 "u8 list" "64 word list" | START_NPU u32 "u8 list"

definition binding_addr :: "binding \<Rightarrow> 64 word" where
  "binding_addr b = device_address b + byte_offset b + binding_offset b"

definition run_at :: "'a list \<Rightarrow> nat \<Rightarrow> 'a result" where
  "run_at xs i = (if i < length xs then Inr (xs ! i) else Inl OutOfBounds)"

text \<open>A status with the commands submitted so far; the next step runs only after success.\<close>

definition and_then :: "unit result \<times> 'a list \<Rightarrow> unit result \<times> 'a list \<Rightarrow> unit result \<times> 'a list" where
  "and_then r r' = (case r of (Inl e, l) \<Rightarrow> (Inl e, l) | (Inr u, l) \<Rightarrow> (fst r', l @ snd r'))"

definition in_order :: "(unit result \<times> 'a list) list \<Rightarrow> unit result \<times> 'a list" where
  "in_order rs = foldr and_then rs (Inr (), [])"

section \<open>Running at once\<close>

definition with_constants :: "u32 \<Rightarrow> u32 list \<Rightarrow> u8 list \<Rightarrow> 64 word list \<Rightarrow> nat \<Rightarrow> unit result \<times> device_command list" where
  "with_constants cu_idx inst constants args n =
     (case patch_write32_constants (words_bytes inst) constants of
        (Inl e, code) \<Rightarrow> (Inl e, [])
      | (Inr u, code) \<Rightarrow> (Inr (), replicate n (START_CU cu_idx code args)))"

definition normal_run :: "u32 \<Rightarrow> binding list \<Rightarrow> u32 \<Rightarrow> u32 list \<Rightarrow> u8 list \<Rightarrow> unit result \<times> device_command list" where
  "normal_run cu_idx bindings runs asm_inst constants =
     (if runs = 0 then (Inr (), []) else with_constants cu_idx asm_inst constants (map binding_addr bindings) (unat runs))"

definition reconfigure :: "u32 \<Rightarrow> u32 \<Rightarrow> u32 list \<Rightarrow> 64 word \<Rightarrow> u8 list \<Rightarrow> unit result \<times> device_command list" where
  "reconfigure cu_idx runs ctrlpkt_inst seq_address constants = with_constants cu_idx ctrlpkt_inst constants [seq_address] (unat runs)"

definition at_run :: "kernel_params \<Rightarrow> nat \<Rightarrow> (u32 list \<Rightarrow> unit result \<times> 'a list) \<Rightarrow> unit result \<times> 'a list" where
  "at_run kp i f = (case run_at (asm_inst_runlist kp) i of Inl e \<Rightarrow> (Inl e, []) | Inr inst \<Rightarrow> f inst)"

definition dispatch_at_once :: "kernel_params \<Rightarrow> u32 \<Rightarrow> binding list \<Rightarrow> (nat \<Rightarrow> 64 word) \<Rightarrow> u8 list \<Rightarrow> unit result \<times> device_command list" where
  "dispatch_at_once kp cu_idx bindings seq_address constants =
     (if reconf_data_runlist kp = []
      then at_run kp 0 (\<lambda>inst. normal_run cu_idx bindings (n_kernel_runs kp) inst constants)
      else in_order (concat (map (\<lambda>i.
        [at_run kp (2 * i) (\<lambda>inst. reconfigure cu_idx (n_reconfigure_runs kp) inst (seq_address i) constants),
         at_run kp (2 * i + 1) (\<lambda>inst. normal_run cu_idx bindings (n_kernel_runs kp) inst constants)])
        [0 ..< length (reconf_data_runlist kp)])))"

section \<open>Chains\<close>

record chain_group =
  gQueue :: nat
  gCmds :: "device_command list"
  gReconf :: "64 word list"
  gBindings :: "binding list"

text \<open>What a dispatch adds to its group: a slot, or the buffer of a control packet sequence.\<close>

datatype chain_event = Slot device_command | SeqBuffer "64 word"

text \<open>The lambda \<open>emit\<close>: one slot for run \<open>run_idx\<close>.\<close>

definition emit :: "kernel_params \<Rightarrow> u32 \<Rightarrow> u8 list \<Rightarrow> nat \<Rightarrow> 64 word list \<Rightarrow> unit result \<times> chain_event list" where
  "emit kp cu_idx constants run_idx args =
     (case res_bind (run_at (asm_inst_runlist kp) run_idx) (\<lambda>txn.
          res_bind (run_at (patch_runlist kp) run_idx) (\<lambda>table. make_ctrl_code txn table args constants)) of
        Inl e \<Rightarrow> (Inl e, [])
      | Inr code \<Rightarrow> (Inr (), [Slot (START_NPU cu_idx code)]))"

definition open_group :: "nat \<Rightarrow> chain_group list \<Rightarrow> chain_group list" where
  "open_group queue groups =
     (if groups = [] \<or> gQueue (last groups) \<noteq> queue
      then groups @ [\<lparr>gQueue = queue, gCmds = [], gReconf = [], gBindings = []\<rparr>] else groups)"

definition upd_last :: "('a \<Rightarrow> 'a) \<Rightarrow> 'a list \<Rightarrow> 'a list" where
  "upd_last f xs = butlast xs @ [f (last xs)]"

definition chain_events :: "kernel_params \<Rightarrow> u32 \<Rightarrow> binding list \<Rightarrow> (nat \<Rightarrow> 64 word) \<Rightarrow> u8 list \<Rightarrow> unit result \<times> chain_event list" where
  "chain_events kp cu_idx bindings seq_address constants =
     (let binding_addrs = map binding_addr bindings
      in if reconf_data_runlist kp = []
         then in_order (replicate (unat (n_kernel_runs kp)) (emit kp cu_idx constants 0 binding_addrs))
         else in_order (concat (map (\<lambda>i.
           (Inr (), [SeqBuffer (seq_address i)])
           # replicate (unat (n_reconfigure_runs kp)) (emit kp cu_idx constants (2 * i) [seq_address i])
           @ replicate (unat (n_kernel_runs kp)) (emit kp cu_idx constants (2 * i + 1) binding_addrs))
           [0 ..< length (reconf_data_runlist kp)])))"

fun add_event :: "chain_group \<Rightarrow> chain_event \<Rightarrow> chain_group" where
  "add_event g (Slot cmd) = g\<lparr>gCmds := gCmds g @ [cmd]\<rparr>"
| "add_event g (SeqBuffer a) = g\<lparr>gReconf := gReconf g @ [a]\<rparr>"

text \<open>After an error the group keeps what was added to it before; its bindings are not tracked then.\<close>

definition accumulate_chained ::
  "kernel_params \<Rightarrow> u32 \<Rightarrow> nat \<Rightarrow> binding list \<Rightarrow> (nat \<Rightarrow> 64 word) \<Rightarrow> u8 list \<Rightarrow> chain_group list \<Rightarrow> unit result \<times> chain_group list" where
  "accumulate_chained kp cu_idx queue bindings seq_address constants groups =
     (if length (patch_runlist kp) \<noteq> length (asm_inst_runlist kp) then (Inl Failure, groups)
      else
        (let r = chain_events kp cu_idx bindings seq_address constants;
             groups' = upd_last (\<lambda>g. foldl add_event g (snd r)) (open_group queue groups)
         in case fst r of
              Inl e \<Rightarrow> (Inl e, groups')
            | Inr u \<Rightarrow> (Inr u, upd_last (\<lambda>g. g\<lparr>gBindings := gBindings g @ bindings\<rparr>) groups')))"

definition arg_binding_capacity :: nat where "arg_binding_capacity = 1024"

definition submit_chain :: "chain_group \<Rightarrow> nat \<Rightarrow> nat \<Rightarrow> (nat \<times> device_command list) result" where
  "submit_chain g first stop =
     (if stop - first + length (gReconf g) + length (gBindings g) > arg_binding_capacity then Inl Failure
      else Inr (gQueue g, take (stop - first) (drop first (gCmds g))))"

text \<open>The loop over the chunks of a group; with \<open>max_slots = 0\<close> it would not advance.\<close>

partial_function (option) flush_group :: "nat \<Rightarrow> chain_group \<Rightarrow> nat \<Rightarrow> (unit result \<times> (nat \<times> device_command list) list) option" where
  [code]: "flush_group max_slots g first =
     (if first < length (gCmds g) then
        (case submit_chain g first (min (first + max_slots) (length (gCmds g))) of
           Inl e \<Rightarrow> Some (Inl e, [])
         | Inr chain \<Rightarrow> Option.bind (flush_group max_slots g (first + max_slots)) (\<lambda>r. Some (fst r, chain # snd r)))
      else Some (Inr (), []))"

fun flush_chains :: "nat \<Rightarrow> chain_group list \<Rightarrow> (unit result \<times> (nat \<times> device_command list) list) option" where
  "flush_chains max_slots [] = Some (Inr (), [])"
| "flush_chains max_slots (g # gs) =
     Option.bind (flush_group max_slots g 0) (\<lambda>r. case r of
         (Inl e, sent) \<Rightarrow> Some (Inl e, sent)
       | (Inr u, sent) \<Rightarrow> Option.bind (flush_chains max_slots gs) (\<lambda>r'. Some (fst r', sent @ snd r')))"

section \<open>The two paths run the same commands\<close>

text \<open>The runs of a dispatch in order: the index of the control code, and the addresses of its arguments.\<close>

definition run_slots :: "kernel_params \<Rightarrow> binding list \<Rightarrow> (nat \<Rightarrow> 64 word) \<Rightarrow> (nat \<times> 64 word list) list" where
  "run_slots kp bindings seq_address =
     (let exec = \<lambda>r. replicate (unat (n_kernel_runs kp)) (r, map binding_addr bindings)
      in if reconf_data_runlist kp = [] then exec 0
         else concat (map (\<lambda>i. replicate (unat (n_reconfigure_runs kp)) (2 * i, [seq_address i]) @ exec (2 * i + 1))
           [0 ..< length (reconf_data_runlist kp)]))"

lemma in_order_simps [simp]: "in_order [] = (Inr (), [])" "in_order (r # rs) = and_then r (in_order rs)"
  by (simp_all add: in_order_def)

lemma and_then_OK: "and_then r r' = (Inr u, l) \<longleftrightarrow> (\<exists>l1 l2. r = (Inr u, l1) \<and> r' = (Inr u, l2) \<and> l = l1 @ l2)"
  by (cases r; cases r') (auto simp: and_then_def split: sum.splits)

lemma in_order_append: "in_order (rs @ rs') = and_then (in_order rs) (in_order rs')"
  by (induction rs) (auto simp: and_then_def split: sum.splits prod.splits)

text \<open>The slots among the events of a dispatch.\<close>

fun slot_of :: "chain_event \<Rightarrow> device_command list" where
  "slot_of (Slot cmd) = [cmd]"
| "slot_of (SeqBuffer a) = []"

definition slots_of :: "chain_event list \<Rightarrow> device_command list" where
  "slots_of evs = concat (map slot_of evs)"

lemma foldl_add_event [simp]: "gQueue (foldl add_event g evs) = gQueue g" "gCmds (foldl add_event g evs) = gCmds g @ slots_of evs"
proof (induction evs arbitrary: g)
  case (Cons ev evs)
  { case 1 then show ?case using Cons.IH(1) by (cases ev) simp_all }
  { case 2 then show ?case using Cons.IH(2) by (cases ev) (simp_all add: slots_of_def) }
qed (simp_all add: slots_of_def)

definition slot_code :: "kernel_params \<Rightarrow> u8 list \<Rightarrow> nat \<times> 64 word list \<Rightarrow> u8 list result" where
  "slot_code kp constants = (\<lambda>(r, args). res_bind (run_at (asm_inst_runlist kp) r) (\<lambda>txn.
     res_bind (run_at (patch_runlist kp) r) (\<lambda>table. make_ctrl_code txn table args constants)))"

lemma emit_eq: "emit kp cu_idx constants r args = (Inr u, evs) \<longleftrightarrow> (\<exists>code. slot_code kp constants (r, args) = Inr code \<and> evs = [Slot (START_NPU cu_idx code)])"
  by (auto simp: emit_def slot_code_def split: sum.splits)

text \<open>What a list of steps that are either slots or buffers submits.\<close>

definition chain_step :: "kernel_params \<Rightarrow> u32 \<Rightarrow> u8 list \<Rightarrow> (nat \<times> 64 word list) + 64 word \<Rightarrow> unit result \<times> chain_event list" where
  "chain_step kp cu_idx constants st = (case st of Inl (r, args) \<Rightarrow> emit kp cu_idx constants r args | Inr a \<Rightarrow> (Inr (), [SeqBuffer a]))"

lemma in_order_steps:
  assumes "in_order (map (chain_step kp cu_idx constants) steps) = (Inr u, evs)"
  shows "\<exists>codes. slots_of evs = map (START_NPU cu_idx) codes
    \<and> list_all2 (\<lambda>s code. slot_code kp constants s = Inr code) (concat (map (case_sum (\<lambda>s. [s]) (\<lambda>_. [])) steps)) codes"
  using assms
proof (induction steps arbitrary: evs)
  case (Cons st steps)
  from Cons.prems obtain l1 l2 where e: "chain_step kp cu_idx constants st = (Inr u, l1)"
    "in_order (map (chain_step kp cu_idx constants) steps) = (Inr u, l2)" "evs = l1 @ l2" by (auto simp: and_then_OK)
  from Cons.IH [OF e(2)] obtain codes where cs: "slots_of l2 = map (START_NPU cu_idx) codes"
    "list_all2 (\<lambda>s code. slot_code kp constants s = Inr code) (concat (map (case_sum (\<lambda>s. [s]) (\<lambda>_. [])) steps)) codes" by blast
  have split: "slots_of evs = slots_of l1 @ slots_of l2" by (simp add: e(3) slots_of_def)
  show ?case
  proof (cases st)
    case (Inl s)
    obtain r args where s: "s = (r, args)" by (cases s)
    with e(1) Inl obtain code where "slot_code kp constants s = Inr code" "l1 = [Slot (START_NPU cu_idx code)]"
      by (auto simp: chain_step_def emit_eq)
    then show ?thesis using cs split Inl by (intro exI [of _ "code # codes"]) (simp add: slots_of_def)
  next
    case (Inr a)
    then have "l1 = [SeqBuffer a]" using e(1) by (simp add: chain_step_def)
    then show ?thesis using cs split Inr by (intro exI [of _ codes]) (simp add: slots_of_def)
  qed
qed (simp add: slots_of_def)

definition chain_steps :: "kernel_params \<Rightarrow> binding list \<Rightarrow> (nat \<Rightarrow> 64 word) \<Rightarrow> ((nat \<times> 64 word list) + 64 word) list" where
  "chain_steps kp bindings seq_address =
     (let exec = \<lambda>r. replicate (unat (n_kernel_runs kp)) (Inl (r, map binding_addr bindings))
      in if reconf_data_runlist kp = [] then exec 0
         else concat (map (\<lambda>i. Inr (seq_address i) # replicate (unat (n_reconfigure_runs kp)) (Inl (2 * i, [seq_address i])) @ exec (2 * i + 1))
           [0 ..< length (reconf_data_runlist kp)]))"

lemma concat_singletons: "concat (replicate n [x]) = replicate n x"
  by (induction n) simp_all

lemma concat_map_concat: "concat (map f (concat xss)) = concat (map (\<lambda>xs. concat (map f xs)) xss)"
  by (induction xss) simp_all

lemma chain_steps_slots: "concat (map (case_sum (\<lambda>s. [s]) (\<lambda>_. [])) (chain_steps kp bindings seq_address)) = run_slots kp bindings seq_address"
  by (simp add: chain_steps_def run_slots_def Let_def concat_map_concat comp_def concat_singletons)

lemma chain_events_steps: "chain_events kp cu_idx bindings seq_address constants
    = in_order (map (chain_step kp cu_idx constants) (chain_steps kp bindings seq_address))"
  by (simp add: chain_events_def chain_steps_def Let_def map_concat comp_def chain_step_def)

text \<open>The control code that the firmware gets of a slot when it patches the addresses itself.\<close>

definition once_code :: "kernel_params \<Rightarrow> u8 list \<Rightarrow> nat \<Rightarrow> u8 list result" where
  "once_code kp constants r = res_bind (run_at (asm_inst_runlist kp) r) (\<lambda>inst.
     case patch_write32_constants (words_bytes inst) constants of (Inl e, code) \<Rightarrow> Inl e | (Inr u, code) \<Rightarrow> Inr code)"

definition once_slot :: "kernel_params \<Rightarrow> u32 \<Rightarrow> u8 list \<Rightarrow> nat \<times> 64 word list \<Rightarrow> device_command \<Rightarrow> bool" where
  "once_slot kp cu_idx constants = (\<lambda>(r, args) cmd. \<exists>code. once_code kp constants r = Inr code \<and> cmd = START_CU cu_idx code args)"

lemma once_runs:
  assumes "at_run kp r (\<lambda>inst. with_constants cu_idx inst constants args n) = (Inr u, l)"
  shows "list_all2 (once_slot kp cu_idx constants) (replicate n (r, args)) l"
  using assms by (auto simp: at_run_def with_constants_def once_slot_def once_code_def list_all2_conv_all_nth split: sum.splits prod.splits)

lemma once_normal_run:
  assumes "at_run kp r (\<lambda>inst. normal_run cu_idx bindings runs inst constants) = (Inr u, l)"
  shows "list_all2 (once_slot kp cu_idx constants) (replicate (unat runs) (r, map binding_addr bindings)) l"
proof (cases "runs = 0")
  case True
  then show ?thesis using assms by (auto simp: at_run_def normal_run_def split: sum.splits)
next
  case False
  then show ?thesis using assms by (intro once_runs [where u = u]) (simp add: normal_run_def)
qed

lemma in_order_all2:
  assumes "in_order (concat (map f xs)) = (Inr u, l)"
    and "\<And>x l. x \<in> set xs \<Longrightarrow> in_order (f x) = (Inr u, l) \<Longrightarrow> list_all2 P (g x) l"
  shows "list_all2 P (concat (map g xs)) l"
  using assms
proof (induction xs arbitrary: l)
  case (Cons x xs)
  from Cons.prems(1) obtain l1 l2 where "in_order (f x) = (Inr u, l1)" "in_order (concat (map f xs)) = (Inr u, l2)" "l = l1 @ l2"
    by (auto simp: in_order_append and_then_OK)
  then show ?case using Cons.IH [of l2] Cons.prems(2) by (auto intro!: list_all2_appendI)
qed simp

lemma at_once_slots:
  assumes "dispatch_at_once kp cu_idx bindings seq_address constants = (Inr u, now)"
  shows "list_all2 (once_slot kp cu_idx constants) (run_slots kp bindings seq_address) now"
proof (cases "reconf_data_runlist kp = []")
  case True
  then show ?thesis using assms by (auto simp: dispatch_at_once_def run_slots_def Let_def intro: once_normal_run)
next
  case False
  let ?f = "\<lambda>i. [at_run kp (2 * i) (\<lambda>inst. reconfigure cu_idx (n_reconfigure_runs kp) inst (seq_address i) constants),
         at_run kp (2 * i + 1) (\<lambda>inst. normal_run cu_idx bindings (n_kernel_runs kp) inst constants)]"
  let ?g = "\<lambda>i. replicate (unat (n_reconfigure_runs kp)) (2 * i, [seq_address i])
         @ replicate (unat (n_kernel_runs kp)) (2 * i + 1, map binding_addr bindings)"
  have "list_all2 (once_slot kp cu_idx constants) (?g i) l" if two: "in_order (?f i) = (Inr u, l)" for i l
  proof -
    from two obtain l1 l2 where l: "at_run kp (2 * i) (\<lambda>inst. reconfigure cu_idx (n_reconfigure_runs kp) inst (seq_address i) constants) = (Inr u, l1)"
      "at_run kp (2 * i + 1) (\<lambda>inst. normal_run cu_idx bindings (n_kernel_runs kp) inst constants) = (Inr u, l2)" "l = l1 @ l2"
      by (auto simp: and_then_OK)
    show ?thesis unfolding l(3)
      by (intro list_all2_appendI once_runs [OF l(1) [unfolded reconfigure_def]] once_normal_run [OF l(2)])
  qed
  moreover have "in_order (concat (map ?f [0 ..< length (reconf_data_runlist kp)])) = (Inr u, now)"
    using assms False by (simp add: dispatch_at_once_def)
  ultimately have "list_all2 (once_slot kp cu_idx constants) (concat (map ?g [0 ..< length (reconf_data_runlist kp)])) now"
    by (intro in_order_all2 [where f = ?f and u = u]) auto
  then show ?thesis using False by (simp add: run_slots_def Let_def)
qed

lemma chain_slots_codes:
  assumes "chain_events kp cu_idx bindings seq_address constants = (Inr u, evs)"
  shows "\<exists>codes. slots_of evs = map (START_NPU cu_idx) codes
    \<and> list_all2 (\<lambda>s code. slot_code kp constants s = Inr code) (run_slots kp bindings seq_address) codes"
  using in_order_steps [OF assms [unfolded chain_events_steps]] by (simp add: chain_steps_slots)

lemma slot_code_once:
  assumes "slot_code kp constants (r, args) = Inr code"
  shows "\<exists>once. once_code kp constants r = Inr once \<and> apply_patch_table once (patch_runlist kp ! r) args = (True, code)"
proof -
  obtain txn table where t: "run_at (asm_inst_runlist kp) r = Inr txn" "run_at (patch_runlist kp) r = Inr table"
    "make_ctrl_code txn table args constants = Inr code" using assms by (auto simp: slot_code_def)
  have table: "patch_runlist kp ! r = table" using t(2) by (simp add: run_at_def split: if_splits)
  obtain st once where p: "patch_write32_constants (words_bytes txn) constants = (st, once)" by (cases "patch_write32_constants (words_bytes txn) constants")
  then obtain u where st: "st = Inr u" using t(3) by (cases st) (simp_all add: make_ctrl_code_def)
  obtain ok code' where a: "apply_patch_table once table args = (ok, code')" by (cases "apply_patch_table once table args")
  have "ok \<and> code' = code" using t(3) p st a by (cases ok) (simp_all add: make_ctrl_code_def)
  then show ?thesis using t(1) p st a table by (simp add: once_code_def)
qed

text \<open>
  C19. A dispatch that is accumulated into a chain has the commands the dispatch would run at once: the
  same runs in the same order with the same repetitions, and the control code of every slot is the code
  of the command at once, with the addresses of the arguments of that command patched into it.
\<close>

theorem chained_like_at_once:
  assumes "dispatch_at_once kp cu_idx bindings seq_address constants = (Inr (), now)"
    and "chain_events kp cu_idx bindings seq_address constants = (Inr (), evs)"
  shows "length (slots_of evs) = length now
    \<and> (\<forall>k < length now. \<exists>r args once code. run_slots kp bindings seq_address ! k = (r, args)
        \<and> now ! k = START_CU cu_idx once args \<and> slots_of evs ! k = START_NPU cu_idx code
        \<and> apply_patch_table once (patch_runlist kp ! r) args = (True, code))"
proof -
  let ?slots = "run_slots kp bindings seq_address"
  have now: "list_all2 (once_slot kp cu_idx constants) ?slots now" by (rule at_once_slots [OF assms(1)])
  obtain codes where evs: "slots_of evs = map (START_NPU cu_idx) codes"
    and codes: "list_all2 (\<lambda>s code. slot_code kp constants s = Inr code) ?slots codes" using chain_slots_codes [OF assms(2)] by blast
  have len: "length ?slots = length now" "length codes = length now" using list_all2_lengthD [OF now] list_all2_lengthD [OF codes] by simp_all
  have "\<exists>r args once code. ?slots ! k = (r, args) \<and> now ! k = START_CU cu_idx once args \<and> slots_of evs ! k = START_NPU cu_idx code
        \<and> apply_patch_table once (patch_runlist kp ! r) args = (True, code)" if k: "k < length now" for k
  proof -
    obtain r args where s: "?slots ! k = (r, args)" by (cases "?slots ! k")
    have "once_slot kp cu_idx constants (r, args) (now ! k)" "slot_code kp constants (r, args) = Inr (codes ! k)"
      using list_all2_nthD [OF now, of k] list_all2_nthD [OF codes, of k] k len s by simp_all
    with slot_code_once [OF this(2)] show ?thesis using s evs k len by (auto simp: once_slot_def)
  qed
  then show ?thesis using len evs by simp
qed

section \<open>Chains keep the order of the commands\<close>

text \<open>The commands of groups and of submitted chains, each with the queue it runs on.\<close>

definition group_cmds :: "chain_group list \<Rightarrow> (nat \<times> device_command) list" where
  "group_cmds gs = concat (map (\<lambda>g. map (Pair (gQueue g)) (gCmds g)) gs)"

definition sent_cmds :: "(nat \<times> device_command list) list \<Rightarrow> (nat \<times> device_command) list" where
  "sent_cmds sent = concat (map (\<lambda>(q, cmds). map (Pair q) cmds) sent)"

definition fits_capacity :: "nat \<Rightarrow> chain_group \<Rightarrow> bool" where
  "fits_capacity max_slots g \<longleftrightarrow> max_slots + length (gReconf g) + length (gBindings g) \<le> arg_binding_capacity"

lemma flush_group_ok:
  assumes "0 < max_slots" and "fits_capacity max_slots g"
  shows "\<exists>sent. flush_group max_slots g first = Some (Inr (), sent) \<and> sent_cmds sent = map (Pair (gQueue g)) (drop first (gCmds g))
    \<and> (\<forall>c \<in> set sent. 0 < length (snd c) \<and> length (snd c) \<le> max_slots)"
proof (induction "length (gCmds g) - first" arbitrary: first rule: less_induct)
  case less
  show ?case
  proof (cases "first < length (gCmds g)")
    case True
    let ?stop = "min (first + max_slots) (length (gCmds g))" and ?n = "min max_slots (length (gCmds g) - first)"
    have n: "?stop - first = ?n" using True by simp
    have "submit_chain g first ?stop = Inr (gQueue g, take ?n (drop first (gCmds g)))"
      unfolding submit_chain_def n using assms(2) by (simp add: fits_capacity_def)
    moreover have "length (gCmds g) - (first + max_slots) < length (gCmds g) - first" using True assms(1) by simp
    from less.hyps [OF this] obtain sent where s: "flush_group max_slots g (first + max_slots) = Some (Inr (), sent)"
      "sent_cmds sent = map (Pair (gQueue g)) (drop (first + max_slots) (gCmds g))"
      "\<forall>c \<in> set sent. 0 < length (snd c) \<and> length (snd c) \<le> max_slots" by blast
    ultimately have "flush_group max_slots g first = Some (Inr (), (gQueue g, take ?n (drop first (gCmds g))) # sent)"
      using True by (subst flush_group.simps) simp
    moreover have "take ?n (drop first (gCmds g)) @ drop (first + max_slots) (gCmds g) = drop first (gCmds g)"
    proof -
      have "take ?n (drop first (gCmds g)) = take max_slots (drop first (gCmds g))" by (simp add: min_def)
      then show ?thesis using append_take_drop_id [of max_slots "drop first (gCmds g)"] by (simp add: add.commute)
    qed
    then have "sent_cmds ((gQueue g, take ?n (drop first (gCmds g))) # sent) = map (Pair (gQueue g)) (drop first (gCmds g))"
      using s(2) by (simp add: sent_cmds_def) (metis map_append)
    moreover have "0 < length (take ?n (drop first (gCmds g))) \<and> length (take ?n (drop first (gCmds g))) \<le> max_slots" using True assms(1) by simp
    ultimately show ?thesis using s(3) by auto
  next
    case False
    then show ?thesis by (subst flush_group.simps) (simp add: sent_cmds_def)
  qed
qed

lemma flush_chains_ok:
  assumes "0 < max_slots" and "\<forall>g \<in> set groups. fits_capacity max_slots g"
  shows "\<exists>sent. flush_chains max_slots groups = Some (Inr (), sent) \<and> sent_cmds sent = group_cmds groups
    \<and> (\<forall>c \<in> set sent. 0 < length (snd c) \<and> length (snd c) \<le> max_slots)"
  using assms(2)
proof (induction groups)
  case (Cons g gs)
  from Cons obtain sent where gs: "flush_chains max_slots gs = Some (Inr (), sent)" "sent_cmds sent = group_cmds gs"
    "\<forall>c \<in> set sent. 0 < length (snd c) \<and> length (snd c) \<le> max_slots" by auto
  obtain sent1 where g: "flush_group max_slots g 0 = Some (Inr (), sent1)" "sent_cmds sent1 = map (Pair (gQueue g)) (gCmds g)"
    "\<forall>c \<in> set sent1. 0 < length (snd c) \<and> length (snd c) \<le> max_slots"
    using flush_group_ok [OF assms(1), of g 0] Cons.prems by auto
  have "flush_chains max_slots (g # gs) = Some (Inr (), sent1 @ sent)" using g(1) gs(1) by simp
  moreover have "sent_cmds (sent1 @ sent) = group_cmds (g # gs)" using g(2) gs(2) by (simp add: sent_cmds_def group_cmds_def)
  ultimately show ?case using g(3) gs(3) by auto
qed (simp add: sent_cmds_def group_cmds_def)

text \<open>Two groups in a row are of different queues.\<close>

definition queues_alternate :: "chain_group list \<Rightarrow> bool" where
  "queues_alternate gs \<longleftrightarrow> (\<forall>i. Suc i < length gs \<longrightarrow> gQueue (gs ! i) \<noteq> gQueue (gs ! Suc i))"

lemma open_group_props:
  "open_group q gs \<noteq> []" "gQueue (last (open_group q gs)) = q" "group_cmds (open_group q gs) = group_cmds gs"
  "queues_alternate gs \<Longrightarrow> queues_alternate (open_group q gs)"
proof -
  show "open_group q gs \<noteq> []" "gQueue (last (open_group q gs)) = q" "group_cmds (open_group q gs) = group_cmds gs"
    by (auto simp: open_group_def group_cmds_def)
  assume alt: "queues_alternate gs"
  show "queues_alternate (open_group q gs)"
  proof (cases "gs = [] \<or> gQueue (last gs) \<noteq> q")
    case True
    let ?g = "\<lparr>gQueue = q, gCmds = [], gReconf = [], gBindings = []\<rparr>"
    have "gQueue ((gs @ [?g]) ! i) \<noteq> gQueue ((gs @ [?g]) ! Suc i)" if "Suc i < length (gs @ [?g])" for i
    proof (cases "Suc i = length gs")
      case end_of: True
      then have "gs \<noteq> []" by auto
      then have "gs ! i = last gs" using end_of by (simp add: last_conv_nth flip: end_of)
      with \<open>gs \<noteq> []\<close> show ?thesis using end_of True by (simp add: nth_append)
    next
      case False
      then show ?thesis using that alt by (simp add: nth_append queues_alternate_def)
    qed
    then show ?thesis using True by (simp add: open_group_def queues_alternate_def)
  next
    case False
    then show ?thesis using alt by (simp add: open_group_def)
  qed
qed

lemma upd_last_props:
  assumes "gs \<noteq> []" and "gQueue (f (last gs)) = gQueue (last gs)" and "gCmds (f (last gs)) = gCmds (last gs) @ cmds"
  shows "group_cmds (upd_last f gs) = group_cmds gs @ map (Pair (gQueue (last gs))) cmds"
    and "map gQueue (upd_last f gs) = map gQueue gs" and "upd_last f gs \<noteq> []"
    and "gQueue (last (upd_last f gs)) = gQueue (last gs)"
proof -
  obtain ys y where "gs = ys @ [y]" using assms(1) by (metis append_butlast_last_id)
  then show "group_cmds (upd_last f gs) = group_cmds gs @ map (Pair (gQueue (last gs))) cmds"
    and "map gQueue (upd_last f gs) = map gQueue gs" and "upd_last f gs \<noteq> []" and "gQueue (last (upd_last f gs)) = gQueue (last gs)"
    using assms(2,3) by (simp_all add: upd_last_def group_cmds_def)
qed

lemma queues_alternate_map: "map gQueue gs' = map gQueue gs \<Longrightarrow> queues_alternate gs' = queues_alternate gs"
  by (metis (mono_tags, lifting) length_map nth_map Suc_lessD queues_alternate_def)

lemma accumulate_ok:
  assumes "accumulate_chained kp cu_idx queue bindings seq_address constants groups = (Inr u, groups')"
  shows "\<exists>evs. chain_events kp cu_idx bindings seq_address constants = (Inr u, evs)
    \<and> group_cmds groups' = group_cmds groups @ map (Pair queue) (slots_of evs) \<and> (queues_alternate groups \<longrightarrow> queues_alternate groups')"
proof -
  obtain st evs where ev: "chain_events kp cu_idx bindings seq_address constants = (st, evs)" by (cases "chain_events kp cu_idx bindings seq_address constants")
  let ?gs = "open_group queue groups"
  let ?f = "\<lambda>g. foldl add_event g evs" and ?h = "\<lambda>g :: chain_group. g\<lparr>gBindings := gBindings g @ bindings\<rparr>"
  have st: "st = Inr u" and g': "groups' = upd_last ?h (upd_last ?f ?gs)"
    using assms ev by (auto simp: accumulate_chained_def Let_def split: if_splits sum.splits)
  note one = upd_last_props [OF open_group_props(1), of ?f queue groups "slots_of evs", simplified]
  have "group_cmds groups' = group_cmds (upd_last ?f ?gs)" "map gQueue groups' = map gQueue (upd_last ?f ?gs)"
    unfolding g' using upd_last_props(1,2) [OF one(3), of ?h "[]"] by simp_all
  then have "group_cmds groups' = group_cmds groups @ map (Pair queue) (slots_of evs)" "map gQueue groups' = map gQueue ?gs"
    using one(1,2) open_group_props(2,3) [of queue groups] by simp_all
  then show ?thesis using ev st open_group_props(4) [of groups queue] queues_alternate_map by blast
qed

section \<open>Whole command buffers\<close>

text \<open>
  What a client records: transfers (update, fill and copy of buffers, which the driver performs on the
  host at once) and dispatches. The events of a command buffer are what happens to the buffers, in order.
\<close>

datatype recorded = Transfer nat
  | Dispatch kernel_params u32 nat "binding list" "nat \<Rightarrow> 64 word" "u8 list"

datatype event = Moved nat | Ran nat device_command

fun record_at_once :: "recorded \<Rightarrow> unit result \<times> event list" where
  "record_at_once (Transfer t) = (Inr (), [Moved t])"
| "record_at_once (Dispatch kp cu_idx queue bindings seq_address constants) =
     (case dispatch_at_once kp cu_idx bindings seq_address constants of (st, cmds) \<Rightarrow> (st, map (Ran queue) cmds))"

fun record_chained :: "recorded list \<Rightarrow> nat list \<Rightarrow> chain_group list \<Rightarrow> unit result \<times> nat list \<times> chain_group list" where
  "record_chained [] moved groups = (Inr (), moved, groups)"
| "record_chained (Transfer t # rs) moved groups = record_chained rs (moved @ [t]) groups"
| "record_chained (Dispatch kp cu_idx queue bindings seq_address constants # rs) moved groups =
     (case accumulate_chained kp cu_idx queue bindings seq_address constants groups of
        (Inl e, groups') \<Rightarrow> (Inl e, moved, groups')
      | (Inr u, groups') \<Rightarrow> record_chained rs moved groups')"

definition run_chained :: "nat \<Rightarrow> recorded list \<Rightarrow> (unit result \<times> event list) option" where
  "run_chained max_slots rs =
     (case record_chained rs [] [] of
        (Inl e, moved, groups) \<Rightarrow> Some (Inl e, map Moved moved)
      | (Inr u, moved, groups) \<Rightarrow>
          Option.bind (flush_chains max_slots groups) (\<lambda>r.
            Some (fst r, map Moved moved @ map (\<lambda>(q, cmd). Ran q cmd) (sent_cmds (snd r)))))"

fun transfer_of :: "recorded \<Rightarrow> nat list" where
  "transfer_of (Transfer t) = [t]"
| "transfer_of (Dispatch kp cu_idx queue bindings seq_address constants) = []"

fun slots_on_queue :: "recorded \<Rightarrow> (nat \<times> device_command) list" where
  "slots_on_queue (Transfer t) = []"
| "slots_on_queue (Dispatch kp cu_idx queue bindings seq_address constants) =
     map (Pair queue) (slots_of (snd (chain_events kp cu_idx bindings seq_address constants)))"

lemma record_chained_ok:
  assumes "record_chained rs moved groups = (Inr u, moved', groups')"
  shows "moved' = moved @ concat (map transfer_of rs) \<and> group_cmds groups' = group_cmds groups @ concat (map slots_on_queue rs)
    \<and> (queues_alternate groups \<longrightarrow> queues_alternate groups')"
  using assms
proof (induction rs moved groups rule: record_chained.induct)
  case (3 kp cu_idx queue bindings seq_address constants rs moved groups)
  from 3(2) obtain g where g: "accumulate_chained kp cu_idx queue bindings seq_address constants groups = (Inr (), g)"
    "record_chained rs moved g = (Inr u, moved', groups')" by (auto split: prod.splits sum.splits)
  from accumulate_ok [OF g(1)] obtain evs where "chain_events kp cu_idx bindings seq_address constants = (Inr (), evs)"
    "group_cmds g = group_cmds groups @ map (Pair queue) (slots_of evs)" "queues_alternate groups \<longrightarrow> queues_alternate g" by blast
  moreover have "moved' = moved @ concat (map transfer_of rs) \<and> group_cmds groups' = group_cmds g @ concat (map slots_on_queue rs)
    \<and> (queues_alternate g \<longrightarrow> queues_alternate groups')"
    using 3(1) [OF g(1) [symmetric] refl g(2)] by simp
  ultimately show ?case by simp
qed simp_all

text \<open>
  C22. A command buffer in chain mode submits every slot of every dispatch exactly once and in the order of
  the recording, each on the queue of its dispatch. All transfers come before all of them.
\<close>

theorem chains_in_order:
  assumes "0 < max_slots" and "record_chained rs [] [] = (Inr (), moved, groups)" and "\<forall>g \<in> set groups. fits_capacity max_slots g"
  shows "run_chained max_slots rs = Some (Inr (), map Moved (concat (map transfer_of rs))
      @ map (\<lambda>(q, cmd). Ran q cmd) (concat (map slots_on_queue rs)))
    \<and> queues_alternate groups
    \<and> (\<exists>sent. flush_chains max_slots groups = Some (Inr (), sent) \<and> (\<forall>c \<in> set sent. 0 < length (snd c) \<and> length (snd c) \<le> max_slots))"
proof -
  from flush_chains_ok [OF assms(1,3)] obtain sent where s: "flush_chains max_slots groups = Some (Inr (), sent)"
    "sent_cmds sent = group_cmds groups" "\<forall>c \<in> set sent. 0 < length (snd c) \<and> length (snd c) \<le> max_slots" by blast
  have "moved = concat (map transfer_of rs)" "group_cmds groups = concat (map slots_on_queue rs)" "queues_alternate groups"
    using record_chained_ok [OF assms(2)] by (simp_all add: group_cmds_def queues_alternate_def)
  then show ?thesis using s assms(2) by (simp add: run_chained_def)
qed

section \<open>Examples\<close>

text \<open>A dispatch without control packets that runs its control code once, and a copy of its result.\<close>

definition sampleKernel :: kernel_params where
  "sampleKernel = \<lparr>n_kernel_runs = 1, n_reconfigure_runs = 1, asm_inst_runlist = [[0, 0, 0, 16]], reconf_data_runlist = [],
     patch_runlist = [[]]\<rparr>"

definition dispatchThenCopy :: "recorded list" where
  "dispatchThenCopy = [Dispatch sampleKernel 0 0 [] (\<lambda>_. 0) [], Transfer 7]"

theorem chained_like_at_once_witness:
  "\<exists>now evs. dispatch_at_once sampleKernel 0 [] (\<lambda>_. 0) [] = (Inr (), now) \<and> length now = 1 \<and> length (slots_of evs) = 1"
proof -
  let ?code = "words_bytes [0, 0, 0, 16]"
  have now: "dispatch_at_once sampleKernel 0 [] (\<lambda>_. 0) [] = (Inr (), [START_CU 0 ?code []])" by code_simp
  moreover have "chain_events sampleKernel 0 [] (\<lambda>_. 0) [] = (Inr (), [Slot (START_NPU 0 ?code)])" by code_simp
  from chained_like_at_once [OF now this] have "length (slots_of [Slot (START_NPU 0 ?code)]) = 1" by simp
  ultimately show ?thesis by fastforce
qed

lemma sample_recorded:
  "record_chained dispatchThenCopy [] [] = (Inr (), [7], [\<lparr>gQueue = 0, gCmds = [START_NPU 0 (words_bytes [0, 0, 0, 16])], gReconf = [], gBindings = []\<rparr>])"
  by code_simp

theorem chains_in_order_witness:
  "run_chained 4 dispatchThenCopy = Some (Inr (), [Moved 7, Ran 0 (START_NPU 0 (words_bytes [0, 0, 0, 16]))])"
proof -
  have "\<forall>g \<in> set [\<lparr>gQueue = 0, gCmds = [START_NPU 0 (words_bytes [0, 0, 0, 16])], gReconf = [], gBindings = []\<rparr>]. fits_capacity 4 g"
    by (simp add: fits_capacity_def arg_binding_capacity_def)
  then have "run_chained 4 dispatchThenCopy = Some (Inr (), map Moved (concat (map transfer_of dispatchThenCopy))
      @ map (\<lambda>(q, cmd). Ran q cmd) (concat (map slots_on_queue dispatchThenCopy)))"
    using chains_in_order [OF _ sample_recorded, of 4] by simp
  moreover have "concat (map slots_on_queue dispatchThenCopy) = [(0, START_NPU 0 (words_bytes [0, 0, 0, 16]))]"
    "concat (map transfer_of dispatchThenCopy) = [7]" by code_simp+
  ultimately show ?thesis by simp
qed

text \<open>
  The order is not that of the recording when a transfer follows a dispatch: at once, the copy reads
  the result of the dispatch; in chain mode it happens before the dispatch has run.
\<close>

theorem transfer_overtakes:
  "record_at_once (Transfer 7) = (Inr (), [Moved 7])
    \<and> in_order (map record_at_once dispatchThenCopy) = (Inr (), [Ran 0 (START_CU 0 (words_bytes [0, 0, 0, 16]) []), Moved 7])
    \<and> run_chained 4 dispatchThenCopy = Some (Inr (), [Moved 7, Ran 0 (START_NPU 0 (words_bytes [0, 0, 0, 16]))])"
  by code_simp

end
