(* ===== verification/Buffer_Address.thy ===== *)
theory Buffer_Address
  imports Device_Model Complex_Main "HOL-Library.Log_Nat"
begin

text \<open>
  The addresses of the buffers of a tile (AMDAIEAssignBufferAddress.cpp and the pass it was copied from,
  AMDAIEAssignBufferAddresses.cpp of the AIE dialect): one buffer after the other, or spread over the
  banks of the memory. \<open>int64_t\<close> is \<open>int\<close>, attributes are words of 32 bits.
\<close>

section \<open>Single precision division\<close>

text \<open>Rounding to 24 significant bits, to the nearest, ties to even; there is no overflow at these sizes.\<close>

definition round_half_even :: "rat \<Rightarrow> int" where
  "round_half_even x = (let f = \<lfloor>x\<rfloor>; r = x - of_int f in if r < 1 / 2 \<or> (r = 1 / 2 \<and> even f) then f else f + 1)"

definition exponent :: "rat \<Rightarrow> int" where
  "exponent x = (let (a, b) = quotient_of x; e = int (floorlog 2 (nat a)) - int (floorlog 2 (nat b))
     in if 2 powi e \<le> x then e else e - 1)"

definition float32 :: "rat \<Rightarrow> rat" where
  "float32 x = (if x \<le> 0 then 0 else let e = exponent x - 23 in of_int (round_half_even (x / 2 powi e)) * 2 powi e)"

text \<open>\<open>std::ceil(float(a) / float(b))\<close>\<close>

definition float_ceil_div :: "int \<Rightarrow> int \<Rightarrow> int" where
  "float_ceil_div a b = \<lceil>float32 (float32 (of_int a) / float32 (of_int b))\<rceil>"

section \<open>Buffers and banks\<close>

record Buffer =
  bufferSize :: int
  address :: "u32 option"
  memBank :: "u32 option"

record BankStates =
  startAddr :: int
  endAddr :: int
  nextAddr :: int

definition setAddress :: "int \<Rightarrow> Buffer \<Rightarrow> Buffer" where
  "setAddress a b = b\<lparr>address := Some (word_of_int a)\<rparr>"

definition setNext :: "nat \<Rightarrow> int \<Rightarrow> BankStates list \<Rightarrow> BankStates list" where
  "setNext k a banks = banks[k := (banks ! k)\<lparr>nextAddr := a\<rparr>]"

section \<open>One buffer after the other\<close>

fun assignSequentially :: "int \<Rightarrow> Buffer list \<Rightarrow> Buffer list \<times> int" where
  "assignSequentially a [] = ([], a)"
| "assignSequentially a (b # bs) =
     (let r = assignSequentially (a + bufferSize b) bs in (setAddress a b # fst r, snd r))"

definition stackOf :: "int option \<Rightarrow> int" where
  "stackOf core = (case core of None \<Rightarrow> 0 | Some stackSize \<Rightarrow> stackSize)"

definition basicAllocation :: "u32 \<Rightarrow> int option \<Rightarrow> Buffer list \<Rightarrow> unit result \<times> Buffer list" where
  "basicAllocation maxDataMemorySize core buffers =
     (let r = assignSequentially (stackOf core) buffers
      in (if snd r > uint maxDataMemorySize then Inl Failure else Inr (), fst r))"

section \<open>Over the banks\<close>

text \<open>A step returns its result, the buffer and the banks.\<close>

definition checkAndAddBufferWithAddress :: "Buffer \<Rightarrow> u32 \<Rightarrow> BankStates list \<Rightarrow> bool result \<times> Buffer \<times> BankStates list" where
  "checkAndAddBufferWithAddress buffer bankSize banks =
     (case address buffer of
        None \<Rightarrow> (Inr False, buffer, banks)
      | Some addr \<Rightarrow>
          if bankSize = 0 then (Inl DivByZero, buffer, banks)
          else let bankIndex = unat (addr div bankSize)
               in if bankIndex \<ge> length banks then (Inl OutOfBounds, buffer, banks)
                  else if uint addr < nextAddr (banks ! bankIndex) then (Inl Failure, buffer, banks)
                  else let banks' = setNext bankIndex (uint addr + bufferSize buffer) banks
                       in if nextAddr (banks' ! bankIndex) > endAddr (banks' ! bankIndex) then (Inl Failure, buffer, banks')
                          else (Inr True, buffer\<lparr>memBank := Some (of_nat bankIndex)\<rparr>, banks'))"

text \<open>The function of the AIE dialect has a case more.\<close>

definition AIE_checkAndAddBufferWithAddress :: "Buffer \<Rightarrow> u32 \<Rightarrow> BankStates list \<Rightarrow> bool result \<times> Buffer \<times> BankStates list" where
  "AIE_checkAndAddBufferWithAddress buffer bankSize banks =
     (case address buffer of
        None \<Rightarrow> (Inr False, buffer, banks)
      | Some addr \<Rightarrow>
          if bankSize = 0 then (Inl DivByZero, buffer, banks)
          else (case memBank buffer of
             Some k \<Rightarrow> (Inr True, buffer, banks)
           | None \<Rightarrow>
               let bankIndex = unat (addr div bankSize)
               in if bankIndex \<ge> length banks then (Inl OutOfBounds, buffer, banks)
                  else if uint addr < nextAddr (banks ! bankIndex) then (Inl Failure, buffer, banks)
                  else let banks' = setNext bankIndex (uint addr + bufferSize buffer) banks
                       in if nextAddr (banks' ! bankIndex) > endAddr (banks' ! bankIndex) then (Inl Failure, buffer, banks')
                          else (Inr True, buffer\<lparr>memBank := Some (of_nat bankIndex)\<rparr>, banks')))"

definition checkAndAddBufferWithMemBank :: "Buffer \<Rightarrow> BankStates list \<Rightarrow> bool result \<times> Buffer \<times> BankStates list" where
  "checkAndAddBufferWithMemBank buffer banks =
     (case memBank buffer of
        None \<Rightarrow> (Inr False, buffer, banks)
      | Some k \<Rightarrow>
          if unat k \<ge> length banks then (Inl OutOfBounds, buffer, banks)
          else
            (let banks1 = (case address buffer of
                 Some addr \<Rightarrow> if uint addr > nextAddr (banks ! unat k) then setNext (unat k) (uint addr) banks else banks
               | None \<Rightarrow> banks);
                 first = nextAddr (banks1 ! unat k);
                 stop = first + bufferSize buffer
             in if stop > endAddr (banks1 ! unat k) then (Inl Failure, buffer, banks1)
                else (Inr True, setAddress first buffer, setNext (unat k) stop banks1)))"

text \<open>The loop over the banks of a window: the intervals it takes and what is left of the size.\<close>

fun window :: "BankStates list \<Rightarrow> nat \<Rightarrow> nat \<Rightarrow> int \<Rightarrow> ((int \<times> int) list \<times> int) option" where
  "window banks bankIndex 0 remainingSize = Some ([], remainingSize)"
| "window banks bankIndex (Suc n) remainingSize =
     (let bank = banks ! (bankIndex mod length banks); available = endAddr bank - nextAddr bank
      in if available \<le> 0 then None
         else let allocated = min remainingSize available
              in map_option (\<lambda>(temp, r). ((nextAddr bank, nextAddr bank + allocated) # temp, r))
                   (window banks (Suc bankIndex) n (remainingSize - allocated)))"

fun takeWindow :: "nat \<Rightarrow> (int \<times> int) list \<Rightarrow> BankStates list \<Rightarrow> BankStates list" where
  "takeWindow bankIndex [] banks = banks"
| "takeWindow bankIndex ((s, e) # temp) banks = takeWindow (Suc bankIndex) temp (setNext (bankIndex mod length banks) e banks)"

text \<open>The windows that start at the banks \<open>bankStarts\<close>; a window of no banks has no first interval.\<close>

fun findWindow :: "nat list \<Rightarrow> nat \<Rightarrow> Buffer \<Rightarrow> BankStates list \<Rightarrow> (Buffer \<times> nat \<times> BankStates list) option result" where
  "findWindow [] minNumBanksNeeded buffer banks = Inr None"
| "findWindow (bankStart # bankStarts) minNumBanksNeeded buffer banks =
     (case window banks bankStart minNumBanksNeeded (bufferSize buffer) of
        Some (temp, r) \<Rightarrow>
          if r = 0 then
            (case temp of
               [] \<Rightarrow> Inl OutOfBounds
             | (s, e) # _ \<Rightarrow> Inr (Some (setAddress s (buffer\<lparr>memBank := Some (of_nat bankStart)\<rparr>),
                 (bankStart + minNumBanksNeeded) mod length banks,
                 setNext bankStart (snd (last temp)) (takeWindow bankStart temp banks))))
          else findWindow bankStarts minNumBanksNeeded buffer banks
      | None \<Rightarrow> findWindow bankStarts minNumBanksNeeded buffer banks)"

definition setBufferAddress :: "Buffer \<Rightarrow> u32 \<Rightarrow> nat \<Rightarrow> BankStates list \<Rightarrow> (Buffer \<times> nat \<times> BankStates list) option result" where
  "setBufferAddress buffer bankSize startBankIndex banks =
     (let numBanks = length banks;
          totalAvailable = sum_list (map (\<lambda>bank. max 0 (endAddr bank - nextAddr bank)) banks);
          minNumBanksNeeded = nat (float_ceil_div (bufferSize buffer) (uint bankSize))
      in if bufferSize buffer > totalAvailable then Inr None
         else findWindow (map (\<lambda>offset. (startBankIndex + offset) mod numBanks) [0 ..< numBanks]) minNumBanksNeeded buffer banks)"

definition deAllocateBuffers :: "nat list \<Rightarrow> Buffer list \<Rightarrow> Buffer list" where
  "deAllocateBuffers is buffers = foldl (\<lambda>bs i. bs[i := (bs ! i)\<lparr>address := None, memBank := None\<rparr>]) buffers is"

text \<open>
  The loops of \<open>bankAwareAllocation\<close>, over the indices of the buffers. \<open>check\<close> is the test for a preset
  address of the pass.
\<close>

type_synonym address_check = "Buffer \<Rightarrow> u32 \<Rightarrow> BankStates list \<Rightarrow> bool result \<times> Buffer \<times> BankStates list"

fun preAllocate :: "address_check \<Rightarrow> u32 \<Rightarrow> nat list \<Rightarrow> Buffer list \<Rightarrow> BankStates list \<Rightarrow> nat list \<Rightarrow>
    unit result \<times> Buffer list \<times> BankStates list \<times> nat list" where
  "preAllocate check bankSize [] buffers banks todo = (Inr (), buffers, banks, todo)"
| "preAllocate check bankSize (i # is) buffers banks todo =
     (case checkAndAddBufferWithMemBank (buffers ! i) banks of (has_bank, b1, banks1) \<Rightarrow>
      case check b1 bankSize banks1 of (has_addr, b2, banks2) \<Rightarrow>
      case has_bank of Inl e \<Rightarrow> (Inl e, buffers[i := b2], banks2, todo) | Inr bank \<Rightarrow>
      case has_addr of Inl e \<Rightarrow> (Inl e, buffers[i := b2], banks2, todo) | Inr addr \<Rightarrow>
        preAllocate check bankSize is (buffers[i := b2]) banks2 (if \<not> addr \<and> \<not> bank then todo @ [i] else todo))"

fun allocateRest :: "u32 \<Rightarrow> nat list \<Rightarrow> nat list \<Rightarrow> nat \<Rightarrow> Buffer list \<Rightarrow> BankStates list \<Rightarrow> unit result \<times> Buffer list" where
  "allocateRest bankSize allocated [] startBankIndex buffers banks = (Inr (), buffers)"
| "allocateRest bankSize allocated (i # is) startBankIndex buffers banks =
     (case setBufferAddress (buffers ! i) bankSize startBankIndex banks of
        Inl e \<Rightarrow> (Inl e, buffers)
      | Inr None \<Rightarrow> (Inl Failure, deAllocateBuffers allocated buffers)
      | Inr (Some (b', start', banks')) \<Rightarrow> allocateRest bankSize (allocated @ [i]) is start' (buffers[i := b']) banks')"

definition initialBanks :: "nat \<Rightarrow> u32 \<Rightarrow> BankStates list" where
  "initialBanks numBanks bankSize = map (\<lambda>i. \<lparr>startAddr = uint (of_nat i * bankSize), endAddr = uint (of_nat (i + 1) * bankSize),
     nextAddr = uint (of_nat i * bankSize)\<rparr>) [0 ..< numBanks]"

text \<open>
  \<open>std::sort\<close> leaves the order of equal sizes open: \<open>order\<close> sorts indices by descending size in some way.
\<close>

definition bankAwareAllocation ::
  "address_check \<Rightarrow> (Buffer list \<Rightarrow> nat list \<Rightarrow> nat list) \<Rightarrow> nat \<Rightarrow> u32 \<Rightarrow> int option \<Rightarrow> Buffer list \<Rightarrow> unit result \<times> Buffer list" where
  "bankAwareAllocation check order numBanks maxDataMemorySize core buffers =
     (if numBanks = 0 then (Inl DivByZero, buffers)
      else
        (let bankSize = maxDataMemorySize div of_nat numBanks;
             banks = initialBanks numBanks bankSize
         in if stackOf core > uint bankSize then (Inl Failure, buffers)
            else case preAllocate check bankSize [0 ..< length buffers] buffers
                        (setNext 0 (nextAddr (banks ! 0) + stackOf core) banks) [] of
              (Inl e, buffers', _, _) \<Rightarrow> (Inl e, buffers')
            | (Inr u, buffers', banks', todo) \<Rightarrow> allocateRest bankSize [] (order buffers' todo) 0 buffers' banks'))"

section \<open>The pass\<close>

definition getNumBanks :: "AMDAIEDeviceModel \<Rightarrow> int \<Rightarrow> int \<Rightarrow> nat" where
  "getNumBanks m c r = (if isMemTile m (word_of_int c) (word_of_int r) then 8 else 4)"

definition getMaxMemorySize :: "AMDAIEDeviceModel \<Rightarrow> int option \<Rightarrow> int option \<Rightarrow> u32 result" where
  "getMaxMemorySize m c r =
     (case (c, r) of
        (Some col', Some row') \<Rightarrow>
          if isMemTile m (word_of_int col') (word_of_int row') then getMemTileSize m (word_of_int col') (word_of_int row')
          else getLocalMemorySize m (word_of_int col') (word_of_int row')
      | _ \<Rightarrow> Inl Failure)"

datatype AllocScheme = Sequential | BankAware | DefaultScheme

text \<open>
  The buffers of one tile. The size of the memory is read from its result without a test for failure,
  a failure there is an error of the pass here.
\<close>

definition assignTile ::
  "AMDAIEDeviceModel \<Rightarrow> (Buffer list \<Rightarrow> nat list \<Rightarrow> nat list) \<Rightarrow> AllocScheme \<Rightarrow> int option \<Rightarrow> int option \<Rightarrow> int option \<Rightarrow> Buffer list
    \<Rightarrow> unit result \<times> Buffer list" where
  "assignTile m order allocScheme c r core buffers =
     (case getMaxMemorySize m c r of
        Inl e \<Rightarrow> (Inl e, buffers)
      | Inr maxSize \<Rightarrow>
          let numBanks = getNumBanks m (the c) (the r);
              bankAware = bankAwareAllocation checkAndAddBufferWithAddress order numBanks maxSize core
          in case allocScheme of
               Sequential \<Rightarrow> basicAllocation maxSize core buffers
             | BankAware \<Rightarrow> bankAware buffers
             | DefaultScheme \<Rightarrow>
                 (case bankAware buffers of
                    (Inl Failure, buffers') \<Rightarrow> basicAllocation maxSize core buffers'
                  | r \<Rightarrow> r))"

section \<open>Rounding\<close>

lemma exponent_bounds:
  assumes "0 < x"
  shows "2 powi exponent x \<le> x" and "x < 2 powi (exponent x + 1)"
proof -
  obtain a b where q: "quotient_of x = (a, b)" by (cases "quotient_of x")
  then have b: "0 < b" and x: "x = of_int a / of_int b" by (simp_all add: quotient_of_denom_pos quotient_of_div)
  have a: "0 < a" using assms b x by (simp add: zero_less_divide_iff)
  let ?m = "floorlog 2 (nat a)" and ?n = "floorlog 2 (nat b)"
  have bounds: "2 ^ (floorlog 2 k - 1) \<le> k \<and> k < 2 ^ floorlog 2 k \<and> 0 < floorlog 2 k" if "0 < k" for k :: nat
    using floorlog_bounds [of k 2] that by (cases "floorlog 2 k = 0") simp_all
  have ra: "2 powi (int ?m - 1) \<le> (of_int a :: rat)" "(of_int a :: rat) < 2 powi int ?m"
    and rb: "2 powi (int ?n - 1) \<le> (of_int b :: rat)" "(of_int b :: rat) < 2 powi int ?n"
  proof -
    have *: "2 powi (int (floorlog 2 (nat c)) - 1) \<le> (of_int c :: rat) \<and> (of_int c :: rat) < 2 powi int (floorlog 2 (nat c))" if "0 < c" for c
    proof -
      have "0 < nat c" using that by simp
      from bounds [OF this] have b1: "2 ^ (floorlog 2 (nat c) - 1) \<le> nat c" "nat c < 2 ^ floorlog 2 (nat c)" "0 < floorlog 2 (nat c)" by auto
      have "(of_nat (2 ^ (floorlog 2 (nat c) - 1)) :: rat) \<le> of_nat (nat c)" "(of_nat (nat c) :: rat) < of_nat (2 ^ floorlog 2 (nat c))"
        using b1(1,2) by (simp_all only: of_nat_le_iff of_nat_less_iff)
      moreover have c: "(of_nat (nat c) :: rat) = of_int c" using that by simp
      moreover have k: "int (floorlog 2 (nat c)) - 1 = int (floorlog 2 (nat c) - 1)" using b1(3) by simp
      ultimately show ?thesis unfolding k c power_int_of_nat by (simp only: of_nat_power of_nat_numeral simp_thms)
    qed
    show "2 powi (int ?m - 1) \<le> (of_int a :: rat)" "(of_int a :: rat) < 2 powi int ?m"
      "2 powi (int ?n - 1) \<le> (of_int b :: rat)" "(of_int b :: rat) < 2 powi int ?n" using *[OF a] *[OF b] by auto
  qed
  let ?e = "int ?m - int ?n"
  have low: "2 powi (?e - 1) < x"
  proof -
    have "(2 :: rat) powi (?e - 1) * of_int b < 2 powi (?e - 1) * 2 powi int ?n" using rb(2) by simp
    also have "\<dots> = 2 powi (?e - 1 + int ?n)" by (rule power_int_add [symmetric]) simp
    also have "(2 :: rat) powi (?e - 1 + int ?n) = 2 powi (int ?m - 1)" by (rule arg_cong) simp
    also have "\<dots> \<le> of_int a" by (rule ra(1))
    finally show ?thesis using b by (simp add: x field_simps)
  qed
  have high: "x < 2 powi (?e + 1)"
  proof -
    have "of_int a < (2 powi int ?m :: rat)" by (rule ra(2))
    also have "\<dots> = 2 powi (?e + 1) * 2 powi (int ?n - 1)" by (simp flip: power_int_add)
    also have "\<dots> \<le> 2 powi (?e + 1) * of_int b" using rb(1) by simp
    finally show ?thesis using b by (simp add: x field_simps)
  qed
  have e: "exponent x = (if 2 powi ?e \<le> x then ?e else ?e - 1)" by (simp add: exponent_def q Let_def)
  show "2 powi exponent x \<le> x" "x < 2 powi (exponent x + 1)" using low high e by (auto split: if_splits)
qed

lemma round_half_even_int [simp]: "round_half_even (of_int n) = n"
  by (simp add: round_half_even_def)

lemma round_half_even_mono_int: "x \<le> of_int n \<Longrightarrow> round_half_even x \<le> n"
proof -
  assume x: "x \<le> of_int n"
  show ?thesis
  proof (cases "x = of_int n")
    case False
    then have "\<lfloor>x\<rfloor> < n" using x by (simp add: floor_less_iff)
    then show ?thesis by (auto simp: round_half_even_def Let_def)
  qed simp
qed

lemma round_half_even_ge: "of_int n \<le> x \<Longrightarrow> n \<le> round_half_even x"
proof -
  assume "of_int n \<le> x"
  then have "n \<le> \<lfloor>x\<rfloor>" by (simp add: le_floor_iff)
  then show ?thesis by (auto simp: round_half_even_def Let_def)
qed

lemma powi_less: "(2 :: rat) powi m < 2 powi n \<Longrightarrow> m < n"
  by (metis linorder_not_less one_le_numeral power_int_increasing)

lemma powi_le: "(2 :: rat) powi m \<le> 2 powi n \<Longrightarrow> m \<le> n"
  by (metis linorder_not_less one_less_numeral_iff power_int_strict_increasing semiring_norm(76))

lemma div_inverse: "(p :: rat) * q = 1 \<Longrightarrow> x / p = x * q"
proof -
  assume "p * q = 1"
  then have "q = inverse p" by (simp add: inverse_unique)
  then show ?thesis by (simp add: divide_inverse)
qed

lemma powi_neg: "e \<le> 0 \<Longrightarrow> (2 :: rat) powi e * of_int (2 ^ nat (- e)) = 1"
proof -
  assume e: "e \<le> 0"
  then have "(of_int (2 ^ nat (- e)) :: rat) = 2 powi (- e)" by (simp add: power_int_def)
  then show ?thesis by (simp flip: power_int_add)
qed

lemma float32_exact:
  assumes "0 < n" and "n < 2 ^ 24" and x: "x = of_int n * 2 powi f"
  shows "float32 x = x"
proof -
  let ?e = "exponent x - 23"
  have pos: "0 < x" using assms by simp
  have "(of_int n :: rat) < of_int (2 ^ 24)" using assms(2) by (simp only: of_int_less_iff)
  then have "x < 2 powi 24 * 2 powi f" unfolding x by (intro mult_strict_right_mono) simp_all
  then have "x < 2 powi (24 + f)" by (simp add: power_int_add)
  with exponent_bounds(1) [OF pos] have "(2 :: rat) powi exponent x < 2 powi (24 + f)" by (rule le_less_trans)
  from powi_less [OF this] have e: "?e \<le> f" by simp
  then have "(2 :: rat) powi f = 2 powi ?e * of_int (2 ^ nat (f - ?e))"
    using power_int_add [of "2::rat" ?e "f - ?e"] by (simp add: power_int_def)
  then have "x = of_int n * (2 powi ?e * of_int (2 ^ nat (f - ?e)))" using x by (simp only:)
  then have d: "x / 2 powi ?e = of_int (n * 2 ^ nat (f - ?e))" by (simp add: field_simps)
  then have "round_half_even (x / 2 powi ?e) = n * 2 ^ nat (f - ?e)" by (simp only: round_half_even_int)
  then have "float32 x = of_int (n * 2 ^ nat (f - ?e)) * 2 powi ?e" using pos by (simp add: float32_def Let_def)
  then show ?thesis unfolding d [symmetric] by simp
qed

lemma float32_int: "0 < n \<Longrightarrow> n < 2 ^ 24 \<Longrightarrow> float32 (of_int n) = of_int n"
  by (rule float32_exact [of n _ 0]) simp_all

lemma float32_unit:
  assumes "0 < q" and "q \<le> 1"
  shows "0 < float32 q \<and> float32 q \<le> 1"
proof -
  let ?e = "exponent q - 23"
  have "2 powi exponent q \<le> (2 :: rat) powi 0" using exponent_bounds(1) [OF assms(1)] assms(2) by simp
  then have e: "exponent q \<le> 0" by (rule powi_le)
  then have one: "(2 :: rat) powi ?e * of_int (2 ^ nat (- ?e)) = 1" by (intro powi_neg) simp
  have "q / 2 powi ?e \<le> of_int (2 ^ nat (- ?e))"
    unfolding div_inverse [OF one] using assms(2) by simp
  then have "round_half_even (q / 2 powi ?e) \<le> 2 ^ nat (- ?e)" by (rule round_half_even_mono_int)
  then have "(of_int (round_half_even (q / 2 powi ?e)) :: rat) \<le> of_int (2 ^ nat (- ?e))" by (simp only: of_int_le_iff)
  then have "of_int (round_half_even (q / 2 powi ?e)) * 2 powi ?e \<le> of_int (2 ^ nat (- ?e)) * (2 :: rat) powi ?e"
    by (intro mult_right_mono) simp_all
  also have "\<dots> = 1" using one by (simp only: mult.commute)
  finally have "float32 q \<le> 1" using assms(1) by (simp add: float32_def Let_def)
  have "(2 :: rat) powi ?e \<le> 2 powi exponent q" by (intro power_int_increasing) simp_all
  then have "(2 :: rat) powi ?e \<le> q" using exponent_bounds(1) [OF assms(1)] by simp
  then have "of_int 1 \<le> q / 2 powi ?e" by simp
  then have "1 \<le> round_half_even (q / 2 powi ?e)" by (rule round_half_even_ge)
  then show ?thesis using \<open>float32 q \<le> 1\<close> assms(1) by (simp add: float32_def Let_def)
qed

lemma one_bank: "0 < s \<Longrightarrow> s \<le> b \<Longrightarrow> b < 2 ^ 24 \<Longrightarrow> float_ceil_div s b = 1"
proof -
  assume s: "0 < s" "s \<le> b" "b < 2 ^ 24"
  then have "float_ceil_div s b = \<lceil>float32 (of_int s / of_int b)\<rceil>" by (simp add: float_ceil_div_def float32_int)
  moreover have "0 < (of_int s / of_int b :: rat)" "(of_int s / of_int b :: rat) \<le> 1" using s by simp_all
  ultimately show ?thesis using float32_unit by (simp add: ceiling_eq_iff)
qed

section \<open>What is placed stays apart\<close>

definition banks_ok :: "nat \<Rightarrow> int \<Rightarrow> BankStates list \<Rightarrow> bool" where
  "banks_ok nb bsz banks \<longleftrightarrow> length banks = nb \<and> int nb * bsz < 2 ^ 32 \<and> (\<forall>k < nb. startAddr (banks ! k) = int k * bsz
     \<and> endAddr (banks ! k) = (int k + 1) * bsz \<and> startAddr (banks ! k) \<le> nextAddr (banks ! k) \<and> nextAddr (banks ! k) \<le> endAddr (banks ! k))"

definition in_bank :: "BankStates list \<Rightarrow> Buffer \<Rightarrow> bool" where
  "in_bank banks b \<longleftrightarrow> (\<exists>k a. k < length banks \<and> memBank b = Some (of_nat k) \<and> address b = Some a
     \<and> startAddr (banks ! k) \<le> uint a \<and> uint a + bufferSize b \<le> nextAddr (banks ! k))"

definition above_stack :: "int \<Rightarrow> Buffer \<Rightarrow> bool" where
  "above_stack stack b \<longleftrightarrow> (\<exists>a. address b = Some a \<and> stack \<le> uint a)"

definition apart :: "Buffer \<Rightarrow> Buffer \<Rightarrow> bool" where
  "apart b b' \<longleftrightarrow> (\<exists>a a'. address b = Some a \<and> address b' = Some a'
     \<and> (uint a + bufferSize b \<le> uint a' \<or> uint a' + bufferSize b' \<le> uint a))"

text \<open>The buffers \<open>S\<close> are placed; the others are as they came.\<close>

definition placed :: "Buffer list \<Rightarrow> int \<Rightarrow> nat \<Rightarrow> int \<Rightarrow> Buffer list \<Rightarrow> BankStates list \<Rightarrow> nat set \<Rightarrow> bool" where
  "placed orig stack nb bsz buffers banks S \<longleftrightarrow> banks_ok nb bsz banks \<and> 0 < nb \<and> stack \<le> nextAddr (banks ! 0) \<and> stack \<le> bsz
     \<and> length buffers = length orig \<and> S \<subseteq> {..< length orig}
     \<and> (\<forall>i < length orig. bufferSize (buffers ! i) = bufferSize (orig ! i))
     \<and> (\<forall>i < length orig. i \<notin> S \<longrightarrow> buffers ! i = orig ! i)
     \<and> (\<forall>i \<in> S. in_bank banks (buffers ! i) \<and> above_stack stack (buffers ! i)
         \<and> (\<forall>a. memBank (orig ! i) = None \<longrightarrow> address (orig ! i) = Some a \<longrightarrow> address (buffers ! i) = Some a)
         \<and> (\<forall>k. memBank (orig ! i) = Some k \<longrightarrow> memBank (buffers ! i) = Some k))
     \<and> (\<forall>i \<in> S. \<forall>j \<in> S. i \<noteq> j \<longrightarrow> apart (buffers ! i) (buffers ! j))"

lemma setNext_nth: "k < length banks \<Longrightarrow> setNext k a banks ! j = (if j = k then (banks ! k)\<lparr>nextAddr := a\<rparr> else banks ! j)"
  by (simp add: setNext_def nth_list_update)

lemma length_setNext [simp]: "length (setNext k a banks) = length banks"
  by (simp add: setNext_def)

lemma setNext_twice [simp]: "setNext k a (setNext k a' banks) = setNext k a banks"
  by (cases "k < length banks") (simp_all add: setNext_def list_update_beyond)

lemma banks_okD:
  assumes "banks_ok nb bsz banks" and "k < nb"
  shows "length banks = nb" "startAddr (banks ! k) = int k * bsz" "endAddr (banks ! k) = (int k + 1) * bsz"
    "int k * bsz \<le> nextAddr (banks ! k)" "nextAddr (banks ! k) \<le> (int k + 1) * bsz" "0 \<le> bsz" "(int k + 1) * bsz < 2 ^ 32"
proof -
  have b: "length banks = nb" "int nb * bsz < 2 ^ 32" "startAddr (banks ! k) = int k * bsz" "endAddr (banks ! k) = (int k + 1) * bsz"
    "startAddr (banks ! k) \<le> nextAddr (banks ! k)" "nextAddr (banks ! k) \<le> endAddr (banks ! k)"
    using assms unfolding banks_ok_def by blast+
  then show "length banks = nb" "startAddr (banks ! k) = int k * bsz" "endAddr (banks ! k) = (int k + 1) * bsz"
    "int k * bsz \<le> nextAddr (banks ! k)" "nextAddr (banks ! k) \<le> (int k + 1) * bsz" by simp_all
  have "int k * bsz \<le> (int k + 1) * bsz" using b by linarith
  then show s: "0 \<le> bsz" by (simp add: distrib_right)
  have "(int k + 1) * bsz \<le> int nb * bsz" using assms(2) s by (intro mult_right_mono) simp_all
  then show "(int k + 1) * bsz < 2 ^ 32" using b(2) by linarith
qed

lemma in_bank_range:
  assumes "banks_ok nb bsz banks" and "in_bank banks b"
  obtains k a where "k < nb" "memBank b = Some (of_nat k)" "address b = Some a" "int k * bsz \<le> uint a"
    "uint a + bufferSize b \<le> nextAddr (banks ! k)" "uint a + bufferSize b \<le> (int k + 1) * bsz"
proof -
  from assms(2) obtain k a where k: "k < length banks" "memBank b = Some (of_nat k)" "address b = Some a"
    "startAddr (banks ! k) \<le> uint a" "uint a + bufferSize b \<le> nextAddr (banks ! k)" unfolding in_bank_def by blast
  have "length banks = nb" using assms(1) by (simp add: banks_ok_def)
  with k(1) have "k < nb" by simp
  note B = banks_okD [OF assms(1) this]
  show thesis using that [of k a] k B \<open>k < nb\<close> by simp
qed

lemma bank_order: "k < j \<Longrightarrow> 0 \<le> bsz \<Longrightarrow> (int k + 1) * bsz \<le> int j * bsz"
  by (intro mult_right_mono) simp_all

text \<open>The step of all three ways to place a buffer.\<close>

lemma place:
  assumes "placed orig stack nb bsz buffers banks S" and "i < length orig" and "i \<notin> S" and "0 \<le> bufferSize (orig ! i)"
    and "k < nb" and "nextAddr (banks ! k) \<le> uint a" and "uint a + bufferSize (orig ! i) \<le> endAddr (banks ! k)"
    and b': "bufferSize b' = bufferSize (orig ! i)" "address b' = Some a" "memBank b' = Some (of_nat k)"
    and keep: "\<And>a'. memBank (orig ! i) = None \<Longrightarrow> address (orig ! i) = Some a' \<Longrightarrow> a' = a"
      "\<And>k'. memBank (orig ! i) = Some k' \<Longrightarrow> k' = of_nat k"
  shows "placed orig stack nb bsz (buffers[i := b']) (setNext k (uint a + bufferSize (orig ! i)) banks) (insert i S)"
proof -
  let ?banks = "setNext k (uint a + bufferSize (orig ! i)) banks" and ?buffers = "buffers[i := b']"
  have P: "banks_ok nb bsz banks" "0 < nb" "stack \<le> nextAddr (banks ! 0)" "stack \<le> bsz" "length buffers = length orig"
    "S \<subseteq> {..< length orig}" "\<forall>i < length orig. bufferSize (buffers ! i) = bufferSize (orig ! i)"
    "\<forall>i < length orig. i \<notin> S \<longrightarrow> buffers ! i = orig ! i" "\<forall>i \<in> S. \<forall>j \<in> S. i \<noteq> j \<longrightarrow> apart (buffers ! i) (buffers ! j)"
    and S: "\<And>j. j \<in> S \<Longrightarrow> in_bank banks (buffers ! j) \<and> above_stack stack (buffers ! j)
         \<and> (\<forall>a. memBank (orig ! j) = None \<longrightarrow> address (orig ! j) = Some a \<longrightarrow> address (buffers ! j) = Some a)
         \<and> (\<forall>k. memBank (orig ! j) = Some k \<longrightarrow> memBank (buffers ! j) = Some k)"
    using assms(1) unfolding placed_def by blast+
  note B = banks_okD [OF P(1)]
  have len: "k < length banks" using B(1) [OF assms(5)] assms(5) by simp
  have nth: "?banks ! j = (if j = k then (banks ! k)\<lparr>nextAddr := uint a + bufferSize (orig ! i)\<rparr> else banks ! j)" for j
    by (rule setNext_nth [OF len])
  have up: "nextAddr (banks ! j) \<le> nextAddr (?banks ! j)" for j using nth [of j] assms(4,6) by simp
  have ok: "banks_ok nb bsz ?banks"
    using P(1) assms(4,6,7) unfolding banks_ok_def by (auto simp: nth)
  have old: "?buffers ! j = buffers ! j" if "j \<in> S" for j using that assms(3) by (cases "i = j") simp_all
  have new: "?buffers ! i = b'" using assms(2) P(5) by simp
  have inb: "in_bank ?banks (buffers ! j)" if "j \<in> S" for j
  proof -
    from in_bank_range [OF P(1)] S [OF that] obtain k' a' where "k' < nb" "memBank (buffers ! j) = Some (of_nat k')"
      "address (buffers ! j) = Some a'" "int k' * bsz \<le> uint a'" "uint a' + bufferSize (buffers ! j) \<le> nextAddr (banks ! k')" by metis
    moreover from this(1) have "startAddr (?banks ! k') = int k' * bsz" using B(2) nth by simp
    ultimately show ?thesis unfolding in_bank_def using up [of k'] B(1) [OF assms(5)] by (intro exI [of _ k'] exI [of _ a']) auto
  qed
  have ap: "apart b' (buffers ! j) \<and> apart (buffers ! j) b'" if "j \<in> S" for j
  proof -
    from in_bank_range [OF P(1)] S [OF that] obtain k' a' where k': "k' < nb" "address (buffers ! j) = Some a'" "int k' * bsz \<le> uint a'"
      "uint a' + bufferSize (buffers ! j) \<le> nextAddr (banks ! k')" "uint a' + bufferSize (buffers ! j) \<le> (int k' + 1) * bsz" by metis
    have "uint a + bufferSize b' \<le> uint a' \<or> uint a' + bufferSize (buffers ! j) \<le> uint a"
    proof (cases k' k rule: linorder_cases)
      case equal
      then show ?thesis using k'(4) assms(6) by simp
    next
      case less
      then show ?thesis using bank_order [OF less B(6) [OF assms(5)]] k'(5) B(4) [OF assms(5)] assms(6) by simp
    next
      case greater
      then show ?thesis using bank_order [OF greater B(6) [OF assms(5)]] k'(3) B(3) [OF assms(5)] assms(7) b'(1) by simp
    qed
    then show ?thesis using b'(2) k'(2) unfolding apart_def by auto
  qed
  have new_in: "in_bank ?banks b'"
    unfolding in_bank_def using len nth [of k] b' assms(6) B(2,4) [OF assms(5)] by (intro exI [of _ k] exI [of _ a]) auto
  have "stack \<le> uint a"
  proof (cases k)
    case 0
    then show ?thesis using P(3) assms(6) by simp
  next
    case (Suc k')
    then show ?thesis using bank_order [of 0 k bsz] B(4,6) [OF assms(5)] P(4) assms(6) by simp
  qed
  then have "above_stack stack b'" using b'(2) by (simp add: above_stack_def)
  moreover have "stack \<le> nextAddr (?banks ! 0)" using up [of 0] P(3) by linarith
  moreover have "\<forall>j < length orig. bufferSize (?buffers ! j) = bufferSize (orig ! j)"
    using P(5,7) b'(1) assms(2) by (simp add: nth_list_update)
  moreover have "\<forall>j < length orig. j \<notin> insert i S \<longrightarrow> ?buffers ! j = orig ! j" using P(8) by simp
  moreover have "\<forall>x \<in> insert i S. \<forall>y \<in> insert i S. x \<noteq> y \<longrightarrow> apart (?buffers ! x) (?buffers ! y)"
    using P(9) ap old new by auto
  moreover have "\<forall>j \<in> insert i S. in_bank ?banks (?buffers ! j) \<and> above_stack stack (?buffers ! j)
         \<and> (\<forall>a. memBank (orig ! j) = None \<longrightarrow> address (orig ! j) = Some a \<longrightarrow> address (?buffers ! j) = Some a)
         \<and> (\<forall>k. memBank (orig ! j) = Some k \<longrightarrow> memBank (?buffers ! j) = Some k)"
    using S inb old new new_in \<open>above_stack stack b'\<close> keep b'(2,3) by auto
  ultimately show ?thesis unfolding placed_def using ok P(2,4,5,6) assms(2) by simp
qed

text \<open>A preset bank, and then a preset address, in either pass.\<close>

lemma bank_number: "k < length banks \<Longrightarrow> banks_ok nb bsz banks \<Longrightarrow> 0 < bsz \<Longrightarrow> unat (of_nat k :: u32) = k"
proof -
  assume a: "k < length banks" "banks_ok nb bsz banks" "0 < bsz"
  then have "int nb * 1 \<le> int nb * bsz" by (intro mult_left_mono) simp_all
  moreover have "length banks = nb" "int nb * bsz < 2 ^ 32" using a(2) unfolding banks_ok_def by blast+
  ultimately have "int k < 2 ^ 32" using a(1) by linarith
  then have "k < 2 ^ 32" by simp
  then show ?thesis by (simp add: unat_of_nat take_bit_nat_eq_self)
qed

lemma placed_banks: "placed orig stack nb bsz buffers banks S \<Longrightarrow> banks_ok nb bsz banks"
  unfolding placed_def by blast

lemma preset_bank:
  assumes P: "placed orig stack nb bsz buffers banks S" and i: "i < length orig" "i \<notin> S" and s: "0 < bufferSize (orig ! i)"
    and c: "checkAndAddBufferWithMemBank (orig ! i) banks = (Inr True, b1, banks1)"
  shows "placed orig stack nb bsz (buffers[i := b1]) banks1 (insert i S)"
    and "\<exists>k a. k < nb \<and> memBank b1 = Some (of_nat k) \<and> address b1 = Some a \<and> uint a + bufferSize b1 = nextAddr (banks1 ! k)
      \<and> int k * bsz \<le> uint a \<and> uint a < (int k + 1) * bsz"
proof -
  have ok: "banks_ok nb bsz banks" by (rule placed_banks [OF P])
  then have nb: "length banks = nb" by (simp add: banks_ok_def)
  from c obtain k where k: "memBank (orig ! i) = Some k" "unat k < length banks"
    by (auto simp: checkAndAddBufferWithMemBank_def Let_def split: option.splits if_splits)
  let ?k = "unat k"
  define bumped where "bumped = (case address (orig ! i) of
      Some addr \<Rightarrow> if uint addr > nextAddr (banks ! ?k) then setNext ?k (uint addr) banks else banks | None \<Rightarrow> banks)"
  define first where "first = nextAddr (bumped ! ?k)"
  have bump: "bumped = setNext ?k first banks" and ge: "nextAddr (banks ! ?k) \<le> first" "endAddr (bumped ! ?k) = endAddr (banks ! ?k)"
    using k(2) unfolding first_def bumped_def
    by (auto simp: setNext_nth split: option.split) (auto simp: setNext_def)
  have "checkAndAddBufferWithMemBank (orig ! i) banks =
      (if first + bufferSize (orig ! i) > endAddr (bumped ! ?k) then (Inl Failure, orig ! i, bumped)
       else (Inr True, setAddress first (orig ! i), setNext ?k (first + bufferSize (orig ! i)) bumped))"
    using k by (simp add: checkAndAddBufferWithMemBank_def Let_def first_def bumped_def)
  then have "\<not> first + bufferSize (orig ! i) > endAddr (bumped ! ?k)" and b1: "b1 = setAddress first (orig ! i)"
    and "banks1 = setNext ?k (first + bufferSize (orig ! i)) bumped" using c by (auto split: if_splits)
  then have fits: "first + bufferSize (orig ! i) \<le> endAddr (banks ! ?k)"
    and banks1: "banks1 = setNext ?k (first + bufferSize (orig ! i)) banks" using ge(2) bump by simp_all
  note B = banks_okD [OF ok, of ?k]
  have kn: "?k < nb" using k(2) nb by simp
  have "0 \<le> int ?k * bsz" using B(6) [OF kn] by (intro mult_nonneg_nonneg) simp_all
  then have range: "0 \<le> first" "first < 2 ^ 32" using B(3-7) [OF kn] ge(1) fits s by linarith+
  then have u: "uint (word_of_int first :: u32) = first" by (simp add: uint_word_of_int take_bit_int_eq_self)
  show "placed orig stack nb bsz (buffers[i := b1]) banks1 (insert i S)"
    unfolding banks1
  proof (subst u [symmetric], rule place [OF P i])
    show "bufferSize b1 = bufferSize (orig ! i)" "address b1 = Some (word_of_int first)" "memBank b1 = Some (of_nat ?k)"
      using k(1) by (simp_all add: b1 setAddress_def)
  qed (use s kn ge fits u k in simp_all)
  have "bsz \<noteq> 0" using B(3,4) [OF kn] ge(1) fits s by auto
  then show "\<exists>k a. k < nb \<and> memBank b1 = Some (of_nat k) \<and> address b1 = Some a \<and> uint a + bufferSize b1 = nextAddr (banks1 ! k)
      \<and> int k * bsz \<le> uint a \<and> uint a < (int k + 1) * bsz"
    using k kn u fits s ge(1) B(3,4) [OF kn] nb
    by (intro exI [of _ ?k] exI [of _ "word_of_int first"]) (simp add: b1 setAddress_def banks1 setNext_nth)
qed

lemma preset_address:
  assumes P: "placed orig stack nb (uint bankSize) buffers banks S" and i: "i < length orig" "i \<notin> S" and s: "0 < bufferSize (orig ! i)"
    and none: "memBank (orig ! i) = None" and c: "checkAndAddBufferWithAddress (orig ! i) bankSize banks = (Inr True, b2, banks2)"
  shows "placed orig stack nb (uint bankSize) (buffers[i := b2]) banks2 (insert i S)"
proof -
  have nb: "length banks = nb" using placed_banks [OF P] by (simp add: banks_ok_def)
  from c obtain a where a: "address (orig ! i) = Some a" "bankSize \<noteq> 0"
    by (auto simp: checkAndAddBufferWithAddress_def split: option.splits if_splits)
  let ?k = "unat (a div bankSize)"
  have r: "?k < length banks" "nextAddr (banks ! ?k) \<le> uint a" "uint a + bufferSize (orig ! i) \<le> endAddr (banks ! ?k)"
    "b2 = (orig ! i)\<lparr>memBank := Some (of_nat ?k)\<rparr>" "banks2 = setNext ?k (uint a + bufferSize (orig ! i)) banks"
    using c a by (auto simp: checkAndAddBufferWithAddress_def Let_def setNext_nth split: if_splits)
  show ?thesis unfolding r(5)
    by (rule place [OF P i]) (use s r nb a none in simp_all)
qed

definition preset_check :: "address_check \<Rightarrow> bool" where
  "preset_check check \<longleftrightarrow> check = checkAndAddBufferWithAddress \<or> check = AIE_checkAndAddBufferWithAddress"

lemma check_preset:
  assumes "preset_check check" and "memBank b = None"
  shows "check b bankSize banks = checkAndAddBufferWithAddress b bankSize banks"
  using assms by (auto simp: preset_check_def AIE_checkAndAddBufferWithAddress_def checkAndAddBufferWithAddress_def split: option.split)

text \<open>In the AMDAIE pass the address a preset bank has just given is taken for one that is in use.\<close>

lemma check_refuses:
  assumes ok: "banks_ok nb (uint bankSize) banks" and "k < nb" and "memBank b = Some (of_nat k)" and a: "address b = Some a"
    and "uint a + bufferSize b = nextAddr (banks ! k)" and range: "int k * uint bankSize \<le> uint a" "uint a < (int k + 1) * uint bankSize"
    and "0 < bufferSize b"
  shows "checkAndAddBufferWithAddress b bankSize banks = (Inl Failure, b, banks)"
proof -
  have "bankSize \<noteq> 0" using range by auto
  moreover have "0 \<le> uint bankSize" by simp
  ultimately have pos: "0 < uint bankSize" by (metis order_le_less unsigned_eq_0_iff)
  have "uint a div uint bankSize = int k"
    using range pos by (intro int_div_pos_eq [of _ _ _ "uint a - int k * uint bankSize"]) (simp_all add: algebra_simps)
  then have "uint (a div bankSize) = int k" by (simp add: uint_div_distrib)
  then have "unat (a div bankSize) = k" by (metis nat_int unat_eq_nat_uint)
  moreover have "length banks = nb" using ok by (simp add: banks_ok_def)
  ultimately show ?thesis using assms(2,5,8) a \<open>bankSize \<noteq> 0\<close> by (simp add: checkAndAddBufferWithAddress_def Let_def)
qed

lemma pre_step:
  assumes P: "placed orig stack nb (uint bankSize) buffers banks S" and i: "i < length orig" "i \<notin> S" and s: "0 < bufferSize (orig ! i)"
    and check: "preset_check check"
    and c1: "checkAndAddBufferWithMemBank (orig ! i) banks = (Inr bank, b1, banks1)" and c2: "check b1 bankSize banks1 = (Inr addr, b2, banks2)"
  shows "if addr \<or> bank then placed orig stack nb (uint bankSize) (buffers[i := b2]) banks2 (insert i S)
    else b2 = orig ! i \<and> banks2 = banks \<and> memBank (orig ! i) = None \<and> address (orig ! i) = None"
proof (cases "memBank (orig ! i)")
  case None
  then have b1: "bank = False" "b1 = orig ! i" "banks1 = banks" using c1 by (simp_all add: checkAndAddBufferWithMemBank_def)
  then have c: "checkAndAddBufferWithAddress (orig ! i) bankSize banks = (Inr addr, b2, banks2)" using c2 check_preset [OF check None] by simp
  show ?thesis
  proof (cases addr)
    case True
    then show ?thesis using preset_address [OF P i s None] c by simp
  next
    case False
    then have "b2 = orig ! i \<and> banks2 = banks \<and> address (orig ! i) = None"
      using c by (auto simp: checkAndAddBufferWithAddress_def Let_def split: option.splits if_splits)
    then show ?thesis using False b1(1) None by simp
  qed
next
  case (Some k')
  then have bank: "bank = True" using c1 by (auto simp: checkAndAddBufferWithMemBank_def Let_def split: if_splits)
  then have c1: "checkAndAddBufferWithMemBank (orig ! i) banks = (Inr True, b1, banks1)" using c1 by simp
  note pl = preset_bank(1) [OF P i s c1]
  from preset_bank(2) [OF P i s c1] obtain k a where ka: "k < nb" "memBank b1 = Some (of_nat k)" "address b1 = Some a"
    "uint a + bufferSize b1 = nextAddr (banks1 ! k)" "int k * uint bankSize \<le> uint a" "uint a < (int k + 1) * uint bankSize" by blast
  have "length (buffers[i := b1]) = length orig" "\<forall>j < length orig. bufferSize (buffers[i := b1] ! j) = bufferSize (orig ! j)"
    using pl unfolding placed_def by blast+
  then have "0 < bufferSize b1" using s i(1) by (metis length_list_update nth_list_update_eq)
  from check_refuses [OF placed_banks [OF pl] ka this] have no: "checkAndAddBufferWithAddress b1 bankSize banks1 = (Inl Failure, b1, banks1)" .
  with c2 check have "check = AIE_checkAndAddBufferWithAddress" by (auto simp: preset_check_def)
  then have "b2 = b1 \<and> banks2 = banks1"
    using c2 ka(2,3) by (auto simp: AIE_checkAndAddBufferWithAddress_def split: if_splits)
  then show ?thesis using pl bank by simp
qed

lemma preAllocate_placed:
  assumes "preAllocate check bankSize is buffers banks todo = (Inr u, buffers', banks', todo')"
    and "placed orig stack nb (uint bankSize) buffers banks S" and "preset_check check" and "distinct (is @ todo)"
    and "set is \<inter> S = {}" and "set is \<subseteq> {..< length orig}" and "\<forall>i < length orig. 0 < bufferSize (orig ! i)"
  shows "\<exists>S'. placed orig stack nb (uint bankSize) buffers' banks' S' \<and> S' \<union> set todo' = S \<union> set todo \<union> set is
    \<and> distinct todo' \<and> (set todo \<inter> S = {} \<longrightarrow> set todo' \<inter> S' = {})"
  using assms
proof (induction "is" arbitrary: buffers banks todo S)
  case (Cons i "is")
  obtain has_bank b1 banks1 where c1: "checkAndAddBufferWithMemBank (buffers ! i) banks = (has_bank, b1, banks1)" by (metis prod_cases3)
  obtain has_addr b2 banks2 where c2: "check b1 bankSize banks1 = (has_addr, b2, banks2)" by (metis prod_cases3)
  from Cons.prems(1) obtain bank addr where hb: "has_bank = Inr bank" and ha: "has_addr = Inr addr"
    and rest: "preAllocate check bankSize is (buffers[i := b2]) banks2 (if \<not> addr \<and> \<not> bank then todo @ [i] else todo) = (Inr u, buffers', banks', todo')"
    by (auto simp: c1 c2 split: sum.splits)
  have i: "i < length orig" "i \<notin> S" "i \<notin> set is" "i \<notin> set todo" using Cons.prems(4-6) by auto
  have same: "buffers ! i = orig ! i" using Cons.prems(2) i unfolding placed_def by simp
  note st = pre_step [OF Cons.prems(2) i(1,2) _ Cons.prems(3) c1 [unfolded same hb] c2 [unfolded ha]]
  show ?case
  proof (cases "addr \<or> bank")
    case True
    then have "placed orig stack nb (uint bankSize) (buffers[i := b2]) banks2 (insert i S)" using st Cons.prems(7) i(1) by simp
    moreover have "preAllocate check bankSize is (buffers[i := b2]) banks2 todo = (Inr u, buffers', banks', todo')" using rest True by auto
    ultimately obtain S' where "placed orig stack nb (uint bankSize) buffers' banks' S'" "S' \<union> set todo' = insert i S \<union> set todo \<union> set is"
      "distinct todo'" "set todo \<inter> insert i S = {} \<longrightarrow> set todo' \<inter> S' = {}"
      using Cons.IH [of "buffers[i := b2]" banks2 todo "insert i S"] Cons.prems(3-7) i by auto
    then show ?thesis using i by auto
  next
    case False
    then have no: "b2 = orig ! i" "banks2 = banks" using st Cons.prems(7) i(1) by simp_all
    then have "buffers[i := b2] = buffers" using same by (metis list_update_id)
    then have "preAllocate check bankSize is buffers banks (todo @ [i]) = (Inr u, buffers', banks', todo')" using rest False no by simp
    then obtain S' where "placed orig stack nb (uint bankSize) buffers' banks' S'" "S' \<union> set todo' = S \<union> set (todo @ [i]) \<union> set is"
      "distinct todo'" "set (todo @ [i]) \<inter> S = {} \<longrightarrow> set todo' \<inter> S' = {}"
      using Cons.IH [of buffers banks "todo @ [i]" S] Cons.prems(2-7) i by auto
    then show ?thesis using i by auto
  qed
qed auto

text \<open>A buffer that needs one bank goes to the free part of one bank.\<close>

lemma findWindow_one:
  assumes "findWindow starts 1 b banks = Inr (Some (b', start', banks'))" and "\<forall>k \<in> set starts. k < length banks"
  shows "\<exists>k < length banks. nextAddr (banks ! k) + bufferSize b \<le> endAddr (banks ! k) \<and> start' < length banks
    \<and> b' = setAddress (nextAddr (banks ! k)) (b\<lparr>memBank := Some (of_nat k)\<rparr>) \<and> banks' = setNext k (nextAddr (banks ! k) + bufferSize b) banks"
  using assms
proof (induction starts)
  case (Cons k starts)
  have k: "k < length banks" using Cons.prems(2) by simp
  let ?free = "endAddr (banks ! k) - nextAddr (banks ! k)"
  have w: "window banks k 1 (bufferSize b) = (if ?free \<le> 0 then None
      else Some ([(nextAddr (banks ! k), nextAddr (banks ! k) + min (bufferSize b) ?free)], bufferSize b - min (bufferSize b) ?free))"
    using k by (simp add: Let_def)
  show ?case
  proof (cases "?free > 0 \<and> bufferSize b \<le> ?free")
    case True
    then have "window banks k 1 (bufferSize b) = Some ([(nextAddr (banks ! k), nextAddr (banks ! k) + bufferSize b)], 0)" using w by simp
    then have "b' = setAddress (nextAddr (banks ! k)) (b\<lparr>memBank := Some (of_nat k)\<rparr>)" "start' = Suc k mod length banks"
      "banks' = setNext k (nextAddr (banks ! k) + bufferSize b) banks" using Cons.prems(1) k by (simp_all del: window.simps)
    then show ?thesis using True k by (intro exI [of _ k]) (auto intro: mod_less_divisor)
  next
    case False
    then have "window banks k 1 (bufferSize b) = None \<or> (\<exists>t r. window banks k 1 (bufferSize b) = Some (t, r) \<and> r \<noteq> 0)"
      using w by (cases "?free \<le> 0") (simp_all add: min_def)
    then have "findWindow (k # starts) 1 b banks = findWindow starts 1 b banks" by (auto simp del: window.simps)
    then show ?thesis using Cons by simp
  qed
qed simp

lemma setBufferAddress_one:
  assumes "setBufferAddress b bankSize start banks = Inr (Some (b', start', banks'))" and "0 < bufferSize b"
    and "bufferSize b \<le> uint bankSize" and "uint bankSize < 2 ^ 24"
  shows "\<exists>k < length banks. nextAddr (banks ! k) + bufferSize b \<le> endAddr (banks ! k)
    \<and> b' = setAddress (nextAddr (banks ! k)) (b\<lparr>memBank := Some (of_nat k)\<rparr>) \<and> banks' = setNext k (nextAddr (banks ! k) + bufferSize b) banks"
proof -
  have "nat (float_ceil_div (bufferSize b) (uint bankSize)) = 1" using one_bank [OF assms(2-4)] by simp
  then have "findWindow (map (\<lambda>offset. (start + offset) mod length banks) [0 ..< length banks]) 1 b banks = Inr (Some (b', start', banks'))"
    using assms(1) by (auto simp: setBufferAddress_def Let_def split: if_splits)
  moreover have "\<forall>k \<in> set (map (\<lambda>offset. (start + offset) mod length banks) [0 ..< length banks]). k < length banks"
    by (auto intro!: mod_less_divisor)
  ultimately show ?thesis using findWindow_one by blast
qed

lemma allocateRest_placed:
  assumes "allocateRest bankSize allocated is start buffers banks = (Inr u, buffers')"
    and "placed orig stack nb (uint bankSize) buffers banks S" and "distinct is" and "set is \<inter> S = {}" and "set is \<subseteq> {..< length orig}"
    and "\<forall>i < length orig. 0 < bufferSize (orig ! i) \<and> bufferSize (orig ! i) \<le> uint bankSize" and "uint bankSize < 2 ^ 24"
    and "\<forall>i \<in> set is. address (orig ! i) = None \<and> memBank (orig ! i) = None"
  shows "\<exists>banks'. placed orig stack nb (uint bankSize) buffers' banks' (S \<union> set is)"
  using assms
proof (induction "is" arbitrary: allocated start buffers banks S)
  case (Cons i "is")
  have i: "i < length orig" "i \<notin> S" and fresh: "address (orig ! i) = None" "memBank (orig ! i) = None"
    and s: "0 < bufferSize (orig ! i)" "bufferSize (orig ! i) \<le> uint bankSize" using Cons.prems(4-6,8) by auto
  have same: "buffers ! i = orig ! i" using Cons.prems(2) i unfolding placed_def by simp
  from Cons.prems(1) obtain b' start' banks1 where set: "setBufferAddress (orig ! i) bankSize start banks = Inr (Some (b', start', banks1))"
    and rest: "allocateRest bankSize (allocated @ [i]) is start' (buffers[i := b']) banks1 = (Inr u, buffers')"
    by (auto simp: same split: sum.splits option.splits)
  have ok: "banks_ok nb (uint bankSize) banks" by (rule placed_banks [OF Cons.prems(2)])
  obtain k where "k < length banks" and fits: "nextAddr (banks ! k) + bufferSize (orig ! i) \<le> endAddr (banks ! k)"
    and b': "b' = setAddress (nextAddr (banks ! k)) ((orig ! i)\<lparr>memBank := Some (of_nat k)\<rparr>)"
    and banks1: "banks1 = setNext k (nextAddr (banks ! k) + bufferSize (orig ! i)) banks"
    using setBufferAddress_one [OF set s Cons.prems(7)] by blast
  then have k: "k < nb" using ok by (simp add: banks_ok_def)
  note B = banks_okD [OF ok k]
  have "0 \<le> int k * uint bankSize" by simp
  then have "0 \<le> nextAddr (banks ! k)" "nextAddr (banks ! k) < 2 ^ 32" using B(4,5,7) by linarith+
  then have u: "uint (word_of_int (nextAddr (banks ! k)) :: u32) = nextAddr (banks ! k)" by (simp add: uint_word_of_int take_bit_int_eq_self)
  have "placed orig stack nb (uint bankSize) (buffers[i := b']) banks1 (insert i S)"
    unfolding banks1
  proof (subst u [symmetric], rule place [OF Cons.prems(2) i])
    show "bufferSize b' = bufferSize (orig ! i)" "address b' = Some (word_of_int (nextAddr (banks ! k)))" "memBank b' = Some (of_nat k)"
      by (simp_all add: b' setAddress_def)
  qed (use s k fits u fresh in simp_all)
  then have "\<exists>banks'. placed orig stack nb (uint bankSize) buffers' banks' (insert i S \<union> set is)"
    using Cons.IH [OF rest, of "insert i S"] Cons.prems(3-8) by auto
  then show ?case by simp
qed auto

lemma div_part_le: "0 \<le> (m :: int) \<Longrightarrow> int n * (m div int n) \<le> m"
  using div_mult_mod_eq [of m "int n"] by (cases "n = 0") (simp_all add: mult.commute zmod_le_nonneg_dividend flip: minus_mod_eq_mult_div)

lemma uint_of_nat_small: "n < 2 ^ 32 \<Longrightarrow> uint (of_nat n :: u32) = int n"
  by (simp only: unsigned_of_nat) (simp add: take_bit_nat_eq_self)

lemma bank_size: "n < 2 ^ 32 \<Longrightarrow> uint (maxSize div of_nat n :: u32) = uint maxSize div int n"
  by (simp only: uint_div_distrib uint_of_nat_small)

lemma initial_banks_ok:
  assumes "numBanks \<noteq> 0" and "bankSize = maxSize div of_nat numBanks" and "numBanks < 2 ^ 32" and "0 \<le> stack" and "stack \<le> uint bankSize"
  shows "placed orig stack numBanks (uint bankSize) orig (setNext 0 (nextAddr (initialBanks numBanks bankSize ! 0) + stack) (initialBanks numBanks bankSize)) {}"
proof -
  have "uint bankSize = uint maxSize div int numBanks" unfolding assms(2) by (rule bank_size [OF assms(3)])
  then have "int numBanks * uint bankSize \<le> uint maxSize" by (simp add: div_part_le)
  moreover have "uint maxSize < 2 ^ 32" using unsigned_less [of maxSize, where ?'a = int] by simp
  ultimately have total: "int numBanks * uint bankSize < 2 ^ 32" by linarith
  have u: "uint (of_nat k * bankSize) = int k * uint bankSize" if "k \<le> numBanks" for k
  proof -
    have "int k * uint bankSize \<le> int numBanks * uint bankSize" using that by (intro mult_right_mono) simp_all
    then have "int k * uint bankSize < 2 ^ 32" using total by linarith
    moreover have "uint (of_nat k :: u32) = int k" using that assms(3) by (intro uint_of_nat_small) simp
    ultimately show ?thesis by (simp add: uint_word_ariths)
  qed
  have nth: "initialBanks numBanks bankSize ! k = \<lparr>startAddr = int k * uint bankSize, endAddr = (int k + 1) * uint bankSize, nextAddr = int k * uint bankSize\<rparr>"
    if "k < numBanks" for k
    using u [of k] u [of "k + 1"] that unfolding initialBanks_def by (simp add: ac_simps)
  have len: "length (initialBanks numBanks bankSize) = numBanks" by (simp add: initialBanks_def)
  let ?b = "setNext 0 (nextAddr (initialBanks numBanks bankSize ! 0) + stack) (initialBanks numBanks bankSize)"
  have "?b ! k = (initialBanks numBanks bankSize ! k)\<lparr>nextAddr := int k * uint bankSize + (if k = 0 then stack else 0)\<rparr>" if "k < numBanks" for k
    using that len nth [of 0] nth [of k] by (simp add: setNext_nth)
  then have "banks_ok numBanks (uint bankSize) ?b" "nextAddr (?b ! 0) = stack"
    using len total assms(1,4,5) by (auto simp: banks_ok_def nth distrib_right)
  then show ?thesis using assms(1,5) by (simp add: placed_def)
qed

text \<open>What the pass promises of the buffers of a tile.\<close>

definition buffers_placed :: "Buffer list \<Rightarrow> int \<Rightarrow> int \<Rightarrow> int \<Rightarrow> Buffer list \<Rightarrow> bool" where
  "buffers_placed orig stack bankSize limit buffers \<longleftrightarrow> length buffers = length orig
     \<and> (\<forall>i < length orig. bufferSize (buffers ! i) = bufferSize (orig ! i)
         \<and> (\<exists>k a. memBank (buffers ! i) = Some (of_nat k) \<and> address (buffers ! i) = Some a \<and> stack \<le> uint a
              \<and> int k * bankSize \<le> uint a \<and> uint a + bufferSize (orig ! i) \<le> (int k + 1) * bankSize \<and> uint a + bufferSize (orig ! i) \<le> limit)
         \<and> (\<forall>a. memBank (orig ! i) = None \<longrightarrow> address (orig ! i) = Some a \<longrightarrow> address (buffers ! i) = Some a)
         \<and> (\<forall>k. memBank (orig ! i) = Some k \<longrightarrow> memBank (buffers ! i) = Some k))
     \<and> (\<forall>i < length orig. \<forall>j < length orig. i \<noteq> j \<longrightarrow> apart (buffers ! i) (buffers ! j))"

lemma todo_fresh:
  assumes "preAllocate check bankSize is buffers banks todo = (Inr u, buffers', banks', todo')"
    and "placed orig stack nb (uint bankSize) buffers banks S" and "preset_check check" and "distinct (is @ todo)"
    and "set is \<inter> S = {}" and "set is \<subseteq> {..< length orig}" and "\<forall>i < length orig. 0 < bufferSize (orig ! i)"
    and "\<forall>i \<in> set todo. address (orig ! i) = None \<and> memBank (orig ! i) = None"
  shows "\<forall>i \<in> set todo'. address (orig ! i) = None \<and> memBank (orig ! i) = None"
  using assms
proof (induction "is" arbitrary: buffers banks todo S)
  case (Cons i "is")
  obtain has_bank b1 banks1 where c1: "checkAndAddBufferWithMemBank (buffers ! i) banks = (has_bank, b1, banks1)" by (metis prod_cases3)
  obtain has_addr b2 banks2 where c2: "check b1 bankSize banks1 = (has_addr, b2, banks2)" by (metis prod_cases3)
  from Cons.prems(1) obtain bank addr where hb: "has_bank = Inr bank" and ha: "has_addr = Inr addr"
    and rest: "preAllocate check bankSize is (buffers[i := b2]) banks2 (if \<not> addr \<and> \<not> bank then todo @ [i] else todo) = (Inr u, buffers', banks', todo')"
    by (auto simp: c1 c2 split: sum.splits)
  have i: "i < length orig" "i \<notin> S" "i \<notin> set is" "i \<notin> set todo" using Cons.prems(4-6) by auto
  have same: "buffers ! i = orig ! i" using Cons.prems(2) i unfolding placed_def by simp
  note st = pre_step [OF Cons.prems(2) i(1,2) _ Cons.prems(3) c1 [unfolded same hb] c2 [unfolded ha]]
  show ?case
  proof (cases "addr \<or> bank")
    case True
    then have "placed orig stack nb (uint bankSize) (buffers[i := b2]) banks2 (insert i S)" using st Cons.prems(7) i(1) by simp
    moreover have "preAllocate check bankSize is (buffers[i := b2]) banks2 todo = (Inr u, buffers', banks', todo')" using rest True by auto
    ultimately show ?thesis using Cons.IH [of "buffers[i := b2]" banks2 todo "insert i S"] Cons.prems(3-8) i by auto
  next
    case False
    then have no: "b2 = orig ! i" "banks2 = banks" "memBank (orig ! i) = None" "address (orig ! i) = None" using st Cons.prems(7) i(1) by simp_all
    then have "buffers[i := b2] = buffers" using same by (metis list_update_id)
    then have "preAllocate check bankSize is buffers banks (todo @ [i]) = (Inr u, buffers', banks', todo')" using rest False no by simp
    then show ?thesis using Cons.IH [of buffers banks "todo @ [i]" S] Cons.prems(2-8) i no by auto
  qed
qed simp

lemma placed_all:
  assumes "placed orig stack nb (uint (maxSize div of_nat nb :: u32)) buffers banks {..< length orig}" and "nb \<noteq> 0" and "nb < 2 ^ 32"
  shows "buffers_placed orig stack (uint (maxSize div of_nat nb :: u32)) (uint maxSize) buffers"
proof -
  let ?size = "maxSize div of_nat nb :: u32"
  have "uint ?size = uint maxSize div int nb" by (rule bank_size [OF assms(3)])
  then have total: "int nb * uint ?size \<le> uint maxSize" by (simp add: div_part_le)
  have P: "length buffers = length orig" "\<forall>i < length orig. bufferSize (buffers ! i) = bufferSize (orig ! i)"
    "\<forall>i \<in> {..< length orig}. \<forall>j \<in> {..< length orig}. i \<noteq> j \<longrightarrow> apart (buffers ! i) (buffers ! j)"
    "\<And>i. i \<in> {..< length orig} \<Longrightarrow> in_bank banks (buffers ! i) \<and> above_stack stack (buffers ! i)
         \<and> (\<forall>a. memBank (orig ! i) = None \<longrightarrow> address (orig ! i) = Some a \<longrightarrow> address (buffers ! i) = Some a)
         \<and> (\<forall>k. memBank (orig ! i) = Some k \<longrightarrow> memBank (buffers ! i) = Some k)"
    using assms(1) unfolding placed_def by blast+
  have "\<exists>k a. memBank (buffers ! i) = Some (of_nat k) \<and> address (buffers ! i) = Some a \<and> stack \<le> uint a
      \<and> int k * uint ?size \<le> uint a \<and> uint a + bufferSize (orig ! i) \<le> (int k + 1) * uint ?size \<and> uint a + bufferSize (orig ! i) \<le> uint maxSize"
    if i: "i < length orig" for i
  proof -
    have "in_bank banks (buffers ! i)" "above_stack stack (buffers ! i)" using P(4) [of i] i by simp_all
    from in_bank_range [OF placed_banks [OF assms(1)] this(1)] obtain k a where k: "k < nb" "memBank (buffers ! i) = Some (of_nat k)"
      "address (buffers ! i) = Some a" "int k * uint ?size \<le> uint a" "uint a + bufferSize (buffers ! i) \<le> (int k + 1) * uint ?size" by metis
    have "(int k + 1) * uint ?size \<le> int nb * uint ?size" using k(1) by (intro mult_right_mono) simp_all
    moreover have "stack \<le> uint a" using \<open>above_stack stack (buffers ! i)\<close> k(3) by (simp add: above_stack_def)
    ultimately show ?thesis using k P(2) i total by (intro exI [of _ k] exI [of _ a]) simp
  qed
  then show ?thesis using P unfolding buffers_placed_def by simp
qed

section \<open>Properties\<close>


lemma assignSequentially_at:
  assumes "0 \<le> a" and "\<forall>b \<in> set bs. 0 \<le> bufferSize b" and "snd (assignSequentially a bs) < 2 ^ 32"
  shows "length (fst (assignSequentially a bs)) = length bs \<and> a \<le> snd (assignSequentially a bs)
    \<and> (\<forall>i < length bs. \<exists>w. fst (assignSequentially a bs) ! i = (bs ! i)\<lparr>address := Some w\<rparr>
        \<and> uint w = a + sum_list (map bufferSize (take i bs)) \<and> uint w + bufferSize (bs ! i) \<le> snd (assignSequentially a bs))"
  using assms
proof (induction bs arbitrary: a)
  case (Cons b bs)
  let ?r = "assignSequentially (a + bufferSize b) bs"
  have s: "0 \<le> bufferSize b" using Cons.prems(2) by simp
  have IH: "length (fst ?r) = length bs" "a + bufferSize b \<le> snd ?r"
    "\<And>i. i < length bs \<Longrightarrow> \<exists>w. fst ?r ! i = (bs ! i)\<lparr>address := Some w\<rparr>
        \<and> uint w = a + bufferSize b + sum_list (map bufferSize (take i bs)) \<and> uint w + bufferSize (bs ! i) \<le> snd ?r"
    using Cons.IH [of "a + bufferSize b"] Cons.prems s by (simp_all add: Let_def)
  have r: "assignSequentially a (b # bs) = (setAddress a b # fst ?r, snd ?r)" by (simp add: Let_def)
  have "a < 2 ^ 32" using IH(2) s Cons.prems(3) r by simp
  then have u: "uint (word_of_int a :: u32) = a" using Cons.prems(1) by (simp add: uint_word_of_int take_bit_int_eq_self)
  have "\<exists>w. fst (assignSequentially a (b # bs)) ! i = ((b # bs) ! i)\<lparr>address := Some w\<rparr>
        \<and> uint w = a + sum_list (map bufferSize (take i (b # bs))) \<and> uint w + bufferSize ((b # bs) ! i) \<le> snd (assignSequentially a (b # bs))"
    if "i < length (b # bs)" for i
  proof (cases i)
    case 0
    then show ?thesis using u IH(2) by (intro exI [of _ "word_of_int a"]) (simp add: r setAddress_def del: assignSequentially.simps)
  next
    case (Suc j)
    then show ?thesis using IH(3) [of j] that by (simp add: r add.assoc del: assignSequentially.simps)
  qed
  then show ?case using IH(1,2) s by (simp add: r del: assignSequentially.simps)
qed simp

lemma sum_take_mono: "\<forall>b \<in> set bs. 0 \<le> bufferSize b \<Longrightarrow> i < j \<Longrightarrow> j < length bs \<Longrightarrow>
    sum_list (map bufferSize (take i bs)) + bufferSize (bs ! i) \<le> sum_list (map bufferSize (take j bs))"
proof (induction j)
  case (Suc j)
  have "0 \<le> bufferSize (bs ! j)" using Suc.prems(1,3) by simp
  show ?case
  proof (cases "i = j")
    case True
    then show ?thesis using Suc.prems by (simp add: take_Suc_conv_app_nth)
  next
    case False
    then have "sum_list (map bufferSize (take i bs)) + bufferSize (bs ! i) \<le> sum_list (map bufferSize (take j bs))"
      using Suc by simp
    also have "\<dots> \<le> sum_list (map bufferSize (take (Suc j) bs))"
      using Suc.prems(3) \<open>0 \<le> bufferSize (bs ! j)\<close> by (simp add: take_Suc_conv_app_nth)
    finally show ?thesis .
  qed
qed simp

text \<open>
  When the sequential allocation succeeds, every buffer has its address after the stack and the buffers
  before it, lies inside the memory, and no two buffers overlap.
\<close>

theorem sequential_placement:
  assumes "basicAllocation maxSize core buffers = (Inr (), buffers')" and "0 \<le> stackOf core" and "\<forall>b \<in> set buffers. 0 \<le> bufferSize b"
  shows "length buffers' = length buffers
    \<and> (\<forall>i < length buffers. \<exists>a. buffers' ! i = (buffers ! i)\<lparr>address := Some a\<rparr>
        \<and> uint a = stackOf core + sum_list (map bufferSize (take i buffers)) \<and> uint a + bufferSize (buffers ! i) \<le> uint maxSize)
    \<and> (\<forall>i < length buffers. \<forall>j < length buffers. i \<noteq> j \<longrightarrow> apart (buffers' ! i) (buffers' ! j))"
proof -
  let ?r = "assignSequentially (stackOf core) buffers"
  have r: "snd ?r \<le> uint maxSize" "buffers' = fst ?r" using assms(1) by (auto simp: basicAllocation_def Let_def split: if_splits)
  moreover have "uint maxSize < 2 ^ 32" using unsigned_less [of maxSize, where ?'a = int] by simp
  ultimately have at: "length buffers' = length buffers"
    "\<And>i. i < length buffers \<Longrightarrow> \<exists>w. buffers' ! i = (buffers ! i)\<lparr>address := Some w\<rparr>
        \<and> uint w = stackOf core + sum_list (map bufferSize (take i buffers)) \<and> uint w + bufferSize (buffers ! i) \<le> snd ?r"
    using assignSequentially_at [OF assms(2,3)] by auto
  have one: "apart (buffers' ! i) (buffers' ! j) \<and> apart (buffers' ! j) (buffers' ! i)" if ij: "i < j" "j < length buffers" for i j
  proof -
    obtain w w' where "buffers' ! i = (buffers ! i)\<lparr>address := Some w\<rparr>" "buffers' ! j = (buffers ! j)\<lparr>address := Some w'\<rparr>"
      "uint w = stackOf core + sum_list (map bufferSize (take i buffers))" "uint w' = stackOf core + sum_list (map bufferSize (take j buffers))"
      using at(2) [of i] at(2) [of j] ij by auto
    then show ?thesis using sum_take_mono [OF assms(3) ij] by (simp add: apart_def)
  qed
  have "\<exists>a. buffers' ! i = (buffers ! i)\<lparr>address := Some a\<rparr>
        \<and> uint a = stackOf core + sum_list (map bufferSize (take i buffers)) \<and> uint a + bufferSize (buffers ! i) \<le> uint maxSize"
    if "i < length buffers" for i using at(2) [OF that] r(1) by force
  moreover have "apart (buffers' ! i) (buffers' ! j)" if "i < length buffers" "j < length buffers" "i \<noteq> j" for i j
    using one [of i j] one [of j i] that by (cases "i < j") auto
  ultimately show ?thesis using at(1) by blast
qed

lemma no_preset_bank:
  assumes "preAllocate checkAndAddBufferWithAddress bankSize is buffers banks todo = (Inr u, buffers', banks', todo')"
    and "placed orig stack nb (uint bankSize) buffers banks S" and "distinct is" and "set is \<inter> S = {}"
    and "set is \<subseteq> {..< length orig}" and "\<forall>i < length orig. 0 < bufferSize (orig ! i)" and "i \<in> set is"
  shows "memBank (orig ! i) = None"
  using assms
proof (induction "is" arbitrary: buffers banks todo S)
  case (Cons j "is")
  obtain has_bank b1 banks1 where c1: "checkAndAddBufferWithMemBank (buffers ! j) banks = (has_bank, b1, banks1)" by (metis prod_cases3)
  obtain has_addr b2 banks2 where c2: "checkAndAddBufferWithAddress b1 bankSize banks1 = (has_addr, b2, banks2)" by (metis prod_cases3)
  from Cons.prems(1) obtain bank addr where hb: "has_bank = Inr bank" and ha: "has_addr = Inr addr"
    and rest: "preAllocate checkAndAddBufferWithAddress bankSize is (buffers[j := b2]) banks2 (if \<not> addr \<and> \<not> bank then todo @ [j] else todo)
      = (Inr u, buffers', banks', todo')"
    by (auto simp: c1 c2 split: sum.splits)
  have j: "j < length orig" "j \<notin> S" "j \<notin> set is" using Cons.prems(3-5) by auto
  have same: "buffers ! j = orig ! j" using Cons.prems(2) j unfolding placed_def by simp
  have pos: "0 < bufferSize (orig ! j)" using Cons.prems(6) j(1) by simp
  have free: "memBank (orig ! j) = None"
  proof (rule ccontr)
    assume "memBank (orig ! j) \<noteq> None"
    then have "bank = True" using c1 hb by (auto simp: same checkAndAddBufferWithMemBank_def Let_def split: option.splits if_splits)
    then have c: "checkAndAddBufferWithMemBank (orig ! j) banks = (Inr True, b1, banks1)" using c1 hb same by simp
    note pl = preset_bank(1) [OF Cons.prems(2) j(1,2) pos c]
    from preset_bank(2) [OF Cons.prems(2) j(1,2) pos c] obtain k a where ka: "k < nb" "memBank b1 = Some (of_nat k)" "address b1 = Some a"
      "uint a + bufferSize b1 = nextAddr (banks1 ! k)" "int k * uint bankSize \<le> uint a" "uint a < (int k + 1) * uint bankSize" by blast
    have "length (buffers[j := b1]) = length orig" "\<forall>i < length orig. bufferSize (buffers[j := b1] ! i) = bufferSize (orig ! i)"
      using pl unfolding placed_def by blast+
    then have "0 < bufferSize b1" using pos j(1) by (metis length_list_update nth_list_update_eq)
    from check_refuses [OF placed_banks [OF pl] ka this] c2 ha show False by simp
  qed
  have ok: "preset_check checkAndAddBufferWithAddress" by (simp add: preset_check_def)
  note st = pre_step [OF Cons.prems(2) j(1,2) pos ok c1 [unfolded same hb] c2 [unfolded ha]]
  have "\<exists>S'. placed orig stack nb (uint bankSize) (buffers[j := b2]) banks2 S' \<and> set is \<inter> S' = {}"
  proof (cases "addr \<or> bank")
    case True
    then show ?thesis using st Cons.prems(4) j(3) by auto
  next
    case False
    then have "buffers[j := b2] = buffers" "banks2 = banks" using st same by (simp_all add: list_update_id) (metis list_update_id)
    then show ?thesis using Cons.prems(2,4) by auto
  qed
  then obtain S' where "placed orig stack nb (uint bankSize) (buffers[j := b2]) banks2 S'" "set is \<inter> S' = {}" by blast
  from Cons.IH [OF rest this(1)] this(2) Cons.prems(3,5,6,7) free show ?case by auto
qed simp

text \<open>
  The AMDAIE pass never accepts a buffer with a preset bank: the address that is found for it is then
  taken for a preset one, below the next free address of its bank.
\<close>

theorem preset_bank_refused:
  assumes "i < length buffers" and "memBank (buffers ! i) \<noteq> None" and "\<forall>b \<in> set buffers. 0 < bufferSize b"
    and "0 \<le> stackOf core" and "numBanks < 2 ^ 32"
  shows "fst (bankAwareAllocation checkAndAddBufferWithAddress order numBanks maxSize core buffers) \<noteq> Inr ()"
proof
  let ?size = "maxSize div of_nat numBanks :: u32"
  let ?banks = "setNext 0 (nextAddr (initialBanks numBanks ?size ! 0) + stackOf core) (initialBanks numBanks ?size)"
  assume ok: "fst (bankAwareAllocation checkAndAddBufferWithAddress order numBanks maxSize core buffers) = Inr ()"
  have n0: "numBanks \<noteq> 0" and stack: "stackOf core \<le> uint ?size" using ok by (auto simp: bankAwareAllocation_def Let_def split: if_splits)
  obtain st bs banks todo where pre: "preAllocate checkAndAddBufferWithAddress ?size [0 ..< length buffers] buffers ?banks [] = (st, bs, banks, todo)"
    by (metis prod_cases4)
  with ok n0 stack obtain u where st: "st = Inr u" by (cases st) (auto simp: bankAwareAllocation_def Let_def)
  have start: "placed buffers (stackOf core) numBanks (uint ?size) buffers ?banks {}"
    by (rule initial_banks_ok [OF n0 refl assms(5,4) stack])
  have "memBank (buffers ! i) = None"
    using assms(1,3) by (intro no_preset_bank [OF pre [unfolded st] start]) auto
  with assms(2) show False by simp
qed


section \<open>Concrete inputs\<close>

text \<open>A core tile of 64 KB in four banks, with a stack of 1 KB.\<close>

definition by_size :: "Buffer list \<Rightarrow> nat list \<Rightarrow> nat list" where
  "by_size bs xs = sort_key (\<lambda>i. - bufferSize (bs ! i)) xs"

definition some_buffers :: "Buffer list" where
  "some_buffers = [\<lparr>bufferSize = 4096, address = None, memBank = None\<rparr>, \<lparr>bufferSize = 8192, address = Some 20480, memBank = None\<rparr>,
     \<lparr>bufferSize = 16384, address = None, memBank = None\<rparr>]"

lemma by_size_permutes: "mset (by_size bs xs) = mset xs"
  by (simp add: by_size_def)

lemma two_banks: "float_ceil_div 32768 16384 = 2" "float_ceil_div 31000 16384 = 2"
proof -
  have f: "float32 (of_int 32768) = of_int 32768" "float32 (of_int 31000) = of_int 31000" "float32 (of_int 16384) = of_int 16384"
    by (rule float32_int; simp)+
  have "float32 2 = 2" using float32_int [of 2] by simp
  then show "float_ceil_div 32768 16384 = 2" unfolding float_ceil_div_def f by simp
  have "float32 (3875 / 2048) = (3875 / 2048)" by (rule float32_exact [of 3875 _ "- 11"]) (simp_all add: power_int_def power_one_over)
  moreover have "(of_int 31000 / of_int 16384 :: rat) = 3875 / 2048" by simp
  moreover have "\<lceil>(3875 / 2048 :: rat)\<rceil> = 2" by (simp add: ceiling_eq_iff)
  ultimately show "float_ceil_div 31000 16384 = 2" unfolding float_ceil_div_def f by (simp only:)
qed

lemma setBufferAddress_needs:
  assumes "float_ceil_div (bufferSize b) (uint sz) = n"
  shows "setBufferAddress b sz st banks = (if bufferSize b > sum_list (map (\<lambda>bank. max 0 (endAddr bank - nextAddr bank)) banks)
     then Inr None else findWindow (map (\<lambda>offset. (st + offset) mod length banks) [0 ..< length banks]) (nat n) b banks)"
  using assms by (simp add: setBufferAddress_def Let_def)

lemma some_buffers_placed: "fst (bankAwareAllocation AIE_checkAndAddBufferWithAddress by_size 4 65536 (Some 1024) some_buffers) = Inr ()"
proof -
  let ?banks = "setNext 0 (nextAddr (initialBanks 4 16384 ! 0) + stackOf (Some 1024)) (initialBanks 4 16384)"
  define bs where "bs = some_buffers[1 := \<lparr>bufferSize = 8192, address = Some 20480, memBank = Some 1\<rparr>]"
  define banks where "banks = setNext 1 28672 ?banks"
  have u: "uint (16384 :: u32) = 16384" by simp
  have start: "(65536 :: u32) div of_nat 4 = 16384" "\<not> stackOf (Some 1024) > uint (16384 :: u32)" by code_simp+
  have pre: "preAllocate AIE_checkAndAddBufferWithAddress 16384 [0 ..< length some_buffers] some_buffers ?banks [] = (Inr (), bs, banks, [0, 2])"
    unfolding bs_def banks_def by code_simp
  have order: "by_size bs [0, 2] = [2, 0]" unfolding bs_def by code_simp
  have "float_ceil_div (bufferSize (bs ! 2)) (uint (16384 :: u32)) = 1" unfolding u by (rule one_bank) (simp_all add: bs_def some_buffers_def)
  note s2 = setBufferAddress_needs [OF this, of 0 banks]
  have r2: "setBufferAddress (bs ! 2) 16384 0 banks = Inr (Some (\<lparr>bufferSize = 16384, address = Some 32768, memBank = Some 2\<rparr>, 3, setNext 2 49152 banks))"
    unfolding s2 unfolding bs_def banks_def by code_simp
  have "float_ceil_div (bufferSize (bs ! 0)) (uint (16384 :: u32)) = 1" unfolding u by (rule one_bank) (simp_all add: bs_def some_buffers_def)
  note s0 = setBufferAddress_needs [OF this, of 3 "setNext 2 49152 banks"]
  have r0: "setBufferAddress (bs ! 0) 16384 3 (setNext 2 49152 banks)
      = Inr (Some (\<lparr>bufferSize = 4096, address = Some 49152, memBank = Some 3\<rparr>, 0, setNext 3 53248 (setNext 2 49152 banks)))"
    unfolding s0 unfolding bs_def banks_def by code_simp
  show ?thesis unfolding bankAwareAllocation_def Let_def start pre using start(2) order r2 r0 by simp
qed


lemma sequential_run: "fst (basicAllocation 65536 (Some 1024) some_buffers) = Inr ()"
  by code_simp

theorem sequential_placement_witness:
  "length (snd (basicAllocation 65536 (Some 1024) some_buffers)) = 3
    \<and> apart (snd (basicAllocation 65536 (Some 1024) some_buffers) ! 0) (snd (basicAllocation 65536 (Some 1024) some_buffers) ! 1)
    \<and> apart (snd (basicAllocation 65536 (Some 1024) some_buffers) ! 1) (snd (basicAllocation 65536 (Some 1024) some_buffers) ! 2)"
proof -
  have "basicAllocation 65536 (Some 1024) some_buffers = (Inr (), snd (basicAllocation 65536 (Some 1024) some_buffers))"
    using sequential_run by (metis prod.collapse)
  from sequential_placement [OF this] show ?thesis by (simp add: stackOf_def some_buffers_def)
qed

theorem preset_bank_refused_witness:
  "fst (bankAwareAllocation checkAndAddBufferWithAddress by_size 4 65536 (Some 1024) [\<lparr>bufferSize = 4096, address = None, memBank = Some 2\<rparr>]) \<noteq> Inr ()"
  by (rule preset_bank_refused [of 0]) (simp_all add: stackOf_def)

text \<open>
  A buffer larger than a bank makes the search cross the end of the banks: the window that starts at the
  last bank goes on with the first one, and the buffer is placed past the end of the memory.
\<close>

theorem placed_past_the_end:
  "bankAwareAllocation checkAndAddBufferWithAddress by_size 4 65536 (Some 1024)
     [\<lparr>bufferSize = 32768, address = None, memBank = None\<rparr>, \<lparr>bufferSize = 31000, address = None, memBank = None\<rparr>]
   = (Inr (), [\<lparr>bufferSize = 32768, address = Some 16384, memBank = Some 1\<rparr>, \<lparr>bufferSize = 31000, address = Some 49152, memBank = Some 3\<rparr>])
   \<and> (49152::int) + 31000 > 65536"
proof -
  let ?banks = "setNext 0 (nextAddr (initialBanks 4 16384 ! 0) + stackOf (Some 1024)) (initialBanks 4 16384)"
  define bs where "bs = [\<lparr>bufferSize = 32768, address = None, memBank = None\<rparr>, \<lparr>bufferSize = 31000, address = None, memBank = None\<rparr>]"
  have u: "uint (16384 :: u32) = 16384" by simp
  have start: "(65536 :: u32) div of_nat 4 = 16384" "\<not> stackOf (Some 1024) > uint (16384 :: u32)" by code_simp+
  have pre: "preAllocate checkAndAddBufferWithAddress 16384 [0 ..< length bs] bs ?banks [] = (Inr (), bs, ?banks, [0, 1])"
    unfolding bs_def by code_simp
  have order: "by_size bs [0, 1] = [0, 1]" unfolding bs_def by code_simp
  have "float_ceil_div (bufferSize (bs ! 0)) (uint (16384 :: u32)) = 2" unfolding u by (simp add: bs_def two_banks)
  note s0 = setBufferAddress_needs [OF this, of 0 ?banks]
  define banks where "banks = setNext 1 49152 (setNext 2 49152 ?banks)"
  have r0: "setBufferAddress (bs ! 0) 16384 0 ?banks = Inr (Some (\<lparr>bufferSize = 32768, address = Some 16384, memBank = Some 1\<rparr>, 3, banks))"
    unfolding s0 unfolding bs_def banks_def by code_simp
  have "float_ceil_div (bufferSize (bs ! 1)) (uint (16384 :: u32)) = 2" unfolding u by (simp add: bs_def two_banks)
  note s1 = setBufferAddress_needs [OF this, of 3 banks]
  have r1: "setBufferAddress (bs ! 1) 16384 3 banks
      = Inr (Some (\<lparr>bufferSize = 31000, address = Some 49152, memBank = Some 3\<rparr>, 1, setNext 3 15640 (setNext 0 15640 banks)))"
    unfolding s1 unfolding bs_def banks_def by code_simp
  have "bankAwareAllocation checkAndAddBufferWithAddress by_size 4 65536 (Some 1024) bs
    = (Inr (), [\<lparr>bufferSize = 32768, address = Some 16384, memBank = Some 1\<rparr>, \<lparr>bufferSize = 31000, address = Some 49152, memBank = Some 3\<rparr>])"
    unfolding bankAwareAllocation_def Let_def start pre using start(2) order r0 r1 by (simp add: bs_def)
  then show ?thesis by (simp add: bs_def)
qed

end
