(* ===== verification/Loop_Subsumption.thy ===== *)
theory Loop_Subsumption
  imports Dma_Dim_Config
begin

text \<open>
  Subsumption of a loop into the access pattern of a DMA (AMDAIEDmaLoopSubsumption.cpp): an operation
  that a loop executes once per iteration becomes one operation in front of the loop, with a dimension
  more for the loop. Values are numbers as in the theory of access patterns; what the rewrite asks of the
  IR (affine.apply operations, the users of the connection, which values are defined in the loop) is an
  argument. \<open>int64_t\<close> is \<open>int\<close>.
\<close>

section \<open>Affine expressions\<close>

datatype AffineExpr = AffineDim nat | AffineSymbol nat | AffineConstant int
  | AffineAdd AffineExpr AffineExpr | AffineMul AffineExpr AffineExpr
  | AffineMod AffineExpr AffineExpr | AffineFloorDiv AffineExpr AffineExpr | AffineCeilDiv AffineExpr AffineExpr

fun isDim :: "AffineExpr \<Rightarrow> bool" where
  "isDim (AffineDim d) \<longleftrightarrow> True"
| "isDim _ \<longleftrightarrow> False"

fun isBinary :: "AffineExpr \<Rightarrow> bool" where
  "isBinary (AffineDim d) \<longleftrightarrow> False"
| "isBinary (AffineSymbol s) \<longleftrightarrow> False"
| "isBinary (AffineConstant c) \<longleftrightarrow> False"
| "isBinary _ \<longleftrightarrow> True"

text \<open>
  \<open>RetrieveScaleAndBias\<close>, with its two fields as the state. A product of a dimension with something that
  is not a constant is read through the null pointer of the failed cast.
\<close>

fun visit :: "AffineExpr \<Rightarrow> int option \<times> int option \<Rightarrow> (int option \<times> int option) result" where
  "visit (AffineMul l r) (scale, bias) =
     (if isDim l then (case r of AffineConstant c \<Rightarrow> Inr (Some c, bias) | _ \<Rightarrow> Inl OutOfBounds)
      else if isDim r then (case l of AffineConstant c \<Rightarrow> Inr (Some c, bias) | _ \<Rightarrow> Inl OutOfBounds)
      else Inr (scale, bias))"
| "visit (AffineAdd l r) (scale, bias) =
     (if bias \<noteq> None then Inl Failure
      else (case (l, r) of
         (_, AffineConstant c) \<Rightarrow>
           if c < 0 then Inl Failure
           else if isBinary l then visit l (scale, Some c)
           else if isDim l then Inr (Some 1, Some c) else Inl Failure
       | (AffineConstant c, _) \<Rightarrow>
           if c < 0 then Inl Failure
           else if isBinary r then visit r (scale, Some c)
           else if isDim r then Inr (Some 1, Some c) else Inl Failure
       | _ \<Rightarrow> Inl Failure))"
| "visit _ st = Inl Failure"

record AffineApplyOp =
  applyResult :: nat
  applyExpr :: AffineExpr
  dimOperands :: "nat list"
  symOperands :: "nat list"

definition usesIv :: "nat \<Rightarrow> AffineApplyOp \<Rightarrow> bool" where
  "usesIv iv a \<longleftrightarrow> iv \<in> set (dimOperands a) \<or> iv \<in> set (symOperands a)"

text \<open>The induction variable and the results of the affine.apply operations that use it.\<close>

definition curIvValues :: "AffineApplyOp list \<Rightarrow> nat \<Rightarrow> nat list" where
  "curIvValues applies iv = iv # map applyResult (filter (usesIv iv) applies)"

text \<open>\<open>offsetStride\<close> and \<open>offsetBase\<close> of an offset that is an induction value.\<close>

definition scaleAndBias :: "AffineApplyOp list \<Rightarrow> nat \<Rightarrow> (int \<times> int) result" where
  "scaleAndBias applies v =
     (case find (\<lambda>a. applyResult a = v) applies of
        None \<Rightarrow> Inr (1, 0)
      | Some a \<Rightarrow> res_bind (visit (applyExpr a) (None, None)) (\<lambda>(scale, bias).
          case scale of None \<Rightarrow> Inl Failure
          | Some s \<Rightarrow> Inr (s, case bias of None \<Rightarrow> 0 | Some b \<Rightarrow> b)))"

section \<open>Adding an iteration\<close>

definition calculateNbIterations :: "int \<Rightarrow> int \<Rightarrow> int \<Rightarrow> int result" where
  "calculateNbIterations lowerBound upperBound step =
     (let diff = upperBound - lowerBound in if step = 0 then Inl DivByZero else Inr (1 + (diff - 1) sdiv step))"

text \<open>
  What is to be inserted (sizes and strides, the offsets are zero) and the offsets to update, by index.
\<close>

type_synonym additions = "(int \<times> int) list \<times> (nat \<times> int) list"

text \<open>The loop over the offsets; the flag is \<open>loopDependency\<close>.\<close>

fun addOffsets :: "cenv \<Rightarrow> AffineApplyOp list \<Rightarrow> int \<Rightarrow> int \<Rightarrow> int \<Rightarrow> nat list \<Rightarrow> nat \<Rightarrow> pattern \<Rightarrow> additions \<times> bool \<Rightarrow> (additions \<times> bool) result" where
  "addOffsets ce applies nbIterations lowerBound step ivValues i [] st = Inr st"
| "addOffsets ce applies nbIterations lowerBound step ivValues i (d # ds) st =
     (case offset d of
        Attr c \<Rightarrow> addOffsets ce applies nbIterations lowerBound step ivValues (Suc i) ds st
      | Val v \<Rightarrow>
          if v \<in> set ivValues then
            res_bind (scaleAndBias applies v) (\<lambda>(offsetStride, offsetBase).
              case getConstantIntValue ce (stride d) of
                None \<Rightarrow> Inl Fatal
              | Some t \<Rightarrow>
                  (case st of ((ins, upd), dep) \<Rightarrow>
                     addOffsets ce applies nbIterations lowerBound step ivValues (Suc i) ds
                       ((if nbIterations = 1 then ins else ins @ [(nbIterations, t * offsetStride * step)],
                         upd @ [(i, offsetBase + lowerBound * offsetStride)]), True)))
          else addOffsets ce applies nbIterations lowerBound step ivValues (Suc i) ds st)"

definition addIterationToNewAccessPattern ::
  "cenv \<Rightarrow> AffineApplyOp list \<Rightarrow> int \<Rightarrow> int \<Rightarrow> int \<Rightarrow> nat list \<Rightarrow> pattern \<Rightarrow> additions \<Rightarrow> additions result" where
  "addIterationToNewAccessPattern ce applies lowerBound upperBound step ivValues ds adds =
     res_bind (calculateNbIterations lowerBound upperBound step) (\<lambda>nbIterations.
     res_bind (addOffsets ce applies nbIterations lowerBound step ivValues 0 ds (adds, False)) (\<lambda>((ins, upd), loopDependency).
       Inr (if \<not> loopDependency \<and> nbIterations \<noteq> 1 then ins @ [(nbIterations, 0)] else ins, upd)))"

text \<open>One side of the operation for one loop: the addition and the check of the new sizes and strides.\<close>

definition sideIteration ::
  "DmaDimConfig \<Rightarrow> cenv \<Rightarrow> AffineApplyOp list \<Rightarrow> int \<Rightarrow> int \<Rightarrow> int \<Rightarrow> nat list \<Rightarrow> pattern \<Rightarrow> additions \<Rightarrow> additions result" where
  "sideIteration cfg ce applies lb ub step ivValues ds adds =
     (if ds = [] then Inr adds
      else res_bind (addIterationToNewAccessPattern ce applies lb ub step ivValues ds adds) (\<lambda>(ins, upd).
        res_bind (res_of_option Fatal (getConstantIntValues ce (map sz ds))) (\<lambda>sizes.
        res_bind (res_of_option Fatal (getConstantIntValues ce (map stride ds))) (\<lambda>strides.
        res_bind (isValidAccessPattern cfg (map fst ins @ sizes) (map snd ins @ strides)) (\<lambda>valid.
          if valid then Inr (ins, upd) else Inl Failure)))))"

record LoopDim =
  loopIv :: nat
  loopLb :: int
  loopUb :: int
  loopStep :: int

fun addLoops ::
  "DmaDimConfig \<Rightarrow> DmaDimConfig \<Rightarrow> cenv \<Rightarrow> AffineApplyOp list \<Rightarrow> LoopDim list \<Rightarrow> pattern \<Rightarrow> pattern \<Rightarrow> additions \<times> additions
    \<Rightarrow> (additions \<times> additions) result" where
  "addLoops srcCfg tgtCfg ce applies [] src tgt (srcAdds, tgtAdds) = Inr (srcAdds, tgtAdds)"
| "addLoops srcCfg tgtCfg ce applies (l # ls) src tgt (srcAdds, tgtAdds) =
     res_bind (sideIteration srcCfg ce applies (loopLb l) (loopUb l) (loopStep l) (curIvValues applies (loopIv l)) src srcAdds) (\<lambda>srcAdds'.
     res_bind (sideIteration tgtCfg ce applies (loopLb l) (loopUb l) (loopStep l) (curIvValues applies (loopIv l)) tgt tgtAdds) (\<lambda>tgtAdds'.
       addLoops srcCfg tgtCfg ce applies ls src tgt (srcAdds', tgtAdds')))"

definition updateOffset :: "pattern \<Rightarrow> nat \<times> int \<Rightarrow> pattern" where
  "updateOffset ds u = (let d = ds ! fst u in ds[fst u := Dim (Attr (snd u)) (sz d) (stride d)])"

definition newPattern :: "pattern \<Rightarrow> additions \<Rightarrow> pattern" where
  "newPattern ds adds = map (\<lambda>(n, t). Dim (Attr 0) (Attr n) (Attr t)) (fst adds) @ foldl updateOffset ds (snd adds)"

section \<open>The rewrite\<close>

datatype OpKind = NpuDmaCpyNd | NpuCircularDmaCpyNd | OtherStridedOp

text \<open>
  A user of the connection of the operation: whether it is the operation itself, whether it lies in the
  loop, and for a doubly strided operation whether it is circular. The users are in the order of the walk.
\<close>

record ConnectionUser =
  isSelf :: bool
  inLoop :: bool
  stridedUser :: bool
  circularUser :: bool

record StridedOp =
  opKind :: OpKind
  opSource :: pattern
  opTarget :: pattern
  opOperands :: "nat list"
  sourceMemorySpace :: "u8 option"
  targetMemorySpace :: "u8 option"
  connectionUsers :: "ConnectionUser list option"

text \<open>The loop: its induction variables and bounds, and the values with a defining operation inside it.\<close>

record LoopOp =
  inductionVars :: "nat list"
  mixedLowerBounds :: "OpFoldResult list"
  mixedUpperBounds :: "OpFoldResult list"
  mixedSteps :: "OpFoldResult list"
  definesValue :: "nat \<Rightarrow> bool"

datatype ParentOp = NotALoop | ForOp LoopOp | ForallOp LoopOp | OtherLoop

fun countNonUnit :: "u32 \<Rightarrow> OpKind \<Rightarrow> LoopDim list \<Rightarrow> nat result" where
  "countNonUnit maxRepeatCount kind [] = Inr 0"
| "countNonUnit maxRepeatCount kind (l # ls) =
     res_bind (calculateNbIterations (loopLb l) (loopUb l) (loopStep l)) (\<lambda>nbIterations.
       if nbIterations = 0 then Inl Failure
       else if nbIterations > uint maxRepeatCount \<and> kind = NpuDmaCpyNd then Inl Failure
       else res_bind (countNonUnit maxRepeatCount kind ls) (\<lambda>n. Inr (if nbIterations > 1 then Suc n else n)))"

definition checkNbDims :: "DmaDimConfig \<Rightarrow> cenv \<Rightarrow> pattern \<Rightarrow> nat \<Rightarrow> unit result" where
  "checkNbDims cfg ce ds nbNonUnitIterations =
     res_bind (res_of_option Failure (getConstantIntValues ce (map sz ds))) (\<lambda>sizes.
       if exceedsNbDims cfg (length ds - count_list sizes 1 + nbNonUnitIterations) then Inl Failure else Inr ())"

fun dynamicOffsets :: "pattern \<Rightarrow> nat list" where
  "dynamicOffsets [] = []"
| "dynamicOffsets (d # ds) = (case offset d of Val v \<Rightarrow> v # dynamicOffsets ds | Attr c \<Rightarrow> dynamicOffsets ds)"

definition outerStrideZero :: "cenv \<Rightarrow> pattern \<Rightarrow> bool" where
  "outerStrideZero ce ds \<longleftrightarrow> ds \<noteq> [] \<and> getConstantIntValue ce (stride (hd ds)) = Some 0"

text \<open>The check that a zero stride stays on the outer dimension.\<close>

definition innerIterationIndependent :: "AffineApplyOp list \<Rightarrow> StridedOp \<Rightarrow> LoopDim \<Rightarrow> bool" where
  "innerIterationIndependent applies op l \<longleftrightarrow>
     calculateNbIterations (loopLb l) (loopUb l) (loopStep l) \<noteq> Inr 1
     \<and> (let independent = \<lambda>vs. vs \<noteq> [] \<and> \<not> list_ex (\<lambda>v. v \<in> set (curIvValues applies (loopIv l))) vs
        in independent (dynamicOffsets (opSource op)) \<or> independent (dynamicOffsets (opTarget op)))"

definition zeroStrideViolated :: "cenv \<Rightarrow> AffineApplyOp list \<Rightarrow> StridedOp \<Rightarrow> LoopDim list \<Rightarrow> bool" where
  "zeroStrideViolated ce applies op loops \<longleftrightarrow>
     opKind op \<noteq> NpuCircularDmaCpyNd
     \<and> (outerStrideZero ce (opSource op) \<or> outerStrideZero ce (opTarget op)
        \<or> list_ex (innerIterationIndependent applies op) (tl loops))"

text \<open>The new source and target patterns of the operation in front of the loop.\<close>

definition rewriteWithLoopLikeOpParent ::
  "AMDAIEDeviceModel \<Rightarrow> bool \<Rightarrow> cenv \<Rightarrow> AffineApplyOp list \<Rightarrow> (nat \<Rightarrow> bool) \<Rightarrow> DmaDimConfig \<Rightarrow> DmaDimConfig \<Rightarrow> LoopDim list \<Rightarrow> StridedOp
    \<Rightarrow> (pattern \<times> pattern) result" where
  "rewriteWithLoopLikeOpParent m onlyZeroStrideOnOuterDim ce applies definedInLoop srcCfg tgtCfg loops op =
     (let src = opSource op; tgt = opTarget op;
          allInductionValues = concat (map (\<lambda>l. curIvValues applies (loopIv l)) loops);
          maxRepeatCount = ChProp_MaxRepeatCount (devInst m) SHIMNOC
      in if list_ex (\<lambda>v. v \<notin> set allInductionValues \<and> definedInLoop v) (opOperands op) then Inl Failure
         else res_bind (countNonUnit maxRepeatCount (opKind op) loops) (\<lambda>nbNonUnitIterations.
           res_bind (checkNbDims srcCfg ce src nbNonUnitIterations) (\<lambda>_.
           res_bind (checkNbDims tgtCfg ce tgt nbNonUnitIterations) (\<lambda>_.
             if onlyZeroStrideOnOuterDim \<and> zeroStrideViolated ce applies op loops then Inl Failure
             else res_bind (addLoops srcCfg tgtCfg ce applies loops src tgt (([], []), ([], []))) (\<lambda>(srcAdds, tgtAdds).
               Inr (newPattern src srcAdds, newPattern tgt tgtAdds))))))"

definition constantLoops :: "cenv \<Rightarrow> LoopOp \<Rightarrow> LoopDim list option" where
  "constantLoops ce loop =
     (case (getConstantIntValues ce (mixedLowerBounds loop), getConstantIntValues ce (mixedUpperBounds loop), getConstantIntValues ce (mixedSteps loop)) of
        (Some lbs, Some ubs, Some steps) \<Rightarrow>
          Some (map (\<lambda>(iv, lb, ub, step). \<lparr>loopIv = iv, loopLb = lb, loopUb = ub, loopStep = step\<rparr>)
            (zip (inductionVars loop) (zip lbs (zip ubs steps))))
      | _ \<Rightarrow> None)"

text \<open>The loop over the strided users, in reverse; the flag is \<open>currentCircularDma\<close>.\<close>

fun blockingUsers :: "bool \<Rightarrow> ConnectionUser list \<Rightarrow> bool" where
  "blockingUsers current [] \<longleftrightarrow> False"
| "blockingUsers current (u # us) \<longleftrightarrow>
     (if isSelf u then blockingUsers True us
      else if current then True
      else if circularUser u then True
      else blockingUsers current us)"

definition doesCircularDmaHaveUsersBlockingSubsumption :: "ConnectionUser list \<Rightarrow> bool" where
  "doesCircularDmaHaveUsersBlockingSubsumption users = blockingUsers False (rev (filter (\<lambda>u. stridedUser u \<and> inLoop u) users))"

text \<open>The configurations of both sides, with the checks on the other users of the connection.\<close>

definition dimConfigs :: "AMDAIEDeviceModel \<Rightarrow> StridedOp \<Rightarrow> (DmaDimConfig \<times> DmaDimConfig) result" where
  "dimConfigs m op =
     (let configs = \<lambda>circular s t. res_bind (mk_DmaDimConfig circular m s) (\<lambda>sc. res_bind (mk_DmaDimConfig circular m t) (\<lambda>tc. Inr (sc, tc)))
      in case (sourceMemorySpace op, targetMemorySpace op, connectionUsers op) of
           (Some s, Some t, Some users) \<Rightarrow>
             (case opKind op of
                NpuDmaCpyNd \<Rightarrow> if list_ex (\<lambda>u. \<not> isSelf u \<and> inLoop u) users then Inl Failure else configs False s t
              | NpuCircularDmaCpyNd \<Rightarrow> if doesCircularDmaHaveUsersBlockingSubsumption users then Inl Failure else configs True s t
              | OtherStridedOp \<Rightarrow> Inl Failure)
         | _ \<Rightarrow> Inl Failure)"

definition matchAndRewrite ::
  "AMDAIEDeviceModel \<Rightarrow> bool \<Rightarrow> cenv \<Rightarrow> AffineApplyOp list \<Rightarrow> ParentOp \<Rightarrow> StridedOp \<Rightarrow> (pattern \<times> pattern) result" where
  "matchAndRewrite m onlyZeroStrideOnOuterDim ce applies parent op =
     (let rewrite = \<lambda>loop. res_bind (dimConfigs m op) (\<lambda>(srcCfg, tgtCfg).
            res_bind (res_of_option Failure (constantLoops ce loop)) (\<lambda>loops.
              rewriteWithLoopLikeOpParent m onlyZeroStrideOnOuterDim ce applies (definesValue loop) srcCfg tgtCfg loops op))
      in case parent of
           NotALoop \<Rightarrow> Inl Failure
         | OtherLoop \<Rightarrow> res_bind (dimConfigs m op) (\<lambda>_. Inl Failure)
         | ForOp loop \<Rightarrow> rewrite loop
         | ForallOp loop \<Rightarrow> rewrite loop)"

section \<open>What a loop does\<close>

fun evalAffine :: "AffineExpr \<Rightarrow> (nat \<Rightarrow> int) \<Rightarrow> (nat \<Rightarrow> int) \<Rightarrow> int" where
  "evalAffine (AffineDim d) ds ss = ds d"
| "evalAffine (AffineSymbol s) ds ss = ss s"
| "evalAffine (AffineConstant c) ds ss = c"
| "evalAffine (AffineAdd l r) ds ss = evalAffine l ds ss + evalAffine r ds ss"
| "evalAffine (AffineMul l r) ds ss = evalAffine l ds ss * evalAffine r ds ss"
| "evalAffine (AffineMod l r) ds ss = evalAffine l ds ss mod evalAffine r ds ss"
| "evalAffine (AffineFloorDiv l r) ds ss = evalAffine l ds ss div evalAffine r ds ss"
| "evalAffine (AffineCeilDiv l r) ds ss = - ((- evalAffine l ds ss) div evalAffine r ds ss)"

text \<open>The values of an induction variable.\<close>

function loopValues :: "int \<Rightarrow> int \<Rightarrow> int \<Rightarrow> int list" where
  "loopValues lb ub step = (if lb < ub \<and> 0 < step then lb # loopValues (lb + step) ub step else [])"
  by auto
termination loopValues by (relation "measure (\<lambda>(lb, ub, step). nat (ub - lb))") auto

declare loopValues.simps [simp del]

text \<open>
  The values when the induction variable \<open>iv\<close> has the value \<open>val\<close>: it and the results of the
  affine.apply operations on it.
\<close>

definition atIteration :: "AffineApplyOp list \<Rightarrow> (nat \<Rightarrow> int) \<Rightarrow> nat \<Rightarrow> int \<Rightarrow> nat \<Rightarrow> int" where
  "atIteration applies \<rho> iv val v =
     (if v = iv then val
      else case find (\<lambda>a. applyResult a = v \<and> usesIv iv a) applies of
        None \<Rightarrow> \<rho> v
      | Some a \<Rightarrow> (let env = (\<lambda>k. if k = iv then val else \<rho> k)
          in evalAffine (applyExpr a) (\<lambda>d. env (dimOperands a ! d)) (\<lambda>s. env (symOperands a ! s))))"

text \<open>The addresses of the operation in the loops, iteration by iteration.\<close>

fun loopAddrs :: "AffineApplyOp list \<Rightarrow> LoopDim list \<Rightarrow> (nat \<Rightarrow> int) \<Rightarrow> pattern \<Rightarrow> int list" where
  "loopAddrs applies [] \<rho> ds = addrs \<rho> ds"
| "loopAddrs applies (l # ls) \<rho> ds =
     concat (map (\<lambda>val. loopAddrs applies ls (atIteration applies \<rho> (loopIv l) val) ds) (loopValues (loopLb l) (loopUb l) (loopStep l)))"

fun dimsOf :: "AffineExpr \<Rightarrow> nat set" where
  "dimsOf (AffineDim d) = {d}"
| "dimsOf (AffineSymbol s) = {}"
| "dimsOf (AffineConstant c) = {}"
| "dimsOf (AffineAdd l r) = dimsOf l \<union> dimsOf r"
| "dimsOf (AffineMul l r) = dimsOf l \<union> dimsOf r"
| "dimsOf (AffineMod l r) = dimsOf l \<union> dimsOf r"
| "dimsOf (AffineFloorDiv l r) = dimsOf l \<union> dimsOf r"
| "dimsOf (AffineCeilDiv l r) = dimsOf l \<union> dimsOf r"

text \<open>
  SSA form, and maps without unused operands: results are distinct and no induction variables, and an
  operation on an induction variable has it as its only operand.
\<close>

definition wfApplies :: "AffineApplyOp list \<Rightarrow> nat list \<Rightarrow> bool" where
  "wfApplies applies ivs \<longleftrightarrow> distinct ivs \<and> distinct (map applyResult applies) \<and> set (map applyResult applies) \<inter> set ivs = {}
     \<and> (\<forall>a \<in> set applies. \<forall>iv \<in> set ivs. usesIv iv a \<longrightarrow> dimOperands a = [iv] \<and> symOperands a = [] \<and> dimsOf (applyExpr a) \<subseteq> {0})"

definition dependsOn :: "nat list \<Rightarrow> dim \<Rightarrow> bool" where
  "dependsOn vs d \<longleftrightarrow> (case offset d of Attr c \<Rightarrow> False | Val v \<Rightarrow> v \<in> set vs)"

text \<open>No induction variable goes into more than one offset.\<close>

definition oneOffset :: "AffineApplyOp list \<Rightarrow> LoopDim list \<Rightarrow> pattern \<Rightarrow> bool" where
  "oneOffset applies loops ds \<longleftrightarrow> (\<forall>l \<in> set loops. length (filter (dependsOn (curIvValues applies (loopIv l))) ds) \<le> 1)"

section \<open>Lemmas\<close>

lemma visit_add:
  assumes "visit (AffineAdd l r) (scale, bias) = Inr st"
  shows "\<exists>e c. (l = e \<and> r = AffineConstant c \<or> r = e \<and> l = AffineConstant c) \<and> bias = None
    \<and> (isBinary e \<and> visit e (scale, Some c) = Inr st \<or> isDim e \<and> st = (Some 1, Some c))"
  using assms by (cases "\<exists>c. r = AffineConstant c"; cases "\<exists>c. l = AffineConstant c")
    (auto split: if_splits AffineExpr.splits)

text \<open>The expression is the scale times one dimension, plus the bias.\<close>

definition bias_of :: "int option \<Rightarrow> int" where
  "bias_of b = (case b of None \<Rightarrow> 0 | Some c \<Rightarrow> c)"

lemma visit_sem:
  "visit e (None, bias) = Inr (Some c, bias') \<Longrightarrow>
    \<exists>d \<in> dimsOf e. \<forall>ds ss. evalAffine e ds ss + bias_of bias = c * ds d + bias_of bias'"
proof (induction e arbitrary: bias)
  case (AffineMul l r)
  then show ?case by (cases l; cases r) (auto split: if_splits)
next
  case (AffineAdd l r)
  from visit_add [OF AffineAdd.prems] obtain e k where e: "l = e \<and> r = AffineConstant k \<or> r = e \<and> l = AffineConstant k" "bias = None"
    "isBinary e \<and> visit e (None, Some k) = Inr (Some c, bias') \<or> isDim e \<and> (Some c, bias') = (Some 1, Some k)" by blast
  have "\<exists>d \<in> dimsOf e. \<forall>ds ss. evalAffine e ds ss + k = c * ds d + bias_of bias'"
  proof (cases "isDim e")
    case True
    then show ?thesis using e(3) by (cases e) (auto simp: bias_of_def)
  next
    case False
    then have v: "visit e (None, Some k) = Inr (Some c, bias')" using e(3) by simp
    show ?thesis using e(1)
    proof
      assume "l = e \<and> r = AffineConstant k"
      with AffineAdd.IH(1) [of "Some k"] v show ?thesis by (simp add: bias_of_def)
    next
      assume "r = e \<and> l = AffineConstant k"
      with AffineAdd.IH(2) [of "Some k"] v show ?thesis by (simp add: bias_of_def)
    qed
  qed
  then show ?case using e(1,2) by (auto simp: bias_of_def algebra_simps)
qed auto

lemma atIteration_other: "v \<notin> set (curIvValues applies iv) \<Longrightarrow> atIteration applies \<rho> iv val v = \<rho> v"
  by (auto simp: atIteration_def curIvValues_def find_None_iff dest!: find_Some_props split: option.split)

lemma find_result:
  assumes "distinct (map applyResult applies)" and "a \<in> set applies"
  shows "find (\<lambda>b. applyResult b = applyResult a \<and> P b) applies = (if P a then Some a else None)"
  using assms
proof (induction applies)
  case (Cons b applies)
  then show ?case by (cases "b = a") (auto simp: find_None_iff image_iff)
qed simp

text \<open>An induction value is the scale times the induction variable plus the bias.\<close>

lemma induction_value:
  assumes "wfApplies applies ivs" and "iv \<in> set ivs" and "v \<in> set (curIvValues applies iv)" and "scaleAndBias applies v = Inr (s, b)"
  shows "atIteration applies \<rho> iv val v = s * val + b"
proof (cases "v = iv")
  case True
  have "find (\<lambda>a. applyResult a = v) applies = None" using assms(1,2) True by (auto simp: find_None_iff wfApplies_def)
  then show ?thesis using assms(4) True by (simp add: scaleAndBias_def atIteration_def)
next
  case False
  then obtain a where a: "a \<in> set applies" "applyResult a = v" "usesIv iv a" using assms(3) by (auto simp: curIvValues_def)
  have d: "distinct (map applyResult applies)" using assms(1) by (simp add: wfApplies_def)
  have f: "find (\<lambda>a. applyResult a = v) applies = Some a" "find (\<lambda>a. applyResult a = v \<and> usesIv iv a) applies = Some a"
    using find_result [OF d a(1), of "\<lambda>_. True"] find_result [OF d a(1), of "usesIv iv"] a by simp_all
  obtain bias where v: "visit (applyExpr a) (None, None) = Inr (Some s, bias)" and b: "b = bias_of bias"
    using assms(4) unfolding scaleAndBias_def f(1) bias_of_def [symmetric] by (auto split: option.splits)
  from visit_sem [OF v] obtain k where k: "k \<in> dimsOf (applyExpr a)" "\<And>ds ss. evalAffine (applyExpr a) ds ss = s * ds k + bias_of bias"
    by (auto simp: bias_of_def)
  have ops: "dimOperands a = [iv]" "k = 0" using assms(1,2) a(1,3) k(1) unfolding wfApplies_def by blast+
  show ?thesis using False f(2) k(2) ops b by (simp add: atIteration_def Let_def)
qed

section \<open>Iterations\<close>

lemma iterations_positive:
  assumes "lb < ub" and "0 < step"
  shows "calculateNbIterations lb ub step = Inr (1 + (ub - lb - 1) div step)"
  using assms by (simp add: calculateNbIterations_def sdiv_pos)

lemma loopValues_upto:
  assumes "0 < step" and "lb < ub"
  shows "loopValues lb ub step = map (\<lambda>i. lb + i * step) (upto_size (1 + (ub - lb - 1) div step))"
  using assms
proof (induction lb ub step rule: loopValues.induct)
  case (1 lb ub step)
  show ?case
  proof (cases "lb + step < ub")
    case True
    have n: "1 + (ub - lb - 1) div step = 1 + (1 + (ub - (lb + step) - 1) div step)"
      using div_add_self1 [of step "ub - (lb + step) - 1"] "1.prems"(1) by (simp add: algebra_simps)
    have "0 \<le> (ub - (lb + step) - 1) div step" using True "1.prems"(1) by (simp add: pos_imp_zdiv_nonneg_iff)
    then have "upto_size (1 + (1 + (ub - (lb + step) - 1) div step)) = 0 # map (\<lambda>i. 1 + i) (upto_size (1 + (ub - (lb + step) - 1) div step))"
      using upto_size_add [of 1 "1 + (ub - (lb + step) - 1) div step"] by simp
    then show ?thesis unfolding n using 1 True by (simp add: loopValues.simps [of lb] comp_def algebra_simps)
  next
    case False
    then have "(ub - lb - 1) div step = 0" using "1.prems" by (intro div_pos_pos_trivial) simp_all
    then show ?thesis using "1.prems" False by (simp add: loopValues.simps [of lb] loopValues.simps [of "lb + step"])
  qed
qed

lemma nb_positive: "lb < ub \<Longrightarrow> 0 < step \<Longrightarrow> 1 \<le> 1 + (ub - lb - 1) div (step :: int)"
  by (simp add: pos_imp_zdiv_nonneg_iff)

lemma base_filter: "base (filter (\<lambda>(n, t). n \<noteq> 1) xs @ S) = base (xs @ S)"
  by (induction xs) auto

section \<open>Addresses of the new pattern\<close>

lemma addOffsets_none:
  assumes "\<forall>d \<in> set ds. \<not> dependsOn ivValues d"
  shows "addOffsets ce applies n lb step ivValues i ds st = Inr st"
  using assms by (induction ds arbitrary: i) (auto simp: dependsOn_def split: OpFoldResult.splits)

lemma addOffsets_append:
  "addOffsets ce applies n lb step ivValues i (xs @ ys) st =
     res_bind (addOffsets ce applies n lb step ivValues i xs st) (addOffsets ce applies n lb step ivValues (i + length xs) ys)"
proof (induction xs arbitrary: i st)
  case (Cons x xs)
  show ?case
  proof (cases "offset x")
    case (Attr c)
    then show ?thesis using Cons by simp
  next
    case (Val v)
    then show ?thesis using Cons
      by (cases "scaleAndBias applies v"; cases "getConstantIntValue ce (stride x)"; cases st) auto
  qed
qed simp

lemma addOffsets_one:
  assumes "length (filter (dependsOn ivValues) ds) \<le> 1" and "addOffsets ce applies n lb step ivValues 0 ds ((ins, upd), False) = Inr st"
  shows "(\<forall>d \<in> set ds. \<not> dependsOn ivValues d) \<and> st = ((ins, upd), False)
    \<or> (\<exists>p v s b t. p < length ds \<and> offset (ds ! p) = Val v \<and> v \<in> set ivValues \<and> scaleAndBias applies v = Inr (s, b)
        \<and> getConstantIntValue ce (stride (ds ! p)) = Some t \<and> (\<forall>k < length ds. k \<noteq> p \<longrightarrow> \<not> dependsOn ivValues (ds ! k))
        \<and> st = ((if n = 1 then ins else ins @ [(n, t * s * step)], upd @ [(p, b + lb * s)]), True))"
proof (cases "filter (dependsOn ivValues) ds")
  case Nil
  then have "\<forall>d \<in> set ds. \<not> dependsOn ivValues d" by (simp add: filter_empty_conv)
  then show ?thesis using addOffsets_none assms(2) by fastforce
next
  case (Cons d rest)
  then obtain xs ys where ds: "ds = xs @ d # ys" "dependsOn ivValues d" "\<forall>x \<in> set xs. \<not> dependsOn ivValues x" "rest = filter (dependsOn ivValues) ys"
    by (auto simp: filter_eq_Cons_iff)
  have "rest = []" using assms(1) Cons by simp
  then have ys: "\<forall>y \<in> set ys. \<not> dependsOn ivValues y" using ds(4) by (simp add: filter_empty_conv)
  obtain v where v: "offset d = Val v" "v \<in> set ivValues" using ds(2) by (auto simp: dependsOn_def split: OpFoldResult.splits)
  have run: "addOffsets ce applies n lb step ivValues (length xs) (d # ys) ((ins, upd), False) = Inr st"
    using assms(2) addOffsets_none [OF ds(3)] by (simp add: ds(1) addOffsets_append)
  then obtain s b t where st: "scaleAndBias applies v = Inr (s, b)" "getConstantIntValue ce (stride d) = Some t"
    "st = ((if n = 1 then ins else ins @ [(n, t * s * step)], upd @ [(length xs, b + lb * s)]), True)"
    using v addOffsets_none [OF ys] by (auto split: option.splits)
  have "\<not> dependsOn ivValues (ds ! k)" if "k < length ds" "k \<noteq> length xs" for k
    using that ds(1,3) ys by (cases "k < length xs") (auto simp: nth_append nth_Cons' )
  then have "length xs < length ds \<and> offset (ds ! length xs) = Val v \<and> v \<in> set ivValues \<and> scaleAndBias applies v = Inr (s, b)
        \<and> getConstantIntValue ce (stride (ds ! length xs)) = Some t \<and> (\<forall>k < length ds. k \<noteq> length xs \<longrightarrow> \<not> dependsOn ivValues (ds ! k))
        \<and> st = ((if n = 1 then ins else ins @ [(n, t * s * step)], upd @ [(length xs, b + lb * s)]), True)"
    using v st by (simp add: ds(1))
  then show ?thesis by blast
qed

text \<open>
  What a loop adds to a pattern: a dimension of stride \<open>t\<close>, unless it has one iteration only, and the
  update \<open>u\<close> of the offset that depends on it.
\<close>

definition effect :: "cenv \<Rightarrow> AffineApplyOp list \<Rightarrow> pattern \<Rightarrow> LoopDim \<Rightarrow> int \<times> (nat \<times> int) list \<Rightarrow> bool" where
  "effect ce applies ds l = (\<lambda>(t, u). static_dims ce ds
     \<and> ((\<forall>d \<in> set ds. \<not> dependsOn (curIvValues applies (loopIv l)) d) \<and> t = 0 \<and> u = []
      \<or> (\<exists>p v s b k. p < length ds \<and> offset (ds ! p) = Val v \<and> v \<in> set (curIvValues applies (loopIv l)) \<and> scaleAndBias applies v = Inr (s, b)
          \<and> getConstantIntValue ce (stride (ds ! p)) = Some k
          \<and> (\<forall>i < length ds. i \<noteq> p \<longrightarrow> \<not> dependsOn (curIvValues applies (loopIv l)) (ds ! i))
          \<and> t = k * s * loopStep l \<and> u = [(p, b + loopLb l * s)])))"

definition nbIter :: "LoopDim \<Rightarrow> int" where
  "nbIter l = 1 + (loopUb l - loopLb l - 1) div loopStep l"

definition positive :: "LoopDim \<Rightarrow> bool" where
  "positive l \<longleftrightarrow> loopLb l < loopUb l \<and> 0 < loopStep l"

definition added :: "LoopDim list \<Rightarrow> (int \<times> (nat \<times> int) list) list \<Rightarrow> additions" where
  "added ls tus = (filter (\<lambda>(n, t). n \<noteq> 1) (zip (map nbIter ls) (map fst tus)), concat (map snd tus))"

lemma sideIteration_effect:
  assumes "sideIteration cfg ce applies (loopLb l) (loopUb l) (loopStep l) (curIvValues applies (loopIv l)) ds (ins, upd) = Inr adds"
    and "ds \<noteq> []" and "positive l" and "length (filter (dependsOn (curIvValues applies (loopIv l))) ds) \<le> 1"
  shows "\<exists>tu. effect ce applies ds l tu \<and> adds = (ins @ fst (added [l] [tu]), upd @ snd (added [l] [tu]))"
proof -
  have n: "calculateNbIterations (loopLb l) (loopUb l) (loopStep l) = Inr (nbIter l)"
    using assms(3) by (simp add: positive_def nbIter_def iterations_positive)
  let ?run = "addOffsets ce applies (nbIter l) (loopLb l) (loopStep l) (curIvValues applies (loopIv l)) 0 ds ((ins, upd), False)"
  obtain ins' upd' dep where a: "?run = Inr ((ins', upd'), dep)"
    using assms(1,2) n by (cases ?run) (auto simp: sideIteration_def addIterationToNewAccessPattern_def)
  obtain sizes strides where c: "getConstantIntValues ce (map sz ds) = Some sizes" "getConstantIntValues ce (map stride ds) = Some strides"
    using assms(1,2) by (auto simp: sideIteration_def)
  have adds: "adds = (if \<not> dep \<and> nbIter l \<noteq> 1 then ins' @ [(nbIter l, 0)] else ins', upd')"
    using assms(1,2) n a c by (auto simp: sideIteration_def addIterationToNewAccessPattern_def split: if_splits)
  have static: "static_dims ce ds" using c constValues_static [of ce "map sz ds"] constValues_static [of ce "map stride ds"] assms(2)
    by (simp add: static_dims_def)
  from addOffsets_one [OF assms(4) a] show ?thesis
  proof
    assume "(\<forall>d \<in> set ds. \<not> dependsOn (curIvValues applies (loopIv l)) d) \<and> ((ins', upd'), dep) = ((ins, upd), False)"
    then show ?thesis using static adds by (intro exI [of _ "(0, [])"]) (simp add: effect_def added_def)
  next
    assume "\<exists>p v s b t. p < length ds \<and> offset (ds ! p) = Val v \<and> v \<in> set (curIvValues applies (loopIv l)) \<and> scaleAndBias applies v = Inr (s, b)
        \<and> getConstantIntValue ce (stride (ds ! p)) = Some t \<and> (\<forall>k < length ds. k \<noteq> p \<longrightarrow> \<not> dependsOn (curIvValues applies (loopIv l)) (ds ! k))
        \<and> ((ins', upd'), dep) = ((if nbIter l = 1 then ins else ins @ [(nbIter l, t * s * loopStep l)], upd @ [(p, b + loopLb l * s)]), True)"
    then obtain p v s b t where P: "p < length ds" "offset (ds ! p) = Val v" "v \<in> set (curIvValues applies (loopIv l))" "scaleAndBias applies v = Inr (s, b)"
        "getConstantIntValue ce (stride (ds ! p)) = Some t" "\<forall>k < length ds. k \<noteq> p \<longrightarrow> \<not> dependsOn (curIvValues applies (loopIv l)) (ds ! k)"
      and new: "ins' = (if nbIter l = 1 then ins else ins @ [(nbIter l, t * s * loopStep l)])" "upd' = upd @ [(p, b + loopLb l * s)]" dep by auto
    have "effect ce applies ds l (t * s * loopStep l, [(p, b + loopLb l * s)])" using P static unfolding effect_def by blast
    then show ?thesis using adds new by (intro exI [of _ "(t * s * loopStep l, [(p, b + loopLb l * s)])"]) (simp add: added_def)
  qed
qed

lemma added_Cons: "added (l # ls) (tu # tus) = (fst (added [l] [tu]) @ fst (added ls tus), snd (added [l] [tu]) @ snd (added ls tus))"
  by (simp add: added_def)

lemma addLoops_effect:
  assumes "addLoops srcCfg tgtCfg ce applies ls src tgt (sa, ta) = Inr (sa', ta')"
    and "\<forall>l \<in> set ls. positive l" and "oneOffset applies ls src" and "oneOffset applies ls tgt"
  shows "(src \<noteq> [] \<longrightarrow> (\<exists>tus. list_all2 (effect ce applies src) ls tus \<and> sa' = (fst sa @ fst (added ls tus), snd sa @ snd (added ls tus))))
    \<and> (tgt \<noteq> [] \<longrightarrow> (\<exists>tus. list_all2 (effect ce applies tgt) ls tus \<and> ta' = (fst ta @ fst (added ls tus), snd ta @ snd (added ls tus))))"
  using assms
proof (induction ls arbitrary: sa ta)
  case Nil
  then show ?case by (auto simp: added_def)
next
  case (Cons l ls)
  from Cons.prems(1) obtain sa1 ta1 where
    s: "sideIteration srcCfg ce applies (loopLb l) (loopUb l) (loopStep l) (curIvValues applies (loopIv l)) src (fst sa, snd sa) = Inr sa1"
    and t: "sideIteration tgtCfg ce applies (loopLb l) (loopUb l) (loopStep l) (curIvValues applies (loopIv l)) tgt (fst ta, snd ta) = Inr ta1"
    and r: "addLoops srcCfg tgtCfg ce applies ls src tgt (sa1, ta1) = Inr (sa', ta')" by auto
  have one: "length (filter (dependsOn (curIvValues applies (loopIv l))) src) \<le> 1" "length (filter (dependsOn (curIvValues applies (loopIv l))) tgt) \<le> 1"
    and pos: "positive l" using Cons.prems(2-4) by (simp_all add: oneOffset_def)
  have IH: "(src \<noteq> [] \<longrightarrow> (\<exists>tus. list_all2 (effect ce applies src) ls tus \<and> sa' = (fst sa1 @ fst (added ls tus), snd sa1 @ snd (added ls tus))))
    \<and> (tgt \<noteq> [] \<longrightarrow> (\<exists>tus. list_all2 (effect ce applies tgt) ls tus \<and> ta' = (fst ta1 @ fst (added ls tus), snd ta1 @ snd (added ls tus))))"
    using Cons.IH [OF r] Cons.prems(2-4) by (simp add: oneOffset_def)
  have src: "\<exists>tus. list_all2 (effect ce applies src) (l # ls) tus \<and> sa' = (fst sa @ fst (added (l # ls) tus), snd sa @ snd (added (l # ls) tus))" if ne: "src \<noteq> []"
  proof -
    obtain tu tus where "effect ce applies src l tu" "sa1 = (fst sa @ fst (added [l] [tu]), snd sa @ snd (added [l] [tu]))"
      "list_all2 (effect ce applies src) ls tus" "sa' = (fst sa1 @ fst (added ls tus), snd sa1 @ snd (added ls tus))"
      using sideIteration_effect [OF s ne pos one(1)] IH ne by blast
    then show ?thesis by (intro exI [of _ "tu # tus"]) (simp add: added_Cons [of l ls])
  qed
  have tgt: "\<exists>tus. list_all2 (effect ce applies tgt) (l # ls) tus \<and> ta' = (fst ta @ fst (added (l # ls) tus), snd ta @ snd (added (l # ls) tus))" if ne: "tgt \<noteq> []"
  proof -
    obtain tu tus where "effect ce applies tgt l tu" "ta1 = (fst ta @ fst (added [l] [tu]), snd ta @ snd (added [l] [tu]))"
      "list_all2 (effect ce applies tgt) ls tus" "ta' = (fst ta1 @ fst (added ls tus), snd ta1 @ snd (added ls tus))"
      using sideIteration_effect [OF t ne pos one(2)] IH ne by blast
    then show ?thesis by (intro exI [of _ "tu # tus"]) (simp add: added_Cons [of l ls])
  qed
  show ?case using src tgt by blast
qed

text \<open>The pattern after updates, dimension by dimension.\<close>

lemma length_updates [simp]: "length (foldl updateOffset ds us) = length ds"
  by (induction us arbitrary: ds) (simp_all add: updateOffset_def Let_def)

lemma updateOffset_nth: "k < length ds \<Longrightarrow>
    updateOffset ds u ! k = (if fst u = k then Dim (Attr (snd u)) (sz (ds ! k)) (stride (ds ! k)) else ds ! k)"
  by (simp add: updateOffset_def Let_def)

lemma nth_updates:
  "k < length ds \<Longrightarrow> foldl updateOffset ds us ! k =
     Dim (case map_of (rev us) k of None \<Rightarrow> offset (ds ! k) | Some c \<Rightarrow> Attr c) (sz (ds ! k)) (stride (ds ! k))"
proof (induction us rule: rev_induct)
  case (snoc u us)
  then show ?case by (cases u) (auto simp: updateOffset_nth map_add_def split: option.split)
qed simp

lemma nth_updates_append:
  "k < length ds \<Longrightarrow> foldl updateOffset ds (u @ us) ! k =
     Dim (case map_of (rev us) k of None \<Rightarrow> (case map_of (rev u) k of None \<Rightarrow> offset (ds ! k) | Some c \<Rightarrow> Attr c) | Some c \<Rightarrow> Attr c)
       (sz (ds ! k)) (stride (ds ! k))"
  by (simp only: nth_updates rev_append map_of_append map_add_def) (simp split: option.split)

lemma shape_updates [simp]: "shape_of \<rho> (foldl updateOffset ds us) = shape_of \<rho> ds"
  by (rule nth_equalityI) (simp_all add: shape_of_def nth_updates)

lemma goff_nth: "goff \<rho> ds = (\<Sum>k < length ds. evl \<rho> (offset (ds ! k)) * evl \<rho> (stride (ds ! k)))"
  by (simp add: goff_def sum_list_sum_nth atLeast0LessThan)

lemma goff_updates: "goff \<rho> (foldl updateOffset ds us) =
    (\<Sum>k < length ds. evl \<rho> (offset (foldl updateOffset ds us ! k)) * evl \<rho> (stride (ds ! k)))"
  unfolding goff_nth length_updates by (rule sum.cong) (simp_all add: nth_updates)

lemma curIvValues_disjoint:
  assumes "wfApplies applies ivs" and "iv \<in> set ivs" and "iv' \<in> set ivs" and "v \<in> set (curIvValues applies iv)" and "v \<in> set (curIvValues applies iv')"
  shows "iv = iv'"
proof (rule ccontr)
  assume ne: "iv \<noteq> iv'"
  have no: "applyResult a \<noteq> x" if "a \<in> set applies" "x \<in> set ivs" for a x using assms(1) that by (auto simp: wfApplies_def)
  obtain a where a: "a \<in> set applies" "applyResult a = v" "usesIv iv a" using assms(2-5) ne no by (auto simp: curIvValues_def)
  obtain a' where a': "a' \<in> set applies" "applyResult a' = v" "usesIv iv' a'" using assms(2-5) ne no by (auto simp: curIvValues_def)
  have "a = a'" using assms(1) a(1,2) a'(1,2) by (metis distinct_map inj_onD wfApplies_def)
  then show False using assms(1-3) a a' ne unfolding wfApplies_def by (metis list.inject)
qed

text \<open>One iteration more moves the offset by the stride of the new dimension.\<close>

lemma goff_iteration:
  assumes eff: "effect ce applies ds l (t, u)" and wf: "wfApplies applies ivs" and iv: "loopIv l \<in> set ivs"
    and other: "\<forall>(q, c) \<in> set us. q < length ds \<and> \<not> dependsOn (curIvValues applies (loopIv l)) (ds ! q)"
    and \<rho>: "agrees ce \<rho>" and ce: "\<forall>v \<in> set (curIvValues applies (loopIv l)). ce v = None"
  shows "goff (atIteration applies \<rho> (loopIv l) (loopLb l + j * loopStep l)) (foldl updateOffset ds us) = j * t + goff \<rho> (foldl updateOffset ds (u @ us))"
proof -
  let ?\<rho> = "atIteration applies \<rho> (loopIv l) (loopLb l + j * loopStep l)" and ?vs = "curIvValues applies (loopIv l)"
  have same: "evl ?\<rho> x = evl \<rho> x" if "getConstantIntValue ce x \<noteq> None" for x
  proof (cases x)
    case (Val v)
    then have "v \<notin> set ?vs" using that ce by auto
    then show ?thesis using Val by (simp add: atIteration_other)
  qed simp
  have stride: "getConstantIntValue ce (stride (ds ! k)) \<noteq> None" if "k < length ds" for k
    using eff that constValues_static [of ce "map stride ds"] by (auto simp: effect_def static_dims_def)
  have free: "evl ?\<rho> (offset (ds ! k)) = evl \<rho> (offset (ds ! k))" if "\<not> dependsOn ?vs (ds ! k)" for k
    using that by (cases "offset (ds ! k)") (simp_all add: dependsOn_def atIteration_other)
  have dom: "map_of (rev us) k = None" if "dependsOn ?vs (ds ! k)" for k
    using that other by (auto simp: map_of_eq_None_iff)
  let ?old = "\<lambda>k. evl ?\<rho> (offset (foldl updateOffset ds us ! k)) * evl ?\<rho> (stride (ds ! k))"
  let ?new = "\<lambda>k. evl \<rho> (offset (foldl updateOffset ds (u @ us) ! k)) * evl \<rho> (stride (ds ! k))"
  have g: "goff ?\<rho> (foldl updateOffset ds us) = (\<Sum>k < length ds. ?old k)" "goff \<rho> (foldl updateOffset ds (u @ us)) = (\<Sum>k < length ds. ?new k)"
    by (rule goff_updates)+
  from eff consider (none) "\<forall>d \<in> set ds. \<not> dependsOn ?vs d" "t = 0" "u = []"
    | (one) p v s b k where "p < length ds" "offset (ds ! p) = Val v" "v \<in> set ?vs" "scaleAndBias applies v = Inr (s, b)"
          "getConstantIntValue ce (stride (ds ! p)) = Some k" "\<forall>i < length ds. i \<noteq> p \<longrightarrow> \<not> dependsOn ?vs (ds ! i)"
          "t = k * s * loopStep l" "u = [(p, b + loopLb l * s)]"
    unfolding effect_def by blast
  then show ?thesis
  proof cases
    case none
    have "?old k = ?new k" if "k < length ds" for k
      using that none(1) same [OF stride [OF that]] free [of k]
      by (simp only: nth_updates nth_updates_append none(3)) (auto split: option.split)
    then have "(\<Sum>k < length ds. ?old k) = (\<Sum>k < length ds. ?new k)" by (intro sum.cong) simp_all
    then show ?thesis unfolding g none(2) by simp
  next
    case one
    have rest: "?old i = ?new i" if "i \<in> {..< length ds} - {p}" for i
    proof -
      have i: "i < length ds" "i \<noteq> p" "\<not> dependsOn ?vs (ds ! i)" using that one(6) by auto
      show ?thesis unfolding nth_updates [OF i(1)] nth_updates_append [OF i(1)]
        using i(2) same [OF stride [OF i(1)]] free [OF i(3)] by (simp add: one(8) map_add_def split: option.split)
    qed
    have "dependsOn ?vs (ds ! p)" using one(2,3) by (simp add: dependsOn_def)
    then have "map_of (rev us) p = None" by (rule dom)
    moreover have "evl ?\<rho> (Val v) = s * (loopLb l + j * loopStep l) + b" using induction_value [OF wf iv one(3,4)] by simp
    moreover have "evl \<rho> (stride (ds ! p)) = k" "evl ?\<rho> (stride (ds ! p)) = k"
      using same [OF stride [OF one(1)]] agrees_const [OF \<rho> one(5)] by simp_all
    ultimately have "?old p = j * t + ?new p"
      unfolding nth_updates [OF one(1)] nth_updates_append [OF one(1)] by (simp add: one(2,7,8) map_add_def algebra_simps)
    moreover have "(\<Sum>i < length ds. ?old i) = ?old p + (\<Sum>i \<in> {..< length ds} - {p}. ?old i)" "(\<Sum>i < length ds. ?new i) = ?new p + (\<Sum>i \<in> {..< length ds} - {p}. ?new i)"
      using one(1) by (simp_all add: sum.remove)
    moreover have "(\<Sum>i \<in> {..< length ds} - {p}. ?old i) = (\<Sum>i \<in> {..< length ds} - {p}. ?new i)" by (rule sum.cong) (simp_all add: rest)
    ultimately show ?thesis unfolding g by simp
  qed
qed

lemma effect_index: "effect ce applies ds l (t, u) \<Longrightarrow> (q, c) \<in> set u \<Longrightarrow> q < length ds \<and> dependsOn (curIvValues applies (loopIv l)) (ds ! q)"
  unfolding effect_def dependsOn_def by auto

lemma effects_index:
  assumes "list_all2 (effect ce applies ds) ls tus" and "(q, c) \<in> set (concat (map snd tus))"
  shows "q < length ds \<and> (\<exists>l \<in> set ls. dependsOn (curIvValues applies (loopIv l)) (ds ! q))"
  using assms
proof (induction rule: list_all2_induct)
  case (Cons l ls tu tus)
  obtain t u where tu: "tu = (t, u)" by (cases tu)
  then show ?case using Cons effect_index [of ce applies ds l t u q c] by auto
qed simp

text \<open>The addresses of the loops, iteration by iteration, are those of the pattern with the added dimensions.\<close>

lemma loopAddrs_added:
  assumes "list_all2 (effect ce applies ds) ls tus" and "wfApplies applies ivs" and "distinct (map loopIv ls)" and "loopIv ` set ls \<subseteq> set ivs"
    and "\<forall>l \<in> set ls. positive l" and "agrees ce \<rho>" and "\<forall>l \<in> set ls. \<forall>v \<in> set (curIvValues applies (loopIv l)). ce v = None"
  shows "loopAddrs applies ls \<rho> ds = addrs \<rho> (newPattern ds (added ls tus))"
  using assms
proof (induction arbitrary: \<rho> rule: list_all2_induct)
  case Nil
  then show ?case by (simp add: newPattern_def added_def)
next
  case (Cons l ls tu tus)
  obtain t u where tu: "tu = (t, u)" by (cases tu)
  let ?us = "concat (map snd tus)" and ?nts = "zip (map nbIter ls) (map fst tus)"
  let ?B = "base (?nts @ shape_of \<rho> ds)"
  let ?c = "goff \<rho> (foldl updateOffset ds (u @ ?us))"
  have ins: "shape_of \<sigma> (map (\<lambda>(n, t). Dim (Attr 0) (Attr n) (Attr t)) xs) = xs" "goff \<sigma> (map (\<lambda>(n, t). Dim (Attr 0) (Attr n) (Attr t)) xs) = 0"
    for \<sigma> and xs :: "(int \<times> int) list" by (induction xs) auto
  have new: "addrs \<sigma> (newPattern ds (added ls' tus')) = map (\<lambda>a. goff \<sigma> (foldl updateOffset ds (concat (map snd tus'))) + a)
      (base (zip (map nbIter ls') (map fst tus') @ shape_of \<sigma> ds))" for \<sigma> ls' tus'
    by (simp add: addrs_base newPattern_def added_def ins base_filter)
  have other: "\<forall>(q, c) \<in> set ?us. q < length ds \<and> \<not> dependsOn (curIvValues applies (loopIv l)) (ds ! q)"
  proof (intro ballI, clarify)
    fix q c
    assume "(q, c) \<in> set ?us"
    from effects_index [OF Cons.hyps(2) this] obtain l' where l': "q < length ds" "l' \<in> set ls" "dependsOn (curIvValues applies (loopIv l')) (ds ! q)" by blast
    have "loopIv l \<noteq> loopIv l'" using Cons.prems(2) l'(2) by auto
    moreover have "loopIv l \<in> set ivs" "loopIv l' \<in> set ivs" using Cons.prems(3) l'(2) by auto
    ultimately show "q < length ds \<and> \<not> dependsOn (curIvValues applies (loopIv l)) (ds ! q)"
      using curIvValues_disjoint [OF Cons.prems(1)] l'(1,3) by (auto simp: dependsOn_def split: OpFoldResult.splits)
  qed
  have eff: "effect ce applies ds l (t, u)" using Cons.hyps(1) tu by simp
  have "loopAddrs applies ls (atIteration applies \<rho> (loopIv l) (loopLb l + j * loopStep l)) ds = map (\<lambda>a. j * t + ?c + a) ?B" for j
  proof -
    let ?\<rho> = "atIteration applies \<rho> (loopIv l) (loopLb l + j * loopStep l)"
    have outside: "v \<notin> set (curIvValues applies (loopIv l))" if "ce v \<noteq> None" for v using Cons.prems(6) that by auto
    have ag: "agrees ce ?\<rho>" unfolding agrees_def using Cons.prems(5) outside by (auto simp: agrees_def atIteration_other)
    have "evl ?\<rho> x = evl \<rho> x" if "getConstantIntValue ce x \<noteq> None" for x
      using agrees_const [OF ag] agrees_const [OF Cons.prems(5)] that by auto
    then have shape: "shape_of ?\<rho> ds = shape_of \<rho> ds"
      using eff constValues_static [of ce "map sz ds"] constValues_static [of ce "map stride ds"]
      by (auto simp: shape_of_def effect_def static_dims_def)
    have "loopAddrs applies ls ?\<rho> ds = addrs ?\<rho> (newPattern ds (added ls tus))"
      using Cons.prems by (intro Cons.IH ag) auto
    also have "\<dots> = map (\<lambda>a. j * t + ?c + a) ?B"
      unfolding new shape goff_iteration [OF eff Cons.prems(1) _ other Cons.prems(5)] using Cons.prems(3,6)
      by (subst goff_iteration [OF eff Cons.prems(1) _ other Cons.prems(5)]) auto
    finally show ?thesis .
  qed
  moreover have "loopValues (loopLb l) (loopUb l) (loopStep l) = map (\<lambda>j. loopLb l + j * loopStep l) (upto_size (nbIter l))"
    using Cons.prems(4) by (simp add: positive_def nbIter_def loopValues_upto)
  ultimately have "loopAddrs applies (l # ls) \<rho> ds = concat (map (\<lambda>j. map (\<lambda>a. j * t + ?c + a) ?B) (upto_size (nbIter l)))"
    by (simp add: comp_def)
  also have "\<dots> = map (\<lambda>a. ?c + a) (base ((nbIter l, t) # ?nts @ shape_of \<rho> ds))"
    by (simp add: map_concat comp_def algebra_simps)
  also have "\<dots> = addrs \<rho> (newPattern ds (added (l # ls) (tu # tus)))"
    unfolding new by (simp add: tu)
  finally show ?case .
qed

lemma constantLoops_ivs:
  "constantLoops ce loop = Some loops \<Longrightarrow> \<exists>n. map loopIv loops = take n (inductionVars loop)"
proof -
  assume "constantLoops ce loop = Some loops"
  then obtain lbs ubs steps where l: "loops = map (\<lambda>(iv, lb, ub, step). \<lparr>loopIv = iv, loopLb = lb, loopUb = ub, loopStep = step\<rparr>)
            (zip (inductionVars loop) (zip lbs (zip ubs steps)))" by (auto simp: constantLoops_def split: option.splits)
  have "map fst (zip (inductionVars loop) ys) = take (length ys) (inductionVars loop)" for ys :: "(int \<times> int \<times> int) list"
    by (simp add: map_fst_zip_take min_def)
  then show ?thesis unfolding l by (intro exI) (simp add: comp_def case_prod_beta)
qed

lemma matchAndRewrite_loops:
  assumes "matchAndRewrite m only ce applies parent op = Inr (src', tgt')" and "parent = ForOp loop \<or> parent = ForallOp loop"
    and "constantLoops ce loop = Some loops"
  shows "\<exists>srcCfg tgtCfg sa ta n. dimConfigs m op = Inr (srcCfg, tgtCfg)
    \<and> addLoops srcCfg tgtCfg ce applies loops (opSource op) (opTarget op) (([], []), ([], [])) = Inr (sa, ta)
    \<and> src' = newPattern (opSource op) sa \<and> tgt' = newPattern (opTarget op) ta
    \<and> countNonUnit (ChProp_MaxRepeatCount (devInst m) SHIMNOC) (opKind op) loops = Inr n
    \<and> checkNbDims srcCfg ce (opSource op) n = Inr () \<and> checkNbDims tgtCfg ce (opTarget op) n = Inr ()"
  using assms by (auto simp: matchAndRewrite_def rewriteWithLoopLikeOpParent_def Let_def split: if_splits)

section \<open>Properties\<close>


lemma filter_sizes: "map sz xs = map sz ys \<Longrightarrow> length (filter (\<lambda>d. P (sz d)) xs) = length (filter (\<lambda>d. P (sz d)) ys)"
proof -
  assume "map sz xs = map sz ys"
  then have "length (filter P (map sz xs)) = length (filter P (map sz ys))" by (simp only:)
  then show ?thesis by (simp add: filter_map comp_def)
qed

lemma non_unit_count:
  assumes "getConstantIntValues ce (map sz ds) = Some sizes"
  shows "length (filter (\<lambda>d. getConstantIntValue ce (sz d) \<noteq> Some 1) ds) = length ds - count_list sizes 1"
  using assms
proof (induction ds arbitrary: sizes)
  case (Cons d ds)
  then obtain s ss where s: "getConstantIntValue ce (sz d) = Some s" "getConstantIntValues ce (map sz ds) = Some ss" "sizes = s # ss"
    by (auto split: option.splits)
  have "count_list ss 1 \<le> length ss" by (rule count_le_length)
  moreover have "length ss = length ds" using constValues_len [OF s(2)] by simp
  ultimately show ?case using Cons.IH [OF s(2)] s(1,3) by (simp add: Suc_diff_le)
qed simp

lemma countNonUnit_length:
  assumes "countNonUnit maxRepeat kind ls = Inr n" and "\<forall>l \<in> set ls. positive l" and "length tus = length ls"
  shows "n = length (fst (added ls tus)) \<and> (kind = NpuDmaCpyNd \<longrightarrow> (\<forall>l \<in> set ls. nbIter l \<le> uint maxRepeat))"
  using assms
proof (induction ls arbitrary: n tus)
  case (Cons l ls)
  obtain tu tus' where t: "tus = tu # tus'" "length tus' = length ls" using Cons.prems(3) by (cases tus) auto
  have c: "calculateNbIterations (loopLb l) (loopUb l) (loopStep l) = Inr (nbIter l)" "1 \<le> nbIter l"
    using Cons.prems(2) nb_positive [of "loopLb l" "loopUb l" "loopStep l"] by (simp_all add: positive_def nbIter_def iterations_positive)
  with Cons.prems(1) obtain k where "countNonUnit maxRepeat kind ls = Inr k" "n = (if nbIter l > 1 then Suc k else k)"
    "kind = NpuDmaCpyNd \<longrightarrow> nbIter l \<le> uint maxRepeat" by (auto split: if_splits)
  then show ?case using Cons.IH [of k tus'] Cons.prems(2) t c(2) by (auto simp: added_def)
qed (simp add: added_def)

lemma new_non_unit:
  assumes "list_all2 (effect ce applies ds) ls tus" and "checkNbDims cfg ce ds n = Inr ()" and "\<not> isCircular cfg"
    and "n = length (fst (added ls tus))"
  shows "length (filter (\<lambda>d. getConstantIntValue ce (sz d) \<noteq> Some 1) (newPattern ds (added ls tus))) \<le> unat (maxNbDims cfg)"
proof -
  from assms(2) obtain sizes where s: "getConstantIntValues ce (map sz ds) = Some sizes" "length ds - count_list sizes 1 + n \<le> unat (maxNbDims cfg)"
    using assms(3) by (auto simp: checkNbDims_def exceedsNbDims_def split: if_splits)
  have "map sz (foldl updateOffset ds us) = map sz ds" for us by (rule nth_equalityI) (simp_all add: nth_updates)
  then have "length (filter (\<lambda>d. getConstantIntValue ce (sz d) \<noteq> Some 1) (foldl updateOffset ds us))
      = length (filter (\<lambda>d. getConstantIntValue ce (sz d) \<noteq> Some 1) ds)" for us
    by (rule filter_sizes)
  moreover have "length (filter (\<lambda>d. getConstantIntValue ce (sz d) \<noteq> Some 1) (map (\<lambda>(n, t). Dim (Attr 0) (Attr n) (Attr t)) (fst (added ls tus)))) \<le> n"
    unfolding assms(4) by (metis length_filter_le length_map)
  ultimately show ?thesis using s(2) non_unit_count [OF s(1)] by (simp add: newPattern_def)
qed

text \<open>
  A plain DMA that took loops in still has no more dimensions of a size other than one than its DMA
  can address, and no loop of it has more iterations than the repeat count of the shim allows.
\<close>

theorem subsumed_dims:
  assumes "matchAndRewrite m only ce applies parent op = Inr (src', tgt')" and "parent = ForOp loop \<or> parent = ForallOp loop"
    and "constantLoops ce loop = Some loops" and "\<forall>l \<in> set loops. positive l"
    and "oneOffset applies loops (opSource op)" and "oneOffset applies loops (opTarget op)" and "opKind op = NpuDmaCpyNd"
  shows "\<exists>srcCfg tgtCfg. dimConfigs m op = Inr (srcCfg, tgtCfg)
    \<and> (opSource op \<noteq> [] \<longrightarrow> length (filter (\<lambda>d. getConstantIntValue ce (sz d) \<noteq> Some 1) src') \<le> unat (maxNbDims srcCfg))
    \<and> (opTarget op \<noteq> [] \<longrightarrow> length (filter (\<lambda>d. getConstantIntValue ce (sz d) \<noteq> Some 1) tgt') \<le> unat (maxNbDims tgtCfg))
    \<and> (\<forall>l \<in> set loops. int (length (loopValues (loopLb l) (loopUb l) (loopStep l))) \<le> uint (ChProp_MaxRepeatCount (devInst m) SHIMNOC))"
proof -
  from matchAndRewrite_loops [OF assms(1-3)] obtain srcCfg tgtCfg sa ta n where cfgs: "dimConfigs m op = Inr (srcCfg, tgtCfg)"
    and adds: "addLoops srcCfg tgtCfg ce applies loops (opSource op) (opTarget op) (([], []), ([], [])) = Inr (sa, ta)"
    and new: "src' = newPattern (opSource op) sa" "tgt' = newPattern (opTarget op) ta"
    and n: "countNonUnit (ChProp_MaxRepeatCount (devInst m) SHIMNOC) (opKind op) loops = Inr n"
    and dims: "checkNbDims srcCfg ce (opSource op) n = Inr ()" "checkNbDims tgtCfg ce (opTarget op) n = Inr ()" by blast
  have circ: "\<not> isCircular srcCfg" "\<not> isCircular tgtCfg"
    using cfgs assms(7) by (auto simp: dimConfigs_def mk_DmaDimConfig_def Let_def split: option.splits if_splits)
  have src: "length (filter (\<lambda>d. getConstantIntValue ce (sz d) \<noteq> Some 1) src') \<le> unat (maxNbDims srcCfg)" if ne: "opSource op \<noteq> []"
  proof -
    obtain tus where t: "list_all2 (effect ce applies (opSource op)) loops tus" "sa = added loops tus"
      using addLoops_effect [OF adds assms(4-6)] ne by auto
    show ?thesis unfolding new t(2)
      using new_non_unit [OF t(1) dims(1) circ(1)] countNonUnit_length [OF n assms(4), of tus] list_all2_lengthD [OF t(1)] by simp
  qed
  have tgt: "length (filter (\<lambda>d. getConstantIntValue ce (sz d) \<noteq> Some 1) tgt') \<le> unat (maxNbDims tgtCfg)" if ne: "opTarget op \<noteq> []"
  proof -
    obtain tus where t: "list_all2 (effect ce applies (opTarget op)) loops tus" "ta = added loops tus"
      using addLoops_effect [OF adds assms(4-6)] ne by auto
    show ?thesis unfolding new t(2)
      using new_non_unit [OF t(1) dims(2) circ(2)] countNonUnit_length [OF n assms(4), of tus] list_all2_lengthD [OF t(1)] by simp
  qed
  have "int (length (loopValues (loopLb l) (loopUb l) (loopStep l))) \<le> uint (ChProp_MaxRepeatCount (devInst m) SHIMNOC)" if l: "l \<in> set loops" for l
  proof -
    have "nbIter l \<le> uint (ChProp_MaxRepeatCount (devInst m) SHIMNOC)"
      using countNonUnit_length [OF n assms(4), of "replicate (length loops) (0, [])"] assms(7) l by auto
    moreover have "int (length (loopValues (loopLb l) (loopUb l) (loopStep l))) = nbIter l"
      using assms(4) l nb_positive [of "loopLb l" "loopUb l" "loopStep l"]
      by (auto simp: positive_def nbIter_def loopValues_upto upto_size_def)
    ultimately show ?thesis by simp
  qed
  then show ?thesis using cfgs src tgt by blast
qed

section \<open>Examples\<close>

definition noConstants :: cenv where "noConstants v = None"

definition sampleDma :: "pattern \<Rightarrow> StridedOp" where
  "sampleDma src = \<lparr>opKind = NpuDmaCpyNd, opSource = src, opTarget = [], opOperands = 9 # dynamicOffsets src, sourceMemorySpace = Some 0,
     targetMemorySpace = Some 1, connectionUsers = Some [\<lparr>isSelf = True, inLoop = True, stridedUser = True, circularUser = False\<rparr>]\<rparr>"

definition sampleFor :: "int \<Rightarrow> int \<Rightarrow> int \<Rightarrow> LoopOp" where
  "sampleFor lb ub step = \<lparr>inductionVars = [1], mixedLowerBounds = [Attr lb], mixedUpperBounds = [Attr ub], mixedSteps = [Attr step],
     definesValue = (\<lambda>v. v = 2)\<rparr>"

text \<open>Value 2 is \<open>affine.apply\<close> of \<open>d0 * 4 + 1\<close> on the induction variable.\<close>

definition sampleApplies :: "AffineApplyOp list" where
  "sampleApplies = [\<lparr>applyResult = 2, applyExpr = AffineAdd (AffineMul (AffineDim 0) (AffineConstant 4)) (AffineConstant 1),
     dimOperands = [1], symOperands = []\<rparr>]"

definition samplePattern :: pattern where
  "samplePattern = [Dim (Val 2) (Attr 2) (Attr 8), Dim (Attr 0) (Attr 4) (Attr 1)]"

definition sampleSubsumed :: pattern where
  "sampleSubsumed = [Dim (Attr 0) (Attr 3) (Attr 64), Dim (Attr 1) (Attr 2) (Attr 8), Dim (Attr 0) (Attr 4) (Attr 1)]"

lemma sample_rewrite:
  "matchAndRewrite (sampleModel npu1_4col) True noConstants sampleApplies (ForOp (sampleFor 0 6 2)) (sampleDma samplePattern) = Inr (sampleSubsumed, [])"
  by code_simp

lemma sample_loop:
  "constantLoops noConstants (sampleFor 0 6 2) = Some [\<lparr>loopIv = 1, loopLb = 0, loopUb = 6, loopStep = 2\<rparr>]"
  by code_simp

lemma sample_conditions:
  "wfApplies sampleApplies (inductionVars (sampleFor 0 6 2))"
  "oneOffset sampleApplies [\<lparr>loopIv = 1, loopLb = 0, loopUb = 6, loopStep = 2\<rparr>] (opSource (sampleDma samplePattern))"
  "oneOffset sampleApplies [\<lparr>loopIv = 1, loopLb = 0, loopUb = 6, loopStep = 2\<rparr>] (opTarget (sampleDma samplePattern))"
  by (simp_all add: wfApplies_def oneOffset_def sampleApplies_def sampleFor_def sampleDma_def samplePattern_def dependsOn_def curIvValues_def usesIv_def)


theorem subsumed_dims_witness:
  "length (filter (\<lambda>d. getConstantIntValue noConstants (sz d) \<noteq> Some 1) sampleSubsumed) \<le> 5"
proof -
  have cfg: "\<exists>tc. dimConfigs (sampleModel npu1_4col) (sampleDma samplePattern) = Inr (sc, tc) \<Longrightarrow> unat (maxNbDims sc) = 5" for sc
    by (auto simp: dimConfigs_def sampleDma_def mk_DmaDimConfig_def getDmaProp_def sample_defs Let_def)
  from subsumed_dims [OF sample_rewrite _ sample_loop _ sample_conditions(2,3)]
  obtain sc tc where "dimConfigs (sampleModel npu1_4col) (sampleDma samplePattern) = Inr (sc, tc)"
    "length (filter (\<lambda>d. getConstantIntValue noConstants (sz d) \<noteq> Some 1) sampleSubsumed) \<le> unat (maxNbDims sc)"
    by (auto simp: positive_def sampleDma_def samplePattern_def)
  then show ?thesis using cfg by fastforce
qed

text \<open>
  An induction variable in two offsets gets a dimension for each of them: the two iterations of the loop
  become four.
\<close>

theorem two_offsets_of_one_loop:
  "matchAndRewrite (sampleModel npu1_4col) True noConstants [] (ForOp (sampleFor 0 2 1)) (sampleDma [Dim (Val 1) (Attr 1) (Attr 8), Dim (Val 1) (Attr 1) (Attr 1)])
    = Inr ([Dim (Attr 0) (Attr 2) (Attr 8), Dim (Attr 0) (Attr 2) (Attr 1), Dim (Attr 0) (Attr 1) (Attr 8), Dim (Attr 0) (Attr 1) (Attr 1)], [])
    \<and> loopAddrs [] [\<lparr>loopIv = 1, loopLb = 0, loopUb = 2, loopStep = 1\<rparr>] (\<lambda>v. 0) [Dim (Val 1) (Attr 1) (Attr 8), Dim (Val 1) (Attr 1) (Attr 1)] = [0, 9]
    \<and> addrs (\<lambda>v. 0) [Dim (Attr 0) (Attr 2) (Attr 8), Dim (Attr 0) (Attr 2) (Attr 1), Dim (Attr 0) (Attr 1) (Attr 8), Dim (Attr 0) (Attr 1) (Attr 1)] = [0, 1, 8, 9]"
  by code_simp

text \<open>A loop without iterations, of a step larger than one, counts as one iteration: its operation is executed.\<close>

theorem empty_loop_executed:
  "loopAddrs [] [\<lparr>loopIv = 1, loopLb = 0, loopUb = 0, loopStep = 2\<rparr>] (\<lambda>v. 0) [Dim (Val 1) (Attr 4) (Attr 1)] = []
    \<and> matchAndRewrite (sampleModel npu1_4col) True noConstants [] (ForOp (sampleFor 0 0 2)) (sampleDma [Dim (Val 1) (Attr 4) (Attr 1)])
      = Inr ([Dim (Attr 0) (Attr 4) (Attr 1)], [])"
  by code_simp

text \<open>A scale that is a symbol is read through a null pointer; a stride that is not a constant aborts the compiler.\<close>

theorem symbolic_scale:
  "scaleAndBias [\<lparr>applyResult = 2, applyExpr = AffineMul (AffineDim 0) (AffineSymbol 0), dimOperands = [1], symOperands = [3]\<rparr>] 2 = Inl OutOfBounds
    \<and> matchAndRewrite (sampleModel npu1_4col) True noConstants [] (ForOp (sampleFor 0 6 2)) (sampleDma [Dim (Attr 0) (Attr 4) (Val 3)]) = Inl Fatal"
  by code_simp

end
