(* ===== verification/Control_Packets.thy ===== *)
theory Control_Packets
  imports Device_Ops
begin

text \<open>
  Control packets: the configuration of the device as packets (AMDAIEConvertDeviceToControlPackets.cpp), the
  splitting of long ones (AMDAIESplitControlPacketData.cpp), and the words and shim transfers that carry
  them (AMDAIEControlPacketToNpuDma.cpp). The transaction that aie-rt exports is the list of its operations;
  the parts of the IR that the last pass looks up (the connections of the CTRL ports) are an argument.
\<close>

section \<open>From a transaction to packets\<close>

datatype CtrlPktOpcode = CtrlWrite | CtrlRead | CtrlWriteRead

fun opcodeValue :: "CtrlPktOpcode \<Rightarrow> u32" where
  "opcodeValue CtrlWrite = 0"
| "opcodeValue CtrlRead = 1"
| "opcodeValue CtrlWriteRead = 2"

record NpuControlPacketOp =
  pktAddress :: u32
  pktLength :: u32
  pktOpcode :: CtrlPktOpcode
  pktStreamId :: u32
  pktData :: "u32 list option"

definition verifyControlPacket :: "NpuControlPacketOp \<Rightarrow> bool" where
  "verifyControlPacket p \<longleftrightarrow> (case pktData p of None \<Rightarrow> True | Some d \<Rightarrow> length d = unat (pktLength p))"

datatype TxnOp = XAIE_IO_WRITE u64 u32 | XAIE_IO_BLOCKWRITE u32 "u32 list" | XAIE_IO_MASKWRITE u64 u32 u32 | OtherTxnOp u8

definition writePacket :: "u64 \<Rightarrow> u32 list \<Rightarrow> NpuControlPacketOp" where
  "writePacket addr data = \<lparr>pktAddress = ucast addr, pktLength = of_nat (length data), pktOpcode = CtrlWrite, pktStreamId = 0, pktData = Some data\<rparr>"

type_synonym emulation = "u64 \<Rightarrow> u32 option"

fun bufferBlock :: "u64 \<Rightarrow> u32 list \<Rightarrow> emulation \<Rightarrow> emulation" where
  "bufferBlock addr [] buf = buf"
| "bufferBlock addr (w # ws) buf = bufferBlock (addr + 4) ws (buf(addr \<mapsto> w))"

text \<open>A masked write keeps the other bits of the last write to its address, when there was one.\<close>

definition maskedValue :: "emulation \<Rightarrow> u64 \<Rightarrow> u32 \<Rightarrow> u32 \<Rightarrow> u32" where
  "maskedValue buf addr value msk = (case buf addr of Some old \<Rightarrow> (old AND NOT msk) OR (value AND msk) | None \<Rightarrow> value)"

fun convertOp :: "TxnOp \<Rightarrow> emulation \<Rightarrow> (NpuControlPacketOp \<times> emulation) result" where
  "convertOp (XAIE_IO_WRITE addr value) buf = Inr (writePacket addr [value], buf(addr \<mapsto> value))"
| "convertOp (XAIE_IO_BLOCKWRITE addr payload) buf = Inr (writePacket (ucast addr) payload, bufferBlock (ucast addr) payload buf)"
| "convertOp (XAIE_IO_MASKWRITE addr value msk) buf =
     Inr (writePacket addr [maskedValue buf addr value msk], buf(addr \<mapsto> maskedValue buf addr value msk))"
| "convertOp (OtherTxnOp opc) buf = Inl Failure"

fun convertOps :: "TxnOp list \<Rightarrow> emulation \<Rightarrow> NpuControlPacketOp list result" where
  "convertOps [] buf = Inr []"
| "convertOps (op # ops) buf = res_bind (convertOp op buf) (\<lambda>(p, buf'). res_bind (convertOps ops buf') (\<lambda>ps. Inr (p # ps)))"

definition convertDeviceToControlPacket :: "TxnOp list \<Rightarrow> NpuControlPacketOp list result" where
  "convertDeviceToControlPacket ops = convertOps ops (\<lambda>_. None)"

section \<open>Splitting\<close>

definition slice_of :: "u32 list option \<Rightarrow> u32 \<Rightarrow> u32 \<Rightarrow> u32 list option result" where
  "slice_of data i n = (case data of None \<Rightarrow> Inr None
     | Some d \<Rightarrow> if unat i + unat n \<le> length d then Inr (Some (take (unat n) (drop (unat i) d))) else Inl OutOfBounds)"

text \<open>The loop over the chunks; the counter can wrap around, so that it would not end.\<close>

partial_function (option) splitLoop :: "u32 \<Rightarrow> NpuControlPacketOp \<Rightarrow> u32 \<Rightarrow> u32 \<Rightarrow> NpuControlPacketOp list result option" where
  [code]: "splitLoop maxLength p i addr =
     (if \<not> i < pktLength p then Some (Inr [])
      else let subLength = min maxLength (pktLength p - i)
           in case slice_of (pktData p) i subLength of
                Inl e \<Rightarrow> Some (Inl e)
              | Inr subData \<Rightarrow> Option.bind (splitLoop maxLength p (i + maxLength) (addr + subLength * 4)) (\<lambda>r.
                  Some (res_bind r (\<lambda>ps. Inr (p\<lparr>pktAddress := addr, pktLength := subLength, pktData := subData\<rparr> # ps)))))"

text \<open>The pattern: \<open>None\<close> inside the option is a failed match, which leaves the packet as it is.\<close>

definition splitPacket :: "u32 \<Rightarrow> NpuControlPacketOp \<Rightarrow> NpuControlPacketOp list result option" where
  "splitPacket maxLength p = (if pktLength p \<le> maxLength then Some (Inr [p]) else splitLoop maxLength p 0 (pktAddress p))"

fun splitPackets :: "u32 \<Rightarrow> NpuControlPacketOp list \<Rightarrow> NpuControlPacketOp list result option" where
  "splitPackets maxLength [] = Some (Inr [])"
| "splitPackets maxLength (p # ps) =
     Option.bind (splitPacket maxLength p) (\<lambda>r. Option.bind (splitPackets maxLength ps) (\<lambda>rs.
       Some (res_bind r (\<lambda>xs. res_bind rs (\<lambda>ys. Inr (xs @ ys))))))"

definition splitControlPacketData :: "AMDAIEDeviceModel \<Rightarrow> NpuControlPacketOp list \<Rightarrow> NpuControlPacketOp list result option" where
  "splitControlPacketData m ps = splitPackets (getCtrlPktMaxLength m) ps"

section \<open>Words and transfers\<close>

text \<open>
  A connection: its identity, the tiles of its source channels, the packet id of its flow (none without a
  flow or without an id).
\<close>

record CtrlConnection =
  connId :: nat
  sourceTiles :: "(int \<times> int) list"
  flowPacketId :: "u8 option"

record CtrlPktBdTransfer =
  btConnection :: CtrlConnection
  btOffset :: nat
  btSize :: nat
  syncBarrier :: bool

record CtrlBuilder =
  ctrlPktSequence :: "u32 list"
  ctrlPktBdTransfers :: "CtrlPktBdTransfer list"
  lastDestTileType :: AMDAIETileType

definition initialBuilder :: CtrlBuilder where
  "initialBuilder = \<lparr>ctrlPktSequence = [], ctrlPktBdTransfers = [], lastDestTileType = TILE_MAX\<rparr>"

text \<open>Whether a packet of so many words can be packed into the last transfer.\<close>

definition packIntoLast :: "AMDAIEDeviceModel \<Rightarrow> CtrlConnection \<Rightarrow> nat \<Rightarrow> CtrlPktBdTransfer list \<Rightarrow> bool result" where
  "packIntoLast m conn headerAndDataLength transfers =
     (if \<not> getCtrlPktTlastErrorDisabled m \<or> transfers = [] then Inr False
      else if connId (btConnection (last transfers)) \<noteq> connId conn then Inr False
      else if \<not> isShimTile m (word_of_int (fst (hd (sourceTiles conn)))) (word_of_int (snd (hd (sourceTiles conn)))) then Inl Failure
      else res_bind (getDmaBdProp m SHIMNOC 0 WrapMax) (\<lambda>v.
        Inr (btSize (last transfers) + (headerAndDataLength + 1) \<le> unat (take_bit 16 v))))"

definition packetHeaderOf :: "AMDAIEDeviceModel \<Rightarrow> CtrlConnection \<Rightarrow> u32 result" where
  "packetHeaderOf m conn = res_bind (res_of_option Failure (flowPacketId conn)) (\<lambda>pid.
     getPacketHeader m (ucast pid) 0 (word_of_int (snd (hd (sourceTiles conn)))) (word_of_int (fst (hd (sourceTiles conn)))))"

definition controlHeaderOf :: "AMDAIEDeviceModel \<Rightarrow> NpuControlPacketOp \<Rightarrow> u32 result" where
  "controlHeaderOf m p = getControlHeader m (getOffsetFromAddress m (pktAddress p)) (pktLength p) (opcodeValue (pktOpcode p)) (pktStreamId p)"

text \<open>The words after the headers: the data in the words reserved for the length.\<close>

definition dataWords :: "NpuControlPacketOp \<Rightarrow> u32 list result" where
  "dataWords p = (case pktData p of None \<Rightarrow> Inl Fatal
     | Some d \<Rightarrow> if length d \<le> unat (pktLength p) then Inr (d @ replicate (unat (pktLength p) - length d) 0) else Inl OutOfBounds)"

definition destOf :: "AMDAIEDeviceModel \<Rightarrow> NpuControlPacketOp \<Rightarrow> int \<times> int" where
  "destOf m p = (sint (getColumnFromAddress m (pktAddress p)), sint (getRowFromAddress m (pktAddress p)))"

definition withBarrier :: "bool \<Rightarrow> CtrlPktBdTransfer list \<Rightarrow> CtrlPktBdTransfer list" where
  "withBarrier b transfers = (if b \<and> transfers \<noteq> [] then butlast transfers @ [(last transfers)\<lparr>syncBarrier := True\<rparr>] else transfers)"

definition growLast :: "nat \<Rightarrow> CtrlPktBdTransfer list \<Rightarrow> CtrlPktBdTransfer list" where
  "growLast n transfers = butlast transfers @ [(last transfers)\<lparr>btSize := btSize (last transfers) + n\<rparr>]"

definition addPacket ::
  "AMDAIEDeviceModel \<Rightarrow> (int \<times> int \<Rightarrow> CtrlConnection option) \<Rightarrow> NpuControlPacketOp \<Rightarrow> CtrlBuilder \<Rightarrow> CtrlBuilder result" where
  "addPacket m tileLocToCtrlConnect p b =
     res_bind (res_of_option Failure (tileLocToCtrlConnect (destOf m p))) (\<lambda>conn.
       if length (sourceTiles conn) \<noteq> 1 then Inl Failure
       else
         (let headerAndDataLength = unat (pktLength p + 1);
              destTileType = getTileType m (word_of_int (fst (destOf m p))) (word_of_int (snd (destOf m p)));
              transfers = withBarrier (lastDestTileType b \<noteq> destTileType) (ctrlPktBdTransfers b)
          in res_bind (packIntoLast m conn headerAndDataLength transfers) (\<lambda>pack.
             res_bind (if pack then res_bind (packetHeaderOf m conn) (\<lambda>h. Inr [h]) else Inr []) (\<lambda>packetHeader.
             res_bind (controlHeaderOf m p) (\<lambda>controlHeader.
             res_bind (dataWords p) (\<lambda>data.
               Inr \<lparr>ctrlPktSequence = ctrlPktSequence b @ packetHeader @ [controlHeader] @ data,
                    ctrlPktBdTransfers = (if pack then growLast (headerAndDataLength + 1) transfers
                      else transfers @ [\<lparr>btConnection = conn, btOffset = length (ctrlPktSequence b), btSize = headerAndDataLength, syncBarrier = False\<rparr>]),
                    lastDestTileType = destTileType\<rparr>))))))"

fun addPackets :: "AMDAIEDeviceModel \<Rightarrow> (int \<times> int \<Rightarrow> CtrlConnection option) \<Rightarrow> NpuControlPacketOp list \<Rightarrow> CtrlBuilder \<Rightarrow> CtrlBuilder result" where
  "addPackets m conns [] b = Inr b"
| "addPackets m conns (p # ps) b = res_bind (addPacket m conns p b) (addPackets m conns ps)"

text \<open>What goes into the control code: a transfer and its wait for every entry, barriers after some.\<close>

datatype ControlCodeOp = NpuDmaTransfer CtrlConnection nat nat | NpuDmaWait | NpuBarrier

definition controlCodeOf :: "CtrlPktBdTransfer list \<Rightarrow> ControlCodeOp list" where
  "controlCodeOf transfers = concat (map (\<lambda>t. [NpuDmaTransfer (btConnection t) (btOffset t) (btSize t), NpuDmaWait]
     @ (if syncBarrier t then [NpuBarrier] else [])) transfers)"

definition convertPacketsToDma ::
  "AMDAIEDeviceModel \<Rightarrow> (int \<times> int \<Rightarrow> CtrlConnection option) \<Rightarrow> NpuControlPacketOp list \<Rightarrow> (u32 list \<times> ControlCodeOp list) result" where
  "convertPacketsToDma m conns ps = res_bind (addPackets m conns ps initialBuilder) (\<lambda>b.
     Inr (ctrlPktSequence b, controlCodeOf (ctrlPktBdTransfers b)))"


section \<open>What a transaction and a packet do to the registers\<close>

text \<open>The registers of the array by their address; consecutive words go to consecutive addresses.\<close>

type_synonym registers = "u32 \<Rightarrow> u32"

fun writeWords :: "u32 \<Rightarrow> u32 list \<Rightarrow> registers \<Rightarrow> registers" where
  "writeWords addr [] regs = regs"
| "writeWords addr (w # ws) regs = writeWords (addr + 4) ws (regs(addr := w))"

fun execTxnOp :: "TxnOp \<Rightarrow> registers \<Rightarrow> registers" where
  "execTxnOp (XAIE_IO_WRITE addr value) regs = regs(ucast addr := value)"
| "execTxnOp (XAIE_IO_BLOCKWRITE addr payload) regs = writeWords addr payload regs"
| "execTxnOp (XAIE_IO_MASKWRITE addr value msk) regs =
     regs(ucast addr := (regs (ucast addr) AND NOT msk) OR (value AND msk))"
| "execTxnOp (OtherTxnOp opc) regs = regs"

definition execPacket :: "NpuControlPacketOp \<Rightarrow> registers \<Rightarrow> registers" where
  "execPacket p regs = (case pktData p of None \<Rightarrow> regs | Some d \<Rightarrow> writeWords (pktAddress p) d regs)"

text \<open>
  When the emulation of masked writes is right: every address is one of the array
  (30 bits: five for the column, five for the row, 20 for the offset), and a register whose first
  write is a masked one holds the bits of the value outside the mask. \<open>seen\<close> are the addresses written
  before.
\<close>

fun emulable :: "registers \<Rightarrow> u64 set \<Rightarrow> TxnOp list \<Rightarrow> bool" where
  "emulable regs0 seen [] \<longleftrightarrow> True"
| "emulable regs0 seen (XAIE_IO_WRITE addr value # ops) \<longleftrightarrow> addr < 2 ^ 30 \<and> emulable regs0 (insert addr seen) ops"
| "emulable regs0 seen (XAIE_IO_BLOCKWRITE addr payload # ops) \<longleftrightarrow>
     unat addr + 4 * length payload \<le> 2 ^ 30
     \<and> emulable regs0 (seen \<union> (\<lambda>i. ucast addr + 4 * of_nat i) ` {..<length payload}) ops"
| "emulable regs0 seen (XAIE_IO_MASKWRITE addr value msk # ops) \<longleftrightarrow>
     addr < 2 ^ 30 \<and> (addr \<in> seen \<or> regs0 (ucast addr) AND NOT msk = value AND NOT msk)
     \<and> emulable regs0 (insert addr seen) ops"
| "emulable regs0 seen (OtherTxnOp opc # ops) \<longleftrightarrow> emulable regs0 seen ops"

text \<open>The buffer knows the addresses written, and holds what their registers hold.\<close>

definition mirrors :: "registers \<Rightarrow> emulation \<Rightarrow> registers \<Rightarrow> bool" where
  "mirrors regs0 buf regs \<longleftrightarrow> (\<forall>a. a < 2 ^ 32 \<longrightarrow> regs (ucast a) = (case buf a of Some v \<Rightarrow> v | None \<Rightarrow> regs0 (ucast a)))"

lemma unat_ucast_below: "(a :: u64) < 2 ^ 32 \<Longrightarrow> unat (ucast a :: u32) = unat a"
  by (simp add: unsigned_ucast_eq take_bit_nat_eq_self_iff word_less_nat_alt)

lemma ucast_inj_below: "(a :: u64) < 2 ^ 32 \<Longrightarrow> b < 2 ^ 32 \<Longrightarrow> (ucast a :: u32) = ucast b \<longleftrightarrow> a = b"
  by (metis unat_ucast_below unsigned_word_eqI)

lemma mirrors_upd:
  "mirrors regs0 buf regs \<Longrightarrow> a < 2 ^ 32 \<Longrightarrow> mirrors regs0 (buf(a \<mapsto> v)) (regs(ucast a := v))"
  by (auto simp: mirrors_def ucast_inj_below)

lemma ucast_add_four: "ucast (a + 4 :: u64) = (ucast a + 4 :: u32)"
  proof transfer
  fix a :: int
  have d: "(4294967296 :: int) dvd 18446744073709551616" by simp
  have "(a mod 18446744073709551616 + 4) mod 4294967296 = ((a mod 18446744073709551616) mod 4294967296 + 4) mod 4294967296"
    by (simp only: mod_add_left_eq)
  then show "take_bit LENGTH(32) (take_bit LENGTH(64) (a + 4)) = take_bit LENGTH(32) (take_bit LENGTH(64) a + 4)"
    using d by (simp add: take_bit_eq_mod mod_mod_cancel mod_add_left_eq)
qed

lemma mirrors_block:
  "mirrors regs0 buf regs \<Longrightarrow> unat a + 4 * length ws \<le> 2 ^ 32 \<Longrightarrow>
   mirrors regs0 (bufferBlock a ws buf) (writeWords (ucast a) ws regs)
   \<and> dom (bufferBlock a ws buf) = dom buf \<union> (\<lambda>i. a + 4 * of_nat i) ` {..<length ws}"
proof (induction ws arbitrary: a buf regs)
  case (Cons w ws)
  have a: "a < 2 ^ 32" using Cons.prems(2) by (simp add: word_less_nat_alt)
  have s: "unat (a + 4) = unat a + 4" using Cons.prems(2) by (simp add: unat_word_ariths)
  have i: "(\<lambda>i. a + 4 * of_nat i) ` {..<length (w # ws)} = insert a ((\<lambda>i. a + 4 + 4 * of_nat i) ` {..<length ws})"
    by (auto simp: image_iff lessThan_Suc_eq_insert_0 algebra_simps)
  have u: "(ucast (a + 4) :: u32) = ucast a + 4" by (rule ucast_add_four)
  have m: "mirrors regs0 (buf(a \<mapsto> w)) (regs(ucast a := w))" by (rule mirrors_upd [OF Cons.prems(1) a])
  have l: "unat (a + 4) + 4 * length ws \<le> 2 ^ 32" using Cons.prems(2) s by simp
  have d: "dom (buf(a \<mapsto> w)) = insert a (dom buf)" by simp
  show ?case using Cons.IH [OF m l]
    by (simp only: i d u bufferBlock.simps writeWords.simps) auto
qed auto

text \<open>A well-formed write packet whose words all lie in the array.\<close>

definition writesArray :: "NpuControlPacketOp \<Rightarrow> bool" where
  "writesArray p \<longleftrightarrow> pktOpcode p = CtrlWrite \<and> verifyControlPacket p \<and> unat (pktLength p) \<le> 2 ^ 28
     \<and> (\<forall>i < unat (pktLength p). unat (pktAddress p) + 4 * i < 2 ^ 30)"

lemma writesArray_writePacket:
  assumes "length d = 1 \<and> a < 2 ^ 30 \<or> unat a + 4 * length d \<le> 2 ^ 30"
  shows "writesArray (writePacket a d)"
proof -
  have n: "length d \<le> 2 ^ 28" using assms by auto
  then have l: "unat (of_nat (length d) :: u32) = length d"
    by (simp add: unat_of_nat take_bit_nat_eq_self_iff)
  have "unat a + 4 * i < 2 ^ 30" if "i < length d" for i
    using assms that by (auto simp: word_less_nat_alt)
  moreover have "unat (ucast a :: u32) \<le> unat a" by (simp add: unsigned_ucast_eq)
  ultimately have "unat (ucast a :: u32) + 4 * i < 2 ^ 30" if "i < length d" for i
    using that by (meson add_le_mono1 le_less_trans)
  then show ?thesis using l n by (simp add: writesArray_def verifyControlPacket_def writePacket_def)
qed

lemma convert_refines:
  "convertOps ops buf = Inr ps \<Longrightarrow> mirrors regs0 buf regs \<Longrightarrow> emulable regs0 (dom buf) ops \<Longrightarrow>
   fold execPacket ps regs = fold execTxnOp ops regs \<and> (\<forall>p \<in> set ps. writesArray p)"
proof (induction ops arbitrary: buf ps regs)
  case (Cons op ops)
  obtain p buf' ps' where p: "convertOp op buf = Inr (p, buf')" "convertOps ops buf' = Inr ps'" "ps = p # ps'"
    using Cons.prems(1) by auto
  have "execPacket p regs = execTxnOp op regs \<and> mirrors regs0 buf' (execTxnOp op regs)
      \<and> emulable regs0 (dom buf') ops \<and> writesArray p"
  proof (cases op)
    case (XAIE_IO_WRITE addr v)
    have a: "addr < 2 ^ 30" "addr < 2 ^ 32" using Cons.prems(3) XAIE_IO_WRITE by (auto simp: word_less_nat_alt)
    show ?thesis
      using p(1) Cons.prems mirrors_upd [OF Cons.prems(2) a(2), of v] writesArray_writePacket [of "[v]" addr] a
      unfolding XAIE_IO_WRITE by (auto simp: execPacket_def writePacket_def)
  next
    case (XAIE_IO_BLOCKWRITE addr payload)
    have "unat addr < 2 ^ LENGTH(32)" by (rule unsigned_less)
    then have a: "unat (ucast addr :: u64) = unat addr" by (simp add: unsigned_ucast_eq take_bit_nat_eq_self_iff)
    have l: "unat addr + 4 * length payload \<le> 2 ^ 30" using Cons.prems(3) XAIE_IO_BLOCKWRITE by simp
    have c: "ucast (ucast addr :: u64) = addr" by (rule bit_word_eqI) (simp add: bit_simps)
    have m: "mirrors regs0 (bufferBlock (ucast addr) payload buf) (writeWords addr payload regs)
        \<and> dom (bufferBlock (ucast addr) payload buf) = dom buf \<union> (\<lambda>i. ucast addr + 4 * of_nat i) ` {..<length payload}"
      using mirrors_block [OF Cons.prems(2), of "ucast addr" payload] a l c by simp
    show ?thesis
      using p(1) Cons.prems m writesArray_writePacket [of payload "ucast addr"] a l
      unfolding XAIE_IO_BLOCKWRITE by (auto simp: execPacket_def writePacket_def c)
  next
    case (XAIE_IO_MASKWRITE addr v msk)
    have a: "addr < 2 ^ 30" "addr < 2 ^ 32" using Cons.prems(3) XAIE_IO_MASKWRITE by (auto simp: word_less_nat_alt)
    have "maskedValue buf addr v msk = (regs (ucast addr) AND NOT msk) OR (v AND msk)"
    proof (cases "buf addr")
      case None
      then have "regs (ucast addr) = regs0 (ucast addr)" "addr \<notin> dom buf"
        using Cons.prems(2) a(2) by (auto simp: mirrors_def)
      then have "regs (ucast addr) AND NOT msk = v AND NOT msk"
        using Cons.prems(3) XAIE_IO_MASKWRITE by simp
      then show ?thesis using None by (simp add: maskedValue_def bit_eq_iff bit_simps) blast
    next
      case (Some old)
      then show ?thesis using Cons.prems(2) a(2) by (simp add: mirrors_def maskedValue_def)
    qed
    then show ?thesis
      using p(1) Cons.prems mirrors_upd [OF Cons.prems(2) a(2), of "maskedValue buf addr v msk"]
        writesArray_writePacket [of "[maskedValue buf addr v msk]" addr] a
      unfolding XAIE_IO_MASKWRITE by (auto simp: execPacket_def writePacket_def)
  next
    case (OtherTxnOp opc)
    then show ?thesis using p(1) by simp
  qed
  with Cons.IH [OF p(2), of "execTxnOp op regs"] p(3) show ?case by auto
qed simp


section \<open>Splitting keeps the effect\<close>

lemma writeWords_append:
  "writeWords a (xs @ ys) regs = writeWords (a + 4 * of_nat (length xs)) ys (writeWords a xs regs)"
  by (induction xs arbitrary: a regs) (simp_all add: algebra_simps)

text \<open>The packet without its first \<open>i\<close> words.\<close>

definition restOf :: "NpuControlPacketOp \<Rightarrow> nat \<Rightarrow> registers \<Rightarrow> registers" where
  "restOf p i regs = (case pktData p of None \<Rightarrow> regs
     | Some d \<Rightarrow> writeWords (pktAddress p + 4 * of_nat i) (drop i d) regs)"

definition fits :: "u32 \<Rightarrow> NpuControlPacketOp \<Rightarrow> bool" where
  "fits maxLength q \<longleftrightarrow> writesArray q \<and> pktLength q \<le> maxLength"

lemma chunk_fits:
  assumes "writesArray p" and i: "unat i < unat (pktLength p)" and n: "unat n = min (unat maxLength) (unat (pktLength p) - unat i)"
    and "addr = pktAddress p + 4 * i" and sub: "sub = map_option (\<lambda>d. take (unat n) (drop (unat i) d)) (pktData p)"
  shows "fits maxLength (p\<lparr>pktAddress := addr, pktLength := n, pktData := sub\<rparr>)"
proof -
  have p: "pktOpcode p = CtrlWrite" "verifyControlPacket p" "unat (pktLength p) \<le> 2 ^ 28" "\<And>k. k < unat (pktLength p) \<Longrightarrow> unat (pktAddress p) + 4 * k < 2 ^ 30"
    using assms(1) by (auto simp: writesArray_def)
  have a: "unat addr = unat (pktAddress p) + 4 * unat i"
    using p(4) [OF i] assms(4) by (simp add: unat_word_ariths)
  have "unat addr + 4 * k < 2 ^ 30" if "k < unat n" for k
  proof -
    have "k < unat (pktLength p) - unat i" using that n by simp
    then have "unat i + k < unat (pktLength p)" by simp
    from p(4) [OF this] a show ?thesis by simp
  qed
  moreover have "(case sub of None \<Rightarrow> True | Some d \<Rightarrow> length d = unat n)"
    using p(2) i n sub by (auto simp: verifyControlPacket_def split: option.splits)
  moreover have "unat n \<le> unat maxLength" "unat n \<le> 2 ^ 28" using n p(3) by simp_all
  ultimately show ?thesis using p(1) by (cases sub) (simp_all add: fits_def writesArray_def verifyControlPacket_def word_le_nat_alt)
qed

lemma chunk_then_rest:
  assumes "writesArray p" and i: "unat i < unat (pktLength p)" and n: "unat n = min (unat maxLength) (unat (pktLength p) - unat i)"
    and j: "unat (i + maxLength) = unat i + unat maxLength"
  shows "restOf p (unat (i + maxLength)) (execPacket (p\<lparr>pktAddress := pktAddress p + 4 * i, pktLength := n,
      pktData := map_option (\<lambda>d. take (unat n) (drop (unat i) d)) (pktData p)\<rparr>) regs) = restOf p (unat i) regs"
proof (cases "pktData p")
  case None
  then show ?thesis by (simp add: restOf_def execPacket_def)
next
  case (Some d)
  define k where "k = unat maxLength"
  have len: "length d = unat (pktLength p)" using assms(1) Some by (simp add: writesArray_def verifyControlPacket_def)
  have nk: "unat n = min k (length d - unat i)" using n len by (simp add: k_def)
  have t: "take (unat n) (drop (unat i) d) = take k (drop (unat i) d)"
    unfolding nk by (simp add: min_def)
  have "writeWords (pktAddress p + 4 * i) (drop (unat i) d) regs
      = writeWords (pktAddress p + 4 * i) (take k (drop (unat i) d) @ drop k (drop (unat i) d)) regs"
    by (simp only: append_take_drop_id)
  also have "\<dots> = writeWords (pktAddress p + 4 * i + 4 * of_nat (unat n)) (drop (unat i + k) d)
      (writeWords (pktAddress p + 4 * i) (take k (drop (unat i) d)) regs)"
    unfolding writeWords_append by (simp add: nk min.commute add.commute)
  also have "\<dots> = writeWords (pktAddress p + 4 * of_nat (unat i + k)) (drop (unat i + k) d)
      (writeWords (pktAddress p + 4 * i) (take k (drop (unat i) d)) regs)"
  proof (cases "k \<le> length d - unat i")
    case True
    then have "unat n = k" using nk by simp
    then show ?thesis by (simp add: algebra_simps)
  next
    case False
    then show ?thesis by simp
  qed
  finally show ?thesis using Some t by (simp add: restOf_def execPacket_def j k_def)
qed

lemma splitLoop_refines:
  assumes "0 < maxLength" and "maxLength \<le> 2 ^ 28" and p: "writesArray p"
  shows "i \<le> pktLength p + maxLength \<Longrightarrow> (i < pktLength p \<longrightarrow> addr = pktAddress p + 4 * i) \<Longrightarrow>
    \<exists>qs. splitLoop maxLength p i addr = Some (Inr qs) \<and> (\<forall>q \<in> set qs. fits maxLength q)
      \<and> (\<forall>regs. fold execPacket qs regs = restOf p (unat i) regs)"
proof (induction "unat (pktLength p) + unat maxLength - unat i" arbitrary: i addr rule: less_induct)
  case less
  have len: "unat (pktLength p) \<le> 2 ^ 28" "verifyControlPacket p" and mx: "unat maxLength \<le> 2 ^ 28" "0 < unat maxLength"
    using assms by (auto simp: writesArray_def word_le_nat_alt word_less_nat_alt)
  show ?case
  proof (cases "i < pktLength p")
    case False
    then have "restOf p (unat i) regs = regs" for regs
      using len(2) by (auto simp: restOf_def verifyControlPacket_def not_less word_le_nat_alt split: option.splits)
    then show ?thesis using False by (intro exI [of _ "[]"]) (simp add: splitLoop.simps [of maxLength p i])
  next
    case True
    define n where "n = min maxLength (pktLength p - i)"
    have i: "unat i < unat (pktLength p)" using True by (simp add: word_less_nat_alt)
    have d: "unat (pktLength p - i) = unat (pktLength p) - unat i" using True by (intro unat_sub) simp
    then have n: "unat n = min (unat maxLength) (unat (pktLength p) - unat i)"
      by (simp add: n_def min_def word_le_nat_alt)
    have j: "unat (i + maxLength) = unat i + unat maxLength" using i len mx by (simp add: unat_word_ariths)
    define sub where "sub = map_option (\<lambda>d. take (unat n) (drop (unat i) d)) (pktData p)"
    have s: "slice_of (pktData p) i n = Inr sub"
      using len(2) i n by (auto simp: slice_of_def sub_def verifyControlPacket_def split: option.splits)
    define q where "q = p\<lparr>pktAddress := addr, pktLength := n, pktData := sub\<rparr>"
    have next_i: "i + maxLength \<le> pktLength p + maxLength"
      using i j len mx by (simp add: word_le_nat_alt unat_word_ariths)
    have next_addr: "i + maxLength < pktLength p \<longrightarrow> addr + n * 4 = pktAddress p + 4 * (i + maxLength)"
    proof
      assume "i + maxLength < pktLength p"
      then have "unat n = unat maxLength" using j n by (simp add: word_less_nat_alt)
      then have "n = maxLength" by (rule unsigned_word_eqI)
      then show "addr + n * 4 = pktAddress p + 4 * (i + maxLength)" using less.prems(2) True by (simp add: algebra_simps)
    qed
    have dec: "unat (pktLength p) + unat maxLength - unat (i + maxLength) < unat (pktLength p) + unat maxLength - unat i"
      using i j mx by simp
    obtain qs where qs: "splitLoop maxLength p (i + maxLength) (addr + n * 4) = Some (Inr qs)"
      "\<forall>q \<in> set qs. fits maxLength q" "\<And>regs. fold execPacket qs regs = restOf p (unat (i + maxLength)) regs"
      using less.hyps [OF dec next_i next_addr] by blast
    have "splitLoop maxLength p i addr = Some (Inr (q # qs))"
      using True s qs(1) by (simp add: splitLoop.simps [of maxLength p i] n_def q_def Let_def)
    moreover have "fits maxLength q"
      unfolding q_def by (rule chunk_fits) (use p True less.prems(2) n sub_def i in auto)
    moreover have "fold execPacket (q # qs) regs = restOf p (unat i) regs" for regs
      using chunk_then_rest [OF p i n j, of regs] less.prems(2) True qs(3) by (simp add: q_def sub_def)
    ultimately show ?thesis using qs(2) by (intro exI [of _ "q # qs"]) simp
  qed
qed

lemma splitPacket_refines:
  assumes "0 < maxLength" and "maxLength \<le> 2 ^ 28" and "writesArray p"
  shows "\<exists>qs. splitPacket maxLength p = Some (Inr qs) \<and> (\<forall>q \<in> set qs. fits maxLength q)
    \<and> (\<forall>regs. fold execPacket qs regs = execPacket p regs)"
proof (cases "pktLength p \<le> maxLength")
  case True
  then show ?thesis using assms(3) by (intro exI [of _ "[p]"]) (simp add: splitPacket_def fits_def)
next
  case False
  have "restOf p (unat (0 :: u32)) regs = execPacket p regs" for regs
    by (simp add: restOf_def execPacket_def split: option.splits)
  moreover have "(0 :: u32) \<le> pktLength p + maxLength" by simp
  ultimately show ?thesis using splitLoop_refines [OF assms, of 0 "pktAddress p"] False by (simp add: splitPacket_def)
qed

lemma split_refines:
  assumes "0 < maxLength" and "maxLength \<le> 2 ^ 28"
  shows "\<forall>p \<in> set ps. writesArray p \<Longrightarrow> \<exists>qs. splitPackets maxLength ps = Some (Inr qs)
    \<and> (\<forall>q \<in> set qs. fits maxLength q) \<and> (\<forall>regs. fold execPacket qs regs = fold execPacket ps regs)"
proof (induction ps)
  case (Cons p ps)
  obtain qs where qs: "splitPacket maxLength p = Some (Inr qs)" "\<forall>q \<in> set qs. fits maxLength q"
      "\<And>regs. fold execPacket qs regs = execPacket p regs"
    using splitPacket_refines [OF assms, of p] Cons.prems by auto
  obtain rs where rs: "splitPackets maxLength ps = Some (Inr rs)" "\<forall>q \<in> set rs. fits maxLength q"
      "\<And>regs. fold execPacket rs regs = fold execPacket ps regs"
    using Cons by auto
  show ?case by (rule exI [of _ "qs @ rs"]) (use qs rs in auto)
qed simp


section \<open>What a tile makes of the words\<close>

text \<open>
  The words of a transfer as a tile reads them: control header, data, and between two packets the packet
  header of the next; the first packet header is the shim DMA's. A packet is its packet header, opcode,
  offset and data.
\<close>

definition beats :: "u32 \<Rightarrow> nat" where
  "beats header = unat (take_bit 2 (drop_bit 20 header) + 1)"

type_synonym received = "u32 option \<times> u32 \<times> u32 \<times> u32 list"

function decode :: "u32 option \<Rightarrow> u32 list \<Rightarrow> received list" where
  "decode ph [] = []"
| "decode ph (h # ws) = (ph, take_bit 2 (drop_bit 22 h), take_bit 20 h, take (beats h) ws) #
     (case drop (beats h) ws of [] \<Rightarrow> [] | ph' # rest \<Rightarrow> decode (Some ph') rest)"
  by pat_completeness auto
termination decode
proof (relation "measure (\<lambda>(ph, ws). length ws)")
  fix h :: u32 and ws rest :: "u32 list" and ph' :: u32 and ph :: "u32 option"
  assume "drop (beats h) ws = ph' # rest"
  then have "length (drop (beats h) ws) = Suc (length rest)" by simp
  then show "((Some ph', rest), ph, h # ws) \<in> measure (\<lambda>(ph, ws). length ws)" by simp
qed simp

definition tileAddress :: "AMDAIEDeviceModel \<Rightarrow> int \<times> int \<Rightarrow> u32 \<Rightarrow> u32" where
  "tileAddress m tile offs = push_bit (unat (getColumnShift m)) (word_of_int (fst tile))
     OR push_bit (unat (getRowShift m)) (word_of_int (snd tile)) OR offs"

text \<open>
  A packet arrives at the tile of its connection when its header has the packet id of the flow, and a
  write packet is executed there.
\<close>

fun deliver :: "AMDAIEDeviceModel \<Rightarrow> (CtrlConnection \<Rightarrow> int \<times> int) \<Rightarrow> CtrlConnection \<Rightarrow> received \<Rightarrow> registers \<Rightarrow> registers" where
  "deliver m target conn (header, opc, offs, data) regs =
     (if (case header of None \<Rightarrow> True | Some h \<Rightarrow> flowPacketId conn = Some (ucast (take_bit 5 h))) \<and> opc = 0
      then writeWords (tileAddress m (target conn) offs) data regs else regs)"

fun execControlCode ::
  "AMDAIEDeviceModel \<Rightarrow> (CtrlConnection \<Rightarrow> int \<times> int) \<Rightarrow> u32 list \<Rightarrow> ControlCodeOp list \<Rightarrow> registers \<Rightarrow> registers" where
  "execControlCode m target seq [] regs = regs"
| "execControlCode m target seq (NpuDmaTransfer conn offs n # ops) regs =
     execControlCode m target seq ops (fold (deliver m target conn) (decode None (take n (drop offs seq))) regs)"
| "execControlCode m target seq (NpuDmaWait # ops) regs = execControlCode m target seq ops regs"
| "execControlCode m target seq (NpuBarrier # ops) regs = execControlCode m target seq ops regs"

text \<open>Words that end with a packet.\<close>

inductive complete :: "u32 list \<Rightarrow> received list \<Rightarrow> bool" where
  first: "beats h = length d \<Longrightarrow> complete (h # d) [(None, take_bit 2 (drop_bit 22 h), take_bit 20 h, d)]"
| more: "complete ws is \<Longrightarrow> beats h = length d \<Longrightarrow>
    complete (ws @ ph # h # d) (is @ [(Some ph, take_bit 2 (drop_bit 22 h), take_bit 20 h, d)])"

lemma decode_complete:
  "complete ws is \<Longrightarrow> decode None (ws @ rest) = is @ (case rest of [] \<Rightarrow> [] | ph # r \<Rightarrow> decode (Some ph) r)"
proof (induction arbitrary: rest rule: complete.induct)
  case (more ws "is" h d ph)
  have "decode None ((ws @ ph # h # d) @ rest) = is @ decode (Some ph) (h # d @ rest)"
    using more.IH [of "ph # h # d @ rest"] by simp
  then show ?case using more.hyps by simp
qed simp

lemma complete_decode: "complete ws is \<Longrightarrow> decode None ws = is"
  using decode_complete [of ws "is" "[]"] by simp

text \<open>The connections of the tiles are told apart by their identity and serve one tile each.\<close>

definition conns_ok :: "(int \<times> int \<Rightarrow> CtrlConnection option) \<Rightarrow> (CtrlConnection \<Rightarrow> int \<times> int) \<Rightarrow> bool" where
  "conns_ok conns target \<longleftrightarrow>
     (\<forall>a b c d. conns a = Some c \<and> conns b = Some d \<and> connId c = connId d \<longrightarrow> c = d)
     \<and> (\<forall>a c. conns a = Some c \<longrightarrow> target c = a)"

lemma conns_ok_target: "conns_ok conns target \<Longrightarrow> conns a = Some c \<Longrightarrow> target c = a"
  unfolding conns_ok_def by blast

text \<open>The formats and the address layout of the devices.\<close>

definition ctrl_formats :: "AMDAIEDeviceModel \<Rightarrow> bool" where
  "ctrl_formats m \<longleftrightarrow> packet_fields_fit m \<and> controlHeaderFormat m = controlHeaderFormatInit
     \<and> ColShift (configPtr m) = 25 \<and> RowShift (configPtr m) = 20"

lemma packet_header_id:
  assumes "packet_fields_fit m" and h: "getPacketHeader m (ucast pid) 0 r c = Inr h"
  shows "ucast (take_bit 5 h) = (pid :: u8)"
proof -
  obtain nr nc where d: "rows m = Inr nr" "columns m = Inr nc" "nr \<le> 32" "nc \<le> 128"
    using assms(1) by (auto simp: packet_fields_fit_def)
  have fit: "packetHeaderFormat m = packetHeaderFormatInit" "uint (getPacketIdMaxIdx m) \<le> 31"
    using assms(1) by (auto simp: packet_fields_fit_def word_le_def)
  have range: "uint r < nr" "uint c < nc" "(ucast pid :: u32) \<le> ucast (getPacketIdMaxIdx m)"
    and h_def: "h = setOddParityBit (push_bit 21 c OR push_bit 16 r OR push_bit 12 0 OR push_bit 0 (ucast pid))"
    using h d fit by (auto simp: getPacketHeader_def packetHeaderFormatInit_def split: if_splits)
  have u: "uint c < 2 ^ 7" "uint r < 2 ^ 5" "uint (0 :: u32) < 2 ^ 3" "uint (ucast pid :: u32) < 2 ^ 5"
    using range d fit le_ucast_uint [OF range(3)] by simp_all
  have "take_bit 5 h = ucast pid"
    by (rule packet_header_fields(1) [OF uint_bits [OF u(1)] uint_bits [OF u(2)] uint_bits [OF u(3)] uint_bits [OF u(4)] h_def])
  then show ?thesis by (simp add: bit_eq_iff bit_simps)
qed

lemma tile_address_parts:
  assumes "ctrl_formats m" and "unat (pktAddress p) < 2 ^ 30"
  shows "tileAddress m (destOf m p) (getOffsetFromAddress m (pktAddress p)) = pktAddress p"
proof -
  have "tileAddress m (destOf m p) (getOffsetFromAddress m (pktAddress p)) = take_bit 30 (pktAddress p)"
    using address_parts [of m 30 "pktAddress p"] assms(1) by (simp add: tileAddress_def destOf_def ctrl_formats_def)
  moreover have "unat (take_bit 30 (pktAddress p)) = unat (pktAddress p)"
    using assms(2) by (simp add: unsigned_take_bit_eq take_bit_nat_eq_self_iff)
  ultimately show ?thesis by (metis unsigned_word_eqI)
qed


lemma packet_delivered:
  assumes m: "ctrl_formats m" and p: "writesArray p" and "target conn = destOf m p"
    and h: "controlHeaderOf m p = Inr h" and d: "dataWords p = Inr d"
    and ph: "case ph of None \<Rightarrow> True | Some x \<Rightarrow> flowPacketId conn = Some (ucast (take_bit 5 x))"
  shows "beats h = length d \<and> 1 \<le> length d \<and> length d \<le> 4 \<and> length d = unat (pktLength p)
    \<and> deliver m target conn (ph, take_bit 2 (drop_bit 22 h), take_bit 20 h, d) regs = execPacket p regs"
proof -
  have "controlHeaderFormat m = controlHeaderFormatInit" "getPacketIdMaxIdx m \<le> 31"
    using m by (auto simp: ctrl_formats_def packet_fields_fit_def)
  note r = control_header_read [OF this h [unfolded controlHeaderOf_def]]
  have o: "pktOpcode p = CtrlWrite" and v: "verifyControlPacket p"
    and b: "\<And>i. i < unat (pktLength p) \<Longrightarrow> unat (pktAddress p) + 4 * i < 2 ^ 30"
    using p by (auto simp: writesArray_def)
  obtain e where e: "pktData p = Some e" using d by (cases "pktData p") (auto simp: dataWords_def)
  then have len: "length e = unat (pktLength p)" using v by (simp add: verifyControlPacket_def)
  then have de: "d = e" using d e by (simp add: dataWords_def)
  have n: "1 \<le> unat (pktLength p)" "unat (pktLength p) \<le> 4" 
  proof -
    have "int (unat (pktLength p)) = uint (pktLength p)" by simp
    then show "1 \<le> unat (pktLength p)" "unat (pktLength p) \<le> 4" using r by linarith+
  qed
  have a: "tileAddress m (destOf m p) (getOffsetFromAddress m (pktAddress p)) = pktAddress p"
    by (rule tile_address_parts [OF m]) (use b [of 0] n in simp)
  have "beats h = length d" using r len de by (simp add: beats_def)
  moreover have "deliver m target conn (ph, take_bit 2 (drop_bit 22 h), take_bit 20 h, d) regs = execPacket p regs"
    using r o ph a e de assms(3) by (simp add: execPacket_def)
  ultimately show ?thesis using len de n by simp
qed

section \<open>The packets in the transfers\<close>

text \<open>
  A transfer carries packets: its words are in the sequence, end with a packet, and a tile that reads them
  executes these packets.
\<close>

definition carries ::
  "AMDAIEDeviceModel \<Rightarrow> (int \<times> int \<Rightarrow> CtrlConnection option) \<Rightarrow> (CtrlConnection \<Rightarrow> int \<times> int) \<Rightarrow> u32 list
     \<Rightarrow> CtrlPktBdTransfer \<Rightarrow> NpuControlPacketOp list \<Rightarrow> bool" where
  "carries m conns target seq t g \<longleftrightarrow> btOffset t + btSize t \<le> length seq
     \<and> btConnection t \<in> ran conns
     \<and> (\<exists>is. complete (take (btSize t) (drop (btOffset t) seq)) is
          \<and> (\<forall>regs. fold (deliver m target (btConnection t)) is regs = fold execPacket g regs))"

definition streamOk ::
  "AMDAIEDeviceModel \<Rightarrow> (int \<times> int \<Rightarrow> CtrlConnection option) \<Rightarrow> (CtrlConnection \<Rightarrow> int \<times> int) \<Rightarrow> CtrlBuilder
     \<Rightarrow> NpuControlPacketOp list \<Rightarrow> bool" where
  "streamOk m conns target b ps \<longleftrightarrow> (\<exists>gs. concat gs = ps
     \<and> list_all2 (carries m conns target (ctrlPktSequence b)) (ctrlPktBdTransfers b) gs
     \<and> (ctrlPktBdTransfers b \<noteq> [] \<longrightarrow>
          btOffset (last (ctrlPktBdTransfers b)) + btSize (last (ctrlPktBdTransfers b)) = length (ctrlPktSequence b)))"

lemma carries_longer:
  assumes "carries m conns target seq t g" shows "carries m conns target (seq @ ws) t g"
proof -
  have l: "btOffset t + btSize t \<le> length seq" using assms by (simp add: carries_def)
  then have "take (btSize t) (drop (btOffset t) (seq @ ws)) = take (btSize t) (drop (btOffset t) seq)" by simp
  then show ?thesis using assms by (simp add: carries_def)
qed

lemma carries_barrier [simp]: "carries m conns target seq (t\<lparr>syncBarrier := x\<rparr>) g \<longleftrightarrow> carries m conns target seq t g"
  by (simp add: carries_def)

lemma list_all2_snoc: "list_all2 P (xs @ [x]) ys \<longleftrightarrow> (\<exists>zs z. ys = zs @ [z] \<and> list_all2 P xs zs \<and> P x z)"
proof
  assume "list_all2 P (xs @ [x]) ys"
  then show "\<exists>zs z. ys = zs @ [z] \<and> list_all2 P xs zs \<and> P x z"
    by (auto simp: list_all2_append1 list_all2_Cons1)
qed (auto intro: list_all2_appendI)

lemma carried_barrier:
  "list_all2 (carries m conns target seq) ts gs \<Longrightarrow> list_all2 (carries m conns target seq) (withBarrier x ts) gs"
  by (cases ts rule: rev_cases) (auto simp: withBarrier_def list_all2_snoc)

lemma last_barrier: "ts \<noteq> [] \<Longrightarrow> last (withBarrier x ts) = (last ts)\<lparr>syncBarrier := x \<or> syncBarrier (last ts)\<rparr>"
  by (auto simp: withBarrier_def)

lemma withBarrier_Nil [simp]: "withBarrier x ts = [] \<longleftrightarrow> ts = []"
  by (auto simp: withBarrier_def)

lemma carries_new:
  assumes m: "ctrl_formats m" and p: "writesArray p" and conn: "conns (destOf m p) = Some conn" and ok: "conns_ok conns target"
    and h: "controlHeaderOf m p = Inr h" and d: "dataWords p = Inr d"
  shows "carries m conns target (seq @ [h] @ d)
    \<lparr>btConnection = conn, btOffset = length seq, btSize = unat (pktLength p + 1), syncBarrier = False\<rparr> [p]"
proof -
  have t: "target conn = destOf m p" by (rule conns_ok_target [OF ok conn])
  note q = packet_delivered [where target = target and conn = conn and ph = None, OF m p t h d, simplified option.case, OF TrueI]
  have l: "length d = unat (pktLength p)" "length d \<le> 4" using q by blast+
  then have n: "unat (pktLength p + 1) = length d + 1" by (simp add: unat_word_ariths)
  have "complete (h # d) [(None, take_bit 2 (drop_bit 22 h), take_bit 20 h, d)]" by (rule complete.first) (use q in simp)
  moreover have "fold (deliver m target conn) [(None, take_bit 2 (drop_bit 22 h), take_bit 20 h, d)] regs = fold execPacket [p] regs" for regs
    using q by simp
  ultimately show ?thesis using ranI [of conns "destOf m p" conn] conn n
    by (auto simp: carries_def simp del: fold.simps intro!: exI [of _ "[(None, take_bit 2 (drop_bit 22 h), take_bit 20 h, d)]"])
qed

lemma carries_grown:
  assumes m: "ctrl_formats m" and p: "writesArray p" and conn: "conns (destOf m p) = Some conn" and ok: "conns_ok conns target"
    and h: "controlHeaderOf m p = Inr h" and d: "dataWords p = Inr d" and ph: "packetHeaderOf m conn = Inr ph"
    and t: "carries m conns target seq t g" "connId (btConnection t) = connId conn" "btOffset t + btSize t = length seq"
  shows "carries m conns target (seq @ [ph] @ [h] @ d) (t\<lparr>btSize := btSize t + (unat (pktLength p + 1) + 1)\<rparr>) (g @ [p])"
proof -
  have tc: "target conn = destOf m p" by (rule conns_ok_target [OF ok conn])
  have same: "btConnection t = conn" using ok conn t(1,2) unfolding conns_ok_def carries_def ran_def by blast
  have "case Some ph of None \<Rightarrow> True | Some x \<Rightarrow> flowPacketId conn = Some (ucast (take_bit 5 x))"
    using ph packet_header_id m by (auto simp: packetHeaderOf_def ctrl_formats_def)
  note q = packet_delivered [where target = target and conn = conn, OF m p tc h d this]
  have l: "length d = unat (pktLength p)" "length d \<le> 4" using q by blast+
  then have n: "unat (pktLength p + 1) = length d + 1" by (simp add: unat_word_ariths)
  obtain "is" where i: "complete (take (btSize t) (drop (btOffset t) seq)) is"
      "\<And>regs. fold (deliver m target conn) is regs = fold execPacket g regs"
    using t(1) same by (auto simp: carries_def)
  define item where "item = (Some ph, take_bit 2 (drop_bit 22 h), take_bit 20 h, d)"
  have "take (btSize t + (length d + 2)) (drop (btOffset t) (seq @ ph # h # d)) = take (btSize t) (drop (btOffset t) seq) @ ph # h # d"
    using t(3) by (simp add: min_def)
  moreover have "complete (take (btSize t) (drop (btOffset t) seq) @ ph # h # d) (is @ [item])"
    unfolding item_def by (rule complete.more [OF i(1)]) (use q in simp)
  moreover have "fold (deliver m target conn) (is @ [item]) regs = fold execPacket (g @ [p]) regs" for regs
    using i(2) q by (simp add: item_def del: deliver.simps)
  ultimately show ?thesis using t(1,3) same n conn
    by (auto simp: carries_def simp del: fold_append intro!: exI [of _ "is @ [item]"])
qed

lemma guard_Inr_iff: "(if c then Inl e else r) = Inr x \<longleftrightarrow> \<not> c \<and> r = Inr x"
  by simp

abbreviation destType :: "AMDAIEDeviceModel \<Rightarrow> NpuControlPacketOp \<Rightarrow> AMDAIETileType" where
  "destType m p \<equiv> getTileType m (word_of_int (fst (destOf m p))) (word_of_int (snd (destOf m p)))"

lemma addPacket_cases:
  assumes a: "addPacket m conns p b = Inr b'"
  obtains conn pack phs h d ts n where "conns (destOf m p) = Some conn"
    and "ts = withBarrier (lastDestTileType b \<noteq> destType m p) (ctrlPktBdTransfers b)" and "n = unat (pktLength p + 1)"
    and "packIntoLast m conn n ts = Inr pack"
    and "(if pack then res_bind (packetHeaderOf m conn) (\<lambda>h. Inr [h]) else Inr []) = Inr phs"
    and "controlHeaderOf m p = Inr h" and "dataWords p = Inr d"
    and "b' = \<lparr>ctrlPktSequence = ctrlPktSequence b @ phs @ [h] @ d,
      ctrlPktBdTransfers = (if pack then growLast (n + 1) ts
        else ts @ [\<lparr>btConnection = conn, btOffset = length (ctrlPktSequence b), btSize = n, syncBarrier = False\<rparr>]),
      lastDestTileType = destType m p\<rparr>"
  using a unfolding addPacket_def Let_def res_bind_Inr_iff res_of_option_Inr_iff guard_Inr_iff
  apply -
  apply (elim exE conjE)
  apply (drule Inr_inject)
  apply (rule that)
         apply assumption
        apply (rule refl)
       apply (rule refl)
      apply assumption
     apply assumption
    apply assumption
   apply assumption
  apply (erule sym)
  done

lemma addPacket_streamOk:
  assumes m: "ctrl_formats m" and ok: "conns_ok conns target" and p: "writesArray p"
    and s: "streamOk m conns target b ps" and a: "addPacket m conns p b = Inr b'"
  shows "streamOk m conns target b' (ps @ [p])"
  using a
proof (cases rule: addPacket_cases)
  case (1 conn pack phs h d ts n)
  note conn = 1(1) and ts_def = 1(2) and n_def = 1(3) and pack = 1(4) and phs = 1(5) and h = 1(6) and d = 1(7) and b' = 1(8)
  have seq: "ctrlPktSequence b' = ctrlPktSequence b @ phs @ [h] @ d"
    and ts': "ctrlPktBdTransfers b' = (if pack then growLast (n + 1) ts
      else ts @ [\<lparr>btConnection = conn, btOffset = length (ctrlPktSequence b), btSize = n, syncBarrier = False\<rparr>])"
    by (simp_all only: b' CtrlBuilder.simps)
  obtain gs where gs0: "concat gs = ps" "list_all2 (carries m conns target (ctrlPktSequence b)) (ctrlPktBdTransfers b) gs"
      "ctrlPktBdTransfers b \<noteq> [] \<longrightarrow>
         btOffset (last (ctrlPktBdTransfers b)) + btSize (last (ctrlPktBdTransfers b)) = length (ctrlPktSequence b)"
    using s unfolding streamOk_def by blast
  have gs: "concat gs = ps" "list_all2 (carries m conns target (ctrlPktSequence b)) ts gs"
      "ts \<noteq> [] \<longrightarrow> btOffset (last ts) + btSize (last ts) = length (ctrlPktSequence b)"
    using gs0 carried_barrier [OF gs0(2)] by (simp_all add: ts_def last_barrier)
  have lt: "n = length d + 1"
    using packet_delivered [where target = target and conn = conn and ph = None and regs = undefined, OF m p _ h d]
      conns_ok_target [OF ok conn] by (auto simp: n_def unat_word_ariths)
  show ?thesis
  proof (cases pack)
    case False
    have "carries m conns target (ctrlPktSequence b') (last (ctrlPktBdTransfers b')) [p]"
      using carries_new [OF m p conn ok h d, of "ctrlPktSequence b"] False phs seq ts' by (simp add: n_def)
    moreover have "list_all2 (carries m conns target (ctrlPktSequence b')) ts gs"
      unfolding seq by (rule list_all2_mono [OF gs(2)]) (rule carries_longer)
    ultimately have "list_all2 (carries m conns target (ctrlPktSequence b')) (ctrlPktBdTransfers b') (gs @ [[p]])"
      using False ts' by (simp add: list_all2_snoc)
    then show ?thesis unfolding streamOk_def using gs(1) False phs seq ts' lt
      by (intro exI [of _ "gs @ [[p]]"]) simp
  next
    case True
    then obtain ph where ph: "phs = [ph]" "packetHeaderOf m conn = Inr ph" using phs by (auto simp: res_bind_Inr_iff)
    have ne: "ts \<noteq> []" "connId (btConnection (last ts)) = connId conn"
      using pack True by (auto simp: packIntoLast_def split: if_splits)
    then obtain ts0 t where t: "ts = ts0 @ [t]" by (metis rev_exhaust)
    then obtain gs0 g where g: "gs = gs0 @ [g]" "list_all2 (carries m conns target (ctrlPktSequence b)) ts0 gs0"
        "carries m conns target (ctrlPktSequence b) t g"
      using gs(2) by (auto simp: list_all2_snoc)
    define t' where "t' = t\<lparr>btSize := btSize t + (n + 1)\<rparr>"
    have "carries m conns target (ctrlPktSequence b') t' (g @ [p])"
      using carries_grown [OF m p conn ok h d ph(2) g(3)] ne gs(3) t seq ph(1) by (simp add: t'_def n_def)
    moreover have "list_all2 (carries m conns target (ctrlPktSequence b')) ts0 gs0"
      unfolding seq by (rule list_all2_mono [OF g(2)]) (rule carries_longer)
    moreover have e: "ctrlPktBdTransfers b' = ts0 @ [t']"
      using ts' True t by (simp add: growLast_def t'_def)
    ultimately have "list_all2 (carries m conns target (ctrlPktSequence b')) (ctrlPktBdTransfers b') (gs0 @ [g @ [p]])"
      by (simp add: list_all2_snoc)
    then show ?thesis unfolding streamOk_def using gs(1,3) t g(1) seq ph(1) lt e
      by (intro exI [of _ "gs0 @ [g @ [p]]"]) (simp add: t'_def)
  qed
qed

lemma addPackets_streamOk:
  assumes m: "ctrl_formats m" and ok: "conns_ok conns target"
  shows "\<forall>p \<in> set qs. writesArray p \<Longrightarrow> streamOk m conns target b ps \<Longrightarrow> addPackets m conns qs b = Inr b' \<Longrightarrow>
    streamOk m conns target b' (ps @ qs)"
proof (induction qs arbitrary: b ps)
  case (Cons q qs)
  obtain b1 where b1: "addPacket m conns q b = Inr b1" "addPackets m conns qs b1 = Inr b'" using Cons.prems(3) by auto
  have "streamOk m conns target b1 (ps @ [q])"
    by (rule addPacket_streamOk [OF m ok _ Cons.prems(2) b1(1)]) (use Cons.prems(1) in simp)
  from Cons.IH [OF _ this b1(2)] Cons.prems(1) show ?case by simp
qed simp

lemma exec_append:
  "execControlCode m target seq (xs @ ys) regs = execControlCode m target seq ys (execControlCode m target seq xs regs)"
  by (induction m target seq xs regs rule: execControlCode.induct) simp_all

lemma exec_carried:
  "list_all2 (carries m conns target seq) ts gs \<Longrightarrow>
   execControlCode m target seq (controlCodeOf ts) regs = fold execPacket (concat gs) regs"
proof (induction arbitrary: regs rule: list_all2_induct)
  case (Cons t ts g gs)
  have "fold (deliver m target (btConnection t)) (decode None (take (btSize t) (drop (btOffset t) seq))) regs = fold execPacket g regs"
    using Cons.hyps(1) by (auto simp: carries_def dest: complete_decode)
  then show ?case using Cons.IH by (simp add: controlCodeOf_def exec_append)
qed (simp add: controlCodeOf_def)

lemma stream_refines:
  assumes "ctrl_formats m" and "conns_ok conns target" and "\<forall>p \<in> set qs. writesArray p"
    and "convertPacketsToDma m conns qs = Inr (seq, code)"
  shows "execControlCode m target seq code regs = fold execPacket qs regs"
proof -
  obtain b where b: "addPackets m conns qs initialBuilder = Inr b" "seq = ctrlPktSequence b" "code = controlCodeOf (ctrlPktBdTransfers b)"
    using assms(4) by (auto simp: convertPacketsToDma_def)
  have "streamOk m conns target initialBuilder []" by (simp add: streamOk_def initialBuilder_def)
  from addPackets_streamOk [OF assms(1-3) this b(1)] show ?thesis
    using b exec_carried by (fastforce simp: streamOk_def)
qed


section \<open>Barriers\<close>

text \<open>
  No tile type changes inside a phase, that is between two barriers of the control code; \<open>cur\<close> is the
  type of the phase so far.
\<close>

fun phasesUniform :: "(CtrlConnection \<Rightarrow> AMDAIETileType) \<Rightarrow> AMDAIETileType option \<Rightarrow> ControlCodeOp list \<Rightarrow> bool" where
  "phasesUniform f cur [] \<longleftrightarrow> True"
| "phasesUniform f cur (NpuDmaTransfer conn offs n # ops) \<longleftrightarrow>
     (case cur of None \<Rightarrow> True | Some t \<Rightarrow> t = f conn) \<and> phasesUniform f (Some (f conn)) ops"
| "phasesUniform f cur (NpuDmaWait # ops) \<longleftrightarrow> phasesUniform f cur ops"
| "phasesUniform f cur (NpuBarrier # ops) \<longleftrightarrow> phasesUniform f None ops"

definition typeAt :: "AMDAIEDeviceModel \<Rightarrow> (CtrlConnection \<Rightarrow> int \<times> int) \<Rightarrow> CtrlConnection \<Rightarrow> AMDAIETileType" where
  "typeAt m target conn = getTileType m (word_of_int (fst (target conn))) (word_of_int (snd (target conn)))"

abbreviation steps_ok :: "(CtrlConnection \<Rightarrow> AMDAIETileType) \<Rightarrow> CtrlPktBdTransfer list \<Rightarrow> bool" where
  "steps_ok f \<equiv> successively (\<lambda>s t. syncBarrier s \<or> f (btConnection s) = f (btConnection t))"

lemma phases_of_steps:
  "steps_ok f ts \<Longrightarrow> (ts \<noteq> [] \<Longrightarrow> cur = None \<or> cur = Some (f (btConnection (hd ts)))) \<Longrightarrow>
   phasesUniform f cur (controlCodeOf ts)"
proof (induction ts arbitrary: cur)
  case (Cons t ts)
  have "phasesUniform f (if syncBarrier t then None else Some (f (btConnection t))) (controlCodeOf ts)"
    by (rule Cons.IH) (use Cons.prems(1) in \<open>auto simp: successively_Cons\<close>)
  then show ?case using Cons.prems(2) by (auto simp: controlCodeOf_def split: if_splits)
qed (simp add: controlCodeOf_def)

definition barriersOk :: "AMDAIEDeviceModel \<Rightarrow> (int \<times> int \<Rightarrow> CtrlConnection option) \<Rightarrow> (CtrlConnection \<Rightarrow> int \<times> int) \<Rightarrow> CtrlBuilder \<Rightarrow> bool" where
  "barriersOk m conns target b \<longleftrightarrow> steps_ok (typeAt m target) (ctrlPktBdTransfers b)
     \<and> (\<forall>t \<in> set (ctrlPktBdTransfers b). btConnection t \<in> ran conns)
     \<and> (ctrlPktBdTransfers b \<noteq> [] \<longrightarrow> typeAt m target (btConnection (last (ctrlPktBdTransfers b))) = lastDestTileType b)"

lemma addPacket_barriers:
  assumes ok: "conns_ok conns target" and b: "barriersOk m conns target b" and a: "addPacket m conns p b = Inr b'"
  shows "barriersOk m conns target b'"
  using a
proof (cases rule: addPacket_cases)
  case (1 conn pack phs h d ts n)
  let ?f = "typeAt m target"
  have ts': "ctrlPktBdTransfers b' = (if pack then growLast (n + 1) ts
      else ts @ [\<lparr>btConnection = conn, btOffset = length (ctrlPktSequence b), btSize = n, syncBarrier = False\<rparr>])"
    and last': "lastDestTileType b' = destType m p" by (simp_all only: 1(8) CtrlBuilder.simps)
  have tt: "?f conn = destType m p" using conns_ok_target [OF ok 1(1)] by (simp add: typeAt_def)
  have steps: "steps_ok ?f ts" "\<forall>t \<in> set ts. btConnection t \<in> ran conns"
    using b unfolding 1(2) barriersOk_def
    by (cases "ctrlPktBdTransfers b" rule: rev_cases; auto simp: withBarrier_def successively_append_iff)+
  have gap: "ts \<noteq> [] \<Longrightarrow> syncBarrier (last ts) \<or> ?f (btConnection (last ts)) = ?f conn"
    using b tt by (auto simp: 1(2) barriersOk_def last_barrier)
  show ?thesis
  proof (cases pack)
    case False
    have "steps_ok ?f (ctrlPktBdTransfers b')"
      using steps(1) gap False ts' by (auto simp: successively_append_iff)
    then show ?thesis using False ts' steps(2) tt last' ranI [of conns "destOf m p" conn] 1(1) by (auto simp: barriersOk_def)
  next
    case True
    then have ne: "ts \<noteq> []" "connId (btConnection (last ts)) = connId conn"
      using 1(4) by (auto simp: packIntoLast_def split: if_splits)
    then obtain ts0 t where t: "ts = ts0 @ [t]" by (metis rev_exhaust)
    then have "btConnection t \<in> ran conns" "connId (btConnection t) = connId conn" using steps(2) ne by auto
    then have same: "btConnection t = conn" using ok 1(1) unfolding conns_ok_def ran_def by blast
    have "ctrlPktBdTransfers b' = ts0 @ [t\<lparr>btSize := btSize t + (n + 1)\<rparr>]" using ts' True t by (simp add: growLast_def)
    then show ?thesis using steps t same tt last' by (auto simp: barriersOk_def successively_append_iff)
  qed
qed

lemma addPackets_barriers:
  assumes "conns_ok conns target"
  shows "barriersOk m conns target b \<Longrightarrow> addPackets m conns ps b = Inr b' \<Longrightarrow> barriersOk m conns target b'"
  by (induction ps arbitrary: b) (auto dest: addPacket_barriers [OF assms])

lemma ctrl_max: "ctrl_formats m \<Longrightarrow> 0 < getCtrlPktMaxLength m" "ctrl_formats m \<Longrightarrow> getCtrlPktMaxLength m \<le> 2 ^ 28"
  by (simp_all add: ctrl_formats_def getCtrlPktMaxLength_def controlHeaderFormatInit_def)

section \<open>A concrete configuration\<close>

text \<open>One core tile behind a control connection of the shim tile (0, 0), and a transaction for it.\<close>

definition sampleConn :: CtrlConnection where
  "sampleConn = \<lparr>connId = 0, sourceTiles = [(0, 0)], flowPacketId = Some 3\<rparr>"

definition sampleConns :: "int \<times> int \<Rightarrow> CtrlConnection option" where
  "sampleConns = [(0, 2) \<mapsto> sampleConn]"

definition twoTiles :: "int \<times> int \<Rightarrow> CtrlConnection option" where
  "twoTiles = [(0, 1) \<mapsto> sampleConn\<lparr>connId := 1\<rparr>, (0, 2) \<mapsto> sampleConn]"

definition packingModel :: AMDAIEDeviceModel where
  "packingModel = (sampleModel npu4)\<lparr>deviceConfig := (deviceConfig (sampleModel npu4))\<lparr>ctrlPktTlastErrorDisabled := True\<rparr>\<rparr>"

definition sampleOps :: "TxnOp list" where
  "sampleOps = [XAIE_IO_WRITE 0x21D000 0xF0, XAIE_IO_BLOCKWRITE 0x21D200 [1, 2, 3, 4, 5, 6], XAIE_IO_MASKWRITE 0x21D000 1 1]"

lemma packing_formats: "ctrl_formats packingModel"
  by (simp add: ctrl_formats_def packet_fields_fit_def packingModel_def getPacketIdMaxIdx_def getpacketTypeMax_def rows_def columns_def sample_defs)

lemma sampleConns_ok: "conns_ok sampleConns (\<lambda>_. (0, 2))"
  by (simp add: conns_ok_def sampleConns_def split: if_splits)

lemma sampleOps_emulable: "emulable regs {} sampleOps"
  by (simp add: sampleOps_def)

definition samplePackets :: "NpuControlPacketOp list" where
  "samplePackets = [writePacket 0x21D000 [0xF0], writePacket 0x21D200 [1, 2, 3, 4], writePacket 0x21D210 [5, 6], writePacket 0x21D000 [0xF1]]"

lemma sample_converted:
  "convertDeviceToControlPacket sampleOps = Inr [writePacket 0x21D000 [0xF0], writePacket 0x21D200 [1, 2, 3, 4, 5, 6], writePacket 0x21D000 [0xF1]]"
  by code_simp

lemma sample_split:
  "splitControlPacketData packingModel [writePacket 0x21D000 [0xF0], writePacket 0x21D200 [1, 2, 3, 4, 5, 6], writePacket 0x21D000 [0xF1]]
   = Some (Inr samplePackets)"
  by code_simp

lemma sample_words:
  "convertPacketsToDma packingModel sampleConns samplePackets = Inr
    ([2147602432, 240, 2147483651, 3265024, 1, 2, 3, 4, 2147483651, 1167888, 5, 6, 2147483651, 2147602432, 241],
     [NpuDmaTransfer sampleConn 0 15, NpuDmaWait])"
  by code_simp

section \<open>Properties\<close>



text \<open>
  C39. A masked write to a register that was not written before: the packet writes the value as it is, so the
  register ends up as the transaction leaves it exactly when the bits outside the mask agree already.
\<close>

theorem first_masked_write:
  "convertDeviceToControlPacket [XAIE_IO_MASKWRITE addr v msk] = Inr ps \<Longrightarrow>
   fold execPacket ps regs = fold execTxnOp [XAIE_IO_MASKWRITE addr v msk] regs \<longleftrightarrow> regs (ucast addr) AND NOT msk = v AND NOT msk"
proof -
  assume "convertDeviceToControlPacket [XAIE_IO_MASKWRITE addr v msk] = Inr ps"
  then have ps: "ps = [writePacket addr [v]]" by (simp add: convertDeviceToControlPacket_def maskedValue_def)
  have "fold execPacket ps regs = fold execTxnOp [XAIE_IO_MASKWRITE addr v msk] regs
      \<longleftrightarrow> v = (regs (ucast addr) AND NOT msk) OR (v AND msk)"
    by (auto simp: ps execPacket_def writePacket_def fun_upd_eqD dest: fun_cong [of _ _ "ucast addr"])
  also have "\<dots> \<longleftrightarrow> regs (ucast addr) AND NOT msk = v AND NOT msk"
    by (simp add: bit_eq_iff bit_simps) blast
  finally show ?thesis .
qed

theorem first_masked_write_witness:
  "\<exists>ps. convertDeviceToControlPacket [XAIE_IO_MASKWRITE 0x21D000 1 1] = Inr ps
     \<and> fold execPacket ps (\<lambda>_. 2) \<noteq> fold execTxnOp [XAIE_IO_MASKWRITE 0x21D000 1 1] (\<lambda>_. 2)"
proof -
  have c: "convertDeviceToControlPacket [XAIE_IO_MASKWRITE 0x21D000 1 1] = Inr [writePacket 0x21D000 [1]]" by code_simp
  have "\<not> ((2 :: u32) AND NOT 1 = 1 AND NOT 1)" by code_simp
  then show ?thesis using first_masked_write [OF c, of "\<lambda>_. 2"] c by blast
qed

text \<open>
  C29. Splitting always ends: for a limit between one and \<open>2\<^sup>2\<^sup>8\<close> words every packet of the array is cut into
  well-formed packets of at most that many words, with the effect of the packet.
\<close>

theorem split_ends:
  assumes "0 < maxLength" and "maxLength \<le> 2 ^ 28" and "\<forall>p \<in> set ps. writesArray p"
  shows "\<exists>qs. splitPackets maxLength ps = Some (Inr qs)
    \<and> (\<forall>q \<in> set qs. verifyControlPacket q \<and> pktLength q \<le> maxLength)
    \<and> (\<forall>regs. fold execPacket qs regs = fold execPacket ps regs)"
  using split_refines [OF assms] by (auto simp: fits_def writesArray_def)

theorem split_ends_witness:
  "\<exists>qs. splitPackets 4 [writePacket 0x21D200 [1, 2, 3, 4, 5, 6]] = Some (Inr qs) \<and> length qs = 2"
proof -
  have w: "\<forall>p \<in> set [writePacket 0x21D200 [1, 2, 3, 4, 5, 6]]. writesArray p"
    using writesArray_writePacket [of "[1, 2, 3, 4, 5, 6]" "0x21D200"] by simp
  have c: "splitPackets 4 [writePacket 0x21D200 [1, 2, 3, 4, 5, 6]]
      = Some (Inr [writePacket 0x21D200 [1, 2, 3, 4], writePacket 0x21D210 [5, 6]])" by code_simp
  show ?thesis using split_ends [OF _ _ w, of 4] c by auto
qed



end
