(* ===== verification/Async_Queue.thy ===== *)
theory Async_Queue
  imports AIE_Prelude
begin

text \<open>
  The asynchronous queue of the amdxdna driver (async_queue.cc): operations wait for semaphores, are pushed
  on a stack of ready operations, and are run by one worker thread. The model is the set of its threads: the
  callers of enqueue, the callbacks of the semaphores, the worker, and the thread that destroys the queue.
  A thread is the list of what it still has to do, and an execution is a sequence of choices, each of which
  lets one thread do one atomic access to the shared state. Semaphores, operation bodies and the
  notifications of IREE are not under src/: what they answer is part of the choice.

  Allocation succeeds. A caller does not destroy the queue while an enqueue is under way and does not
  enqueue afterwards, as the header of the queue requires of the lifetime of any object.
\<close>

section \<open>State\<close>

datatype status_code = CANCELLED | StatusCode nat

text \<open>The status of a call; \<open>None\<close> is OK.\<close>

type_synonym status = "status_code option"

text \<open>
  A wait entry before its timepoint is registered, while it is registered, and afterwards: its callback
  fired with a status, the registration was refused, or the cancellation won.
\<close>

datatype wait_state = Unarmed | Armed | Fired status | Refused status_code | Cancelled

record async_op =
  waitEntries :: "wait_state list"
  waitCount :: int
  errorStatus :: status

text \<open>What a thread does next. The operation named is the one whose memory the step accesses.\<close>

datatype action =
    LinkInflight nat \<comment> \<open>enqueue: link into the inflight list\<close>
  | TestLoop nat nat \<comment> \<open>enqueue: the loop condition before the given index\<close>
  | AcquireTimepoint nat nat
  | StoreError nat status \<comment> \<open>a wait is over: the exchange on the error status\<close>
  | GiveBack nat \<comment> \<open>the decrement of the wait count\<close>
  | PushReady nat \<comment> \<open>push_ready: splice out of the inflight list\<close>
  | PushChain "nat list" \<comment> \<open>the exchange on the head of the ready stack\<close>
  | PostWorker
  | LoadStatus nat \<comment> \<open>the worker, operation by operation\<close>
  | RunFn nat
  | SignalList nat
  | FailList nat status_code
  | ReleaseOp nat
  | CountDown
  | WorkerTop \<comment> \<open>the loop of the worker\<close>
  | WorkerTake bool
  | WorkerPrepare bool
  | WorkerRecheck bool nat
  | WorkerRecheckShutdown bool nat bool
  | WorkerCommit bool nat
  | CancelLock \<comment> \<open>destroy\<close>
  | CancelWalk "nat list" "nat list"
  | CancelEntry nat nat nat "nat list" "nat list"
  | CancelStore nat nat "nat list" "nat list"
  | CancelGiveBack nat nat "nat list" "nat list"
  | AwaitDrained
  | SetShutdown
  | JoinWorker

datatype event = Ran nat | Signalled nat | Failed nat status_code | Released nat

record async_queue =
  opAt :: "nat \<Rightarrow> async_op option" \<comment> \<open>the operations in memory\<close>
  nextOp :: nat
  inflight :: "nat list" \<comment> \<open>head first\<close>
  inflightMutex :: bool
  ready :: "nat list" \<comment> \<open>top first\<close>
  inflightCount :: int
  shutdownRequested :: bool
  workerEpoch :: nat \<comment> \<open>posts of the worker's notification\<close>
  frontierTracker :: bool
  queueEpoch :: nat
  trace :: "event list"
  pushed :: "nat list" \<comment> \<open>operations in the order of their pushes\<close>

record async_system = async_queue +
  workerThread :: "action list"
  destroyThread :: "action list"
  callThreads :: "action list list"
  destroying :: bool

definition queue_create :: "bool \<Rightarrow> async_system" where
  "queue_create tracker = \<lparr>opAt = (\<lambda>_. None), nextOp = 0, inflight = [], inflightMutex = False, ready = [],
     inflightCount = 0, shutdownRequested = False, workerEpoch = 0, frontierTracker = tracker, queueEpoch = 0,
     trace = [], pushed = [], workerThread = [WorkerTop], destroyThread = [], callThreads = [], destroying = False\<rparr>"

section \<open>Steps\<close>

definition updateOp :: "nat \<Rightarrow> (async_op \<Rightarrow> async_op) \<Rightarrow> 'a async_queue_scheme \<Rightarrow> 'a async_queue_scheme" where
  "updateOp x f q = q\<lparr>opAt := (opAt q)(x := map_option f (opAt q x))\<rparr>"

text \<open>The compare and exchange from zero: the first error stays.\<close>

definition storeStatus :: "status \<Rightarrow> async_op \<Rightarrow> async_op" where
  "storeStatus st o' = o'\<lparr>errorStatus := (case errorStatus o' of None \<Rightarrow> st | Some e \<Rightarrow> Some e)\<rparr>"

definition opOf :: "nat \<Rightarrow> 'a async_queue_scheme \<Rightarrow> async_op" where
  "opOf x q = (case opAt q x of Some p \<Rightarrow> p | None \<Rightarrow> \<lparr>waitEntries = [], waitCount = 0, errorStatus = None\<rparr>)"

text \<open>
  One step: the queue afterwards and what the thread does instead of the action; \<open>None\<close> when the thread is
  blocked. The status is the answer of the call to the outside, where the step makes one.
\<close>

fun act :: "status \<Rightarrow> action \<Rightarrow> async_system \<Rightarrow> (async_system \<times> action list) option" where
  "act ans (LinkInflight x) q =
     (if inflightMutex q then None else Some (q\<lparr>inflight := x # inflight q\<rparr>, [TestLoop x 0]))"
| "act ans (TestLoop x i) q =
     Some (q, if i < length (waitEntries (opOf x q)) then [AcquireTimepoint x i] else [])"
| "act ans (AcquireTimepoint x i) q =
     (case ans of
        None \<Rightarrow> Some (updateOp x (\<lambda>p. p\<lparr>waitEntries := (waitEntries p)[i := Armed]\<rparr>) q, [TestLoop x (Suc i)])
      | Some e \<Rightarrow> Some (updateOp x (\<lambda>p. p\<lparr>waitEntries := (waitEntries p)[i := Refused e]\<rparr>) q,
          [StoreError x (Some e), TestLoop x (Suc i)]))"
| "act ans (StoreError x st) q = Some (updateOp x (storeStatus st) q, [GiveBack x])"
| "act ans (GiveBack x) q =
     Some (updateOp x (\<lambda>p. p\<lparr>waitCount := waitCount p - 1\<rparr>) q, if waitCount (opOf x q) = 1 then [PushReady x] else [])"
| "act ans (PushReady x) q =
     (if inflightMutex q then None else Some (q\<lparr>inflight := remove1 x (inflight q)\<rparr>, [PushChain [x]]))"
| "act ans (PushChain xs) q = Some (q\<lparr>ready := xs @ ready q, pushed := pushed q @ rev xs\<rparr>, [PostWorker])"
| "act ans PostWorker q = Some (q\<lparr>workerEpoch := Suc (workerEpoch q)\<rparr>, [])"
| "act ans (LoadStatus x) q =
     Some (q, case errorStatus (opOf x q) of None \<Rightarrow> [RunFn x] | Some e \<Rightarrow> [FailList x e])"
| "act ans (RunFn x) q =
     Some (q\<lparr>trace := trace q @ [Ran x]\<rparr>, case ans of None \<Rightarrow> [SignalList x] | Some e \<Rightarrow> [FailList x e])"
| "act ans (SignalList x) q =
     (case ans of
        None \<Rightarrow> Some (q\<lparr>trace := trace q @ [Signalled x],
            queueEpoch := (if frontierTracker q then Suc (queueEpoch q) else queueEpoch q)\<rparr>, [ReleaseOp x])
      | Some e \<Rightarrow> Some (q, [FailList x e]))"
| "act ans (FailList x e) q = Some (q\<lparr>trace := trace q @ [Failed x e]\<rparr>, [ReleaseOp x])"
| "act ans (ReleaseOp x) q = Some (q\<lparr>opAt := (opAt q)(x := None), trace := trace q @ [Released x]\<rparr>, [CountDown])"
| "act ans CountDown q = Some (q\<lparr>inflightCount := inflightCount q - 1\<rparr>, [])"
| "act ans WorkerTop q = Some (q, [WorkerTake (shutdownRequested q)])"
| "act ans (WorkerTake sd) q =
     (if ready q \<noteq> [] then Some (q\<lparr>ready := []\<rparr>, map LoadStatus (rev (ready q)) @ [WorkerTop])
      else if sd \<and> inflightCount q = 0 then Some (q, []) else Some (q, [WorkerPrepare sd]))"
| "act ans (WorkerPrepare sd) q = Some (q, [WorkerRecheck sd (workerEpoch q)])"
| "act ans (WorkerRecheck sd tok) q = Some (q, [WorkerRecheckShutdown sd tok (ready q \<noteq> [])])"
| "act ans (WorkerRecheckShutdown sd tok h) q =
     Some (q, if \<not> h \<and> shutdownRequested q = sd then [WorkerCommit sd tok] else [WorkerTop])"
| "act ans (WorkerCommit sd tok) q = (if workerEpoch q = tok then None else Some (q, [WorkerTop]))"
| "act ans CancelLock q = (if inflightMutex q then None else Some (q\<lparr>inflightMutex := True\<rparr>, [CancelWalk (inflight q) []]))"
| "act ans (CancelWalk xs chain) q =
     (case xs of
        [] \<Rightarrow> Some (q\<lparr>inflightMutex := False\<rparr>, if chain \<noteq> [] then [PushChain chain] else [])
      | x # xs' \<Rightarrow> Some (q, [CancelEntry x 0 0 xs' chain]))"
| "act ans (CancelEntry x i c xs chain) q =
     Some (if i < length (waitEntries (opOf x q))
           then if waitEntries (opOf x q) ! i = Armed
                then (updateOp x (\<lambda>p. p\<lparr>waitEntries := (waitEntries p)[i := Cancelled]\<rparr>) q, [CancelEntry x (Suc i) (Suc c) xs chain])
                else (q, [CancelEntry x (Suc i) c xs chain])
           else (q, if c > 0 then [CancelStore x c xs chain] else [CancelWalk xs chain]))"
| "act ans (CancelStore x c xs chain) q = Some (updateOp x (storeStatus (Some CANCELLED)) q, [CancelGiveBack x c xs chain])"
| "act ans (CancelGiveBack x c xs chain) q =
     Some (let q' = updateOp x (\<lambda>p. p\<lparr>waitCount := waitCount p - int c\<rparr>) q
           in if waitCount (opOf x q) = int c
              then (q'\<lparr>inflight := remove1 x (inflight q)\<rparr>, [CancelWalk xs (x # chain)])
              else (q', [CancelWalk xs chain]))"
| "act ans AwaitDrained q = (if inflightCount q = 0 then Some (q, []) else None)"
| "act ans SetShutdown q = Some (q\<lparr>shutdownRequested := True\<rparr>, [PostWorker, JoinWorker])"
| "act ans JoinWorker q = (if workerThread q = [] then Some (q, []) else None)"

text \<open>What can happen next; a status is the answer the outside gives.\<close>

datatype choice =
    Enqueue nat \<comment> \<open>a call with that many waits\<close>
  | Fire nat nat status \<comment> \<open>the semaphore resolves a registered timepoint\<close>
  | StepCall nat status
  | StepWorker status
  | StepDestroy status
  | Destroy

definition newOp :: "nat \<Rightarrow> async_op" where
  "newOp n = \<lparr>waitEntries = replicate n Unarmed, waitCount = int n, errorStatus = None\<rparr>"

fun isEnqueueing :: "action \<Rightarrow> bool" where
  "isEnqueueing (LinkInflight x) = True"
| "isEnqueueing (TestLoop x i) = True"
| "isEnqueueing (AcquireTimepoint x i) = True"
| "isEnqueueing _ = False"

fun proceed :: "choice \<Rightarrow> async_system \<Rightarrow> async_system option" where
  "proceed (Enqueue n) q =
     (if destroying q then None
      else Some (q\<lparr>opAt := (opAt q)(nextOp q := Some (newOp n)), nextOp := Suc (nextOp q), inflightCount := inflightCount q + 1,
        callThreads := callThreads q @ [if n = 0 then [PushReady (nextOp q)] else [LinkInflight (nextOp q)]]\<rparr>))"
| "proceed (Fire x i st) q =
     (case opAt q x of
        None \<Rightarrow> None
      | Some p \<Rightarrow>
          if i < length (waitEntries p) \<and> waitEntries p ! i = Armed
          then Some (let q' = updateOp x (\<lambda>p. p\<lparr>waitEntries := (waitEntries p)[i := Fired st]\<rparr>) q
                     in q'\<lparr>callThreads := callThreads q @ [if st = None then [GiveBack x] else [StoreError x st]]\<rparr>)
          else None)"
| "proceed (StepCall k ans) q =
     (if k < length (callThreads q)
      then (case callThreads q ! k of
              [] \<Rightarrow> None
            | a # rest \<Rightarrow> map_option (\<lambda>(q', as). q'\<lparr>callThreads := (callThreads q)[k := as @ rest]\<rparr>) (act ans a q))
      else None)"
| "proceed (StepWorker ans) q =
     (case workerThread q of
        [] \<Rightarrow> None
      | a # rest \<Rightarrow> map_option (\<lambda>(q', as). q'\<lparr>workerThread := as @ rest\<rparr>) (act ans a q))"
| "proceed (StepDestroy ans) q =
     (case destroyThread q of
        [] \<Rightarrow> None
      | a # rest \<Rightarrow> map_option (\<lambda>(q', as). q'\<lparr>destroyThread := as @ rest\<rparr>) (act ans a q))"
| "proceed Destroy q =
     (if destroying q \<or> (\<exists>t \<in> set (callThreads q). \<exists>a \<in> set t. isEnqueueing a) then None
      else Some (q\<lparr>destroying := True, destroyThread := [CancelLock, AwaitDrained, SetShutdown]\<rparr>))"

fun run :: "choice list \<Rightarrow> async_system \<Rightarrow> async_system option" where
  "run [] q = Some q"
| "run (c # cs) q = Option.bind (proceed c q) (run cs)"

text \<open>The states of an execution.\<close>

inductive reachable :: "async_system \<Rightarrow> bool" where
  create: "reachable (queue_create tracker)"
| step: "reachable q \<Longrightarrow> proceed c q = Some q' \<Longrightarrow> reachable q'"

lemma run_reachable: "run cs q = Some q' \<Longrightarrow> reachable q \<Longrightarrow> reachable q'"
  by (induction cs arbitrary: q) (auto simp: bind_eq_Some_conv intro: reachable.step)


section \<open>Pending actions\<close>

definition pending :: "async_system \<Rightarrow> action multiset" where
  "pending q = mset (workerThread q) + mset (destroyThread q) + mset (concat (callThreads q))"

text \<open>States that agree on everything but the threads.\<close>

definition same_shared :: "async_system \<Rightarrow> async_system \<Rightarrow> bool" where
  "same_shared q r \<longleftrightarrow> async_queue.truncate q = async_queue.truncate r"

lemma mset_concat_update:
  "k < length ts \<Longrightarrow> ts ! k = a # rest \<Longrightarrow>
   \<exists>R. mset (concat ts) = add_mset a R \<and> mset (concat (ts[k := as @ rest])) = mset as + R"
proof -
  assume k: "k < length ts" "ts ! k = a # rest"
  have t: "ts = take k ts @ (a # rest) # drop (Suc k) ts" using k by (metis id_take_nth_drop)
  have u: "ts[k := as @ rest] = take k ts @ (as @ rest) # drop (Suc k) ts" using k(1) by (rule upd_conv_take_nth_drop)
  let ?R = "mset (concat (take k ts)) + mset rest + mset (concat (drop (Suc k) ts))"
  have "mset (concat ts) = add_mset a ?R" by (subst t) simp
  moreover have "mset (concat (ts[k := as @ rest])) = mset as + ?R" by (subst u) (simp add: ac_simps)
  ultimately show ?thesis by blast
qed

lemma act_threads:
  "act ans a q = Some (r, as) \<Longrightarrow> workerThread r = workerThread q \<and> destroyThread r = destroyThread q
     \<and> callThreads r = callThreads q \<and> destroying r = destroying q"
  by (cases a) (auto simp: updateOp_def Let_def split: if_splits option.splits list.splits)

text \<open>A choice: a call, a callback, a step of a thread, or the begin of the destruction.\<close>

lemma proceed_cases:
  assumes "proceed c q = Some q'"
  obtains (enqueue) n where "c = Enqueue n" "\<not> destroying q" 
      "q' = q\<lparr>opAt := (opAt q)(nextOp q := Some (newOp n)), nextOp := Suc (nextOp q), inflightCount := inflightCount q + 1,
        callThreads := callThreads q @ [if n = 0 then [PushReady (nextOp q)] else [LinkInflight (nextOp q)]]\<rparr>"
      "pending q' = add_mset (if n = 0 then PushReady (nextOp q) else LinkInflight (nextOp q)) (pending q)"
    | (fire) x i st p where "c = Fire x i st" "opAt q x = Some p" "i < length (waitEntries p)" "waitEntries p ! i = Armed"
      "same_shared q' (updateOp x (\<lambda>p. p\<lparr>waitEntries := (waitEntries p)[i := Fired st]\<rparr>) q)" "destroying q' = destroying q"
      "workerThread q' = workerThread q" "destroyThread q' = destroyThread q"
      "callThreads q' = callThreads q @ [if st = None then [GiveBack x] else [StoreError x st]]"
      "pending q' = add_mset (if st = None then GiveBack x else StoreError x st) (pending q)"
    | (act) a as R ans r where "pending q = add_mset a R" "act ans a q = Some (r, as)" "same_shared q' r"
      "pending q' = mset as + R" "destroying q' = destroying q"
    | (destroy) "c = Destroy" "\<not> destroying q" "\<forall>t \<in> set (callThreads q). \<forall>a \<in> set t. \<not> isEnqueueing a"
      "q' = q\<lparr>destroying := True, destroyThread := [CancelLock, AwaitDrained, SetShutdown]\<rparr>"
proof (cases c)
  case (Enqueue n)
  then show thesis using assms by (intro enqueue [of n]) (auto simp: pending_def split: if_splits)
next
  case (Fire x i st)
  then obtain p where p: "opAt q x = Some p" "i < length (waitEntries p)" "waitEntries p ! i = Armed"
    "q' = (updateOp x (\<lambda>p. p\<lparr>waitEntries := (waitEntries p)[i := Fired st]\<rparr>) q)
       \<lparr>callThreads := callThreads q @ [if st = None then [GiveBack x] else [StoreError x st]]\<rparr>"
    using assms by (auto simp: Let_def split: option.splits if_splits)
  show thesis
    by (rule fire [OF Fire p(1-3)]) (auto simp: p(4) same_shared_def updateOp_def pending_def async_queue.defs)
next
  case (StepCall k ans)
  then obtain a rest r as where a: "k < length (callThreads q)" "callThreads q ! k = a # rest" "act ans a q = Some (r, as)"
      "q' = r\<lparr>callThreads := (callThreads q)[k := as @ rest]\<rparr>"
    using assms by (auto split: if_splits list.splits)
  have r: "workerThread r = workerThread q" "destroyThread r = destroyThread q" "destroying r = destroying q"
    using act_threads [OF a(3)] by auto
  obtain R where R: "mset (concat (callThreads q)) = add_mset a R" "mset (concat ((callThreads q)[k := as @ rest])) = mset as + R"
    using mset_concat_update [OF a(1,2)] by blast
  show thesis
    by (rule act [of a "mset (workerThread q) + mset (destroyThread q) + R" ans r as])
      (auto simp: a r R pending_def same_shared_def async_queue.defs)
next
  case (StepWorker ans)
  then obtain a rest r as where a: "workerThread q = a # rest" "act ans a q = Some (r, as)"
      "q' = r\<lparr>workerThread := as @ rest\<rparr>"
    using assms by (auto split: list.splits)
  have r: "callThreads r = callThreads q" "destroyThread r = destroyThread q" "destroying r = destroying q"
    using act_threads [OF a(2)] by auto
  show thesis
    by (rule act [of a "mset rest + mset (destroyThread q) + mset (concat (callThreads q))" ans r as])
      (auto simp: a r pending_def same_shared_def async_queue.defs)
next
  case (StepDestroy ans)
  then obtain a rest r as where a: "destroyThread q = a # rest" "act ans a q = Some (r, as)"
      "q' = r\<lparr>destroyThread := as @ rest\<rparr>"
    using assms by (auto split: list.splits)
  have r: "callThreads r = callThreads q" "workerThread r = workerThread q" "destroying r = destroying q"
    using act_threads [OF a(2)] by auto
  show thesis
    by (rule act [of a "mset (workerThread q) + mset rest + mset (concat (callThreads q))" ans r as])
      (auto simp: a r pending_def same_shared_def async_queue.defs)
next
  case Destroy
  then show thesis using assms by (intro destroy) (auto split: if_splits)
qed

section \<open>Counting\<close>

text \<open>How many waits of an operation an action is about to give back, and how often it holds the operation.\<close>

fun owed :: "nat \<Rightarrow> action \<Rightarrow> nat" where
  "owed x (StoreError y st) = (if y = x then 1 else 0)"
| "owed x (GiveBack y) = (if y = x then 1 else 0)"
| "owed x (CancelEntry y i c xs chain) = (if y = x then c else 0)"
| "owed x (CancelStore y c xs chain) = (if y = x then c else 0)"
| "owed x (CancelGiveBack y c xs chain) = (if y = x then c else 0)"
| "owed x _ = 0"

fun holds :: "nat \<Rightarrow> action \<Rightarrow> nat" where
  "holds x (PushReady y) = (if y = x then 1 else 0)"
| "holds x (PushChain xs) = count_list xs x"
| "holds x (LoadStatus y) = (if y = x then 1 else 0)"
| "holds x (RunFn y) = (if y = x then 1 else 0)"
| "holds x (SignalList y) = (if y = x then 1 else 0)"
| "holds x (FailList y e) = (if y = x then 1 else 0)"
| "holds x (ReleaseOp y) = (if y = x then 1 else 0)"
| "holds x (CancelWalk xs chain) = count_list chain x"
| "holds x (CancelEntry y i c xs chain) = count_list chain x"
| "holds x (CancelStore y c xs chain) = count_list chain x"
| "holds x (CancelGiveBack y c xs chain) = count_list chain x"
| "holds x _ = 0"

fun cancels :: "action \<Rightarrow> nat" where
  "cancels (CancelWalk xs chain) = 1"
| "cancels (CancelEntry y i c xs chain) = 1"
| "cancels (CancelStore y c xs chain) = 1"
| "cancels (CancelGiveBack y c xs chain) = 1"
| "cancels _ = 0"

fun calls :: "nat \<Rightarrow> action \<Rightarrow> nat" where
  "calls x (LinkInflight y) = (if y = x then 1 else 0)"
| "calls x (TestLoop y i) = (if y = x then 1 else 0)"
| "calls x (AcquireTimepoint y i) = (if y = x then 1 else 0)"
| "calls x _ = 0"

definition weight :: "(action \<Rightarrow> nat) \<Rightarrow> action multiset \<Rightarrow> nat" where
  "weight f P = (\<Sum>a\<in>#P. f a)"

lemma weight_simps [simp]:
  "weight f {#} = 0" "weight f (add_mset a P) = f a + weight f P" "weight f (P + R) = weight f P + weight f R"
  by (simp_all add: weight_def)

lemma weight_ge: "a \<in># P \<Longrightarrow> f a \<le> weight f P"
  by (metis insert_DiffM le_add1 weight_simps(2))

lemma weight_zero: "weight f P = 0 \<Longrightarrow> a \<in># P \<Longrightarrow> f a = 0"
  using weight_ge [of a P f] by simp

lemma weight_loads [simp]: "weight (owed x) (mset (map LoadStatus xs)) = 0" "weight cancels (mset (map LoadStatus xs)) = 0"
    "weight (calls x) (mset (map LoadStatus xs)) = 0" "weight (holds x) (mset (map LoadStatus xs)) = count_list xs x"
  by (induction xs) auto

lemma count_mset_list [simp]: "count (mset xs) x = count_list xs x"
  by (induction xs) auto

lemma weight_load_image [simp]: "weight (owed x) (image_mset LoadStatus M) = 0" "weight cancels (image_mset LoadStatus M) = 0"
    "weight (calls x) (image_mset LoadStatus M) = 0" "weight (holds x) (image_mset LoadStatus M) = count M x"
  by (induction M) auto

definition isOpen :: "wait_state \<Rightarrow> bool" where
  "isOpen w \<longleftrightarrow> w = Unarmed \<or> w = Armed"

definition openWaits :: "async_op \<Rightarrow> nat" where
  "openWaits p = length (filter isOpen (waitEntries p))"

lemma filter_update_length:
  "i < length xs \<Longrightarrow> length (filter P (xs[i := y])) + (if P (xs ! i) then 1 else 0) = length (filter P xs) + (if P y then 1 else 0)"
proof -
  assume i: "i < length xs"
  have "length (filter P xs) = length (filter P (take i xs @ xs ! i # drop (Suc i) xs))" using i by (simp add: id_take_nth_drop [symmetric])
  then show ?thesis using i by (simp add: upd_conv_take_nth_drop)
qed

lemma openWaits_update:
  "i < length (waitEntries p) \<Longrightarrow>
   openWaits (p\<lparr>waitEntries := (waitEntries p)[i := w]\<rparr>) + (if isOpen (waitEntries p ! i) then 1 else 0) = openWaits p + (if isOpen w then 1 else 0)"
  by (simp add: openWaits_def filter_update_length)

text \<open>
  The counts of an operation: its wait count is the number of open waits and of those that are being given
  back; when it is zero the operation is held once, before that it is held by nobody.
\<close>

definition counted :: "'a async_queue_scheme \<Rightarrow> action multiset \<Rightarrow> nat \<Rightarrow> bool" where
  "counted q P x \<longleftrightarrow> (case opAt q x of
       None \<Rightarrow> weight (owed x) P = 0 \<and> weight (holds x) P + count_list (ready q) x = 0
     | Some p \<Rightarrow> waitCount p = int (openWaits p + weight (owed x) P) \<and> x < nextOp q
         \<and> weight (holds x) P + count_list (ready q) x = (if waitCount p = 0 then 1 else 0))"

text \<open>Where the enqueue of an operation is: the waits before the index are registered.\<close>

definition registered :: "async_op \<Rightarrow> nat \<Rightarrow> bool" where
  "registered p i \<longleftrightarrow> i \<le> length (waitEntries p) \<and> (\<forall>j < length (waitEntries p). waitEntries p ! j = Unarmed \<longleftrightarrow> i \<le> j)"

fun callOk :: "async_op option \<Rightarrow> action \<Rightarrow> bool" where
  "callOk None (TestLoop y i) = True"
| "callOk (Some p) (LinkInflight y) = (registered p 0 \<and> waitEntries p \<noteq> [])"
| "callOk (Some p) (TestLoop y i) = registered p i"
| "callOk (Some p) (AcquireTimepoint y i) = (registered p i \<and> i < length (waitEntries p))"
| "callOk _ _ = False"

definition callActs :: "nat \<Rightarrow> action multiset \<Rightarrow> action multiset" where
  "callActs x P = filter_mset (\<lambda>b. calls x b = 1) P"

definition enqueued :: "'a async_queue_scheme \<Rightarrow> action multiset \<Rightarrow> nat \<Rightarrow> bool" where
  "enqueued q P x \<longleftrightarrow> (nextOp q \<le> x \<longrightarrow> callActs x P = {#})
     \<and> (callActs x P = {#} \<or> (\<exists>b. callActs x P = {#b#} \<and> callOk (opAt q x) b))
     \<and> (\<forall>p. callActs x P = {#} \<and> opAt q x = Some p \<longrightarrow> Unarmed \<notin> set (waitEntries p))"

text \<open>The inflight list and the walk over it.\<close>

fun walked :: "action \<Rightarrow> nat list" where
  "walked (CancelWalk xs chain) = xs"
| "walked (CancelEntry y i c xs chain) = y # xs"
| "walked (CancelStore y c xs chain) = y # xs"
| "walked (CancelGiveBack y c xs chain) = y # xs"
| "walked _ = []"

definition linked :: "'a async_queue_scheme \<Rightarrow> action multiset \<Rightarrow> bool" where
  "linked q P \<longleftrightarrow> distinct (inflight q)
     \<and> (\<forall>x \<in> set (inflight q). LinkInflight x \<notin># P \<and> (\<exists>p. opAt q x = Some p \<and> (waitCount p = 0 \<longrightarrow> PushReady x \<in># P)))
     \<and> (\<forall>x p. opAt q x = Some p \<and> waitCount p \<noteq> 0 \<longrightarrow> x \<in> set (inflight q) \<or> LinkInflight x \<in># P)
     \<and> weight cancels P = (if inflightMutex q then 1 else 0)
     \<and> (\<forall>a \<in># P. distinct (walked a) \<and> set (walked a) \<subseteq> set (inflight q))
     \<and> (\<forall>x c xs chain. CancelStore x c xs chain \<in># P \<or> CancelGiveBack x c xs chain \<in># P \<longrightarrow> 0 < c)"

definition sound :: "'a async_queue_scheme \<Rightarrow> action multiset \<Rightarrow> bool" where
  "sound q P \<longleftrightarrow> (\<forall>x. counted q P x) \<and> (\<forall>x. enqueued q P x) \<and> linked q P"

lemma truncate_sel [simp]:
  "opAt (async_queue.truncate q) = opAt q" "nextOp (async_queue.truncate q) = nextOp q"
  "inflight (async_queue.truncate q) = inflight q" "inflightMutex (async_queue.truncate q) = inflightMutex q"
  "ready (async_queue.truncate q) = ready q" "inflightCount (async_queue.truncate q) = inflightCount q"
  "shutdownRequested (async_queue.truncate q) = shutdownRequested q" "workerEpoch (async_queue.truncate q) = workerEpoch q"
  "trace (async_queue.truncate q) = trace q" "pushed (async_queue.truncate q) = pushed q"
  by (simp_all add: async_queue.truncate_def)

lemma sound_truncate: "sound (async_queue.truncate q) P \<longleftrightarrow> sound q P"
  unfolding sound_def counted_def enqueued_def linked_def truncate_sel by (rule refl)

lemma sound_same: "same_shared q r \<Longrightarrow> sound q P \<longleftrightarrow> sound r P"
  using sound_truncate unfolding same_shared_def by metis

lemma sound_create: "sound (queue_create tr) (pending (queue_create tr))"
  by (auto simp: sound_def counted_def enqueued_def callActs_def linked_def queue_create_def pending_def)

lemma counted_kept:
  assumes "counted q P x" and "opAt r x = opAt q x" and "nextOp r = nextOp q" and "weight (owed x) P' = weight (owed x) P"
    and "weight (holds x) P' + count_list (ready r) x = weight (holds x) P + count_list (ready q) x"
  shows "counted r P' x"
  using assms(1) unfolding counted_def assms(2-5) .

lemma counted_errors:
  assumes "counted q P x" and "opAt r = (opAt q)(y := map_option (storeStatus st) (opAt q y))" and "nextOp r = nextOp q"
    and "weight (owed x) P' = weight (owed x) P"
    and "weight (holds x) P' + count_list (ready r) x = weight (holds x) P + count_list (ready q) x"
  shows "counted r P' x"
  using assms by (cases "x = y"; cases "opAt q x") (simp_all add: counted_def storeStatus_def openWaits_def)

lemma counted_live:
  assumes "counted q P y" and "a \<in># P" and "owed y a > 0 \<or> holds y a > 0"
  obtains p where "opAt q y = Some p" and "holds y a > 0 \<longrightarrow> waitCount p = 0" and "owed y a > 0 \<longrightarrow> waitCount p > 0"
proof -
  have o: "owed y a \<le> weight (owed y) P" "holds y a \<le> weight (holds y) P" using assms(2) by (rule weight_ge)+
  show thesis
  proof (cases "opAt q y")
    case None
    then show ?thesis using assms(1,3) o by (simp add: counted_def)
  next
    case (Some p)
    then have c: "waitCount p = int (openWaits p + weight (owed y) P)"
        "weight (holds y) P + count_list (ready q) y = (if waitCount p = 0 then 1 else 0)"
      using assms(1) by (simp_all add: counted_def)
    have "holds y a > 0 \<longrightarrow> waitCount p = 0" using c(2) o(2) by (auto split: if_splits)
    moreover have "owed y a > 0 \<longrightarrow> waitCount p > 0" using c(1) o(1) by linarith
    ultimately show ?thesis by (rule that [OF Some])
  qed
qed

lemma callActs_simps [simp]:
  "callActs x {#} = {#}" "callActs x (add_mset b P) = (if calls x b = 1 then add_mset b (callActs x P) else callActs x P)"
  "callActs x (P + R) = callActs x P + callActs x R" "callActs x (image_mset LoadStatus M) = {#}"
  by (simp_all add: callActs_def, induction M) auto

lemma enqueued_acquire:
  assumes "enqueued q (add_mset a R) y" and "a = AcquireTimepoint y i"
  obtains p where "opAt q y = Some p" and "registered p i" and "i < length (waitEntries p)"
  using assms by (cases "opAt q y") (auto simp: enqueued_def)

lemma counted_act:
  assumes s: "sound q (add_mset a R)" and r: "act ans a q = Some (r, as)"
  shows "counted r (mset as + R) x"
proof -
  have c: "counted q (add_mset a R) y" and e: "enqueued q (add_mset a R) y" and l: "linked q (add_mset a R)" for y
    using s by (auto simp: sound_def)
  have m: "a \<in># add_mset a R" by simp
  show ?thesis
  proof (cases a)
    case (LinkInflight y)
    show ?thesis by (rule counted_kept [OF c]) (use r LinkInflight in \<open>auto split: if_splits\<close>)
  next
    case (TestLoop y i)
    show ?thesis by (rule counted_kept [OF c]) (use r TestLoop in auto)
  next
    case (AcquireTimepoint y i)
    obtain p where p: "opAt q y = Some p" "registered p i" "i < length (waitEntries p)"
      using e [of y] AcquireTimepoint by (rule enqueued_acquire)
    have u: "isOpen (waitEntries p ! i)" using p by (simp add: registered_def isOpen_def)
    define w where "w = (case ans of None \<Rightarrow> Armed | Some e \<Rightarrow> Refused e)"
    have r': "opAt r = (opAt q)(y \<mapsto> p\<lparr>waitEntries := (waitEntries p)[i := w]\<rparr>)" "nextOp r = nextOp q" "ready r = ready q"
      using r AcquireTimepoint p(1) by (cases ans; auto simp: w_def updateOp_def)+
    have as: "weight (owed x) (mset as) = (if x = y \<and> \<not> isOpen w then 1 else 0)" "weight (holds x) (mset as) = 0"
      using r AcquireTimepoint by (cases ans; auto simp: w_def isOpen_def)+
    show ?thesis
    proof (cases "x = y")
      case True
      then show ?thesis using c [of y] openWaits_update [OF p(3), of w] u p(1) as AcquireTimepoint
        by (simp add: counted_def r' split: if_splits)
    next
      case False
      show ?thesis by (rule counted_kept [OF c]) (use r' as AcquireTimepoint False in auto)
    qed
  next
    case (StoreError y st)
    show ?thesis by (rule counted_errors [OF c, where y = y and st = st]) (use r StoreError in \<open>auto simp: updateOp_def\<close>)
  next
    case (GiveBack y)
    obtain p where p: "opAt q y = Some p" using counted_live [OF c m, of y] GiveBack by auto
    have r': "opAt r = (opAt q)(y \<mapsto> p\<lparr>waitCount := waitCount p - 1\<rparr>)" "nextOp r = nextOp q" "ready r = ready q"
        "as = (if waitCount p = 1 then [PushReady y] else [])"
      using r GiveBack p by (auto simp: updateOp_def opOf_def)
    show ?thesis
    proof (cases "x = y")
      case True
      then show ?thesis using c [of y] p GiveBack by (auto simp: counted_def r' openWaits_def)
    next
      case False
      show ?thesis by (rule counted_kept [OF c]) (use r' GiveBack False in \<open>auto split: if_splits\<close>)
    qed
  next
    case (PushReady y)
    show ?thesis by (rule counted_kept [OF c]) (use r PushReady in \<open>auto split: if_splits\<close>)
  next
    case (PushChain xs)
    show ?thesis by (rule counted_kept [OF c]) (use r PushChain in auto)
  next
    case (LoadStatus y)
    show ?thesis by (rule counted_kept [OF c]) (use r LoadStatus in \<open>auto split: option.splits\<close>)
  next
    case (RunFn y)
    show ?thesis by (rule counted_kept [OF c]) (use r RunFn in \<open>auto split: option.splits\<close>)
  next
    case (SignalList y)
    show ?thesis by (rule counted_kept [OF c]) (use r SignalList in \<open>auto split: option.splits\<close>)
  next
    case (FailList y st)
    show ?thesis by (rule counted_kept [OF c]) (use r FailList in auto)
  next
    case (ReleaseOp y)
    obtain p where p: "opAt q y = Some p" "waitCount p = 0" using counted_live [OF c m, of y] ReleaseOp by auto
    show ?thesis
    proof (cases "x = y")
      case True
      then show ?thesis using r c [of y] p ReleaseOp by (auto simp: counted_def)
    next
      case False
      show ?thesis by (rule counted_kept [OF c]) (use r ReleaseOp False in \<open>auto split: if_splits\<close>)
    qed
  next
    case (WorkerTake sd)
    show ?thesis by (rule counted_kept [OF c]) (use r WorkerTake in \<open>auto split: if_splits\<close>)
  next
    case (CancelWalk xs chain)
    show ?thesis by (rule counted_kept [OF c]) (use r CancelWalk in \<open>auto split: list.splits if_splits\<close>)
  next
    case (CancelEntry y i c' xs chain)
    obtain p where p: "opAt q y = Some p" using l CancelEntry by (fastforce simp: linked_def)
    show ?thesis
    proof (cases "i < length (waitEntries p) \<and> waitEntries p ! i = Armed")
      case True
      have r': "opAt r = (opAt q)(y \<mapsto> p\<lparr>waitEntries := (waitEntries p)[i := Cancelled]\<rparr>)" "nextOp r = nextOp q" "ready r = ready q"
          "as = [CancelEntry y (Suc i) (Suc c') xs chain]"
        using r CancelEntry p True by (auto simp: updateOp_def opOf_def)
      show ?thesis
      proof (cases "x = y")
        case eq: True
        then show ?thesis using c [of y] p openWaits_update [of i p Cancelled] True CancelEntry
          by (auto simp: counted_def r' isOpen_def)
      next
        case False
        show ?thesis by (rule counted_kept [OF c]) (use r' CancelEntry False in auto)
      qed
    next
      case False
      show ?thesis by (rule counted_kept [OF c]) (use r CancelEntry p False in \<open>auto simp: opOf_def split: if_splits\<close>)
    qed
  next
    case (CancelStore y c' xs chain)
    show ?thesis by (rule counted_errors [OF c, where y = y and st = "Some CANCELLED"]) (use r CancelStore in \<open>auto simp: updateOp_def\<close>)
  next
    case (CancelGiveBack y c' xs chain)
    have pos: "0 < c'" using l CancelGiveBack by (auto simp: linked_def)
    obtain p where p: "opAt q y = Some p" using counted_live [OF c m, of y] CancelGiveBack pos by auto
    have r': "opAt r = (opAt q)(y \<mapsto> p\<lparr>waitCount := waitCount p - int c'\<rparr>)" "nextOp r = nextOp q" "ready r = ready q"
        "as = [CancelWalk xs (if waitCount p = int c' then y # chain else chain)]"
      using r CancelGiveBack p by (auto simp: updateOp_def opOf_def Let_def split: if_splits)
    show ?thesis
    proof (cases "x = y")
      case True
      then show ?thesis using c [of y] p pos CancelGiveBack by (auto simp: counted_def r' openWaits_def split: if_splits)
    next
      case False
      show ?thesis by (rule counted_kept [OF c]) (use r' CancelGiveBack False in \<open>auto split: if_splits\<close>)
    qed
  qed (rule counted_kept [OF c]; use r in \<open>auto split: if_splits\<close>)+
qed


definition unarmed :: "async_op \<Rightarrow> bool list" where
  "unarmed p = map (\<lambda>w. w = Unarmed) (waitEntries p)"

lemma registered_unarmed: "registered p i \<longleftrightarrow> i \<le> length (unarmed p) \<and> (\<forall>j < length (unarmed p). unarmed p ! j \<longleftrightarrow> i \<le> j)"
  by (auto simp: registered_def unarmed_def)

lemma unarmed_set: "Unarmed \<in> set (waitEntries p) \<longleftrightarrow> True \<in> set (unarmed p)"
  by (auto simp: unarmed_def)

lemma unarmed_length: "length (unarmed p) = length (waitEntries p)"
  by (simp add: unarmed_def)

lemma unarmed_update:
  "i < length (waitEntries p) \<Longrightarrow> waitEntries p ! i \<noteq> Unarmed \<Longrightarrow> w \<noteq> Unarmed \<Longrightarrow>
   unarmed (p\<lparr>waitEntries := (waitEntries p)[i := w]\<rparr>) = unarmed p"
  by (auto simp: unarmed_def list_eq_iff_nth_eq nth_list_update)

lemma callOk_unarmed: "unarmed p = unarmed p' \<Longrightarrow> callOk (Some p) b = callOk (Some p') b"
proof -
  assume u: "unarmed p = unarmed p'"
  then have n: "length (waitEntries p) = length (waitEntries p')" by (metis unarmed_length)
  then have z: "waitEntries p = [] \<longleftrightarrow> waitEntries p' = []" by (metis length_0_conv)
  have "registered p i = registered p' i" for i by (simp add: registered_unarmed u)
  with n z show ?thesis by (cases b) simp_all
qed

lemma enqueued_kept:
  assumes "enqueued q P x" and "map_option unarmed (opAt r x) = map_option unarmed (opAt q x)" and "nextOp r = nextOp q"
    and "callActs x P' = callActs x P"
  shows "enqueued r P' x"
proof (cases "opAt q x")
  case None
  then show ?thesis using assms by (simp add: enqueued_def)
next
  case (Some p)
  then obtain p' where p': "opAt r x = Some p'" "unarmed p' = unarmed p" using assms(2) by auto
  then show ?thesis using assms(1,3,4) Some callOk_unarmed [OF p'(2)] by (simp add: enqueued_def unarmed_set)
qed

lemma unarmed_fields [simp]:
  "unarmed (storeStatus st p) = unarmed p" "unarmed (p\<lparr>waitCount := n\<rparr>) = unarmed p"
  by (simp_all add: unarmed_def storeStatus_def)

lemma registered_open: "registered p i \<Longrightarrow> openWaits p = 0 \<Longrightarrow> i = length (waitEntries p)"
proof (rule ccontr)
  assume p: "registered p i" "openWaits p = 0" and "i \<noteq> length (waitEntries p)"
  then have i: "i < length (waitEntries p)" by (simp add: registered_def)
  then have "isOpen (waitEntries p ! i)" using p(1) by (simp add: registered_def isOpen_def)
  with i p(2) show False by (simp add: openWaits_def filter_empty_conv)
qed

lemma enqueued_act:
  assumes s: "sound q (add_mset a R)" and r: "act ans a q = Some (r, as)"
  shows "enqueued r (mset as + R) x"
proof -
  have c: "counted q (add_mset a R) y" and e: "enqueued q (add_mset a R) y" and l: "linked q (add_mset a R)" for y
    using s by (auto simp: sound_def)
  have m: "a \<in># add_mset a R" by simp
  show ?thesis
  proof (cases a)
    case (LinkInflight y)
    show ?thesis
    proof (cases "x = y")
      case True
      then show ?thesis using e [of y] r LinkInflight by (cases "opAt q y") (auto simp: enqueued_def split: if_splits)
    next
      case False
      show ?thesis by (rule enqueued_kept [OF e]) (use r LinkInflight False in \<open>auto split: if_splits\<close>)
    qed
  next
    case (TestLoop y i)
    show ?thesis
    proof (cases "x = y")
      case True
      show ?thesis
      proof (cases "opAt q y")
        case None
        then show ?thesis using e [of y] r TestLoop True by (auto simp: enqueued_def opOf_def)
      next
        case (Some p)
        then have p: "registered p i" using e [of y] TestLoop by (auto simp: enqueued_def)
        show ?thesis
        proof (cases "i < length (waitEntries p)")
          case True
          then show ?thesis using e [of y] r TestLoop Some p \<open>x = y\<close> by (auto simp: enqueued_def opOf_def)
        next
          case False
          then have "Unarmed \<notin> set (waitEntries p)" using p by (auto simp: registered_def in_set_conv_nth)
          then show ?thesis using e [of y] r TestLoop Some False \<open>x = y\<close> by (auto simp: enqueued_def opOf_def)
        qed
      qed
    next
      case False
      show ?thesis by (rule enqueued_kept [OF e]) (use r TestLoop False in auto)
    qed
  next
    case (AcquireTimepoint y i)
    obtain p where p: "opAt q y = Some p" "registered p i" "i < length (waitEntries p)"
      using e [of y] AcquireTimepoint by (rule enqueued_acquire)
    define w where "w = (case ans of None \<Rightarrow> Armed | Some e \<Rightarrow> Refused e)"
    have r': "opAt r = (opAt q)(y \<mapsto> p\<lparr>waitEntries := (waitEntries p)[i := w]\<rparr>)" "nextOp r = nextOp q" "w \<noteq> Unarmed"
        "callActs x (mset as) = (if x = y then {#TestLoop y (Suc i)#} else {#})"
      using r AcquireTimepoint p(1) by (cases ans; auto simp: w_def updateOp_def)+
    show ?thesis
    proof (cases "x = y")
      case True
      have "registered (p\<lparr>waitEntries := (waitEntries p)[i := w]\<rparr>) (Suc i)"
        using p r'(3) by (auto simp: registered_def nth_list_update)
      then show ?thesis using e [of y] r' True AcquireTimepoint p(1) by (auto simp: enqueued_def)
    next
      case False
      show ?thesis by (rule enqueued_kept [OF e]) (use r' AcquireTimepoint False in auto)
    qed
  next
    case (ReleaseOp y)
    obtain p where p: "opAt q y = Some p" "waitCount p = 0" using counted_live [OF c m, of y] ReleaseOp by auto
    have o: "openWaits p = 0" using c [of y] p by (simp add: counted_def)
    show ?thesis
    proof (cases "x = y")
      case True
      have "callOk None b" if "callOk (Some p) b" for b
        using that registered_open [OF _ o] by (cases b) fastforce+
      then show ?thesis using e [of y] p(1) r ReleaseOp True by (auto simp: enqueued_def)
    next
      case False
      show ?thesis by (rule enqueued_kept [OF e]) (use r ReleaseOp False in auto)
    qed
  next
    case (CancelEntry y i c' xs chain)
    obtain p where p: "opAt q y = Some p" using l CancelEntry by (fastforce simp: linked_def)
    show ?thesis
      by (rule enqueued_kept [OF e]) (use r CancelEntry p unarmed_update [of i p Cancelled] in \<open>auto simp: updateOp_def opOf_def split: if_splits\<close>)
  qed (rule enqueued_kept [OF e]; use r in \<open>auto simp: updateOp_def Let_def option.map_comp o_def split: if_splits option.splits list.splits\<close>)+
qed


lemma weight_zero_in: "b \<in># P \<Longrightarrow> weight f P = 0 \<Longrightarrow> f b = 0"
  by (rule weight_zero)

lemma linked_kept:
  assumes l: "linked q (add_mset a R)" and "inflight r = inflight q" and "inflightMutex r = inflightMutex q"
    and "\<And>x. map_option waitCount (opAt r x) = map_option waitCount (opAt q x)"
    and "cancels a = weight cancels (mset as)"
    and "\<And>x. a \<noteq> LinkInflight x \<and> a \<noteq> PushReady x"
    and "\<forall>b \<in> set as. (\<forall>x. b \<noteq> LinkInflight x) \<and> distinct (walked b) \<and> set (walked b) \<subseteq> set (inflight q)
        \<and> (\<forall>x c xs chain. b = CancelStore x c xs chain \<or> b = CancelGiveBack x c xs chain \<longrightarrow> 0 < c)"
  shows "linked r (mset as + R)"
proof -
  have w: "(\<exists>p. opAt r x = Some p \<and> (waitCount p = 0 \<longrightarrow> Q)) \<longleftrightarrow> (\<exists>p. opAt q x = Some p \<and> (waitCount p = 0 \<longrightarrow> Q))" for x Q
    using assms(4) [of x] by (cases "opAt r x"; cases "opAt q x") auto
  have n: "(\<exists>p. opAt r x = Some p \<and> waitCount p \<noteq> 0) \<longleftrightarrow> (\<exists>p. opAt q x = Some p \<and> waitCount p \<noteq> 0)" for x
    using assms(4) [of x] by (cases "opAt r x"; cases "opAt q x") auto
  have link: "LinkInflight x \<in># mset as + R \<longleftrightarrow> LinkInflight x \<in># add_mset a R" for x using assms(6,7) by auto
  have push: "PushReady x \<in># add_mset a R \<Longrightarrow> PushReady x \<in># mset as + R" for x using assms(6) by auto
  show ?thesis
    unfolding linked_def assms(2,3)
  proof (intro conjI)
    show "distinct (inflight q)" using l by (simp add: linked_def)
    show "\<forall>x \<in> set (inflight q). LinkInflight x \<notin># mset as + R \<and> (\<exists>p. opAt r x = Some p \<and> (waitCount p = 0 \<longrightarrow> PushReady x \<in># mset as + R))"
      using l push unfolding linked_def link w by blast
    show "\<forall>x p. opAt r x = Some p \<and> waitCount p \<noteq> 0 \<longrightarrow> x \<in> set (inflight q) \<or> LinkInflight x \<in># mset as + R"
      using l n unfolding linked_def link by blast
    show "weight cancels (mset as + R) = (if inflightMutex q then 1 else 0)" using l assms(5) by (simp add: linked_def)
    show "\<forall>b \<in># mset as + R. distinct (walked b) \<and> set (walked b) \<subseteq> set (inflight q)"
      using l assms(7) by (auto simp: linked_def)
    show "\<forall>x c xs chain. CancelStore x c xs chain \<in># mset as + R \<or> CancelGiveBack x c xs chain \<in># mset as + R \<longrightarrow> 0 < c"
      using l assms(7) unfolding linked_def 
      by (simp only: set_mset_union set_mset_add_mset_insert set_mset_mset Un_iff insert_iff) blast
  qed
qed


lemma walked_nil: "cancels b = 0 \<Longrightarrow> walked b = []"
  by (cases b) simp_all

lemma weight_unique:
  assumes "weight f (add_mset a R) = 1" and "f a = 1" and "b \<in># R" shows "f b = 0"
proof -
  have "weight f R = 0" using assms(1,2) by simp
  then show ?thesis using assms(3) by (rule weight_zero)
qed

lemma linked_act:
  assumes s: "sound q (add_mset a R)" and r: "act ans a q = Some (r, as)"
  shows "linked r (mset as + R)"
proof -
  have c: "counted q (add_mset a R) y" and e: "enqueued q (add_mset a R) y" and l: "linked q (add_mset a R)" for y
    using s by (auto simp: sound_def)
  have m: "a \<in># add_mset a R" by simp
  have free: "\<forall>b \<in># R. walked b = []" if "\<not> inflightMutex q"
  proof
    fix b assume "b \<in># R"
    moreover have "weight cancels R = 0" using l that by (simp add: linked_def)
    ultimately show "walked b = []" by (intro walked_nil weight_zero)
  qed
  show ?thesis
  proof (cases a)
    case (LinkInflight y)
    have k: "callActs y R = {#}" and live: "\<exists>p. opAt q y = Some p \<and> registered p 0 \<and> waitEntries p \<noteq> []"
      using e [of y] LinkInflight by (cases "opAt q y"; auto simp: enqueued_def)+
    then obtain p where p: "opAt q y = Some p" "registered p 0" "waitEntries p \<noteq> []" by blast
    have "openWaits p \<noteq> 0" using registered_open [OF p(2)] p(3) by auto
    then have n: "waitCount p \<noteq> 0" using c [of y] p(1) by (simp add: counted_def)
    have u: "LinkInflight y \<notin># R"
    proof
      assume "LinkInflight y \<in># R"
      then have "LinkInflight y \<in># callActs y R" by (simp add: callActs_def)
      with k show False by simp
    qed
    have "y \<notin> set (inflight q)" using l LinkInflight by (auto simp: linked_def)
    moreover have r': "\<not> inflightMutex q" "r = q\<lparr>inflight := y # inflight q\<rparr>" "as = [TestLoop y 0]"
      using r LinkInflight by (auto split: if_splits)
    ultimately show ?thesis using l LinkInflight p(1) n u free [OF r'(1)] r'(1) unfolding linked_def r'(2,3)
      by (simp add: insert_commute) blast
  next
    case (PushReady y)
    obtain p where p: "opAt q y = Some p" "waitCount p = 0" using counted_live [OF c m, of y] PushReady by auto
    have f: "\<not> inflightMutex q" and r': "r = q\<lparr>inflight := remove1 y (inflight q)\<rparr>" "as = [PushChain [y]]"
      using r PushReady by (auto split: if_splits)
    have d: "distinct (inflight q)" using l by (simp add: linked_def)
    show ?thesis using l PushReady p d free [OF f] unfolding linked_def r' by (auto simp: set_remove1_eq)
  next
    case (GiveBack y)
    obtain p where p: "opAt q y = Some p" "waitCount p > 0" using counted_live [OF c m, of y] GiveBack by auto
    have r': "r = q\<lparr>opAt := (opAt q)(y \<mapsto> p\<lparr>waitCount := waitCount p - 1\<rparr>)\<rparr>" "as = (if waitCount p = 1 then [PushReady y] else [])"
      using r GiveBack p(1) by (auto simp: updateOp_def opOf_def)
    show ?thesis using l GiveBack p unfolding linked_def r' by auto
  next
    case (ReleaseOp y)
    obtain p where p: "opAt q y = Some p" "waitCount p = 0" using counted_live [OF c m, of y] ReleaseOp by auto
    have "PushReady y \<notin># add_mset a R"
    proof
      assume "PushReady y \<in># add_mset a R"
      then have "PushReady y \<in># R" using ReleaseOp by auto
      then have "1 \<le> weight (holds y) R" using weight_ge [of "PushReady y" R "holds y"] by simp
      then show False using c [of y] p ReleaseOp by (simp add: counted_def)
    qed
    then have "y \<notin> set (inflight q)" using l p by (auto simp: linked_def)
    then have ne: "x \<noteq> y" if "x \<in> set (inflight q)" for x using that by blast
    have r': "r = q\<lparr>opAt := (opAt q)(y := None), trace := trace q @ [Released y]\<rparr>" "as = [CountDown]" using r ReleaseOp by auto
    have keep: "\<forall>x \<in> set (inflight q). LinkInflight x \<notin># R \<and> (\<exists>p. opAt q x = Some p \<and> (waitCount p = 0 \<longrightarrow> PushReady x \<in># R))"
      and wait: "\<forall>x p. opAt q x = Some p \<and> waitCount p \<noteq> 0 \<longrightarrow> x \<in> set (inflight q) \<or> LinkInflight x \<in># R"
      using l ReleaseOp by (auto simp: linked_def)
    have "\<forall>x \<in> set (inflight q). LinkInflight x \<notin># mset as + R \<and> (\<exists>p. opAt r x = Some p \<and> (waitCount p = 0 \<longrightarrow> PushReady x \<in># mset as + R))"
      using keep ne by (auto simp: r')
    moreover have "\<forall>x p. opAt r x = Some p \<and> waitCount p \<noteq> 0 \<longrightarrow> x \<in> set (inflight q) \<or> LinkInflight x \<in># mset as + R"
      using wait by (auto simp: r' split: if_splits)
    ultimately show ?thesis using l ReleaseOp unfolding linked_def by (simp add: r')
  next
    case CancelLock
    have r': "\<not> inflightMutex q" "r = q\<lparr>inflightMutex := True\<rparr>" "as = [CancelWalk (inflight q) []]"
      using r CancelLock by (auto split: if_splits)
    show ?thesis using l CancelLock r'(1) unfolding linked_def r'(2,3) by auto
  next
    case (CancelWalk xs chain)
    have u: "inflightMutex q" "weight cancels R = 0" using l CancelWalk by (auto simp: linked_def split: if_splits)
    show ?thesis
    proof (cases xs)
      case Nil
      have r': "r = q\<lparr>inflightMutex := False\<rparr>" "as = (if chain \<noteq> [] then [PushChain chain] else [])"
        using r CancelWalk Nil by auto
      show ?thesis using l CancelWalk u unfolding linked_def r' by auto
    next
      case (Cons x xs')
      show ?thesis by (rule linked_kept [OF l]) (use r CancelWalk Cons l in \<open>auto simp: linked_def\<close>)
    qed
  next
    case (CancelEntry y i c' xs chain)
    obtain p where p: "opAt q y = Some p" using l CancelEntry by (fastforce simp: linked_def)
    show ?thesis by (rule linked_kept [OF l]) (use r CancelEntry p l in \<open>auto simp: linked_def updateOp_def opOf_def split: if_splits\<close>)
  next
    case (CancelStore y c' xs chain)
    show ?thesis
      by (rule linked_kept [OF l]) (use r CancelStore l in \<open>auto simp: linked_def updateOp_def storeStatus_def option.map_comp o_def\<close>)
  next
    case (CancelGiveBack y c' xs chain)
    have pos: "0 < c'" using l CancelGiveBack by (auto simp: linked_def)
    obtain p where p: "opAt q y = Some p" "waitCount p > 0" using counted_live [OF c m, of y] CancelGiveBack pos by auto
    have u: "inflightMutex q" "weight cancels R = 0" using l CancelGiveBack by (auto simp: linked_def split: if_splits)
    have nil: "\<forall>b \<in># R. walked b = []" using u(2) walked_nil weight_zero by blast
    have xs: "distinct (y # xs)" "set (y # xs) \<subseteq> set (inflight q)" using l CancelGiveBack by (auto simp: linked_def)
    have d: "distinct (inflight q)" using l by (simp add: linked_def)
    have r': "r = q\<lparr>opAt := (opAt q)(y \<mapsto> p\<lparr>waitCount := waitCount p - int c'\<rparr>),
          inflight := (if waitCount p = int c' then remove1 y (inflight q) else inflight q)\<rparr>"
        "as = [CancelWalk xs (if waitCount p = int c' then y # chain else chain)]"
      using r CancelGiveBack p by (auto simp: updateOp_def opOf_def Let_def split: if_splits)
    show ?thesis using l CancelGiveBack p u nil xs d unfolding linked_def r' by (auto simp: set_remove1_eq)
  next
    case (AcquireTimepoint y i)
    show ?thesis by (rule linked_kept [OF l]) (use r AcquireTimepoint in \<open>auto simp: updateOp_def option.map_comp o_def split: option.splits\<close>)
  next
    case (StoreError y st)
    show ?thesis by (rule linked_kept [OF l]) (use r StoreError in \<open>auto simp: updateOp_def storeStatus_def option.map_comp o_def\<close>)
  qed (rule linked_kept [OF l]; use r in \<open>auto split: if_splits option.splits\<close>)+
qed

lemma sound_act: "sound q (add_mset a R) \<Longrightarrow> act ans a q = Some (r, as) \<Longrightarrow> sound r (mset as + R)"
  unfolding sound_def [of r] by (blast intro: counted_act enqueued_act linked_act)


section \<open>The counts hold in every reachable state\<close>

lemma counted_fresh: "sound q P \<Longrightarrow> opAt q (nextOp q) = None"
  unfolding sound_def counted_def by (metis (no_types, lifting) less_irrefl option.case_eq_if)

lemma sound_enqueue:
  assumes s: "sound q P" and b: "b = (if n = 0 then PushReady (nextOp q) else LinkInflight (nextOp q))"
    and r: "opAt r = (opAt q)(nextOp q := Some (newOp n))" "nextOp r = Suc (nextOp q)" "ready r = ready q"
      "inflight r = inflight q" "inflightMutex r = inflightMutex q"
  shows "sound r (add_mset b P)"
proof -
  have fresh: "opAt q (nextOp q) = None" by (rule counted_fresh [OF s])
  have open': "openWaits (newOp n) = n" by (simp add: openWaits_def newOp_def isOpen_def)
  have l: "linked q P" and c: "counted q P x" and e: "enqueued q P x" for x using s by (auto simp: sound_def)
  have "counted r (add_mset b P) x" for x
  proof (cases "x = nextOp q")
    case True
    then show ?thesis using c [of x] fresh open' b by (auto simp: counted_def r newOp_def)
  next
    case False
    then show ?thesis using c [of x] b by (cases "opAt q x") (auto simp: counted_def r)
  qed
  moreover have "enqueued r (add_mset b P) x" for x
  proof (cases "x = nextOp q")
    case True
    then show ?thesis using e [of x] b by (auto simp: enqueued_def r newOp_def registered_def)
  next
    case False
    then show ?thesis using e [of x] b by (auto simp: enqueued_def r)
  qed
  moreover have "linked r (add_mset b P)"
  proof -
    have new: "nextOp q \<notin> set (inflight q)" using l fresh by (auto simp: linked_def)
    have keep: "\<forall>x \<in> set (inflight q). LinkInflight x \<notin># P \<and> (\<exists>p. opAt q x = Some p \<and> (waitCount p = 0 \<longrightarrow> PushReady x \<in># P))"
      and wait: "\<forall>x p. opAt q x = Some p \<and> waitCount p \<noteq> 0 \<longrightarrow> x \<in> set (inflight q) \<or> LinkInflight x \<in># P"
      using l by (auto simp: linked_def)
    have "\<forall>x \<in> set (inflight q). LinkInflight x \<notin># add_mset b P \<and> (\<exists>p. opAt r x = Some p \<and> (waitCount p = 0 \<longrightarrow> PushReady x \<in># add_mset b P))"
      using keep new b by (auto simp: r)
    moreover have "\<forall>x p. opAt r x = Some p \<and> waitCount p \<noteq> 0 \<longrightarrow> x \<in> set (inflight q) \<or> LinkInflight x \<in># add_mset b P"
      using wait b by (auto simp: r newOp_def split: if_splits)
    ultimately show ?thesis using l b unfolding linked_def by (simp add: r)
  qed
  ultimately show ?thesis by (simp add: sound_def)
qed

lemma linked_idle: "linked q P \<Longrightarrow> linked q (add_mset CountDown P)"
  by (simp add: linked_def)

lemma sound_idle:
  "\<forall>b \<in># B. (\<forall>x. owed x b = 0 \<and> holds x b = 0 \<and> calls x b = 0) \<and> cancels b = 0 \<Longrightarrow> sound q P \<Longrightarrow> sound q (B + P)"
proof (induction B)
  case (add b B)
  then have s: "sound q (B + P)" and b: "\<And>x. owed x b = 0 \<and> holds x b = 0 \<and> calls x b = 0" "cancels b = 0" by auto
  have nl: "b \<noteq> LinkInflight x" for x using b(1) [of x] by auto
  have c: "counted q (B + P) x" and e: "enqueued q (B + P) x" for x using s by (auto simp: sound_def)
  have "counted q (add_mset b (B + P)) x" "enqueued q (add_mset b (B + P)) x" for x
    using b(1) [of x] by (auto intro!: counted_kept [OF c] enqueued_kept [OF e])
  moreover have "linked q (add_mset b (B + P))"
  proof -
    have "linked q (mset [b] + (B + P))"
      by (rule linked_kept [OF linked_idle]) (use s b nl walked_nil [OF b(2)] in \<open>auto simp: sound_def\<close>)
    then show ?thesis by simp
  qed
  ultimately show ?case by (simp add: sound_def)
qed simp

lemma sound_fire:
  assumes s: "sound q P" and p: "opAt q x = Some p" "i < length (waitEntries p)" "waitEntries p ! i = Armed"
    and b: "b = (if st = None then GiveBack x else StoreError x st)"
    and r: "opAt r = (opAt q)(x \<mapsto> p\<lparr>waitEntries := (waitEntries p)[i := Fired st]\<rparr>)" "nextOp r = nextOp q" "ready r = ready q"
      "inflight r = inflight q" "inflightMutex r = inflightMutex q"
  shows "sound r (add_mset b P)"
proof -
  have l: "linked q P" and c: "counted q P y" and e: "enqueued q P y" for y using s by (auto simp: sound_def)
  have "counted r (add_mset b P) y" for y
  proof (cases "y = x")
    case True
    then show ?thesis using c [of x] p openWaits_update [OF p(2), of "Fired st"] b by (auto simp: counted_def r isOpen_def)
  next
    case False
    show ?thesis by (rule counted_kept [OF c]) (use False b in \<open>auto simp: r\<close>)
  qed
  moreover have "enqueued r (add_mset b P) y" for y
    by (rule enqueued_kept [OF e]) (use unarmed_update [OF p(2), of "Fired st"] p b in \<open>auto simp: r\<close>)
  moreover have "linked r (add_mset b P)"
  proof -
    have "linked r (mset [b] + P)"
      by (rule linked_kept [OF linked_idle [OF l]]) (use b p(1) in \<open>auto simp: r\<close>)
    then show ?thesis by simp
  qed
  ultimately show ?thesis by (simp add: sound_def)
qed

definition wellFormed :: "async_system \<Rightarrow> bool" where
  "wellFormed q \<longleftrightarrow> sound q (pending q) \<and> (\<not> destroying q \<longrightarrow> destroyThread q = [])"

lemma destroyThread_kept: "proceed c q = Some q' \<Longrightarrow> \<not> destroying q' \<Longrightarrow> destroyThread q = [] \<Longrightarrow> destroyThread q' = []"
  by (cases c) (auto simp: Let_def updateOp_def split: option.splits if_splits list.splits dest: act_threads)

lemma wellFormed_step:
  assumes w: "wellFormed q" and p: "proceed c q = Some q'" shows "wellFormed q'"
proof -
  have s: "sound q (pending q)" using w by (simp add: wellFormed_def)
  have d: "destroying q' \<or> \<not> destroying q"
    using p by (cases c) (auto simp: Let_def updateOp_def split: option.splits if_splits list.splits dest: act_threads)
  have "sound q' (pending q')"
    using p
  proof (cases rule: proceed_cases)
    case (enqueue n)
    show ?thesis unfolding enqueue(4) by (rule sound_enqueue [OF s refl]) (simp_all add: enqueue(3))
  next
    case (fire x i st p)
    have "sound (updateOp x (\<lambda>p. p\<lparr>waitEntries := (waitEntries p)[i := Fired st]\<rparr>) q) (pending q')"
      unfolding fire(10) by (rule sound_fire [OF s fire(2-4) refl]) (simp_all add: updateOp_def fire(2))
    then show ?thesis using sound_same [OF fire(5)] by simp
  next
    case (act a as R ans r)
    have "sound r (mset as + R)" using s act(1,2) by (intro sound_act) simp_all
    then show ?thesis using sound_same [OF act(3)] act(4) by simp
  next
    case destroy
    have "destroyThread q = []" using w destroy(2) by (simp add: wellFormed_def)
    then have "pending q' = {#CancelLock, AwaitDrained, SetShutdown#} + pending q" by (simp add: destroy(4) pending_def)
    moreover have "same_shared q' q" by (simp add: destroy(4) same_shared_def async_queue.truncate_def)
    ultimately show ?thesis using sound_idle [OF _ s, of "{#CancelLock, AwaitDrained, SetShutdown#}"] sound_same by simp
  qed
  then show ?thesis using w d destroyThread_kept [OF p] by (auto simp: wellFormed_def)
qed

lemma reachable_wellFormed: "reachable q \<Longrightarrow> wellFormed q"
proof (induction rule: reachable.induct)
  case (create tracker)
  show ?case using sound_create by (simp add: wellFormed_def queue_create_def)
next
  case (step q c q')
  from wellFormed_step [OF step(3,2)] show ?case .
qed

lemma reachable_sound: "reachable q \<Longrightarrow> sound q (pending q)"
  using reachable_wellFormed by (simp add: wellFormed_def)

text \<open>The operation an action accesses, apart from the loop condition of enqueue.\<close>

fun accesses :: "action \<Rightarrow> nat list" where
  "accesses (LinkInflight x) = [x]"
| "accesses (AcquireTimepoint x i) = [x]"
| "accesses (StoreError x st) = [x]"
| "accesses (GiveBack x) = [x]"
| "accesses (PushReady x) = [x]"
| "accesses (PushChain xs) = xs"
| "accesses (LoadStatus x) = [x]"
| "accesses (RunFn x) = [x]"
| "accesses (SignalList x) = [x]"
| "accesses (FailList x e) = [x]"
| "accesses (ReleaseOp x) = [x]"
| "accesses (CancelWalk xs chain) = xs @ chain"
| "accesses (CancelEntry x i c xs chain) = x # xs @ chain"
| "accesses (CancelStore x c xs chain) = x # xs @ chain"
| "accesses (CancelGiveBack x c xs chain) = x # xs @ chain"
| "accesses _ = []"

lemma count_list_pos: "0 < count_list xs x \<longleftrightarrow> x \<in> set xs"
  by (induction xs) auto

lemma accesses_held: "x \<in> set (accesses a) \<Longrightarrow> 0 < owed x a \<or> 0 < holds x a \<or> x \<in> set (walked a) \<or> (0 < calls x a \<and> (\<forall>i. a \<noteq> TestLoop x i))"
  by (cases a) (auto simp: count_list_pos)

lemma accesses_live:
  assumes s: "sound q P" and a: "a \<in># P" and x: "x \<in> set (accesses a)"
  shows "opAt q x \<noteq> None"
proof -
  have l: "linked q P" and c: "counted q P x" and e: "enqueued q P x" using s by (auto simp: sound_def)
  consider "0 < owed x a \<or> 0 < holds x a" | "x \<in> set (walked a)" | "0 < calls x a" "\<forall>i. a \<noteq> TestLoop x i"
    using accesses_held [OF x] by metis
  then show ?thesis
  proof cases
    case 1
    then show ?thesis using counted_live [OF c a] by auto
  next
    case 2
    then have "x \<in> set (inflight q)" using l a by (auto simp: linked_def)
    then show ?thesis using l by (auto simp: linked_def)
  next
    case 3
    then have k: "a \<in># callActs x P" using a by (cases a) (auto simp: callActs_def split: if_splits)
    then have "callOk (opAt q x) a" using e by (auto simp: enqueued_def)
    then show ?thesis using 3 by (cases "opAt q x"; cases a) (auto split: if_splits)
  qed
qed


section \<open>Errors of the waits\<close>

fun isBad :: "wait_state \<Rightarrow> bool" where
  "isBad (Fired (Some e)) = True"
| "isBad (Refused e) = True"
| "isBad Cancelled = True"
| "isBad _ = False"

text \<open>Waits that went wrong and whose error is not stored yet.\<close>

fun stores :: "nat \<Rightarrow> action \<Rightarrow> nat" where
  "stores x (StoreError y (Some e)) = (if y = x then 1 else 0)"
| "stores x (CancelEntry y i c xs chain) = (if y = x then c else 0)"
| "stores x (CancelStore y c xs chain) = (if y = x then c else 0)"
| "stores x _ = 0"

definition anyBad :: "wait_state list \<Rightarrow> bool" where
  "anyBad ws \<longleftrightarrow> (\<exists>w \<in> set ws. isBad w)"

definition errors :: "async_system \<Rightarrow> action multiset \<Rightarrow> nat \<Rightarrow> bool" where
  "errors q P x \<longleftrightarrow> (\<forall>p. opAt q x = Some p \<longrightarrow>
     (anyBad (waitEntries p) \<longleftrightarrow> errorStatus p \<noteq> None \<or> 0 < weight (stores x) P)
     \<and> (RunFn x \<in># P \<or> SignalList x \<in># P \<longrightarrow> errorStatus p = None))"

lemma weight_mono: "(\<And>a. f a \<le> g a) \<Longrightarrow> weight f P \<le> weight g P"
  by (induction P) (auto intro: add_mono)

lemma stores_owed: "stores x a \<le> owed x a"
proof (cases a)
  case (StoreError y st)
  then show ?thesis by (cases st) auto
qed auto

lemma stores_zero: "weight (owed x) P = 0 \<Longrightarrow> weight (stores x) P = 0"
  using weight_mono [of "stores x" "owed x" P] stores_owed by simp

lemma weight_loads_stores [simp]: "weight (stores x) (image_mset LoadStatus M) = 0"
  by (induction M) auto

lemma bad_update:
  assumes "i < length xs" and "\<not> isBad (xs ! i)"
  shows "anyBad (xs[i := v]) \<longleftrightarrow> isBad v \<or> anyBad xs"
proof -
  have "set (xs[i := v]) = insert v (set (take i xs @ drop (Suc i) xs))" using assms(1) by (simp add: upd_conv_take_nth_drop)
  moreover have "set xs = insert (xs ! i) (set (take i xs @ drop (Suc i) xs))"
    using id_take_nth_drop [OF assms(1)] by (metis (no_types, lifting) Un_insert_right list.simps(15) set_append)
  ultimately show ?thesis using assms(2) by (auto simp: anyBad_def)
qed

lemma errors_kept:
  assumes "errors q P x" and "opAt r x = opAt q x" and "weight (stores x) P' = weight (stores x) P"
    and "RunFn x \<in># P' \<or> SignalList x \<in># P' \<longrightarrow> RunFn x \<in># P \<or> SignalList x \<in># P"
  shows "errors r P' x"
  using assms(1,4) unfolding errors_def assms(2,3) by auto

lemma errors_running: "errors q P x \<Longrightarrow> opAt q x = Some p \<Longrightarrow> RunFn x \<in># P \<or> SignalList x \<in># P \<Longrightarrow> errorStatus p = None"
  by (simp add: errors_def)

text \<open>An operation that still waits is not run.\<close>

lemma waiting_not_run:
  assumes "counted q P x" and "opAt q x = Some p" and "waitCount p \<noteq> 0"
  shows "RunFn x \<notin># P" and "SignalList x \<notin># P"
proof -
  have h: "weight (holds x) P = 0" using assms by (simp add: counted_def)
  show "RunFn x \<notin># P" using weight_zero [OF h, of "RunFn x"] by auto
  show "SignalList x \<notin># P" using weight_zero [OF h, of "SignalList x"] by auto
qed

lemma errors_act:
  assumes s: "sound q (add_mset a R)" and er: "errors q (add_mset a R) x" and r: "act ans a q = Some (r, as)"
  shows "errors r (mset as + R) x"
proof -
  have c: "counted q (add_mset a R) y" and e: "enqueued q (add_mset a R) y" and l: "linked q (add_mset a R)" for y
    using s by (auto simp: sound_def)
  have m: "a \<in># add_mset a R" by simp
  show ?thesis
  proof (cases a)
    case (AcquireTimepoint y i)
    obtain p where p: "opAt q y = Some p" "registered p i" "i < length (waitEntries p)"
      using e [of y] AcquireTimepoint by (rule enqueued_acquire)
    have u: "waitEntries p ! i = Unarmed" using p by (simp add: registered_def)
    then have nb: "\<not> isBad (waitEntries p ! i)" by simp
    have "openWaits p \<noteq> 0" using registered_open [OF p(2)] p(3) by auto
    then have "waitCount p \<noteq> 0" using c [of y] p(1) by (simp add: counted_def)
    note n = waiting_not_run [OF c [of y] p(1) this]
    show ?thesis
    proof (cases "x = y")
      case True
      then show ?thesis using er r AcquireTimepoint p(1) bad_update [OF p(3) nb] n
        by (cases ans) (auto simp: errors_def updateOp_def)
    next
      case False
      show ?thesis by (rule errors_kept [OF er]) (use r AcquireTimepoint False in \<open>auto simp: updateOp_def split: option.splits\<close>)
    qed
  next
    case (StoreError y st)
    obtain p where p: "opAt q y = Some p" "waitCount p > 0" using counted_live [OF c m, of y] StoreError by auto
    have n: "RunFn y \<notin># add_mset a R" "SignalList y \<notin># add_mset a R" using waiting_not_run [OF c p(1)] p(2) by auto
    show ?thesis
    proof (cases "x = y")
      case True
      then show ?thesis using er r StoreError p(1) n
        by (cases st; cases "errorStatus p") (auto simp: errors_def updateOp_def storeStatus_def)
    next
      case False
      show ?thesis by (rule errors_kept [OF er]; use r StoreError False in \<open>cases st; auto simp: updateOp_def\<close>)
    qed
  next
    case (GiveBack y)
    show ?thesis
    proof (cases "x = y")
      case True
      then show ?thesis using er r GiveBack by (cases "opAt q y") (auto simp: errors_def updateOp_def split: if_splits)
    next
      case False
      show ?thesis by (rule errors_kept [OF er]) (use r GiveBack False in \<open>auto simp: updateOp_def split: if_splits\<close>)
    qed
  next
    case (LoadStatus y)
    show ?thesis
    proof (cases "x = y")
      case True
      then show ?thesis using er r LoadStatus by (cases "opAt q y") (auto simp: errors_def opOf_def split: option.splits)
    next
      case False
      show ?thesis by (rule errors_kept [OF er]) (use r LoadStatus False in \<open>auto split: option.splits\<close>)
    qed
  next
    case (ReleaseOp y)
    show ?thesis
    proof (cases "x = y")
      case True
      then show ?thesis using r ReleaseOp by (auto simp: errors_def)
    next
      case False
      show ?thesis by (rule errors_kept [OF er]) (use r ReleaseOp False in auto)
    qed
  next
    case (CancelEntry y i c' xs chain)
    obtain p where p: "opAt q y = Some p" using l CancelEntry by (fastforce simp: linked_def)
    show ?thesis
    proof (cases "i < length (waitEntries p) \<and> waitEntries p ! i = Armed")
      case True
      then have i: "i < length (waitEntries p)" and nb: "\<not> isBad (waitEntries p ! i)" by auto
      have "Armed \<in> set (waitEntries p)" using True by (metis nth_mem)
      then have "openWaits p \<noteq> 0" by (auto simp: openWaits_def filter_empty_conv isOpen_def)
      then have "waitCount p \<noteq> 0" using c [of y] p(1) by (simp add: counted_def)
      note n = waiting_not_run [OF c [of y] p this]
      have r': "opAt r = (opAt q)(y \<mapsto> p\<lparr>waitEntries := (waitEntries p)[i := Cancelled]\<rparr>)" "as = [CancelEntry y (Suc i) (Suc c') xs chain]"
        using r CancelEntry p True by (auto simp: updateOp_def opOf_def)
      show ?thesis
      proof (cases "x = y")
        case True
        then show ?thesis using er CancelEntry p bad_update [OF i nb] n by (auto simp: errors_def r')
      next
        case False
        show ?thesis by (rule errors_kept [OF er]) (use r' CancelEntry False in auto)
      qed
    next
      case False
      show ?thesis by (rule errors_kept [OF er]) (use r CancelEntry p False in \<open>auto simp: opOf_def split: if_splits\<close>)
    qed
  next
    case (CancelStore y c' xs chain)
    have pos: "0 < c'" using l CancelStore by (auto simp: linked_def)
    obtain p where p: "opAt q y = Some p" "waitCount p > 0" using counted_live [OF c m, of y] CancelStore pos by auto
    have n: "RunFn y \<notin># add_mset a R" "SignalList y \<notin># add_mset a R" using waiting_not_run [OF c p(1)] p(2) by auto
    show ?thesis
    proof (cases "x = y")
      case True
      then show ?thesis using er r CancelStore p(1) n pos
        by (cases "errorStatus p") (auto simp: errors_def updateOp_def storeStatus_def)
    next
      case False
      show ?thesis by (rule errors_kept [OF er]) (use r CancelStore False in \<open>auto simp: updateOp_def\<close>)
    qed
  next
    case (CancelGiveBack y c' xs chain)
    show ?thesis
    proof (cases "x = y")
      case True
      have pos: "0 < c'" using l CancelGiveBack by (auto simp: linked_def)
      obtain p where p: "opAt q y = Some p" using counted_live [OF c m, of y] CancelGiveBack pos by auto
      then have "opAt r = (opAt q)(y \<mapsto> p\<lparr>waitCount := waitCount p - int c'\<rparr>)" "\<exists>ch. as = [CancelWalk xs ch]"
        using r CancelGiveBack by (auto simp: updateOp_def Let_def split: if_splits)
      then show ?thesis using er CancelGiveBack p True by (auto simp: errors_def)
    next
      case False
      show ?thesis by (rule errors_kept [OF er]) (use r CancelGiveBack False in \<open>auto simp: updateOp_def Let_def split: if_splits\<close>)
    qed
  qed (rule errors_kept [OF er]; use r in \<open>auto split: if_splits option.splits list.splits\<close>)+
qed


section \<open>What happened to an operation\<close>

definition runsIn :: "event list \<Rightarrow> nat \<Rightarrow> nat" where
  "runsIn tr x = count_list tr (Ran x)"

definition endsIn :: "event list \<Rightarrow> nat \<Rightarrow> nat" where
  "endsIn tr x = length (filter (\<lambda>ev. ev = Signalled x \<or> (\<exists>e. ev = Failed x e)) tr)"

definition releasesIn :: "event list \<Rightarrow> nat \<Rightarrow> nat" where
  "releasesIn tr x = count_list tr (Released x)"

lemmas event_counts = runsIn_def endsIn_def releasesIn_def

fun ran :: "nat \<Rightarrow> action \<Rightarrow> nat" where
  "ran x (SignalList y) = (if y = x then 1 else 0)"
| "ran x (FailList y e) = (if y = x then 1 else 0)"
| "ran x (ReleaseOp y) = (if y = x then 1 else 0)"
| "ran x _ = 0"

fun ended :: "nat \<Rightarrow> action \<Rightarrow> nat" where
  "ended x (ReleaseOp y) = (if y = x then 1 else 0)"
| "ended x _ = 0"

definition traced :: "async_system \<Rightarrow> action multiset \<Rightarrow> nat \<Rightarrow> bool" where
  "traced q P x \<longleftrightarrow> (if opAt q x = None
     then if x < nextOp q then endsIn (trace q) x = 1 \<and> releasesIn (trace q) x = 1 \<and> runsIn (trace q) x \<le> 1
       else endsIn (trace q) x = 0 \<and> releasesIn (trace q) x = 0 \<and> runsIn (trace q) x = 0
     else endsIn (trace q) x = weight (ended x) P \<and> releasesIn (trace q) x = 0 \<and> runsIn (trace q) x \<le> weight (ran x) P)"

lemma weight_loads_ran [simp]: "weight (ran x) (image_mset LoadStatus M) = 0" "weight (ended x) (image_mset LoadStatus M) = 0"
  by (induction M) auto

lemma ran_holds: "ended x a \<le> ran x a" "ran x a \<le> holds x a"
  by (cases a; simp)+

lemma traced_kept:
  assumes "traced q P x" and "(opAt r x = None) = (opAt q x = None)" and "nextOp r = nextOp q" and "trace r = trace q"
    and "weight (ended x) P' = weight (ended x) P" and "weight (ran x) P \<le> weight (ran x) P'"
  shows "traced r P' x"
  using assms unfolding traced_def by auto

lemma traced_trace:
  assumes "traced q P x" and "(opAt r x = None) = (opAt q x = None)" and "nextOp r = nextOp q" and "opAt q x \<noteq> None"
    and "endsIn (trace r) x + weight (ended x) P = endsIn (trace q) x + weight (ended x) P'"
    and "releasesIn (trace r) x = releasesIn (trace q) x"
    and "runsIn (trace r) x + weight (ran x) P \<le> runsIn (trace q) x + weight (ran x) P'"
  shows "traced r P' x"
  using assms unfolding traced_def by auto

lemma trace_other:
  assumes "traced q P x" and "(opAt r x = None) = (opAt q x = None)" and "nextOp r = nextOp q"
    and "endsIn (trace r) x = endsIn (trace q) x" and "releasesIn (trace r) x = releasesIn (trace q) x" and "runsIn (trace r) x = runsIn (trace q) x"
    and "weight (ended x) P' = weight (ended x) P" and "weight (ran x) P \<le> weight (ran x) P'"
  shows "traced r P' x"
  using assms unfolding traced_def by auto

lemma traced_act:
  assumes s: "sound q (add_mset a R)" and t: "traced q (add_mset a R) x" and r: "act ans a q = Some (r, as)"
  shows "traced r (mset as + R) x"
proof -
  have c: "counted q (add_mset a R) y" and l: "linked q (add_mset a R)" for y
    using s by (auto simp: sound_def)
  have m: "a \<in># add_mset a R" by simp
  show ?thesis
  proof (cases a)
    case (RunFn y)
    obtain p where p: "opAt q y = Some p" using counted_live [OF c m, of y] RunFn by auto
    show ?thesis
    proof (cases "x = y")
      case True
      show ?thesis by (rule traced_trace [OF t]; use True p r RunFn in \<open>cases ans; auto simp: event_counts\<close>)
    next
      case False
      show ?thesis by (rule trace_other [OF t]; use False r RunFn in \<open>cases ans; auto simp: event_counts\<close>)
    qed
  next
    case (SignalList y)
    obtain p where p: "opAt q y = Some p" using counted_live [OF c m, of y] SignalList by auto
    show ?thesis
    proof (cases "x = y")
      case True
      show ?thesis by (rule traced_trace [OF t]; use True p r SignalList in \<open>cases ans; auto simp: event_counts\<close>)
    next
      case False
      show ?thesis by (rule trace_other [OF t]; use False r SignalList in \<open>cases ans; auto simp: event_counts\<close>)
    qed
  next
    case (FailList y e)
    obtain p where p: "opAt q y = Some p" using counted_live [OF c m, of y] FailList by auto
    show ?thesis
    proof (cases "x = y")
      case True
      show ?thesis by (rule traced_trace [OF t]; use True p r FailList in \<open>cases ans; auto simp: event_counts\<close>)
    next
      case False
      show ?thesis by (rule trace_other [OF t]; use False r FailList in \<open>cases ans; auto simp: event_counts\<close>)
    qed
  next
    case (ReleaseOp y)
    obtain p where p: "opAt q y = Some p" "waitCount p = 0" using counted_live [OF c m, of y] ReleaseOp by auto
    have h: "weight (holds y) (add_mset a R) \<le> 1" "y < nextOp q" using c [of y] p by (simp_all add: counted_def)
    have "weight (ended y) (add_mset a R) \<le> weight (ran y) (add_mset a R)" "weight (ran y) (add_mset a R) \<le> weight (holds y) (add_mset a R)"
      by (rule weight_mono, rule ran_holds)+
    moreover have "1 \<le> weight (ended y) (add_mset a R)" using ReleaseOp by simp
    ultimately have w: "weight (ended y) (add_mset a R) = 1" "weight (ran y) (add_mset a R) = 1" using h(1) by linarith+
    show ?thesis
    proof (cases "x = y")
      case True
      then show ?thesis using t r ReleaseOp p w h(2) unfolding traced_def by (auto simp: event_counts)
    next
      case False
      then show ?thesis using t r ReleaseOp by (auto simp: traced_def event_counts)
    qed
  next
    case (CancelEntry y i c' xs chain)
    show ?thesis by (rule traced_kept [OF t]; use r CancelEntry in \<open>auto simp: updateOp_def split: if_splits\<close>)
  next
    case (LoadStatus y)
    show ?thesis by (rule traced_kept [OF t]; use r LoadStatus in \<open>auto split: option.splits\<close>)
  qed (rule traced_kept [OF t]; use r in \<open>auto simp: updateOp_def Let_def split: if_splits option.splits list.splits\<close>)+
qed


section \<open>Which thread does what\<close>

fun callKind :: "action \<Rightarrow> bool" where
  "callKind (LinkInflight x) = True"
| "callKind (TestLoop x i) = True"
| "callKind (AcquireTimepoint x i) = True"
| "callKind (StoreError x st) = True"
| "callKind (GiveBack x) = True"
| "callKind (PushReady x) = True"
| "callKind (PushChain xs) = True"
| "callKind PostWorker = True"
| "callKind _ = False"

fun procKind :: "action \<Rightarrow> bool" where
  "procKind (LoadStatus x) = True"
| "procKind (RunFn x) = True"
| "procKind (SignalList x) = True"
| "procKind (FailList x e) = True"
| "procKind (ReleaseOp x) = True"
| "procKind CountDown = True"
| "procKind _ = False"

fun loopKind :: "action \<Rightarrow> bool" where
  "loopKind WorkerTop = True"
| "loopKind (WorkerTake sd) = True"
| "loopKind (WorkerPrepare sd) = True"
| "loopKind (WorkerRecheck sd tok) = True"
| "loopKind (WorkerRecheckShutdown sd tok h) = True"
| "loopKind (WorkerCommit sd tok) = True"
| "loopKind _ = False"

fun cancelKind :: "action \<Rightarrow> bool" where
  "cancelKind CancelLock = True"
| "cancelKind (CancelWalk xs chain) = True"
| "cancelKind (CancelEntry y i c xs chain) = True"
| "cancelKind (CancelStore y c xs chain) = True"
| "cancelKind (CancelGiveBack y c xs chain) = True"
| "cancelKind (PushChain xs) = True"
| "cancelKind PostWorker = True"
| "cancelKind _ = False"

text \<open>The worker runs what it took and then goes on with its loop; the destruction has its stages.\<close>

definition workerShape :: "action list \<Rightarrow> bool" where
  "workerShape t \<longleftrightarrow> t = [] \<or> (\<exists>ps w. t = ps @ [w] \<and> list_all procKind ps \<and> loopKind w)"

definition destroyShape :: "action list \<Rightarrow> bool" where
  "destroyShape t \<longleftrightarrow> (\<exists>a. cancelKind a \<and> t = [a, AwaitDrained, SetShutdown])
     \<or> t \<in> {[], [AwaitDrained, SetShutdown], [SetShutdown], [PostWorker, JoinWorker], [JoinWorker]}"

definition shaped :: "async_system \<Rightarrow> bool" where
  "shaped q \<longleftrightarrow> (\<forall>t \<in> set (callThreads q). list_all callKind t) \<and> workerShape (workerThread q) \<and> destroyShape (destroyThread q)"

lemma act_callKind: "callKind a \<Longrightarrow> act ans a q = Some (r, as) \<Longrightarrow> list_all callKind as"
  by (cases a) (auto split: if_splits option.splits)

lemma act_procKind: "procKind a \<Longrightarrow> act ans a q = Some (r, as) \<Longrightarrow> list_all procKind as"
  by (cases a) (auto split: if_splits option.splits)

lemma loads_procKind: "list_all procKind (map LoadStatus xs)"
  by (induction xs) auto

lemma act_loopKind: "loopKind w \<Longrightarrow> act ans w q = Some (r, as) \<Longrightarrow> workerShape as"
proof (cases w)
  case (WorkerTake sd)
  assume "act ans w q = Some (r, as)"
  then show ?thesis using WorkerTake loads_procKind [of "rev (ready q)"] by (auto simp: workerShape_def split: if_splits)
qed (auto simp: workerShape_def split: if_splits)

lemma act_cancelKind: "cancelKind a \<Longrightarrow> act ans a q = Some (r, as) \<Longrightarrow> as = [] \<or> (\<exists>b. as = [b] \<and> cancelKind b)"
  by (cases a) (auto simp: Let_def split: if_splits list.splits)

lemma workerShape_step:
  assumes "workerShape (a # rest)" and "act ans a q = Some (r, as)" shows "workerShape (as @ rest)"
proof -
  obtain ps w where p: "a # rest = ps @ [w]" "list_all procKind ps" "loopKind w" using assms(1) by (auto simp: workerShape_def)
  show ?thesis
  proof (cases ps)
    case Nil
    then show ?thesis using p act_loopKind assms(2) by auto
  next
    case (Cons b ps')
    then have "list_all procKind as" using p assms(2) act_procKind by auto
    then show ?thesis unfolding workerShape_def using p Cons by (intro disjI2 exI [of _ "as @ ps'"] exI [of _ w]) auto
  qed
qed

lemma destroyShape_step:
  assumes "destroyShape (a # rest)" and "act ans a q = Some (r, as)" shows "destroyShape (as @ rest)"
  using assms act_cancelKind [of a ans q r as] unfolding destroyShape_def by (auto split: if_splits)

lemma shaped_step: "shaped q \<Longrightarrow> proceed c q = Some q' \<Longrightarrow> shaped q'"
proof (cases c)
  case (StepCall k ans)
  assume s: "shaped q" and p: "proceed c q = Some q'"
  obtain a rest r as where a: "k < length (callThreads q)" "callThreads q ! k = a # rest" "act ans a q = Some (r, as)"
      "q' = r\<lparr>callThreads := (callThreads q)[k := as @ rest]\<rparr>"
    using p StepCall by (auto split: if_splits list.splits)
  have "list_all callKind (a # rest)" using s a(1,2) unfolding shaped_def by (metis nth_mem)
  then have "list_all callKind (as @ rest)" using act_callKind [OF _ a(3)] by simp
  then show "shaped q'" using s act_threads [OF a(3)] set_update_subset_insert [of "callThreads q" k "as @ rest"]
    unfolding shaped_def a(4) by auto
next
  case (StepWorker ans)
  assume s: "shaped q" and p: "proceed c q = Some q'"
  then show "shaped q'" using StepWorker workerShape_step by (auto simp: shaped_def split: list.splits dest: act_threads)
next
  case (StepDestroy ans)
  assume s: "shaped q" and p: "proceed c q = Some q'"
  then show "shaped q'" using StepDestroy destroyShape_step by (auto simp: shaped_def split: list.splits dest: act_threads)
qed (auto simp: shaped_def Let_def updateOp_def destroyShape_def split: if_splits option.splits)

lemma shaped_create: "shaped (queue_create tr)"
  by (simp add: shaped_def queue_create_def workerShape_def destroyShape_def)


section \<open>Reachable states\<close>

lemma same_sel:
  assumes "same_shared q r"
  shows "opAt q = opAt r" "nextOp q = nextOp r" "inflight q = inflight r" "inflightMutex q = inflightMutex r" "ready q = ready r"
    "inflightCount q = inflightCount r" "shutdownRequested q = shutdownRequested r" "workerEpoch q = workerEpoch r"
    "trace q = trace r" "pushed q = pushed r"
  by (metis assms same_shared_def truncate_sel)+

lemma errors_same: "same_shared q r \<Longrightarrow> errors q P x = errors r P x"
  by (simp add: errors_def same_sel)

lemma traced_same: "same_shared q r \<Longrightarrow> traced q P x = traced r P x"
  by (simp add: traced_def same_sel)

definition accounted :: "async_system \<Rightarrow> bool" where
  "accounted q \<longleftrightarrow> (\<forall>x. errors q (pending q) x \<and> traced q (pending q) x)"

lemma accounted_step:
  assumes w: "wellFormed q" and acc: "accounted q" and p: "proceed c q = Some q'" shows "accounted q'"
proof -
  have s: "sound q (pending q)" using w by (simp add: wellFormed_def)
  have e: "errors q (pending q) x" and t: "traced q (pending q) x" for x using acc by (auto simp: accounted_def)
  have "errors q' (pending q') x \<and> traced q' (pending q') x" for x
    using p
  proof (cases rule: proceed_cases)
    case (enqueue n)
    have fresh: "opAt q (nextOp q) = None" by (rule counted_fresh [OF s])
    then have zero: "weight (owed (nextOp q)) (pending q) = 0" "weight (holds (nextOp q)) (pending q) = 0"
      using s by (auto simp: sound_def counted_def dest!: spec [of _ "nextOp q"])
    have z: "weight (stores (nextOp q)) (pending q) = 0" "weight (ran (nextOp q)) (pending q) = 0" "weight (ended (nextOp q)) (pending q) = 0"
      using stores_zero [OF zero(1)] weight_mono [of "ran (nextOp q)" "holds (nextOp q)" "pending q", OF ran_holds(2)]
        weight_mono [of "ended (nextOp q)" "ran (nextOp q)" "pending q", OF ran_holds(1)] zero(2) by auto
    have not_run: "RunFn (nextOp q) \<notin># pending q" "SignalList (nextOp q) \<notin># pending q"
      using weight_zero [OF zero(2), of "RunFn (nextOp q)"] weight_zero [OF zero(2), of "SignalList (nextOp q)"] by auto
    show ?thesis
    proof (cases "x = nextOp q")
      case True
      then show ?thesis using t [of x] fresh z not_run unfolding enqueue(4)
        by (auto simp: enqueue(3) errors_def traced_def newOp_def anyBad_def)
    next
      case False
      then show ?thesis using e [of x] t [of x] unfolding enqueue(4) by (auto simp: enqueue(3) errors_def traced_def less_Suc_eq)
    qed
  next
    case (fire x' i st p)
    define r where "r = updateOp x' (\<lambda>p. p\<lparr>waitEntries := (waitEntries p)[i := Fired st]\<rparr>) q"
    have r': "opAt r = (opAt q)(x' \<mapsto> p\<lparr>waitEntries := (waitEntries p)[i := Fired st]\<rparr>)" "nextOp r = nextOp q" "trace r = trace q"
      by (simp_all add: r_def updateOp_def fire(2))
    have "Armed \<in> set (waitEntries p)" using fire(3,4) by (metis nth_mem)
    then have "openWaits p \<noteq> 0" by (auto simp: openWaits_def filter_empty_conv isOpen_def)
    then have "waitCount p \<noteq> 0" using s fire(2) by (auto simp: sound_def counted_def dest!: spec [of _ x'])
    moreover have "counted q (pending q) x'" using s by (simp add: sound_def)
    ultimately have n: "RunFn x' \<notin># pending q" "SignalList x' \<notin># pending q" using waiting_not_run fire(2) by blast+
    have "errors r (pending q') x"
    proof (cases "x = x'")
      case True
      have "\<not> isBad (waitEntries p ! i)" using fire(4) by simp
      from bad_update [OF fire(3) this, of "Fired st"] show ?thesis
        using e [of x'] fire(2) n True unfolding fire(10) by (cases st) (auto simp: errors_def r')
    next
      case False
      show ?thesis by (rule errors_kept [OF e]; use False in \<open>cases st; auto simp: r' fire(10)\<close>)
    qed
    moreover have "traced r (pending q') x"
      by (rule traced_kept [OF t]) (auto simp: r' fire(2,10))
    ultimately show ?thesis using errors_same [OF fire(5)] traced_same [OF fire(5)] by (simp add: r_def)
  next
    case (act a as R ans r)
    have "errors r (mset as + R) x" using errors_act [of q a R x ans r as] s e act(1,2) by simp
    moreover have "traced r (mset as + R) x" using traced_act [of q a R x ans r as] s t act(1,2) by simp
    ultimately show ?thesis using errors_same [OF act(3)] traced_same [OF act(3)] act(4) by simp
  next
    case destroy
    have "destroyThread q = []" using w destroy(2) by (simp add: wellFormed_def)
    then have pe: "pending q' = add_mset CancelLock (add_mset AwaitDrained (add_mset SetShutdown (pending q)))"
      by (simp add: destroy(4) pending_def)
    have "errors q' (pending q') x" by (rule errors_kept [OF e]) (auto simp: destroy(4) pe [unfolded destroy(4)])
    moreover have "traced q' (pending q') x" by (rule traced_kept [OF t]) (auto simp: destroy(4) pe [unfolded destroy(4)])
    ultimately show ?thesis by simp
  qed
  then show ?thesis by (simp add: accounted_def)
qed

section \<open>Order\<close>

fun servedBy :: "action \<Rightarrow> nat list" where
  "servedBy (LoadStatus x) = [x]"
| "servedBy (RunFn x) = [x]"
| "servedBy (SignalList x) = [x]"
| "servedBy (FailList x e) = [x]"
| "servedBy _ = []"

fun endOf :: "event \<Rightarrow> nat list" where
  "endOf (Signalled x) = [x]"
| "endOf (Failed x e) = [x]"
| "endOf _ = []"

text \<open>The operations in the order in which their signal lists were signalled or failed.\<close>

definition endedOps :: "event list \<Rightarrow> nat list" where
  "endedOps tr = concat (map endOf tr)"

definition inOrder :: "async_system \<Rightarrow> bool" where
  "inOrder q \<longleftrightarrow> pushed q = endedOps (trace q) @ concat (map servedBy (workerThread q)) @ rev (ready q)"

lemma served_loads [simp]: "concat (map servedBy (map LoadStatus xs)) = xs"
  by (induction xs) auto

lemma order_call: "callKind a \<or> cancelKind a \<or> a = AwaitDrained \<or> a = SetShutdown \<or> a = JoinWorker \<Longrightarrow> act ans a q = Some (r, as) \<Longrightarrow>
    trace r = trace q \<and> (\<exists>xs. pushed r = pushed q @ xs \<and> rev (ready r) = rev (ready q) @ xs)"
  by (cases a) (auto simp: updateOp_def Let_def split: if_splits option.splits list.splits)

lemma order_proc: "procKind a \<Longrightarrow> act ans a q = Some (r, as) \<Longrightarrow>
    pushed r = pushed q \<and> ready r = ready q \<and> endedOps (trace r) @ concat (map servedBy as) = endedOps (trace q) @ servedBy a"
  by (cases a) (auto simp: endedOps_def split: if_splits option.splits)

lemma order_loop: "loopKind a \<Longrightarrow> act ans a q = Some (r, as) \<Longrightarrow>
    pushed r = pushed q \<and> trace r = trace q \<and> concat (map servedBy as) @ rev (ready r) = rev (ready q)"
proof (cases a)
  case (WorkerTake sd)
  assume "act ans a q = Some (r, as)"
  then show ?thesis using WorkerTake served_loads [of "rev (ready q)"] by (auto split: if_splits simp del: served_loads)
qed (auto split: if_splits)

lemma served_loop: "loopKind w \<Longrightarrow> servedBy w = []"
  by (cases w) auto

lemma inOrder_step:
  assumes sh: "shaped q" and o: "inOrder q" and p: "proceed c q = Some q'" shows "inOrder q'"
proof (cases c)
  case (StepCall k ans)
  obtain a rest r as where a: "k < length (callThreads q)" "callThreads q ! k = a # rest" "act ans a q = Some (r, as)"
      "q' = r\<lparr>callThreads := (callThreads q)[k := as @ rest]\<rparr>"
    using p StepCall by (auto split: if_splits list.splits)
  have "list_all callKind (a # rest)" using sh a(1,2) unfolding shaped_def by (metis nth_mem)
  then show ?thesis using order_call [OF _ a(3)] o act_threads [OF a(3)] unfolding inOrder_def a(4) by auto
next
  case (StepWorker ans)
  obtain a rest r as where a: "workerThread q = a # rest" "act ans a q = Some (r, as)" "q' = r\<lparr>workerThread := as @ rest\<rparr>"
    using p StepWorker by (auto split: list.splits)
  obtain ps w where pw: "a # rest = ps @ [w]" "list_all procKind ps" "loopKind w"
    using sh a(1) by (auto simp: shaped_def workerShape_def)
  show ?thesis
  proof (cases ps)
    case Nil
    then have "rest = []" "loopKind a" using pw by auto
    then show ?thesis using order_loop [OF _ a(2)] o a(1) served_loop by (auto simp: inOrder_def a(3))
  next
    case (Cons b ps')
    then have "procKind a" using pw by auto
    from order_proc [OF this a(2)] show ?thesis using o a(1) by (auto simp: inOrder_def a(3))
  qed
next
  case (StepDestroy ans)
  obtain a rest r as where a: "destroyThread q = a # rest" "act ans a q = Some (r, as)" "q' = r\<lparr>destroyThread := as @ rest\<rparr>"
    using p StepDestroy by (auto split: list.splits)
  have "cancelKind a \<or> a = AwaitDrained \<or> a = SetShutdown \<or> a = JoinWorker"
    using sh a(1) by (auto simp: shaped_def destroyShape_def)
  then show ?thesis using order_call [OF _ a(2)] o act_threads [OF a(2)] unfolding inOrder_def a(3) by auto
qed (use o p in \<open>auto simp: inOrder_def updateOp_def Let_def split: if_splits option.splits\<close>)

lemma reachable_all: "reachable q \<Longrightarrow> wellFormed q \<and> accounted q \<and> shaped q \<and> inOrder q"
proof (induction rule: reachable.induct)
  case (create tr)
  have "errors (queue_create tr) P x" "traced (queue_create tr) P x" for P x
    by (simp_all add: errors_def traced_def queue_create_def event_counts)
  then show ?case using sound_create shaped_create by (simp add: wellFormed_def accounted_def inOrder_def queue_create_def endedOps_def)
next
  case (step q c q')
  then show ?case using wellFormed_step accounted_step shaped_step inOrder_step by blast
qed

section \<open>Properties\<close>

text \<open>The state after a schedule; samples of executions.\<close>

definition scheduled :: "choice list \<Rightarrow> async_system" where
  "scheduled cs = (case run cs (queue_create True) of Some q \<Rightarrow> q | None \<Rightarrow> queue_create True)"

lemma scheduled_reachable: "reachable (scheduled cs)"
  using run_reachable [of cs "queue_create True"] reachable.create [of True] by (auto simp: scheduled_def split: option.split)

text \<open>A call with one wait that is resolved with a status before the worker runs for the given steps.\<close>

definition oneWait :: "status \<Rightarrow> nat \<Rightarrow> choice list" where
  "oneWait st n = [Enqueue 1, StepCall 0 None, StepCall 0 None, StepCall 0 None, StepCall 0 None, Fire 0 0 st]
     @ replicate (if st = None then 4 else 5) (StepCall 1 None) @ replicate n (StepWorker None)"

lemma held_once: "reachable q \<Longrightarrow> weight (holds x) (pending q) \<le> 1"
proof -
  assume "reachable q"
  then have "counted q (pending q) x" using reachable_sound by (auto simp: sound_def)
  then show ?thesis by (cases "opAt q x") (auto simp: counted_def split: if_splits)
qed

lemma once_traced: "reachable q \<Longrightarrow> traced q (pending q) x"
  using reachable_all by (auto simp: accounted_def)

text \<open>
  C4. In every execution each enqueued operation is released at most once, its signal list is signalled or
  failed at most once and its function runs at most once; an operation whose memory is gone was signalled or
  failed exactly once and released exactly once, and one still in memory is not released.
\<close>

theorem completed_once:
  assumes "reachable q" and "x < nextOp q"
  shows "endsIn (trace q) x \<le> 1 \<and> runsIn (trace q) x \<le> 1
    \<and> (if opAt q x = None then endsIn (trace q) x = 1 \<and> releasesIn (trace q) x = 1 else releasesIn (trace q) x = 0)"
proof -
  have "weight (ended x) (pending q) \<le> weight (holds x) (pending q)" "weight (ran x) (pending q) \<le> weight (holds x) (pending q)"
    using ran_holds le_trans by (intro weight_mono; blast)+
  then show ?thesis using once_traced [OF assms(1), of x] held_once [OF assms(1), of x] assms(2)
    by (auto simp: traced_def)
qed

lemma oneWait_trace: "trace (scheduled (oneWait None 6)) = [Ran 0, Signalled 0, Released 0]" "nextOp (scheduled (oneWait None 6)) = 1"
  by code_simp+

theorem completed_once_witness:
  "endsIn (trace (scheduled (oneWait None 6))) 0 \<le> 1 \<and> runsIn (trace (scheduled (oneWait None 6))) 0 \<le> 1"
  using completed_once [OF scheduled_reachable, of 0 "oneWait None 6"] oneWait_trace(2) by simp

text \<open>
  C12. An operation reaches the worker only when every one of its waits is over, and its function is called
  only when every wait was resolved without an error: when the worker loads the error status it is clear
  exactly when no wait failed, was refused or was cancelled.
\<close>

theorem waits_decide:
  assumes "reachable q" and "a \<in># pending q" and "a = LoadStatus x \<or> a = RunFn x"
  shows "\<exists>p. opAt q x = Some p \<and> openWaits p = 0
    \<and> (errorStatus p = None \<longleftrightarrow> list_all (\<lambda>w. w = Fired None) (waitEntries p)) \<and> (a = RunFn x \<longrightarrow> errorStatus p = None)"
proof -
  have s: "sound q (pending q)" and e: "errors q (pending q) x"
    using reachable_all [OF assms(1)] by (auto simp: wellFormed_def accounted_def)
  have c: "counted q (pending q) x" using s by (simp add: sound_def)
  have "0 < owed x a \<or> 0 < holds x a" "0 < holds x a" using assms(3) by auto
  with c assms(2) obtain p where p: "opAt q x = Some p" "waitCount p = 0" by (metis counted_live)
  then have z: "openWaits p = 0" "weight (owed x) (pending q) = 0" using c by (auto simp: counted_def)
  have "weight (stores x) (pending q) = 0" using z(2) by (rule stores_zero)
  then have bad: "anyBad (waitEntries p) \<longleftrightarrow> errorStatus p \<noteq> None" and run: "a = RunFn x \<longrightarrow> errorStatus p = None"
    using e p assms(2) by (auto simp: errors_def)
  have "\<not> isOpen w" if "w \<in> set (waitEntries p)" for w using z(1) that by (auto simp: openWaits_def filter_empty_conv)
  moreover have "w = Fired None \<longleftrightarrow> \<not> isOpen w \<and> \<not> isBad w" for w
    by (cases w rule: isBad.cases) (auto simp: isOpen_def)
  ultimately have "\<not> anyBad (waitEntries p) \<longleftrightarrow> list_all (\<lambda>w. w = Fired None) (waitEntries p)"
    by (auto simp: anyBad_def list_all_iff)
  then show ?thesis using p z(1) bad run by auto
qed

lemma oneWait_load: "workerThread (scheduled (oneWait (Some CANCELLED) 2)) = [LoadStatus 0, WorkerTop]"
  by code_simp

theorem waits_decide_witness:
  "LoadStatus 0 \<in># pending (scheduled (oneWait (Some CANCELLED) 2))
   \<and> (\<exists>p. opAt (scheduled (oneWait (Some CANCELLED) 2)) 0 = Some p \<and> openWaits p = 0)"
proof -
  have m: "LoadStatus 0 \<in># pending (scheduled (oneWait (Some CANCELLED) 2))" by (simp add: pending_def oneWait_load)
  from waits_decide [OF scheduled_reachable this] show ?thesis using m by auto
qed

text \<open>
  C18. The worker serves the operations in the order of their pushes on the ready stack: those whose signal
  list was signalled or failed so far, then those it is serving, then those on the stack, bottom first, are
  all operations ever pushed, in that order.
\<close>

theorem served_in_push_order:
  assumes "reachable q"
  shows "pushed q = endedOps (trace q) @ concat (map servedBy (workerThread q)) @ rev (ready q)"
  using reachable_all [OF assms] by (simp add: inOrder_def)

text \<open>Two calls without waits, of which the worker takes both and has served one.\<close>

definition twoReady :: "choice list" where
  "twoReady = [Enqueue 0, Enqueue 0, StepCall 1 None, StepCall 1 None, StepCall 0 None, StepCall 0 None] @ replicate 7 (StepWorker None)"

lemma twoReady_state: "pushed (scheduled twoReady) = [1, 0]" "ready (scheduled twoReady) = []"
    "trace (scheduled twoReady) = [Ran 1, Signalled 1, Released 1]"
  by code_simp+

theorem served_in_push_order_witness:
  "[1, 0] = endedOps [Ran 1, Signalled 1, Released 1] @ concat (map servedBy (workerThread (scheduled twoReady))) @ rev []"
  using served_in_push_order [OF scheduled_reachable, of twoReady] by (simp only: twoReady_state)

text \<open>
  C14. Every operation in the inflight list, on the ready stack or named by a step still to come of any
  thread is in memory, except for the loop condition of enqueue: no other step touches an operation after
  its release.
\<close>

theorem memory_kept:
  assumes "reachable q" and "x \<in> set (inflight q) \<union> set (ready q) \<or> (a \<in># pending q \<and> x \<in> set (accesses a))"
  shows "opAt q x \<noteq> None"
proof -
  have s: "sound q (pending q)" using assms(1) by (rule reachable_sound)
  then have c: "counted q (pending q) x" and l: "linked q (pending q)" by (auto simp: sound_def)
  from assms(2) consider "x \<in> set (inflight q)" | "x \<in> set (ready q)" | "a \<in># pending q" "x \<in> set (accesses a)" by blast
  then show ?thesis
  proof cases
    case 1
    then show ?thesis using l by (auto simp: linked_def)
  next
    case 2
    then have "0 < count_list (ready q) x" by (simp add: count_list_pos)
    then show ?thesis using c by (cases "opAt q x") (auto simp: counted_def)
  next
    case 3
    then show ?thesis by (rule accesses_live [OF s])
  qed
qed

theorem memory_kept_witness: "opAt (scheduled (oneWait (Some CANCELLED) 2)) 0 \<noteq> None"
  using memory_kept [OF scheduled_reachable, of 0 "oneWait (Some CANCELLED) 2" "LoadStatus 0"] by (simp add: pending_def oneWait_load)

text \<open>The only wait is resolved, and the operation run and released, before enqueue tests its loop again.\<close>

definition lateTest :: "choice list" where
  "lateTest = [Enqueue 1, StepCall 0 None, StepCall 0 None, StepCall 0 None, Fire 0 0 None]
     @ replicate 4 (StepCall 1 None) @ replicate 6 (StepWorker None)"


end
