(* ===== verification/Async_Queue_Drain.thy ===== *)
theory Async_Queue_Drain
  imports Async_Queue
begin

text \<open>
  The destruction of the asynchronous queue: what the count of inflight operations, the stages of destroy
  and the sleep of the worker keep to, that nothing but the end stops the threads once destroy was called,
  and how many steps they take at most.
\<close>

section \<open>The end of the queue\<close>

fun downs :: "action \<Rightarrow> nat" where
  "downs CountDown = 1"
| "downs _ = 0"

definition liveOps :: "'a async_queue_scheme \<Rightarrow> nat set" where
  "liveOps q = {x. opAt q x \<noteq> None}"

definition countOk :: "async_system \<Rightarrow> bool" where
  "countOk q \<longleftrightarrow> inflightCount q = int (card (liveOps q) + weight downs (pending q))"

lemma weight_loads_downs [simp]: "weight downs (image_mset LoadStatus M) = 0"
  by (induction M) auto

lemma liveOps_finite: "sound q P \<Longrightarrow> finite (liveOps q)"
proof (rule finite_subset [of _ "{..<nextOp q}"])
  assume s: "sound q P"
  show "liveOps q \<subseteq> {..<nextOp q}"
  proof
    fix x assume "x \<in> liveOps q"
    then obtain p where "opAt q x = Some p" by (auto simp: liveOps_def)
    moreover have "counted q P x" using s by (simp add: sound_def)
    ultimately show "x \<in> {..<nextOp q}" by (simp add: counted_def)
  qed
qed simp

lemma liveOps_update [simp]: "liveOps (updateOp x f q) = liveOps q"
  by (auto simp: liveOps_def updateOp_def)

lemma live_act: "act ans a q = Some (r, as) \<Longrightarrow> \<forall>y. a \<noteq> ReleaseOp y \<Longrightarrow> liveOps r = liveOps q"
  by (cases a) (auto simp: liveOps_def updateOp_def Let_def split: if_splits option.splits list.splits)

lemma count_act:
  assumes s: "sound q (add_mset a R)" and r: "act ans a q = Some (r, as)"
  shows "inflightCount r + int (card (liveOps q) + downs a) = inflightCount q + int (card (liveOps r) + weight downs (mset as))"
proof (cases a)
  case (ReleaseOp y)
  have "counted q (add_mset a R) y" using s by (simp add: sound_def)
  then obtain p where "opAt q y = Some p" using counted_live [of q "add_mset a R" y a] ReleaseOp by auto
  then have y: "y \<in> liveOps q" by (simp add: liveOps_def)
  have "liveOps r = liveOps q - {y}" using r ReleaseOp by (auto simp: liveOps_def split: if_splits)
  then have "Suc (card (liveOps r)) = card (liveOps q)" using card_Suc_Diff1 [OF liveOps_finite [OF s] y] by simp
  then show ?thesis using r ReleaseOp by auto
next
  case (CancelGiveBack y c xs chain)
  then show ?thesis using r live_act [OF r] by (auto simp: Let_def split: if_splits) (auto simp: updateOp_def)
next
  case (CancelEntry y i c xs chain)
  then show ?thesis using r live_act [OF r] by (auto simp: updateOp_def split: if_splits)
next
  case (WorkerTake sd)
  then show ?thesis using r live_act [OF r] by (auto split: if_splits)
qed (use r live_act [OF r] in \<open>auto simp: updateOp_def split: if_splits option.splits list.splits\<close>)

lemma countOk_step:
  assumes w: "wellFormed q" and k: "countOk q" and p: "proceed c q = Some q'" shows "countOk q'"
proof -
  have s: "sound q (pending q)" using w by (simp add: wellFormed_def)
  show ?thesis
    using p
  proof (cases rule: proceed_cases)
    case (enqueue n)
    have "opAt q (nextOp q) = None" by (rule counted_fresh [OF s])
    then have "nextOp q \<notin> liveOps q" "liveOps q' = insert (nextOp q) (liveOps q)" by (auto simp: liveOps_def enqueue(3))
    then have "card (liveOps q') = Suc (card (liveOps q))" using liveOps_finite [OF s] by simp
    then show ?thesis using k unfolding countOk_def enqueue(4) by (auto simp: enqueue(3))
  next
    case (fire x i st p)
    have "liveOps q' = liveOps q" using same_sel(1) [OF fire(5)] fire(2) by (auto simp: liveOps_def updateOp_def)
    then show ?thesis using k same_sel(6) [OF fire(5)] unfolding countOk_def fire(10) by (auto simp: updateOp_def)
  next
    case (act a as R ans r)
    have "liveOps q' = liveOps r" using same_sel(1) [OF act(3)] by (simp add: liveOps_def)
    then show ?thesis using k count_act [of q a R ans r as] s act(1,2) same_sel(6) [OF act(3)] unfolding countOk_def act(4) act(1) by simp
  next
    case destroy
    have "destroyThread q = []" using w destroy(2) by (simp add: wellFormed_def)
    then have "weight downs (pending q') = weight downs (pending q)" by (simp add: destroy(4) pending_def)
    then show ?thesis using k by (simp add: countOk_def destroy(4) liveOps_def)
  qed
qed

text \<open>Entries that the walk of the destruction has not come to yet.\<close>

fun unvisited :: "action \<Rightarrow> nat \<Rightarrow> nat \<Rightarrow> bool" where
  "unvisited CancelLock x j = True"
| "unvisited (CancelWalk xs chain) x j = (x \<in> set xs)"
| "unvisited (CancelEntry y i c xs chain) x j = (x \<in> set xs \<or> x = y \<and> i \<le> j)"
| "unvisited (CancelStore y c xs chain) x j = (x \<in> set xs)"
| "unvisited (CancelGiveBack y c xs chain) x j = (x \<in> set xs)"
| "unvisited _ x j = False"

definition armedAt :: "'a async_queue_scheme \<Rightarrow> nat \<Rightarrow> nat \<Rightarrow> bool" where
  "armedAt q x j \<longleftrightarrow> (\<exists>p. opAt q x = Some p \<and> j < length (waitEntries p) \<and> waitEntries p ! j = Armed)"

definition cancelledOk :: "async_system \<Rightarrow> bool" where
  "cancelledOk q \<longleftrightarrow> (destroying q \<longrightarrow>
     (\<forall>x j. armedAt q x j \<longrightarrow> destroyThread q \<noteq> [] \<and> unvisited (hd (destroyThread q)) x j)
     \<and> (\<forall>t \<in> set (callThreads q). list_all (\<lambda>a. \<not> isEnqueueing a) t))"

lemma armed_other:
  "act ans a q = Some (r, as) \<Longrightarrow> \<not> isEnqueueing a \<Longrightarrow> armedAt r x j \<Longrightarrow> armedAt q x j"
proof (cases a)
  case (CancelEntry y i c xs chain)
  assume "act ans a q = Some (r, as)" "armedAt r x j"
  then show ?thesis using CancelEntry
    by (cases "x = y"; cases "opAt q x") (auto simp: armedAt_def updateOp_def opOf_def nth_list_update split: if_splits)
next
  case (CancelGiveBack y c xs chain)
  assume "act ans a q = Some (r, as)" "armedAt r x j"
  then show ?thesis using CancelGiveBack
    by (cases "x = y"; cases "opAt q x") (auto simp: armedAt_def updateOp_def Let_def split: if_splits)
qed (auto simp: armedAt_def updateOp_def storeStatus_def split: if_splits option.splits list.splits)

lemma not_enqueueing: "act ans a q = Some (r, as) \<Longrightarrow> \<not> isEnqueueing a \<Longrightarrow> list_all (\<lambda>a. \<not> isEnqueueing a) as"
  by (cases a) (auto simp: Let_def list_all_iff split: if_splits option.splits list.splits)

lemma procKind_enqueue: "procKind a \<or> loopKind a \<or> cancelKind a \<Longrightarrow> \<not> isEnqueueing a"
  by (cases a) auto

lemma armedAt_same: "opAt q = opAt r \<Longrightarrow> armedAt q x j = armedAt r x j"
  by (simp add: armedAt_def)


lemma waiting_linked:
  assumes s: "sound q P" and n: "\<forall>x. LinkInflight x \<notin># P" and a: "armedAt q x j" shows "x \<in> set (inflight q)"
proof -
  obtain p where p: "opAt q x = Some p" "j < length (waitEntries p)" "waitEntries p ! j = Armed" using a by (auto simp: armedAt_def)
  then have "Armed \<in> set (waitEntries p)" by (metis nth_mem)
  then have "openWaits p \<noteq> 0" by (auto simp: openWaits_def filter_empty_conv isOpen_def)
  moreover have "counted q P x" and l: "linked q P" using s by (auto simp: sound_def)
  ultimately have "waitCount p \<noteq> 0" using p(1) by (simp add: counted_def)
  then show ?thesis using l n p(1) by (auto simp: linked_def)
qed

lemma destroyShape_head: "destroyShape (a # rest) \<Longrightarrow> cancelKind a \<or> a = AwaitDrained \<or> a = SetShutdown \<or> a = JoinWorker"
  by (auto simp: destroyShape_def)

lemma no_links:
  assumes sh: "shaped q" and n: "\<forall>t \<in> set (callThreads q). list_all (\<lambda>a. \<not> isEnqueueing a) t"
  shows "a \<in># pending q \<Longrightarrow> \<not> isEnqueueing a"
proof -
  assume "a \<in># pending q"
  then consider "a \<in> set (workerThread q)" | "a \<in> set (destroyThread q)" | t where "t \<in> set (callThreads q)" "a \<in> set t"
    by (auto simp: pending_def)
  then show ?thesis
  proof cases
    case 1
    then have "procKind a \<or> loopKind a" using sh by (auto simp: shaped_def workerShape_def list_all_iff)
    then show ?thesis using procKind_enqueue by blast
  next
    case 2
    then have "cancelKind a \<or> a \<in> {AwaitDrained, SetShutdown, PostWorker, JoinWorker}"
      using sh by (auto simp: shaped_def destroyShape_def)
    then show ?thesis using procKind_enqueue by auto
  next
    case 3
    then show ?thesis using n by (auto simp: list_all_iff)
  qed
qed

lemma visited_act:
  assumes s: "sound q P" and n: "\<forall>x. LinkInflight x \<notin># P" and a: "act ans a q = Some (r, as)" and kind: "\<not> isEnqueueing a"
    and u: "armedAt q x j \<longrightarrow> unvisited a x j" and arm: "armedAt r x j"
  shows "as \<noteq> [] \<and> unvisited (hd as) x j"
proof -
  have armq: "armedAt q x j" by (rule armed_other [OF a kind arm])
  then have ua: "unvisited a x j" using u by blast
  show ?thesis
  proof (cases a)
    case CancelLock
    have "x \<in> set (inflight q)" by (rule waiting_linked [OF s n armq])
    then show ?thesis using a CancelLock by (auto split: if_splits)
  next
    case (CancelWalk xs chain)
    then show ?thesis using a ua by (auto split: list.splits)
  next
    case (CancelEntry y i c xs chain)
    show ?thesis
    proof (cases "x = y \<and> x \<notin> set xs")
      case True
      obtain p where p: "opAt q y = Some p" "j < length (waitEntries p)" "waitEntries p ! j = Armed" "i \<le> j"
        using armq ua True CancelEntry by (auto simp: armedAt_def)
      have i: "i < length (waitEntries (opOf y q))" using p by (simp add: opOf_def)
      have "j \<noteq> i"
      proof
        assume "j = i"
        then have "waitEntries (opOf y q) ! i = Armed" using p by (simp add: opOf_def)
        then have "r = updateOp y (\<lambda>p. p\<lparr>waitEntries := (waitEntries p)[i := Cancelled]\<rparr>) q" using a CancelEntry i by simp
        then show False using arm p True \<open>j = i\<close> by (auto simp: armedAt_def updateOp_def)
      qed
      then have "Suc i \<le> j" using p(4) by simp
      then show ?thesis using a CancelEntry i True by (auto split: if_splits)
    next
      case False
      then have "x \<in> set xs" using ua CancelEntry by auto
      then show ?thesis using a CancelEntry by (auto split: if_splits)
    qed
  qed (use a ua in \<open>auto simp: Let_def split: if_splits\<close>)
qed

lemma cancelledOk_step:
  assumes w: "wellFormed q" and sh: "shaped q" and k: "cancelledOk q" and p: "proceed c q = Some q'" shows "cancelledOk q'"
proof (cases c)
  case (Enqueue n)
  then show ?thesis using p by (auto simp: cancelledOk_def split: if_splits)
next
  case (Fire x i st)
  then obtain pp where pp: "opAt q x = Some pp" "i < length (waitEntries pp)" "waitEntries pp ! i = Armed"
    "q' = (updateOp x (\<lambda>p. p\<lparr>waitEntries := (waitEntries p)[i := Fired st]\<rparr>) q)
       \<lparr>callThreads := callThreads q @ [if st = None then [GiveBack x] else [StoreError x st]]\<rparr>"
    using p by (auto simp: Let_def split: option.splits if_splits)
  have "armedAt q' y j \<Longrightarrow> armedAt q y j" for y j
    using pp by (cases "y = x") (auto simp: armedAt_def updateOp_def nth_list_update split: if_splits)
  then show ?thesis using k by (auto simp: cancelledOk_def pp(4) updateOp_def)
next
  case (StepCall n ans)
  obtain a rest r as where a: "n < length (callThreads q)" "callThreads q ! n = a # rest" "act ans a q = Some (r, as)"
      "q' = r\<lparr>callThreads := (callThreads q)[n := as @ rest]\<rparr>"
    using p StepCall by (auto split: if_splits list.splits)
  have mem: "a # rest \<in> set (callThreads q)" using a(1,2) by (metis nth_mem)
  show ?thesis
  proof (cases "destroying q")
    case True
    then have n1: "\<not> isEnqueueing a" "list_all (\<lambda>a. \<not> isEnqueueing a) rest" using k mem by (auto simp: cancelledOk_def)
    have "armedAt q' x j \<Longrightarrow> armedAt q x j" for x j
      using armed_other [OF a(3) n1(1), of x j] by (simp add: a(4) armedAt_def)
    moreover have "\<forall>t \<in> set (callThreads q'). list_all (\<lambda>a. \<not> isEnqueueing a) t"
      using k True n1 not_enqueueing [OF a(3) n1(1)] set_update_subset_insert [of "callThreads q" n "as @ rest"]
      by (auto simp: cancelledOk_def a(4))
    ultimately show ?thesis using k True act_threads [OF a(3)] by (auto simp: cancelledOk_def a(4))
  next
    case False
    then show ?thesis using act_threads [OF a(3)] by (simp add: cancelledOk_def a(4))
  qed
next
  case (StepWorker ans)
  obtain a rest r as where a: "workerThread q = a # rest" "act ans a q = Some (r, as)" "q' = r\<lparr>workerThread := as @ rest\<rparr>"
    using p StepWorker by (auto split: list.splits)
  have "procKind a \<or> loopKind a" using sh a(1) by (auto simp: shaped_def workerShape_def list_all_iff Cons_eq_append_conv)
  then have "\<not> isEnqueueing a" using procKind_enqueue by blast
  then have "armedAt q' x j \<Longrightarrow> armedAt q x j" for x j
    using armed_other [OF a(2), of x j] by (simp add: a(3) armedAt_def)
  then show ?thesis using k act_threads [OF a(2)] by (auto simp: cancelledOk_def a(3))
next
  case (StepDestroy ans)
  obtain a rest r as where a: "destroyThread q = a # rest" "act ans a q = Some (r, as)" "q' = r\<lparr>destroyThread := as @ rest\<rparr>"
    using p StepDestroy by (auto split: list.splits)
  have d: "destroying q" using w a(1) by (auto simp: wellFormed_def)
  have kind: "\<not> isEnqueueing a" using destroyShape_head [of a rest] sh a(1) procKind_enqueue [of a] by (auto simp: shaped_def)
  have calls: "\<forall>t \<in> set (callThreads q). list_all (\<lambda>a. \<not> isEnqueueing a) t" using k d by (simp add: cancelledOk_def)
  have nl: "\<forall>x. LinkInflight x \<notin># pending q" using no_links [OF sh calls] by fastforce
  have "as \<noteq> [] \<and> unvisited (hd as) x j" if "armedAt q' x j" for x j
  proof (rule visited_act [OF _ nl a(2) kind])
    show "sound q (pending q)" using w by (simp add: wellFormed_def)
    show "armedAt q x j \<longrightarrow> unvisited a x j" using k d a(1) by (auto simp: cancelledOk_def)
    show "armedAt r x j" using that by (simp add: a(3) armedAt_def)
  qed
  then show ?thesis using calls act_threads [OF a(2)] by (auto simp: cancelledOk_def a(3))
next
  case Destroy
  then show ?thesis using p by (auto simp: cancelledOk_def list_all_iff split: if_splits)
qed

section \<open>Stages of the destruction and the sleep of the worker\<close>

definition lateStages :: "action list set" where
  "lateStages = {[PostWorker, JoinWorker], [JoinWorker], []}"

definition stagesOk :: "async_system \<Rightarrow> bool" where
  "stagesOk q \<longleftrightarrow> (shutdownRequested q \<longleftrightarrow> destroying q \<and> destroyThread q \<in> lateStages)
     \<and> (destroying q \<and> destroyThread q \<in> insert [SetShutdown] lateStages \<longrightarrow> inflightCount q = 0)
     \<and> (destroying q \<and> destroyThread q = [] \<longrightarrow> workerThread q = [])"

text \<open>
  The worker only sleeps with a token of the notification that is out of date, or with nothing to do, or
  with a post on its way.
\<close>

definition postComing :: "async_system \<Rightarrow> nat \<Rightarrow> bool" where
  "postComing q tok \<longleftrightarrow> tok < workerEpoch q \<or> PostWorker \<in># pending q"

fun loopOk :: "async_system \<Rightarrow> action \<Rightarrow> bool" where
  "loopOk q (WorkerTake sd) = (sd \<longrightarrow> shutdownRequested q)"
| "loopOk q (WorkerPrepare sd) = (\<not> sd)"
| "loopOk q (WorkerRecheck sd tok) = (\<not> sd \<and> tok \<le> workerEpoch q)"
| "loopOk q (WorkerRecheckShutdown sd tok h) = (\<not> sd \<and> tok \<le> workerEpoch q \<and> (\<not> h \<and> ready q \<noteq> [] \<longrightarrow> postComing q tok))"
| "loopOk q (WorkerCommit sd tok) =
     (\<not> sd \<and> tok \<le> workerEpoch q \<and> (ready q \<noteq> [] \<or> shutdownRequested q \<longrightarrow> postComing q tok))"
| "loopOk q _ = True"

definition workerOk :: "async_system \<Rightarrow> bool" where
  "workerOk q \<longleftrightarrow> (workerThread q = [] \<longrightarrow> shutdownRequested q)
     \<and> (\<forall>w. workerThread q = [w] \<longrightarrow> loopOk q w)
     \<and> (\<forall>a b rest. workerThread q = a # b # rest \<longrightarrow> last (b # rest) = WorkerTop)"

lemma count_parts: "countOk q \<Longrightarrow> inflightCount q = 0 \<Longrightarrow> finite (liveOps q) \<Longrightarrow> liveOps q = {} \<and> weight downs (pending q) = 0"
proof -
  assume k: "countOk q" "inflightCount q = 0" "finite (liveOps q)"
  then have "card (liveOps q) = 0 \<and> weight downs (pending q) = 0" unfolding countOk_def by linarith
  with k(3) show ?thesis by simp
qed

lemma act_shutdown: "act ans a q = Some (r, as) \<Longrightarrow> a \<noteq> SetShutdown \<Longrightarrow> shutdownRequested r = shutdownRequested q"
  by (cases a) (auto simp: updateOp_def Let_def split: if_splits option.splits list.splits)

lemma act_count_kept: "act ans a q = Some (r, as) \<Longrightarrow> a \<noteq> CountDown \<Longrightarrow> inflightCount r = inflightCount q"
  by (cases a) (auto simp: updateOp_def Let_def split: if_splits option.splits list.splits)

lemma late_count:
  assumes w: "wellFormed q" and k: "countOk q" and z: "inflightCount q = 0" and a: "act ans a q = Some (r, as)" "a \<in># pending q"
  shows "inflightCount r = 0"
proof -
  have "finite (liveOps q)" using liveOps_finite w by (auto simp: wellFormed_def)
  then have "weight downs (pending q) = 0" using count_parts [OF k z] by simp
  then have "a \<noteq> CountDown" using weight_zero [of downs "pending q" a] a(2) by auto
  then show ?thesis using act_count_kept [OF a(1)] z by simp
qed

lemma destroy_stages:
  assumes "destroyShape (a # rest)" and "act ans a q = Some (r, as)"
  shows "(as @ rest \<in> insert [SetShutdown] lateStages \<longrightarrow> a # rest \<in> insert [SetShutdown] lateStages \<or> a = AwaitDrained \<and> inflightCount q = 0)
    \<and> (as @ rest \<in> lateStages \<longleftrightarrow> a # rest \<in> lateStages \<or> a = SetShutdown)
    \<and> (as @ rest = [] \<longrightarrow> workerThread q = []) \<and> (shutdownRequested r \<longleftrightarrow> shutdownRequested q \<or> a = SetShutdown)
    \<and> (a = SetShutdown \<longrightarrow> rest = []) \<and> inflightCount r = inflightCount q"
proof (cases "\<exists>a'. cancelKind a' \<and> a # rest = [a', AwaitDrained, SetShutdown]")
  case True
  then have c: "cancelKind a" "rest = [AwaitDrained, SetShutdown]" by auto
  then have n: "a \<noteq> SetShutdown" "a \<noteq> CountDown" by auto
  show ?thesis using act_cancelKind [OF c(1) assms(2)] act_shutdown [OF assms(2) n(1)] act_count_kept [OF assms(2) n(2)] c n
    by (auto simp: lateStages_def)
next
  case False
  then show ?thesis using assms by (auto simp: destroyShape_def lateStages_def split: if_splits)
qed

lemma stagesOk_step:
  assumes w: "wellFormed q" and sh: "shaped q" and k: "countOk q" and st: "stagesOk q" and p: "proceed c q = Some q'"
  shows "stagesOk q'"
proof (cases c)
  case (Enqueue n)
  then show ?thesis using st p by (auto simp: stagesOk_def split: if_splits)
next
  case (Fire x i s)
  then obtain pp where "q' = (updateOp x (\<lambda>p. p\<lparr>waitEntries := (waitEntries p)[i := Fired s]\<rparr>) q)
       \<lparr>callThreads := callThreads q @ [if s = None then [GiveBack x] else [StoreError x s]]\<rparr>"
    using p by (auto simp: Let_def split: option.splits if_splits)
  then have f: "shutdownRequested q' = shutdownRequested q" "destroying q' = destroying q" "destroyThread q' = destroyThread q"
      "workerThread q' = workerThread q" "inflightCount q' = inflightCount q" by (simp_all add: updateOp_def)
  show ?thesis using st unfolding stagesOk_def f .
next
  case (StepCall n ans)
  obtain a rest r as where a: "n < length (callThreads q)" "callThreads q ! n = a # rest" "act ans a q = Some (r, as)"
      "q' = r\<lparr>callThreads := (callThreads q)[n := as @ rest]\<rparr>"
    using p StepCall by (auto split: if_splits list.splits)
  have mem: "a # rest \<in> set (callThreads q)" using a(1,2) by (metis nth_mem)
  then have pe: "a \<in># pending q" by (auto simp: pending_def intro!: bexI [of _ "a # rest"])
  have "callKind a" using sh mem by (auto simp: shaped_def)
  then have "a \<noteq> SetShutdown" by auto
  then have f: "shutdownRequested q' = shutdownRequested q" "destroying q' = destroying q" "destroyThread q' = destroyThread q"
      "workerThread q' = workerThread q" "inflightCount q = 0 \<Longrightarrow> inflightCount q' = 0"
    using act_shutdown [OF a(3)] act_threads [OF a(3)] late_count [OF w k _ a(3) pe] by (simp_all add: a(4))
  show ?thesis using st f unfolding stagesOk_def f(1-4) by blast
next
  case (StepWorker ans)
  obtain a rest r as where a: "workerThread q = a # rest" "act ans a q = Some (r, as)" "q' = r\<lparr>workerThread := as @ rest\<rparr>"
    using p StepWorker by (auto split: list.splits)
  have pe: "a \<in># pending q" by (simp add: pending_def a(1))
  have "procKind a \<or> loopKind a" using sh a(1) by (auto simp: shaped_def workerShape_def list_all_iff Cons_eq_append_conv)
  then have "a \<noteq> SetShutdown" by auto
  then have f: "shutdownRequested q' = shutdownRequested q" "destroying q' = destroying q" "destroyThread q' = destroyThread q"
      "inflightCount q = 0 \<Longrightarrow> inflightCount q' = 0"
    using act_shutdown [OF a(2)] act_threads [OF a(2)] late_count [OF w k _ a(2) pe] by (simp_all add: a(3))
  have "workerThread q \<noteq> []" using a(1) by simp
  then show ?thesis using st f unfolding stagesOk_def f(1-3) by blast
next
  case (StepDestroy ans)
  obtain a rest r as where a: "destroyThread q = a # rest" "act ans a q = Some (r, as)" "q' = r\<lparr>destroyThread := as @ rest\<rparr>"
    using p StepDestroy by (auto split: list.splits)
  have d: "destroying q" using w a(1) by (auto simp: wellFormed_def)
  have "destroyShape (a # rest)" using sh a(1) by (simp add: shaped_def)
  from destroy_stages [OF this a(2)] show ?thesis using st d a(1) act_threads [OF a(2)] by (auto simp: stagesOk_def a(3))
next
  case Destroy
  then show ?thesis using st p by (auto simp: stagesOk_def lateStages_def split: if_splits)
qed

lemma ready_live: "sound q P \<Longrightarrow> liveOps q = {} \<Longrightarrow> ready q = []"
proof (rule ccontr)
  assume s: "sound q P" and l: "liveOps q = {}" and "ready q \<noteq> []"
  then obtain x where x: "0 < count_list (ready q) x" by (metis count_list_pos list.set_intros(1) neq_Nil_conv)
  have "counted q P x" "opAt q x = None" using s l by (auto simp: sound_def liveOps_def)
  with x show False by (simp add: counted_def)
qed


lemma postComing_kept:
  assumes "postComing q tok" and "act ans a q = Some (r, as)" and "pending q = add_mset a R"
    and "same_shared q' r" and "pending q' = mset as + R" and "tok \<le> workerEpoch q"
  shows "postComing q' tok \<and> workerEpoch q \<le> workerEpoch q'"
proof (cases "a = PostWorker")
  case True
  then show ?thesis using assms(2,6) same_sel(8) [OF assms(4)] by (auto simp: postComing_def)
next
  case False
  have "workerEpoch r = workerEpoch q"
    using assms(2) False by (cases a) (auto simp: updateOp_def Let_def split: if_splits option.splits list.splits)
  then show ?thesis using assms(1,3,5) False same_sel(8) [OF assms(4)] by (auto simp: postComing_def)
qed

lemma act_epoch: "act ans a q = Some (r, as) \<Longrightarrow> workerEpoch q \<le> workerEpoch r"
  by (cases a) (auto simp: updateOp_def Let_def split: if_splits option.splits list.splits)

lemma act_wakes: "act ans a q = Some (r, as) \<Longrightarrow> ready r \<noteq> ready q \<and> ready r \<noteq> [] \<or> shutdownRequested r \<noteq> shutdownRequested q \<Longrightarrow> PostWorker \<in> set as"
  by (cases a) (auto simp: updateOp_def Let_def split: if_splits option.splits list.splits)

lemma loopOk_kept:
  assumes "loopOk q w" and "\<And>tok. tok \<le> workerEpoch q \<Longrightarrow> postComing q tok \<Longrightarrow> postComing q' tok" and "workerEpoch q \<le> workerEpoch q'"
    and "shutdownRequested q \<Longrightarrow> shutdownRequested q'" and "ready q' \<noteq> [] \<Longrightarrow> ready q \<noteq> [] \<or> PostWorker \<in># pending q'"
    and "shutdownRequested q' \<Longrightarrow> shutdownRequested q \<or> PostWorker \<in># pending q'"
  shows "loopOk q' w"
proof -
  have post: "PostWorker \<in># pending q' \<Longrightarrow> postComing q' tok" for tok by (simp add: postComing_def)
  show ?thesis using assms(1) by (cases w) (use assms(2-6) post in force)+
qed

lemma worker_other:
  assumes k: "workerOk q" and e: "workerThread q' = workerThread q" and "\<And>w. loopOk q w \<Longrightarrow> loopOk q' w"
    and "shutdownRequested q \<Longrightarrow> shutdownRequested q'"
  shows "workerOk q'"
  using assms unfolding workerOk_def e by blast

lemma act_shutdown_mono: "act ans a q = Some (r, as) \<Longrightarrow> shutdownRequested q \<Longrightarrow> shutdownRequested r"
  by (cases a) (auto simp: updateOp_def Let_def split: if_splits option.splits list.splits)

lemma worker_other_act:
  assumes k: "workerOk q" and e: "workerThread q' = workerThread q" and a: "act ans a q = Some (r, as)" and same: "same_shared q' r"
    and pe: "pending q = add_mset a R" "pending q' = mset as + R"
  shows "workerOk q'"
proof (rule worker_other [OF k e])
  note sel = same_sel(5,7,8) [OF same]
  show mono: "shutdownRequested q \<Longrightarrow> shutdownRequested q'" using act_shutdown_mono [OF a] sel by simp
  show "loopOk q' w" if "loopOk q w" for w
  proof (rule loopOk_kept [OF that _ _ mono])
    show "postComing q' tok" if "tok \<le> workerEpoch q" "postComing q tok" for tok
      using postComing_kept [OF that(2) a pe(1) same pe(2) that(1)] by blast
    show "workerEpoch q \<le> workerEpoch q'" using act_epoch [OF a] sel by simp
    show "ready q \<noteq> [] \<or> PostWorker \<in># pending q'" if "ready q' \<noteq> []"
      using that act_wakes [OF a] sel pe(2) by (cases "ready r = ready q") auto
    show "shutdownRequested q \<or> PostWorker \<in># pending q'" if "shutdownRequested q'"
      using that act_wakes [OF a] sel pe(2) by (cases "shutdownRequested r = shutdownRequested q") auto
  qed
qed

lemma workerOk_proc:
  assumes k: "workerOk q" and sh: "workerShape (a # rest)" and w: "workerThread q = a # rest" and a: "act ans a q = Some (r, as)"
    and rest: "rest \<noteq> []" and q': "workerThread q' = as @ rest"
  shows "workerOk q'"
proof -
  have l: "last rest = WorkerTop" using k w rest by (cases rest) (auto simp: workerOk_def)
  have one: "w' = WorkerTop" if "as @ rest = [w']" for w'
    using that l rest by (cases as) (auto simp: append_eq_Cons_conv)
  show ?thesis using l rest one by (auto simp: workerOk_def q' last_append dest!: arg_cong [of _ _ last])
qed


lemma workerOk_loop:
  assumes w: "wellFormed q" and c: "countOk q" and st: "stagesOk q" and k: "workerOk q"
    and t: "workerThread q = [a]" and lk: "loopKind a" and a: "act ans a q = Some (r, as)" and q': "q' = r\<lparr>workerThread := as\<rparr>"
  shows "workerOk q'"
proof -
  have ok: "loopOk q a" using k t by (simp add: workerOk_def)
  define B where "B = mset (destroyThread q) + mset (concat (callThreads q))"
  have pe: "pending q = add_mset a B" "pending q' = mset as + B"
    using act_threads [OF a] t by (simp_all add: q' pending_def B_def)
  have np: "a \<noteq> PostWorker" using lk by auto
  have postq: "postComing q' tok = postComing q tok" if "PostWorker \<notin> set as" "workerEpoch r = workerEpoch q" for tok
    using that np by (auto simp: postComing_def pe) (simp_all add: q')
  show ?thesis
  proof (cases a)
    case WorkerTop
    then show ?thesis using a by (auto simp: workerOk_def q')
  next
    case (WorkerTake sd)
    have idle: "ready q = [] \<and> inflightCount q = 0" if sd
    proof -
      have "shutdownRequested q" using ok that WorkerTake by simp
      then have z: "inflightCount q = 0" using st by (simp add: stagesOk_def)
      have s: "sound q (pending q)" using w by (simp add: wellFormed_def)
      have "liveOps q = {}" using count_parts [OF c z liveOps_finite [OF s]] by simp
      then show ?thesis using ready_live [OF s] z by simp
    qed
    show ?thesis
    proof (cases "ready q = []")
      case True
      then show ?thesis using a WorkerTake ok idle by (auto simp: workerOk_def q' split: if_splits)
    next
      case False
      then obtain x xs where x: "rev (ready q) = x # xs" by (cases "rev (ready q)") auto
      have "as = map LoadStatus (x # xs) @ [WorkerTop]" using a WorkerTake False x by (auto split: if_splits)
      then have "as = LoadStatus x # map LoadStatus xs @ [WorkerTop]" by simp
      then show ?thesis by (auto simp: workerOk_def q') (metis last_ConsR last_snoc)+
    qed
  next
    case (WorkerPrepare sd)
    then show ?thesis using a ok by (auto simp: workerOk_def q')
  next
    case (WorkerRecheck sd tok)
    then show ?thesis using a ok by (auto simp: workerOk_def q')
  next
    case (WorkerRecheckShutdown sd tok h)
    then have r: "r = q" "PostWorker \<notin> set as" using a by (auto split: if_splits)
    show ?thesis using WorkerRecheckShutdown a ok postq [of tok] r by (auto simp: workerOk_def q' split: if_splits)
  next
    case (WorkerCommit sd tok)
    then show ?thesis using a ok by (auto simp: workerOk_def q' split: if_splits)
  qed (use lk in auto)
qed

lemma workerOk_step:
  assumes w: "wellFormed q" and sh: "shaped q" and c: "countOk q" and st: "stagesOk q" and k: "workerOk q"
    and p: "proceed cho q = Some q'"
  shows "workerOk q'"
proof -
  have other: "workerOk q'" if wt: "workerThread q' = workerThread q"
    using p
  proof (cases rule: proceed_cases)
    case (enqueue n)
    show ?thesis
    proof (rule worker_other [OF k wt])
      show "loopOk q' w" if "loopOk q w" for w
        by (rule loopOk_kept [OF that]) (use enqueue in \<open>auto simp: postComing_def\<close>)
    qed (simp add: enqueue(3))
  next
    case (fire x i s p)
    note sel = same_sel(5,7,8) [OF fire(5)]
    have f: "ready q' = ready q" "shutdownRequested q' = shutdownRequested q" "workerEpoch q' = workerEpoch q"
      using sel by (simp_all add: updateOp_def)
    show ?thesis
    proof (rule worker_other [OF k wt])
      show "loopOk q' w" if "loopOk q w" for w
        by (rule loopOk_kept [OF that]) (use f in \<open>auto simp: postComing_def fire(10)\<close>)
    qed (simp add: f)
  next
    case (act a as R ans r)
    show ?thesis by (rule worker_other_act [OF k wt act(2,3,1,4)])
  next
    case destroy
    have d: "destroyThread q = []" using w destroy(2) by (simp add: wellFormed_def)
    show ?thesis
    proof (rule worker_other [OF k wt])
      show "loopOk q' w" if "loopOk q w" for w
        by (rule loopOk_kept [OF that]) (use d in \<open>auto simp: postComing_def destroy(4) pending_def\<close>)
    qed (simp add: destroy(4))
  qed
  show ?thesis
  proof (cases cho)
    case (StepWorker ans)
    obtain a rest r as where a: "workerThread q = a # rest" "act ans a q = Some (r, as)" "q' = r\<lparr>workerThread := as @ rest\<rparr>"
      using p StepWorker by (auto split: list.splits)
    have shape: "workerShape (a # rest)" using sh a(1) by (simp add: shaped_def)
    show ?thesis
    proof (cases "rest = []")
      case True
      then have "loopKind a" using shape by (auto simp: workerShape_def)
      then show ?thesis using workerOk_loop [OF w c st k _ _ a(2)] a(1,3) True by simp
    next
      case False
      show ?thesis by (rule workerOk_proc [OF k shape a(1,2) False]) (simp add: a(3))
    qed
  next
    case (Enqueue n)
    then show ?thesis using p by (intro other) (auto split: if_splits)
  next
    case (Fire x i s)
    then show ?thesis using p by (intro other) (auto simp: updateOp_def Let_def split: option.splits if_splits)
  next
    case (StepCall n ans)
    then show ?thesis using p by (intro other) (auto split: if_splits list.splits dest: act_threads)
  next
    case (StepDestroy ans)
    then show ?thesis using p by (intro other) (auto split: list.splits dest: act_threads)
  next
    case Destroy
    then show ?thesis using p by (intro other) (auto split: if_splits)
  qed
qed

lemma weight_none: "(\<And>b. b \<in># P \<Longrightarrow> f b = 0) \<Longrightarrow> weight f P = 0"
  by (induction P) auto

definition orderly :: "async_system \<Rightarrow> bool" where
  "orderly q \<longleftrightarrow> wellFormed q \<and> shaped q \<and> countOk q \<and> cancelledOk q \<and> stagesOk q \<and> workerOk q"

lemma reachable_orderly: "reachable q \<Longrightarrow> orderly q"
proof (induction rule: reachable.induct)
  case (create tr)
  show ?case using sound_create [of tr] shaped_create
    by (simp add: orderly_def wellFormed_def countOk_def cancelledOk_def stagesOk_def workerOk_def queue_create_def pending_def liveOps_def)
next
  case (step q c q')
  then show ?case unfolding orderly_def
    using wellFormed_step shaped_step countOk_step cancelledOk_step stagesOk_step workerOk_step by blast
qed

text \<open>Nothing can go on but what the outside does: no thread can take a step.\<close>

definition stuck :: "async_system \<Rightarrow> bool" where
  "stuck q \<longleftrightarrow> (\<forall>k. proceed (StepCall k None) q = None) \<and> proceed (StepWorker None) q = None \<and> proceed (StepDestroy None) q = None"

lemma blocked:
  "act None a q = None \<Longrightarrow> (\<exists>x. a = LinkInflight x \<or> a = PushReady x \<or> a = CancelLock) \<and> inflightMutex q
    \<or> (\<exists>sd. a = WorkerCommit sd (workerEpoch q)) \<or> a = AwaitDrained \<and> inflightCount q \<noteq> 0 \<or> a = JoinWorker \<and> workerThread q \<noteq> []"
  by (cases a) (auto split: if_splits list.splits)

lemma stuck_threads:
  assumes o: "orderly q" and st: "stuck q" and d: "destroying q"
  shows "\<not> inflightMutex q" and "\<forall>t \<in> set (callThreads q). t = []"
    and "destroyThread q = [] \<or> (\<exists>rest. destroyThread q = AwaitDrained # rest \<and> inflightCount q \<noteq> 0)
      \<or> destroyThread q = [JoinWorker] \<and> workerThread q \<noteq> []"
    and "workerThread q = [] \<or> (\<exists>sd. workerThread q = [WorkerCommit sd (workerEpoch q)])"
proof -
  have sh: "shaped q" and s: "sound q (pending q)" using o by (auto simp: orderly_def wellFormed_def)
  have dh: "act None a q = None" if "destroyThread q = a # rest" for a rest using st that by (auto simp: stuck_def)
  have dk: "cancelKind a \<or> a = AwaitDrained \<or> a = SetShutdown \<or> a = JoinWorker" if "destroyThread q = a # rest" for a rest
    using sh destroyShape_head that by (auto simp: shaped_def)
  show m: "\<not> inflightMutex q"
  proof
    assume "inflightMutex q"
    then have "weight cancels (pending q) = 1" using s by (simp add: sound_def linked_def)
    then obtain b where b: "b \<in># pending q" "cancels b \<noteq> 0" by (metis weight_none one_neq_zero)
    have "b \<in> set (destroyThread q)"
    proof (rule ccontr)
      assume "b \<notin> set (destroyThread q)"
      then consider "b \<in> set (workerThread q)" | t where "t \<in> set (callThreads q)" "b \<in> set t" using b(1) by (auto simp: pending_def)
      then show False
      proof cases
        case 1
        then have "procKind b \<or> loopKind b" using sh by (auto simp: shaped_def workerShape_def list_all_iff)
        then show False using b(2) by (cases b) auto
      next
        case 2
        then have "callKind b" using sh by (auto simp: shaped_def list_all_iff)
        then show False using b(2) by (cases b) auto
      qed
    qed
    then have "destroyThread q = [b, AwaitDrained, SetShutdown]" using sh b(2) by (auto simp: shaped_def destroyShape_def)
    from blocked [OF dh [OF this]] b(2) show False by auto
  qed
  show "\<forall>t \<in> set (callThreads q). t = []"
  proof (rule ccontr)
    assume "\<not> (\<forall>t \<in> set (callThreads q). t = [])"
    then obtain t where t: "t \<in> set (callThreads q)" "t \<noteq> []" by blast
    then obtain k a rest where k: "k < length (callThreads q)" "callThreads q ! k = a # rest" by (metis in_set_conv_nth neq_Nil_conv)
    have "proceed (StepCall k None) q = None" using st by (simp add: stuck_def)
    then have "act None a q = None" using k by auto
    moreover have "callKind a" using sh nth_mem [OF k(1)] k(2) by (auto simp: shaped_def)
    ultimately show False using blocked [of a q] m by (cases a) auto
  qed
  show "destroyThread q = [] \<or> (\<exists>rest. destroyThread q = AwaitDrained # rest \<and> inflightCount q \<noteq> 0)
      \<or> destroyThread q = [JoinWorker] \<and> workerThread q \<noteq> []"
  proof (cases "destroyThread q")
    case (Cons a rest)
    have "destroyShape (a # rest)" using sh Cons by (simp add: shaped_def)
    then show ?thesis using blocked [OF dh [OF Cons]] dk [OF Cons] m Cons by (auto simp: destroyShape_def)
  qed simp
  show "workerThread q = [] \<or> (\<exists>sd. workerThread q = [WorkerCommit sd (workerEpoch q)])"
  proof (cases "workerThread q")
    case (Cons a rest)
    have b: "act None a q = None" using st Cons by (auto simp: stuck_def)
    obtain ps w where pw: "a # rest = ps @ [w]" "list_all procKind ps" "loopKind w"
      using sh Cons by (auto simp: shaped_def workerShape_def)
    show ?thesis using blocked [OF b] pw Cons m by (cases ps) auto
  qed simp
qed


lemma drained:
  assumes o: "orderly q" and st: "stuck q" and d: "destroying q"
  shows "destroyThread q = [] \<and> workerThread q = [] \<and> (\<forall>t \<in> set (callThreads q). t = []) \<and> liveOps q = {}"
proof -
  have w: "wellFormed q" and sh: "shaped q" and cnt: "countOk q" and can: "cancelledOk q" and stg: "stagesOk q" and wk: "workerOk q"
    using o by (auto simp: orderly_def)
  have s: "sound q (pending q)" using w by (simp add: wellFormed_def)
  note th = stuck_threads [OF o st d]
  have calls: "concat (callThreads q) = []" using th(2) by simp
  have late: "liveOps q = {}" if "destroyThread q \<in> insert [SetShutdown] lateStages"
  proof -
    have "inflightCount q = 0" using stg d that by (auto simp: stagesOk_def)
    from count_parts [OF cnt this liveOps_finite [OF s]] show ?thesis by simp
  qed
  from th(3) show ?thesis
  proof (elim disjE exE conjE)
    assume e: "destroyThread q = []"
    then have "workerThread q = []" using stg d by (simp add: stagesOk_def)
    then show ?thesis using e th(2) late by (simp add: lateStages_def)
  next
    fix rest assume e: "destroyThread q = AwaitDrained # rest" and n: "inflightCount q \<noteq> 0"
    then have r: "rest = [SetShutdown]" using sh by (auto simp: shaped_def destroyShape_def)
    have "\<not> shutdownRequested q" using stg e by (auto simp: stagesOk_def lateStages_def)
    then obtain sd where wt: "workerThread q = [WorkerCommit sd (workerEpoch q)]" using th(4) wk by (auto simp: workerOk_def)
    have pe: "pending q = {#WorkerCommit sd (workerEpoch q), AwaitDrained, SetShutdown#}" using wt e r calls by (simp add: pending_def)
    have "\<not> postComing q (workerEpoch q)" by (simp add: postComing_def pe)
    then have rd: "ready q = []" using wk wt by (auto simp: workerOk_def)
    have "liveOps q \<noteq> {}" using cnt n by (auto simp: countOk_def pe)
    then obtain x p where x: "opAt q x = Some p" by (auto simp: liveOps_def)
    have "counted q (pending q) x" and en: "enqueued q (pending q) x" using s by (auto simp: sound_def)
    then have "openWaits p \<noteq> 0" using x rd by (auto simp: counted_def pe split: if_splits)
    then obtain j where j: "j < length (waitEntries p)" "isOpen (waitEntries p ! j)"
      by (auto simp: openWaits_def filter_empty_conv in_set_conv_nth)
    have "waitEntries p ! j \<noteq> Unarmed"
    proof
      assume "waitEntries p ! j = Unarmed"
      then have "Unarmed \<in> set (waitEntries p)" using j(1) by (metis nth_mem)
      then show False using en x by (auto simp: enqueued_def callActs_def pe)
    qed
    then have "armedAt q x j" using j x by (auto simp: armedAt_def isOpen_def)
    then show ?thesis using can d e by (fastforce simp: cancelledOk_def)
  next
    assume e: "destroyThread q = [JoinWorker]" and n: "workerThread q \<noteq> []"
    then obtain sd where wt: "workerThread q = [WorkerCommit sd (workerEpoch q)]" using th(4) by auto
    have "shutdownRequested q" using stg d e by (simp add: stagesOk_def lateStages_def)
    then have "postComing q (workerEpoch q)" using wk wt by (simp add: workerOk_def)
    moreover have "PostWorker \<notin># pending q" using wt e calls by (auto simp: pending_def)
    ultimately show ?thesis by (simp add: postComing_def)
  qed
qed


section \<open>A bound on the steps of the destruction\<close>

text \<open>What an action still costs, apart from the loop of the worker and from the entries still to walk.\<close>

fun cost :: "action \<Rightarrow> nat" where
  "cost (StoreError x st) = 28"
| "cost (GiveBack x) = 27"
| "cost (PushReady x) = 26"
| "cost (PushChain xs) = 11 * length xs + 14"
| "cost PostWorker = 7"
| "cost (LoadStatus x) = 6"
| "cost (RunFn x) = 5"
| "cost (SignalList x) = 4"
| "cost (FailList x e) = 3"
| "cost (ReleaseOp x) = 2"
| "cost CountDown = 1"
| "cost CancelLock = 16"
| "cost (CancelWalk xs chain) = 11 * length chain + 15"
| "cost (CancelEntry y i c xs chain) = 11 * length chain + 11 * c + 18"
| "cost (CancelStore y c xs chain) = 11 * length chain + 11 * c + 17"
| "cost (CancelGiveBack y c xs chain) = 11 * length chain + 11 * c + 16"
| "cost AwaitDrained = 1"
| "cost SetShutdown = 15"
| "cost JoinWorker = 1"
| "cost _ = 0"

definition entriesOf :: "'a async_queue_scheme \<Rightarrow> nat \<Rightarrow> nat" where
  "entriesOf q x = length (waitEntries (opOf x q))"

definition walkCost :: "'a async_queue_scheme \<Rightarrow> nat list \<Rightarrow> nat" where
  "walkCost q xs = (\<Sum>x\<leftarrow>xs. entriesOf q x + 5)"

fun walkLeft :: "'a async_queue_scheme \<Rightarrow> action \<Rightarrow> nat" where
  "walkLeft q CancelLock = walkCost q (inflight q)"
| "walkLeft q (CancelWalk xs chain) = walkCost q xs"
| "walkLeft q (CancelEntry y i c xs chain) = walkCost q xs + (entriesOf q y - i)"
| "walkLeft q (CancelStore y c xs chain) = walkCost q xs"
| "walkLeft q (CancelGiveBack y c xs chain) = walkCost q xs"
| "walkLeft q _ = 0"

text \<open>The loop of the worker: a position, and credit for a token or a flag that is out of date.\<close>

definition stale :: "bool \<Rightarrow> nat" where
  "stale b = (if b then 6 else 0)"

fun loopLeft :: "'a async_queue_scheme \<Rightarrow> action \<Rightarrow> nat" where
  "loopLeft q WorkerTop = (if ready q = [] then 5 else 2)"
| "loopLeft q (WorkerTake sd) = (if ready q = [] then 4 else 1) + stale (shutdownRequested q \<noteq> sd)"
| "loopLeft q (WorkerPrepare sd) = (if ready q = [] then 3 else 9) + stale (shutdownRequested q \<noteq> sd)"
| "loopLeft q (WorkerRecheck sd tok) =
     (if ready q = [] then 2 else 8) + stale (shutdownRequested q \<noteq> sd) + stale (workerEpoch q \<noteq> tok)"
| "loopLeft q (WorkerRecheckShutdown sd tok h) =
     (if ready q = [] \<and> \<not> h then 1 else 7) + stale (shutdownRequested q \<noteq> sd) + stale (workerEpoch q \<noteq> tok)"
| "loopLeft q (WorkerCommit sd tok) =
     (if ready q = [] then 0 else 6) + stale (shutdownRequested q \<noteq> sd) + stale (workerEpoch q \<noteq> tok)"
| "loopLeft q _ = 0"

definition armedIn :: "async_op \<Rightarrow> nat" where
  "armedIn p = length (filter (\<lambda>w. w = Armed) (waitEntries p))"

definition armedAll :: "'a async_queue_scheme \<Rightarrow> nat" where
  "armedAll q = (\<Sum>x<nextOp q. armedIn (opOf x q))"

definition actionLeft :: "'a async_queue_scheme \<Rightarrow> action \<Rightarrow> nat" where
  "actionLeft q a = cost a + walkLeft q a + loopLeft q a"

definition leftOver :: "'a async_queue_scheme \<Rightarrow> action multiset \<Rightarrow> nat" where
  "leftOver q P = weight (actionLeft q) P + 11 * length (ready q) + 29 * armedAll q"

text \<open>How the parts of the bound depend on the state.\<close>

lemma loopLeft_same:
  "ready r = ready q \<Longrightarrow> shutdownRequested r = shutdownRequested q \<Longrightarrow> workerEpoch r = workerEpoch q \<Longrightarrow> loopLeft r w = loopLeft q w"
  by (cases w) simp_all

lemma loopLeft_post: "loopLeft (q\<lparr>workerEpoch := e\<rparr>) w \<le> loopLeft q w + 6"
  by (cases w) (simp_all add: stale_def)

lemma loopLeft_shutdown: "loopLeft (q\<lparr>shutdownRequested := b\<rparr>) w \<le> loopLeft q w + 6"
  by (cases w) (simp_all add: stale_def)

lemma loopLeft_push: "loopLeft (q\<lparr>ready := xs @ ready q, pushed := ys\<rparr>) w \<le> loopLeft q w + 6"
  by (cases w) (simp_all add: stale_def)

lemma entriesOf_same: "opAt r x = opAt q x \<Longrightarrow> entriesOf r x = entriesOf q x"
  by (simp add: entriesOf_def opOf_def)

lemma armedAll_same: "opAt r = opAt q \<Longrightarrow> nextOp r = nextOp q \<Longrightarrow> armedAll r = armedAll q"
  by (simp add: armedAll_def opOf_def)

lemma armedAll_le:
  "nextOp r = nextOp q \<Longrightarrow> (\<And>x. armedIn (opOf x r) \<le> armedIn (opOf x q)) \<Longrightarrow> armedAll r \<le> armedAll q"
  unfolding armedAll_def by (simp add: sum_mono)

lemma armedAll_less:
  assumes "nextOp r = nextOp q" and "y < nextOp q" and "\<And>x. armedIn (opOf x r) \<le> armedIn (opOf x q)"
    and "armedIn (opOf y r) < armedIn (opOf y q)"
  shows "Suc (armedAll r) \<le> armedAll q"
  unfolding armedAll_def assms(1) Suc_le_eq by (rule sum_strict_mono_ex1) (use assms in auto)

lemma walkCost_le: "(\<And>x. entriesOf r x \<le> entriesOf q x) \<Longrightarrow> walkCost r xs \<le> walkCost q xs"
  unfolding walkCost_def by (induction xs) (simp_all add: add_mono)

lemma walkCost_remove: "walkCost q (remove1 x xs) \<le> walkCost q xs"
  unfolding walkCost_def by (induction xs) auto

lemma walkLeft_le:
  "(\<And>x. entriesOf r x \<le> entriesOf q x) \<Longrightarrow> walkCost r (inflight r) \<le> walkCost q (inflight q) \<Longrightarrow> walkLeft r a \<le> walkLeft q a"
  by (cases a) (auto intro!: walkCost_le add_mono diff_le_mono)


lemma armedIn_update:
  assumes "i < length (waitEntries p)" and "w \<noteq> Armed"
  shows "armedIn (p\<lparr>waitEntries := (waitEntries p)[i := w]\<rparr>) + (if waitEntries p ! i = Armed then 1 else 0) = armedIn p"
  using filter_update_length [OF assms(1), of "\<lambda>w. w = Armed" w] assms(2) by (simp add: armedIn_def)

lemma armed_act:
  assumes "act ans a q = Some (r, as)" and "\<not> isEnqueueing a"
  shows "nextOp r = nextOp q \<and> armedIn (opOf x r) \<le> armedIn (opOf x q) \<and> entriesOf r x \<le> entriesOf q x
    \<and> walkCost r (inflight r) \<le> walkCost q (inflight q)"
proof -
  have e: "nextOp r = nextOp q \<and> armedIn (opOf x r) \<le> armedIn (opOf x q) \<and> entriesOf r x \<le> entriesOf q x
      \<and> (inflight r = inflight q \<or> (\<exists>y. inflight r = remove1 y (inflight q)))" for x
  proof (cases a)
    case (CancelEntry y i c xs chain)
    show ?thesis
    proof (cases "i < length (waitEntries (opOf y q)) \<and> waitEntries (opOf y q) ! i = Armed")
      case True
      then obtain p where p: "opAt q y = Some p" by (cases "opAt q y") (auto simp: opOf_def)
      then show ?thesis using assms(1) CancelEntry True armedIn_update [of i p Cancelled]
        by (cases "x = y") (auto simp: opOf_def updateOp_def entriesOf_def)
    next
      case False
      then have "r = q" using assms(1) CancelEntry by (auto split: if_splits)
      then show ?thesis by simp
    qed
  next
    case (CancelGiveBack y c xs chain)
    then show ?thesis using assms(1)
      by (cases "x = y"; cases "opAt q x") (auto simp: opOf_def updateOp_def entriesOf_def armedIn_def Let_def split: if_splits)
  next
    case (GiveBack y)
    then show ?thesis using assms(1)
      by (cases "x = y"; cases "opAt q x") (auto simp: opOf_def updateOp_def entriesOf_def armedIn_def split: if_splits)
  next
    case (StoreError y st)
    then show ?thesis using assms(1)
      by (cases "x = y"; cases "opAt q x") (auto simp: opOf_def updateOp_def entriesOf_def armedIn_def storeStatus_def)
  next
    case (CancelStore y c xs chain)
    then show ?thesis using assms(1)
      by (cases "x = y"; cases "opAt q x") (auto simp: opOf_def updateOp_def entriesOf_def armedIn_def storeStatus_def)
  next
    case (ReleaseOp y)
    then show ?thesis using assms(1)
      by (cases "x = y") (auto simp: opOf_def entriesOf_def armedIn_def)
  qed (use assms in \<open>auto simp: opOf_def entriesOf_def split: if_splits option.splits list.splits\<close>)
  have "walkCost r (inflight q) \<le> walkCost q (inflight q)" using e by (intro walkCost_le) blast
  moreover have "walkCost r (remove1 y (inflight q)) \<le> walkCost r (inflight q)" for y by (rule walkCost_remove)
  ultimately show ?thesis using e [of x] by (metis le_trans)
qed

text \<open>There is one loop; what another thread does to the queue costs it at most one round.\<close>

fun loops :: "action \<Rightarrow> nat" where
  "loops a = (if loopKind a then 1 else 0)"

lemma weight_add: "weight (\<lambda>a. f a + g a) P = weight f P + weight g P"
  by (simp add: weight_def sum_mset.distrib)

lemma loopLeft_idle: "\<not> loopKind a \<Longrightarrow> loopLeft q a = 0"
  by (cases a) auto

lemma loops_bound:
  assumes "\<And>w. loopLeft r w \<le> loopLeft q w + c" shows "weight (loopLeft r) P \<le> weight (loopLeft q) P + c * weight loops P"
proof (induction P)
  case (add a P)
  have "loopLeft r a \<le> loopLeft q a + c * loops a" using assms [of a] loopLeft_idle [of a q] loopLeft_idle [of a r] by simp
  then show ?case using add by (simp add: algebra_simps del: loops.simps)
qed simp

lemma walks_bound:
  assumes "\<And>a. walkLeft r a \<le> walkLeft q a" shows "weight (walkLeft r) P \<le> weight (walkLeft q) P"
  using assms by (rule weight_mono)

definition wakes :: "action \<Rightarrow> nat" where
  "wakes a = (case a of PushChain xs \<Rightarrow> 6 | PostWorker \<Rightarrow> 6 | SetShutdown \<Rightarrow> 6 | _ \<Rightarrow> 0)"

lemma loopLeft_act:
  fixes q r :: async_system
  assumes a: "act ans a q = Some (r, as)" and k: "\<not> loopKind a"
  shows "loopLeft r w \<le> loopLeft q w + wakes a"
proof -
  consider "a = PostWorker" | "a = SetShutdown" | xs where "a = PushChain xs"
    | "ready r = ready q \<and> shutdownRequested r = shutdownRequested q \<and> workerEpoch r = workerEpoch q"
    using a k by (cases a) (auto simp: updateOp_def Let_def split: if_splits option.splits list.splits)
  then show ?thesis
  proof cases
    case 1
    then show ?thesis using a loopLeft_post [where w = w and q = q] by (auto simp: wakes_def)
  next
    case 2
    then show ?thesis using a loopLeft_shutdown [where w = w and q = q] by (auto simp: wakes_def)
  next
    case (3 xs)
    then show ?thesis using a loopLeft_push [where xs = xs and w = w and q = q] by (auto simp: wakes_def)
  next
    case 4
    then show ?thesis using loopLeft_same [where r = r and q = q and w = w] by simp
  qed
qed

text \<open>Every step pays for what comes after it.\<close>

lemma actionLeft_loads: "weight (actionLeft q) (mset (map LoadStatus xs)) = 6 * length xs"
  by (induction xs) (simp_all add: actionLeft_def)

lemma loop_pays:
  assumes "act ans a q = Some (r, as)" and "loopKind a"
  shows "weight (actionLeft r) (mset as) + 11 * length (ready r) < actionLeft q a + 11 * length (ready q)"
    and "opAt r = opAt q \<and> nextOp r = nextOp q \<and> inflight r = inflight q"
proof -
  show "opAt r = opAt q \<and> nextOp r = nextOp q \<and> inflight r = inflight q"
    using assms by (cases a) (auto split: if_splits)
  show "weight (actionLeft r) (mset as) + 11 * length (ready r) < actionLeft q a + 11 * length (ready q)"
  proof (cases a)
    case (WorkerTake sd)
    show ?thesis
    proof (cases "ready q = []")
      case True
      then show ?thesis using assms(1) WorkerTake by (auto simp: actionLeft_def split: if_splits)
    next
      case False
      then have "4 < 5 * length (ready q)" by (cases "ready q") auto
      then show ?thesis using assms(1) WorkerTake False actionLeft_loads [of r "rev (ready q)"]
        by (auto simp: actionLeft_def)
    qed
  qed (use assms in \<open>auto simp: actionLeft_def stale_def split: if_splits\<close>)
qed

lemma armed_pays:
  assumes "y < nextOp q" and "opAt q y = Some p" and "i < length (waitEntries p)" and "waitEntries p ! i = Armed" and "w \<noteq> Armed"
  shows "Suc (armedAll (updateOp y (\<lambda>p. p\<lparr>waitEntries := (waitEntries p)[i := w]\<rparr>) q)) \<le> armedAll q"
proof (rule armedAll_less [where y = y])
  let ?r = "updateOp y (\<lambda>p. p\<lparr>waitEntries := (waitEntries p)[i := w]\<rparr>) q"
  show "armedIn (opOf x ?r) \<le> armedIn (opOf x q)" for x
    using assms armedIn_update [of i p w] by (cases "x = y") (auto simp: opOf_def updateOp_def)
  show "armedIn (opOf y ?r) < armedIn (opOf y q)"
    using assms armedIn_update [of i p w] by (auto simp: opOf_def updateOp_def)
qed (use assms in \<open>simp_all add: updateOp_def\<close>)

lemma act_pays:
  assumes s: "sound q (add_mset a R)" and a: "act ans a q = Some (r, as)" and k: "\<not> loopKind a" "\<not> isEnqueueing a"
  shows "weight (actionLeft r) (mset as) + 11 * length (ready r) + 29 * armedAll r + wakes a
    < actionLeft q a + 11 * length (ready q) + 29 * armedAll q"
proof -
  have arm: "armedAll r \<le> armedAll q" using armed_act [OF a k(2)] by (intro armedAll_le) blast+
  show ?thesis
  proof (cases a)
    case (CancelEntry y i c xs chain)
    show ?thesis
    proof (cases "i < length (waitEntries (opOf y q)) \<and> waitEntries (opOf y q) ! i = Armed")
      case True
      then obtain p where p: "opAt q y = Some p" by (cases "opAt q y") (auto simp: opOf_def)
      then have "y < nextOp q" using s by (auto simp: sound_def counted_def split: option.splits)
      then have "Suc (armedAll r) \<le> armedAll q"
        using armed_pays [of y q p i Cancelled] True p a CancelEntry by (auto simp: opOf_def)
      moreover have "walkCost r xs \<le> walkCost q xs" "entriesOf r y \<le> entriesOf q y" using armed_act [OF a k(2)] by (auto intro: walkCost_le)
      ultimately show ?thesis using True a CancelEntry by (auto simp: actionLeft_def wakes_def entriesOf_def updateOp_def)
    next
      case False
      then show ?thesis using a CancelEntry arm by (auto simp: actionLeft_def wakes_def entriesOf_def split: if_splits)
    qed
  next
    case (CancelGiveBack y c xs chain)
    then have "0 < c" using s by (auto simp: sound_def linked_def)
    moreover have "walkCost r xs \<le> walkCost q xs" using armed_act [OF a k(2)] by (auto intro: walkCost_le)
    ultimately show ?thesis using a CancelGiveBack arm by (auto simp: actionLeft_def wakes_def updateOp_def Let_def split: if_splits)
  next
    case (CancelStore y c xs chain)
    have "walkCost r xs \<le> walkCost q xs" using armed_act [OF a k(2)] by (auto intro: walkCost_le)
    then show ?thesis using a CancelStore arm by (auto simp: actionLeft_def wakes_def updateOp_def)
  next
    case (CancelWalk xs chain)
    then show ?thesis using a arm by (cases xs) (auto simp: actionLeft_def wakes_def walkCost_def)
  next
    case CancelLock
    then show ?thesis using a arm by (auto simp: actionLeft_def wakes_def walkCost_def entriesOf_def opOf_def split: if_splits)
  qed (use a k arm in \<open>auto simp: actionLeft_def wakes_def updateOp_def split: if_splits option.splits list.splits\<close>)
qed

text \<open>What is left while the queue is being destroyed goes down with every step of a thread.\<close>

lemma left_act:
  assumes s: "sound q (add_mset a R)" and a: "act ans a q = Some (r, as)" and e: "\<not> isEnqueueing a"
    and l: "weight loops (add_mset a R) \<le> 1"
  shows "leftOver r (mset as + R) < leftOver q (add_mset a R)"
proof -
  have walk: "weight (walkLeft r) R \<le> weight (walkLeft q) R"
    using armed_act [OF a e] by (intro walks_bound walkLeft_le) auto
  have sum: "weight (actionLeft x) P = weight cost P + weight (walkLeft x) P + weight (loopLeft x) P" for x :: async_system and P
    unfolding actionLeft_def [abs_def] by (simp add: weight_add)
  show ?thesis
  proof (cases "loopKind a")
    case True
    then have none: "weight loops R = 0" using l by simp
    have "\<not> loopKind b" if "b \<in># R" for b using weight_zero [OF none that] by (auto split: if_splits)
    then have "weight (loopLeft x) R = 0" for x :: async_system
      using loopLeft_idle by (intro weight_none) blast
    moreover have "armedAll r = armedAll q" using loop_pays(2) [OF a True] by (intro armedAll_same) auto
    ultimately show ?thesis using loop_pays(1) [OF a True] walk by (simp add: leftOver_def sum)
  next
    case False
    then have "weight (loopLeft r) R \<le> weight (loopLeft q) R + wakes a * weight loops R"
      using loopLeft_act [OF a] by (intro loops_bound) blast
    moreover have "wakes a * weight loops R \<le> wakes a * 1" using l False by (intro mult_le_mono2) simp
    ultimately have "weight (loopLeft r) R \<le> weight (loopLeft q) R + wakes a" by linarith
    then show ?thesis using act_pays [OF s a False e] walk by (simp add: leftOver_def sum)
  qed
qed

lemma actionLeft_same: "same_shared q r \<Longrightarrow> actionLeft q = actionLeft r"
proof
  fix a assume s: "same_shared q r"
  have "walkCost q = walkCost r" "entriesOf q = entriesOf r"
    using same_sel [OF s] by (auto simp: walkCost_def entriesOf_def opOf_def)
  then have "walkLeft q a = walkLeft r a" using same_sel [OF s] by (cases a) simp_all
  moreover have "loopLeft q a = loopLeft r a" using same_sel [OF s] loopLeft_same [where r = q and q = r] by simp
  ultimately show "actionLeft q a = actionLeft r a" by (simp add: actionLeft_def)
qed

lemma leftOver_same: "same_shared q r \<Longrightarrow> leftOver q P = leftOver r P"
  using actionLeft_same [of q r] same_sel [of q r] armedAll_same [of q r] by (simp add: leftOver_def)

lemma one_loop: "shaped q \<Longrightarrow> weight loops (pending q) \<le> 1"
proof -
  assume sh: "shaped q"
  have none: "weight loops (mset t) = 0" if "\<forall>b \<in> set t. \<not> loopKind b" for t using that by (intro weight_none) auto
  have kinds: "callKind b \<or> procKind b \<or> cancelKind b \<or> b = AwaitDrained \<or> b = SetShutdown \<or> b = JoinWorker \<Longrightarrow> \<not> loopKind b" for b
    by (cases b) auto
  have "weight loops (mset (concat (callThreads q))) = 0"
    using sh kinds by (intro none) (fastforce simp: shaped_def list_all_iff)
  moreover have "weight loops (mset (destroyThread q)) = 0"
    using sh kinds by (intro none) (auto simp: shaped_def destroyShape_def)
  moreover have "weight loops (mset (workerThread q)) \<le> 1"
  proof (cases "workerThread q = []")
    case False
    then obtain ps w where w: "workerThread q = ps @ [w]" "list_all procKind ps" "loopKind w"
      using sh by (auto simp: shaped_def workerShape_def)
    moreover have "weight loops (mset ps) = 0" using w(2) kinds by (intro none) (auto simp: list_all_iff)
    ultimately show ?thesis by simp
  qed simp
  ultimately show ?thesis by (simp add: pending_def)
qed

lemma none_enqueueing: "orderly q \<Longrightarrow> destroying q \<Longrightarrow> a \<in># pending q \<Longrightarrow> \<not> isEnqueueing a"
proof -
  assume o: "orderly q" and d: "destroying q" and a: "a \<in># pending q"
  consider "a \<in> set (workerThread q)" | "a \<in> set (destroyThread q)" | t where "t \<in> set (callThreads q)" "a \<in> set t"
    using a by (auto simp: pending_def)
  then show ?thesis
  proof cases
    case 1
    then have "procKind a \<or> loopKind a" using o by (auto simp: orderly_def shaped_def workerShape_def list_all_iff)
    then show ?thesis using procKind_enqueue by blast
  next
    case 2
    then have "cancelKind a \<or> a = AwaitDrained \<or> a = SetShutdown \<or> a = JoinWorker \<or> a = PostWorker"
      using o by (auto simp: orderly_def shaped_def destroyShape_def)
    then show ?thesis using procKind_enqueue by auto
  next
    case 3
    then show ?thesis using o d by (auto simp: orderly_def cancelledOk_def list_all_iff)
  qed
qed

lemma left_step:
  assumes o: "orderly q" and d: "destroying q" and p: "proceed c q = Some q'"
  shows "leftOver q' (pending q') < leftOver q (pending q)"
  using p
proof (cases rule: proceed_cases)
  case (fire x i st p)
  have s: "sound q (pending q)" using o by (simp add: orderly_def wellFormed_def)
  then have "x < nextOp q" using fire(2) by (auto simp: sound_def counted_def split: option.splits)
  let ?r = "updateOp x (\<lambda>p. p\<lparr>waitEntries := (waitEntries p)[i := Fired st]\<rparr>) q"
  have arm: "Suc (armedAll ?r) \<le> armedAll q" by (rule armed_pays) (use fire \<open>x < nextOp q\<close> in auto)
  have "entriesOf ?r y \<le> entriesOf q y" for y using fire(2) by (cases "y = x") (auto simp: entriesOf_def opOf_def updateOp_def)
  then have "walkLeft ?r a \<le> walkLeft q a" for a by (intro walkLeft_le) (auto intro: walkCost_le simp: updateOp_def)
  moreover have "loopLeft ?r a = loopLeft q a" for a by (rule loopLeft_same) (simp_all add: updateOp_def)
  ultimately have "actionLeft ?r a \<le> actionLeft q a" for a by (simp add: actionLeft_def)
  then have "weight (actionLeft ?r) (pending q) \<le> weight (actionLeft q) (pending q)" by (rule weight_mono)
  moreover have new: "actionLeft ?r (if st = None then GiveBack x else StoreError x st) \<le> 28" "ready ?r = ready q"
    by (simp_all add: actionLeft_def updateOp_def)
  ultimately have "leftOver ?r (pending q') < leftOver q (pending q)"
    using arm new by (simp add: leftOver_def fire(10))
  then show ?thesis using leftOver_same [OF fire(5)] by simp
next
  case (act a as R ans r)
  have "sound q (pending q)" "weight loops (pending q) \<le> 1" using o one_loop by (auto simp: orderly_def wellFormed_def)
  then have "sound q (add_mset a R)" "weight loops (add_mset a R) \<le> 1" by (simp_all only: act(1))
  moreover have "\<not> isEnqueueing a" using none_enqueueing [OF o d, of a] act(1) by simp
  ultimately have "leftOver r (mset as + R) < leftOver q (add_mset a R)" using left_act [OF _ act(2)] by blast
  then show ?thesis using leftOver_same [OF act(3)] act(1,4) by simp
qed (use d in auto)

lemma destroying_kept: "proceed c q = Some q' \<Longrightarrow> destroying q \<Longrightarrow> destroying q'"
  by (cases c) (auto simp: Let_def updateOp_def split: option.splits if_splits list.splits dest: act_threads)

text \<open>So a destruction under way takes no more steps than are left.\<close>

definition stepsLeft :: "async_system \<Rightarrow> nat" where
  "stepsLeft q = leftOver q (pending q)"

lemma bounded_run: "run cs q = Some q' \<Longrightarrow> reachable q \<Longrightarrow> destroying q \<Longrightarrow> length cs + stepsLeft q' \<le> stepsLeft q"
proof (induction cs arbitrary: q)
  case (Cons c cs)
  then obtain r where r: "proceed c q = Some r" "run cs r = Some q'" by (auto simp: bind_eq_Some_conv)
  have "stepsLeft r < stepsLeft q" unfolding stepsLeft_def
    using left_step [OF reachable_orderly [OF Cons.prems(2)] Cons.prems(3) r(1)] .
  moreover have "length cs + stepsLeft q' \<le> stepsLeft r"
    using Cons.IH [OF r(2) reachable.step [OF Cons.prems(2) r(1)] destroying_kept [OF r(1) Cons.prems(3)]] .
  ultimately show ?case by simp
qed simp

section \<open>Properties of the destruction\<close>

text \<open>Two calls whose waits are never resolved, the destruction, and the worker.\<close>

definition twoCancelled :: "nat \<Rightarrow> nat \<Rightarrow> choice list" where
  "twoCancelled m n = [Enqueue 1] @ replicate 4 (StepCall 0 None) @ [Enqueue 1] @ replicate 4 (StepCall 1 None)
     @ [Destroy] @ replicate m (StepDestroy None) @ replicate n (StepWorker None)"

text \<open>
  C5. When destroy has been called and no thread can take a step any more, every thread has returned, destroy
  and the worker included, no operation is in memory, and the signal list of every operation ever enqueued
  was signalled or failed exactly once: nothing is left waiting, whatever became of the semaphores.
\<close>

theorem destroy_completes:
  assumes "reachable q" and "destroying q" and "stuck q"
  shows "destroyThread q = [] \<and> workerThread q = [] \<and> list_all (\<lambda>t. t = []) (callThreads q)
    \<and> (opAt q x = None) \<and> endsIn (trace q) x = (if x < nextOp q then 1 else 0)"
proof -
  have d: "destroyThread q = [] \<and> workerThread q = [] \<and> (\<forall>t \<in> set (callThreads q). t = []) \<and> liveOps q = {}"
    by (rule drained [OF reachable_orderly [OF assms(1)] assms(3,2)])
  then have "opAt q x = None" by (auto simp: liveOps_def)
  then show ?thesis using d once_traced [OF assms(1), of x] by (auto simp: traced_def list_all_iff split: if_splits)
qed

text \<open>That execution up to its end.\<close>

definition allCancelled :: "choice list" where
  "allCancelled = twoCancelled 13 13 @ replicate 4 (StepDestroy None) @ replicate 4 (StepWorker None) @ [StepDestroy None]"

lemma allCancelled_threads: "destroyThread (scheduled allCancelled) = []" "workerThread (scheduled allCancelled) = []"
    "callThreads (scheduled allCancelled) = [[], []]" "destroying (scheduled allCancelled)" "nextOp (scheduled allCancelled) = 2"
  by code_simp+

lemma allCancelled_stuck: "stuck (scheduled allCancelled)"
proof -
  have "proceed (StepCall k None) (scheduled allCancelled) = None" for k
    by (cases "k = 0"; cases "k = 1") (simp_all add: allCancelled_threads)
  then show ?thesis by (simp add: stuck_def allCancelled_threads)
qed

theorem destroy_completes_witness: "opAt (scheduled allCancelled) 1 = None \<and> endsIn (trace (scheduled allCancelled)) 1 = 1"
  using destroy_completes [OF scheduled_reachable allCancelled_threads(4) allCancelled_stuck, of 1]
  by (simp add: allCancelled_threads)

text \<open>
  C7. The destruction terminates: after destroy was called the threads take together, in any order of their
  steps and with any callbacks of semaphores in between, at most the steps that the bound computed from the
  state allows.
\<close>

theorem destroy_terminates:
  assumes "reachable q" and "destroying q" and "run cs q = Some q'"
  shows "length cs + stepsLeft q' \<le> stepsLeft q"
  using assms(3,1,2) by (rule bounded_run)

lemma twoCancelled_start: "destroying (scheduled (twoCancelled 0 0))"
    "run [StepDestroy None, Fire 0 0 None, StepWorker None] (scheduled (twoCancelled 0 0)) \<noteq> None"
  by code_simp+

theorem destroy_terminates_witness: "stepsLeft (scheduled (twoCancelled 0 0)) \<ge> 3"
proof -
  obtain q where "run [StepDestroy None, Fire 0 0 None, StepWorker None] (scheduled (twoCancelled 0 0)) = Some q"
    using twoCancelled_start(2) by blast
  from destroy_terminates [OF scheduled_reachable twoCancelled_start(1) this] show ?thesis by simp
qed

text \<open>
  Operations that destroy cancels are failed in the reverse of the order of their calls: an execution
  with two calls whose waits are never resolved fails the second one first.
\<close>

theorem cancelled_in_reverse:
  "trace (scheduled allCancelled) = [Failed 1 CANCELLED, Released 1, Failed 0 CANCELLED, Released 0]"
  by code_simp

end
