(* ===== verification/Control_Code.thy ===== *)
theory Control_Code
  imports Dma_Dim_Config
begin

text \<open>
  The control code of a workgroup as the passes on buffer descriptors see it: half DMA copies, waits and
  barriers, in program order, each with the operation around it (its scope). What a program does is said by
  the lowering of AMDAIEControlCodeLowering.cpp: a copy writes its descriptor, and a copy without a next
  descriptor pushes the first descriptor of its chain to the queue of its channel, which runs the chain.
\<close>

section \<open>Operations\<close>

text \<open>
  A half DMA copy. The compiler has one tile operation per location, so a tile is its location; a connection
  and a token are numbers, the token of a copy is the number of the copy. Sizes and strides are constants, as
  \<open>getConstantIndexOrAssert\<close> demands. An operand that is not defined by the expected operation is \<open>None\<close>.
\<close>

record HalfDma =
  dmaId :: nat
  dmaToken :: bool \<comment> \<open>whether it has a result\<close>
  dmaScope :: nat
  dmaConnection :: "nat option"
  dmaMemorySpace :: u8
  dmaChannel :: "StrmSwPortType option" \<comment> \<open>the port type of its channel\<close>
  dmaSizes :: "int list"
  dmaStrides :: "int list"
  dmaBd :: "(TileLoc option \<times> u32) option"
  nextBd :: "u32 option"
  startBd :: "u32 option"

record NpuDmaWait =
  waitId :: nat
  waitScope :: nat
  asyncTokens :: "nat list"

datatype CtrlOp = HalfDmaOp HalfDma | DmaWaitOp NpuDmaWait | BarrierOp

type_synonym code = "CtrlOp list"

text \<open>A tile and a connection: what the passes call \<open>DmaChain\<close> and \<open>DmaBdIdKey\<close>.\<close>

type_synonym dma_key = "TileLoc \<times> nat"

definition bdOf :: "HalfDma \<Rightarrow> u32 option" where
  "bdOf h = map_option snd (dmaBd h)"

definition keyOf :: "HalfDma \<Rightarrow> dma_key option" where
  "keyOf h = (case (dmaBd h, dmaConnection h) of (Some (Some t, b), Some c) \<Rightarrow> Some (t, c) | _ \<Rightarrow> None)"

definition dmasOf :: "code \<Rightarrow> HalfDma list" where
  "dmasOf cs = concat (map (\<lambda>op. case op of HalfDmaOp h \<Rightarrow> [h] | _ \<Rightarrow> []) cs)"

lemma dmasOf_simps [simp]:
  "dmasOf [] = []" "dmasOf (HalfDmaOp h # cs) = h # dmasOf cs" "dmasOf (DmaWaitOp w # cs) = dmasOf cs"
  "dmasOf (BarrierOp # cs) = dmasOf cs" "dmasOf (cs @ ds) = dmasOf cs @ dmasOf ds"
  by (simp_all add: dmasOf_def)

section \<open>The shim\<close>

text \<open>Copies that do not start at a shim DMA are erased by the lowering.\<close>

definition lowered :: "HalfDma \<Rightarrow> bool" where
  "lowered h \<longleftrightarrow> dmaMemorySpace h = 0 \<and> dmaChannel h = Some DMA"

type_synonym bd_memory = "TileLoc \<times> u32 \<Rightarrow> (nat \<times> u32 option) option"

text \<open>
  The chain from a descriptor on, as the transfers of the copies that wrote it; \<open>None\<close> for a descriptor that
  nobody wrote and for a chain longer than the given number.
\<close>

fun chainFrom :: "nat \<Rightarrow> bd_memory \<Rightarrow> TileLoc \<Rightarrow> u32 \<Rightarrow> nat list option" where
  "chainFrom 0 mem t b = None"
| "chainFrom (Suc n) mem t b =
     (case mem (t, b) of
        None \<Rightarrow> None
      | Some (x, None) \<Rightarrow> Some [x]
      | Some (x, Some b') \<Rightarrow> map_option ((#) x) (chainFrom n mem t b'))"

definition startOf :: "HalfDma \<Rightarrow> u32 option" where
  "startOf h = (case startBd h of None \<Rightarrow> bdOf h | Some s \<Rightarrow> Some s)"

text \<open>The pushes of a program: for each the tile and connection, and the transfers of the chain that runs.\<close>

fun pushes :: "nat \<Rightarrow> code \<Rightarrow> bd_memory \<Rightarrow> (dma_key \<times> nat list) list option" where
  "pushes n [] mem = Some []"
| "pushes n (HalfDmaOp h # cs) mem =
     (if \<not> lowered h then pushes n cs mem
      else case (keyOf h, bdOf h, startOf h) of
        (Some k, Some b, Some s) \<Rightarrow>
          (let mem' = mem((fst k, b) \<mapsto> (dmaId h, nextBd h))
           in case nextBd h of
                Some b' \<Rightarrow> pushes n cs mem'
              | None \<Rightarrow>
                  (case (chainFrom n mem' (fst k) s, pushes n cs mem') of
                     (Some xs, Some ps) \<Rightarrow> Some ((k, xs) # ps)
                   | _ \<Rightarrow> None))
      | _ \<Rightarrow> None)"
| "pushes n (_ # cs) mem = pushes n cs mem"

text \<open>The transfers that a queue runs, and all transfers of the queues with a property.\<close>

definition transfers :: "(dma_key \<Rightarrow> bool) \<Rightarrow> (dma_key \<times> nat list) list \<Rightarrow> nat list" where
  "transfers P ps = concat (map snd (filter (\<lambda>p. P (fst p)) ps))"

lemma transfers_simps [simp]:
  "transfers P [] = []" "transfers P ((k, xs) # ps) = (if P k then xs else []) @ transfers P ps"
  by (simp_all add: transfers_def)


declare split_paired_All [simp del] split_paired_Ex [simp del]

section \<open>Programs that build their chains in order\<close>

text \<open>
  The copies of each queue that have written their descriptors and wait for the push of their chain. A
  program is coherent when every copy continues the chain of its queue, does not overwrite a descriptor of a
  chain under way, and pushes the chain from its first descriptor on; chains are under way neither at a
  barrier nor, for the other queues, at a copy that closes them.
\<close>

type_synonym open_chains = "dma_key \<Rightarrow> HalfDma list"

fun coherent :: "(HalfDma \<Rightarrow> bool) \<Rightarrow> open_chains \<Rightarrow> code \<Rightarrow> bool" where
  "coherent closing opn [] = (\<forall>k. opn k = [])"
| "coherent closing opn (BarrierOp # cs) = ((\<forall>k. opn k = []) \<and> coherent closing opn cs)"
| "coherent closing opn (DmaWaitOp w # cs) = coherent closing opn cs"
| "coherent closing opn (HalfDmaOp h # cs) =
     (if \<not> lowered h then coherent closing opn cs
      else (\<exists>k b. keyOf h = Some k \<and> bdOf h = Some b
        \<and> startOf h = (if opn k = [] then Some b else bdOf (hd (opn k)))
        \<and> (opn k \<noteq> [] \<longrightarrow> nextBd (last (opn k)) = Some b)
        \<and> (\<forall>k'. fst k' = fst k \<longrightarrow> Some b \<notin> bdOf ` set (opn k'))
        \<and> (closing h \<longrightarrow> (\<forall>k'. k' \<noteq> k \<longrightarrow> opn k' = []))
        \<and> coherent closing (opn(k := if nextBd h = None then [] else opn k @ [h])) cs))"

text \<open>The pushes of such a program, and the descriptors it has written.\<close>

fun chainPushes :: "open_chains \<Rightarrow> code \<Rightarrow> (dma_key \<times> nat list) list" where
  "chainPushes opn [] = []"
| "chainPushes opn (HalfDmaOp h # cs) =
     (if \<not> lowered h then chainPushes opn cs
      else (let k = the (keyOf h) in
        if nextBd h = None then (k, map dmaId (opn k @ [h])) # chainPushes (opn(k := [])) cs
        else chainPushes (opn(k := opn k @ [h])) cs))"
| "chainPushes opn (_ # cs) = chainPushes opn cs"

fun linkedBds :: "HalfDma list \<Rightarrow> bool" where
  "linkedBds (g # h # hs) \<longleftrightarrow> nextBd g \<noteq> None \<and> nextBd g = bdOf h \<and> linkedBds (h # hs)"
| "linkedBds _ \<longleftrightarrow> True"

definition written :: "bd_memory \<Rightarrow> open_chains \<Rightarrow> bool" where
  "written mem opn \<longleftrightarrow> (\<forall>k. linkedBds (opn k) \<and> (\<forall>h \<in> set (opn k). nextBd h \<noteq> None
      \<and> (\<exists>b. bdOf h = Some b \<and> mem (fst k, b) = Some (dmaId h, nextBd h))))"

lemma written_linked: "written mem opn \<Longrightarrow> linkedBds (opn k)"
  unfolding written_def by blast

lemma written_mem:
  assumes "written mem opn" and "g \<in> set (opn k)"
  obtains b where "nextBd g \<noteq> None" and "bdOf g = Some b" and "mem (fst k, b) = Some (dmaId g, nextBd g)"
  using assms unfolding written_def by blast

lemma linked_snoc: "linkedBds hs \<Longrightarrow> bdOf h = Some b \<Longrightarrow> hs \<noteq> [] \<longrightarrow> nextBd (last hs) = Some b \<Longrightarrow> linkedBds (hs @ [h])"
  by (induction hs rule: linkedBds.induct) auto

lemma chain_runs:
  assumes "linkedBds (hs @ [h])" and "\<forall>g \<in> set hs. nextBd g \<noteq> None" and "nextBd h = None" and "length hs < n"
    and "\<forall>g \<in> set (hs @ [h]). \<exists>b. bdOf g = Some b \<and> mem (t, b) = Some (dmaId g, nextBd g)"
    and "bdOf (hd (hs @ [h])) = Some s"
  shows "chainFrom n mem t s = Some (map dmaId (hs @ [h]))"
  using assms
proof (induction hs arbitrary: n s)
  case Nil
  then show ?case by (cases n) auto
next
  case (Cons g hs)
  obtain m where n: "n = Suc m" using Cons.prems(4) by (cases n) auto
  obtain g' rest where r: "hs @ [h] = g' # rest" by (cases "hs @ [h]") auto
  have l: "linkedBds (g' # rest)" "nextBd g = bdOf g'" "nextBd g \<noteq> None" using Cons.prems(1,2) r by auto
  then obtain b' where b': "nextBd g = Some b'" by auto
  have "chainFrom m mem t b' = Some (map dmaId (hs @ [h]))"
    by (rule Cons.IH) (use Cons.prems n l r b' in auto)
  then show ?case using Cons.prems(5,6) n b' by auto
qed

lemma written_step:
  assumes w: "written mem opn" and b: "bdOf h = Some b" and free: "\<forall>k'. fst k' = fst k \<longrightarrow> Some b \<notin> bdOf ` set (opn k')"
    and n: "opn k \<noteq> [] \<longrightarrow> nextBd (last (opn k)) = Some b"
  shows "written (mem((fst k, b) \<mapsto> (dmaId h, nextBd h))) (opn(k := if nextBd h = None then [] else opn k @ [h]))"
  unfolding written_def
proof
  fix k'
  let ?mem = "mem((fst k, b) \<mapsto> (dmaId h, nextBd h))" and ?opn = "opn(k := if nextBd h = None then [] else opn k @ [h])"
  have old: "linkedBds (opn j)" "\<forall>g \<in> set (opn j). nextBd g \<noteq> None \<and> (\<exists>b'. bdOf g = Some b' \<and> ?mem (fst j, b') = Some (dmaId g, nextBd g))" for j
  proof -
    show "linkedBds (opn j)" using w by (rule written_linked)
    show "\<forall>g \<in> set (opn j). nextBd g \<noteq> None \<and> (\<exists>b'. bdOf g = Some b' \<and> ?mem (fst j, b') = Some (dmaId g, nextBd g))"
    proof
      fix g assume g: "g \<in> set (opn j)"
      with w obtain b' where b': "nextBd g \<noteq> None" "bdOf g = Some b'" "mem (fst j, b') = Some (dmaId g, nextBd g)" by (rule written_mem)
      have "\<not> (fst j = fst k \<and> b' = b)" using free g b'(2) by (metis image_eqI)
      then have "?mem (fst j, b') = Some (dmaId g, nextBd g)" using b'(3) by (metis fun_upd_other prod.inject)
      then show "nextBd g \<noteq> None \<and> (\<exists>b'. bdOf g = Some b' \<and> ?mem (fst j, b') = Some (dmaId g, nextBd g))" using b' by blast
    qed
  qed
  show "linkedBds (?opn k') \<and> (\<forall>g \<in> set (?opn k'). nextBd g \<noteq> None \<and> (\<exists>b'. bdOf g = Some b' \<and> ?mem (fst k', b') = Some (dmaId g, nextBd g)))"
  proof (cases "k' = k")
    case True
    have "linkedBds (opn k @ [h])" using old(1) b n by (rule linked_snoc)
    then show ?thesis using True old(2) [of k] b by auto
  next
    case False
    then show ?thesis using old [of k'] by auto
  qed
qed

lemma pushes_coherent:
  assumes "coherent closing opn cs" and "written mem opn" and "\<forall>k. length (opn k) + length cs \<le> n"
  shows "pushes n cs mem = Some (chainPushes opn cs)"
  using assms
proof (induction cs arbitrary: opn mem)
  case (Cons op cs)
  have rest: "\<forall>k. length (opn k) + length cs \<le> n" using Cons.prems(3) by (auto intro: Suc_leD)
  show ?case
  proof (cases op)
    case (HalfDmaOp h)
    show ?thesis
    proof (cases "lowered h")
      case True
      with Cons.prems(1) HalfDmaOp obtain k b where kb: "keyOf h = Some k" "bdOf h = Some b"
        and st: "startOf h = (if opn k = [] then Some b else bdOf (hd (opn k)))" and nx: "opn k \<noteq> [] \<longrightarrow> nextBd (last (opn k)) = Some b"
        and free: "\<forall>k'. fst k' = fst k \<longrightarrow> Some b \<notin> bdOf ` set (opn k')"
        and c: "coherent closing (opn(k := if nextBd h = None then [] else opn k @ [h])) cs" by auto
      let ?mem = "mem((fst k, b) \<mapsto> (dmaId h, nextBd h))" and ?opn = "opn(k := if nextBd h = None then [] else opn k @ [h])"
      have w: "written ?mem ?opn" by (rule written_step [OF Cons.prems(2) kb(2) free nx])
      have len: "\<forall>j. length (?opn j) + length cs \<le> n"
      proof
        fix j
        have "length (opn j) + length (op # cs) \<le> n" using Cons.prems(3) by blast
        then show "length (?opn j) + length cs \<le> n" by (cases "j = k") auto
      qed
      have ih: "pushes n cs ?mem = Some (chainPushes ?opn cs)" by (rule Cons.IH [OF c w len])
      have mem: "\<forall>g \<in> set (opn k). nextBd g \<noteq> None \<and> (\<exists>b'. bdOf g = Some b' \<and> ?mem (fst k, b') = Some (dmaId g, nextBd g))"
      proof
        fix g assume g: "g \<in> set (opn k)"
        with Cons.prems(2) obtain b' where b': "nextBd g \<noteq> None" "bdOf g = Some b'" "mem (fst k, b') = Some (dmaId g, nextBd g)"
          by (rule written_mem)
        moreover have "b' \<noteq> b" using free g b'(2) by (metis image_eqI)
        ultimately show "nextBd g \<noteq> None \<and> (\<exists>b'. bdOf g = Some b' \<and> ?mem (fst k, b') = Some (dmaId g, nextBd g))" by simp
      qed
      obtain s where s: "startOf h = Some s" "bdOf (hd (opn k @ [h])) = Some s"
        using st kb(2) mem by (cases "opn k") auto
      show ?thesis
      proof (cases "nextBd h")
        case None
        have "linkedBds (opn k)" using Cons.prems(2) by (rule written_linked)
        then have l: "linkedBds (opn k @ [h])" using kb(2) nx by (rule linked_snoc)
        have "length (opn k) + length (op # cs) \<le> n" using Cons.prems(3) by blast
        then have "chainFrom n ?mem (fst k) s = Some (map dmaId (opn k @ [h]))"
          using l mem kb(2) s(2) None by (intro chain_runs) auto
        then show ?thesis using True kb s(1) None ih by (simp add: HalfDmaOp)
      next
        case (Some b')
        then show ?thesis using True kb s(1) ih by (simp add: HalfDmaOp)
      qed
    next
      case False
      have "pushes n cs mem = Some (chainPushes opn cs)"
        by (rule Cons.IH) (use Cons.prems False HalfDmaOp rest in auto)
      then show ?thesis using False by (simp add: HalfDmaOp)
    qed
  next
    case (DmaWaitOp w)
    have "pushes n cs mem = Some (chainPushes opn cs)"
      by (rule Cons.IH) (use Cons.prems DmaWaitOp rest in auto)
    then show ?thesis by (simp add: DmaWaitOp)
  next
    case BarrierOp
    have "coherent closing opn cs" using Cons.prems(1) unfolding BarrierOp coherent.simps by (rule conjunct2)
    then have "pushes n cs mem = Some (chainPushes opn cs)" using Cons.prems(2) rest by (rule Cons.IH)
    then show ?thesis by (simp add: BarrierOp)
  qed
qed simp

text \<open>Every queue runs its copies in program order.\<close>

definition copiesOf :: "(dma_key \<Rightarrow> bool) \<Rightarrow> code \<Rightarrow> nat list" where
  "copiesOf P cs = map dmaId (filter (\<lambda>h. lowered h \<and> (\<exists>k. keyOf h = Some k \<and> P k)) (dmasOf cs))"

lemma copiesOf_simps [simp]:
  "copiesOf P [] = []" "copiesOf P (DmaWaitOp w # cs) = copiesOf P cs" "copiesOf P (BarrierOp # cs) = copiesOf P cs"
  "copiesOf P (HalfDmaOp h # cs) = (if lowered h \<and> (\<exists>k. keyOf h = Some k \<and> P k) then dmaId h # copiesOf P cs else copiesOf P cs)"
  by (simp_all add: copiesOf_def)

lemma queue_order:
  "coherent closing opn cs \<Longrightarrow> transfers (\<lambda>j. j = k) (chainPushes opn cs) = map dmaId (opn k) @ copiesOf (\<lambda>j. j = k) cs"
proof (induction closing opn cs rule: coherent.induct)
  case (4 closing opn h cs)
  show ?case
  proof (cases "lowered h")
    case True
    with 4(3) obtain k' b where kb: "keyOf h = Some k'" "bdOf h = Some b"
      and c: "coherent closing (opn(k' := if nextBd h = None then [] else opn k' @ [h])) cs" by auto
    have "transfers (\<lambda>j. j = k) (chainPushes (opn(k' := if nextBd h = None then [] else opn k' @ [h])) cs)
        = map dmaId ((opn(k' := if nextBd h = None then [] else opn k' @ [h])) k) @ copiesOf (\<lambda>j. j = k) cs"
      by (rule 4(2) [OF _ c]) (simp add: True)
    then show ?thesis using True kb by (cases "nextBd h"; cases "k' = k") (simp_all add: Let_def)
  next
    case False
    then show ?thesis using 4 by simp
  qed
qed auto

text \<open>Where the copies of some queues close the chains of all others, those copies run in program order altogether.\<close>

lemma closing_order:
  assumes "coherent closing opn cs" and "\<forall>h \<in> set (dmasOf cs). lowered h \<and> (\<exists>k. keyOf h = Some k \<and> P k) \<longrightarrow> closing h"
    and "\<forall>k. P k \<and> opn k \<noteq> [] \<longrightarrow> k = j"
  shows "transfers P (chainPushes opn cs) = (if P j then map dmaId (opn j) else []) @ copiesOf P cs"
  using assms
proof (induction closing opn cs arbitrary: j rule: coherent.induct)
  case (4 closing opn h cs)
  show ?case
  proof (cases "lowered h")
    case True
    with 4(3) obtain k b where kb: "keyOf h = Some k" "bdOf h = Some b" and cl: "closing h \<longrightarrow> (\<forall>k'. k' \<noteq> k \<longrightarrow> opn k' = [])"
      and c: "coherent closing (opn(k := if nextBd h = None then [] else opn k @ [h])) cs" by auto
    have closes: "\<forall>h \<in> set (dmasOf cs). lowered h \<and> (\<exists>k. keyOf h = Some k \<and> P k) \<longrightarrow> closing h" using 4(4) by simp
    show ?thesis
    proof (cases "P k")
      case pk: True
      have "closing h" using 4(4) True kb(1) pk by simp
      then have oth: "\<forall>k'. k' \<noteq> k \<longrightarrow> opn k' = []" using cl by blast
      have "\<forall>k'. P k' \<and> (opn(k := if nextBd h = None then [] else opn k @ [h])) k' \<noteq> [] \<longrightarrow> k' = k" using oth by simp
      from 4(2) [OF _ c closes this] have "transfers P (chainPushes (opn(k := if nextBd h = None then [] else opn k @ [h])) cs)
          = (if P k then map dmaId ((opn(k := if nextBd h = None then [] else opn k @ [h])) k) else []) @ copiesOf P cs"
        by (simp only: True simp_thms)
      moreover have "(if P j then map dmaId (opn j) else []) = map dmaId (opn k)"
      proof (cases "j = k")
        case False
        then have "opn k = []" "opn j = []" using 4(5) oth pk by blast+
        then show ?thesis by simp
      qed (simp add: pk)
      ultimately show ?thesis using True kb pk by (cases "nextBd h") (simp_all add: Let_def)
    next
      case pk: False
      have "\<forall>k'. P k' \<and> (opn(k := if nextBd h = None then [] else opn k @ [h])) k' \<noteq> [] \<longrightarrow> k' = j" using 4(5) pk by simp
      from 4(2) [OF _ c closes this] have "transfers P (chainPushes (opn(k := if nextBd h = None then [] else opn k @ [h])) cs)
          = (if P j then map dmaId ((opn(k := if nextBd h = None then [] else opn k @ [h])) j) else []) @ copiesOf P cs"
        by (simp only: True simp_thms)
      then show ?thesis using True kb pk by (cases "nextBd h"; cases "j = k") (simp_all add: Let_def)
    qed
  next
    case False
    then show ?thesis using 4 by simp
  qed
qed auto

end
