(* ===== verification/Bd_Chain.thy ===== *)
theory Bd_Chain
  imports Control_Code
begin

text \<open>
  Chains of buffer descriptors (AMDAIEInsertDmaBdChain.cpp): consecutive copies of a queue are linked, so
  that only the last of them pushes to the queue. The pass walks the control code backwards with the chains
  it may still extend; a chain is broken when a descriptor is used twice, at a barrier, and at a copy of a
  packet flow. The pass moves the descriptor operations to the front of the control code, which changes
  nothing in the model, where a descriptor is its number. The order of its walks over hash maps is a parameter.
\<close>


section \<open>The pass\<close>

text \<open>The repeat count; \<open>int32_t\<close> keeps the low bits of the size.\<close>

definition repeatCount :: "u8 \<Rightarrow> HalfDma \<Rightarrow> int" where
  "repeatCount numAddrDim h =
     (case (dmaSizes h, dmaStrides h) of
        (size0 # _, stride0 # _) \<Rightarrow>
          if length (dmaSizes h) = unat numAddrDim \<or> stride0 = 0 then sint (word_of_int size0 :: 32 word) else 1
      | _ \<Rightarrow> 1)"

text \<open>The copy with the given number is replaced; its users are erased.\<close>

definition replaceDma :: "nat \<Rightarrow> (HalfDma \<Rightarrow> HalfDma) \<Rightarrow> code \<Rightarrow> code" where
  "replaceDma x f cs = map (\<lambda>op. case op of HalfDmaOp h \<Rightarrow> HalfDmaOp (if dmaId h = x then f h else h) | _ \<Rightarrow> op) cs"

fun usesToken :: "nat \<Rightarrow> CtrlOp \<Rightarrow> bool" where
  "usesToken x (DmaWaitOp w) = (x \<in> set (asyncTokens w))"
| "usesToken x _ = False"

definition eraseUsers :: "nat \<Rightarrow> code \<Rightarrow> code" where
  "eraseUsers x cs = filter (\<lambda>op. \<not> usesToken x op) cs"

fun chainDmas :: "u32 option \<Rightarrow> nat \<Rightarrow> HalfDma list \<Rightarrow> code \<Rightarrow> bool \<times> code" where
  "chainDmas start scope (currDma # nextDma # dmas) cs =
     (if dmaScope currDma \<noteq> scope then (False, cs)
      else chainDmas start scope (nextDma # dmas)
        (eraseUsers (dmaId currDma) (replaceDma (dmaId currDma)
          (\<lambda>h. h\<lparr>dmaToken := False, nextBd := bdOf nextDma, startBd := start\<rparr>) cs)))"
| "chainDmas start scope [lastDma] cs =
     (if dmaScope lastDma \<noteq> scope then (False, cs)
      else (True, replaceDma (dmaId lastDma) (\<lambda>h. h\<lparr>nextBd := None, startBd := start\<rparr>) cs))"
| "chainDmas start scope [] cs = (True, cs)"

definition updateChainOperands :: "HalfDma list \<Rightarrow> code \<Rightarrow> bool \<times> code" where
  "updateChainOperands dmaOps cs =
     (if length dmaOps < 2 then (True, cs) else chainDmas (bdOf (hd dmaOps)) (dmaScope (hd dmaOps)) dmaOps cs)"

text \<open>
  The two maps from chains, which have the same keys but for entries without operations, and the set of
  chains to break. The order in which a map is walked over is a parameter.
\<close>

record ChainState =
  chainBds :: "(dma_key \<times> u32 list) list"
  chainOps :: "dma_key \<Rightarrow> HalfDma list"
  chainsToBreak :: "dma_key list"

type_synonym map_order = "(dma_key \<times> u32 list) list \<Rightarrow> (dma_key \<times> u32 list) list"

definition checkForChainsWithDuplicateBdId :: "map_order \<Rightarrow> u32 \<Rightarrow> dma_key \<Rightarrow> (dma_key \<times> u32 list) list \<Rightarrow> dma_key list \<Rightarrow> dma_key list" where
  "checkForChainsWithDuplicateBdId walk currBdId currChain bds broken =
     (case find (\<lambda>(k, ids). fst k = fst currChain \<and> currBdId \<in> set ids) (walk bds) of
        None \<Rightarrow> broken
      | Some (k, ids) \<Rightarrow> if k \<noteq> currChain then sv_insert currChain (sv_insert k broken) else sv_insert k broken)"

text \<open>The chains to break, one after the other; a failure is ignored, as the source does.\<close>

definition breakChain :: "dma_key \<Rightarrow> ChainState \<times> code \<Rightarrow> ChainState \<times> code" where
  "breakChain k = (\<lambda>(st, cs). (st\<lparr>chainBds := filter (\<lambda>e. fst e \<noteq> k) (chainBds st), chainOps := (chainOps st)(k := [])\<rparr>,
     snd (updateChainOperands (rev (chainOps st k)) cs)))"

definition addToChain :: "dma_key \<Rightarrow> u32 \<Rightarrow> HalfDma \<Rightarrow> ChainState \<Rightarrow> ChainState" where
  "addToChain k b h st =
     st\<lparr>chainBds := (case map_of (chainBds st) k of
          None \<Rightarrow> chainBds st @ [(k, [b])]
        | Some ids \<Rightarrow> map (\<lambda>e. (fst e, if fst e = k then sv_insert b ids else snd e)) (chainBds st)),
        chainOps := (chainOps st)(k := chainOps st k @ [h])\<rparr>"

definition chainStep :: "u8 \<Rightarrow> map_order \<Rightarrow> (nat \<Rightarrow> bool option) \<Rightarrow> CtrlOp \<Rightarrow> ChainState \<times> code \<Rightarrow> (ChainState \<times> code) result" where
  "chainStep numAddrDim walk isPacketFlow op = (\<lambda>(st, cs).
     case op of
       HalfDmaOp h \<Rightarrow>
         (case dmaChannel h of
            None \<Rightarrow> Inl Failure
          | Some portType \<Rightarrow>
              if dmaMemorySpace h \<noteq> 0 \<or> portType \<noteq> DMA then Inr (st, cs)
              else (case dmaConnection h of
                None \<Rightarrow> Inl Failure
              | Some conn \<Rightarrow>
                  if repeatCount numAddrDim h > 1 then Inr (st, cs)
                  else (case dmaBd h of
                    Some (Some tile, bdId) \<Rightarrow>
                      (let currChain = (tile, conn);
                           broken1 = (if isPacketFlow conn = Some True
                             then sv_insert_all (filter (\<lambda>k. k \<noteq> currChain) (map fst (walk (chainBds st)))) (chainsToBreak st)
                             else chainsToBreak st);
                           broken2 = checkForChainsWithDuplicateBdId walk bdId currChain (chainBds st) broken1;
                           (st', cs') = fold breakChain broken2 (st, cs)
                       in Inr (addToChain currChain bdId h (st'\<lparr>chainsToBreak := []\<rparr>), cs'))
                  | _ \<Rightarrow> Inl Failure)))
     | BarrierOp \<Rightarrow> Inr (st\<lparr>chainsToBreak := sv_insert_all (map fst (walk (chainBds st))) (chainsToBreak st)\<rparr>, cs)
     | DmaWaitOp w \<Rightarrow> Inr (st, cs))"

text \<open>The walk from the last operation to the first.\<close>

fun chainWalk :: "u8 \<Rightarrow> map_order \<Rightarrow> (nat \<Rightarrow> bool option) \<Rightarrow> CtrlOp list \<Rightarrow> ChainState \<times> code \<Rightarrow> (ChainState \<times> code) result" where
  "chainWalk numAddrDim walk isPacketFlow [] s = Inr s"
| "chainWalk numAddrDim walk isPacketFlow (op # ops) s =
     res_bind (chainWalk numAddrDim walk isPacketFlow ops s) (chainStep numAddrDim walk isPacketFlow op)"

text \<open>The chains that are left; here a failure counts.\<close>

fun buildChains :: "HalfDma list list \<Rightarrow> code \<Rightarrow> code result" where
  "buildChains [] cs = Inr cs"
| "buildChains (dmaOps # rest) cs =
     (case updateChainOperands dmaOps cs of (True, cs') \<Rightarrow> buildChains rest cs' | (False, cs') \<Rightarrow> Inl Failure)"

definition insertDmaBdChain :: "AMDAIEDeviceModel \<Rightarrow> map_order \<Rightarrow> (nat \<Rightarrow> bool option) \<Rightarrow> code \<Rightarrow> code result" where
  "insertDmaBdChain m walk isPacketFlow cs =
     res_bind (mk_DmaDimConfig False m 0) (\<lambda>cfg.
       res_bind (chainWalk (maxNbDims cfg) walk isPacketFlow cs (\<lparr>chainBds = [], chainOps = (\<lambda>_. []), chainsToBreak = []\<rparr>, cs))
         (\<lambda>(st, cs'). buildChains (map (\<lambda>(k, ids). rev (chainOps st k)) (walk (chainBds st))) cs'))"


section \<open>What the pass writes into the program\<close>

text \<open>Chains with the descriptor they start at, and the program in which their members are linked.\<close>

type_synonym chain_list = "(u32 option \<times> HalfDma list) list"

fun nextIn :: "nat \<Rightarrow> HalfDma list \<Rightarrow> u32 option" where
  "nextIn x (g # h # hs) = (if dmaId g = x then bdOf h else nextIn x (h # hs))"
| "nextIn x _ = None"

definition idsOf :: "HalfDma list \<Rightarrow> nat set" where
  "idsOf hs = dmaId ` set hs"

definition setChain :: "u32 option \<times> HalfDma list \<Rightarrow> HalfDma \<Rightarrow> HalfDma" where
  "setChain c h = h\<lparr>dmaToken := dmaToken h \<and> dmaId h = dmaId (last (snd c)), nextBd := nextIn (dmaId h) (snd c), startBd := fst c\<rparr>"

definition annotateDma :: "chain_list \<Rightarrow> HalfDma \<Rightarrow> HalfDma" where
  "annotateDma A h = (case find (\<lambda>c. dmaId h \<in> idsOf (snd c)) A of None \<Rightarrow> h | Some c \<Rightarrow> setChain c h)"

definition annotateOps :: "chain_list \<Rightarrow> code \<Rightarrow> code" where
  "annotateOps A cs = map (\<lambda>op. case op of HalfDmaOp h \<Rightarrow> HalfDmaOp (annotateDma A h) | _ \<Rightarrow> op) cs"

definition innerIds :: "chain_list \<Rightarrow> nat set" where
  "innerIds A = (\<Union>c \<in> set A. idsOf (butlast (snd c)))"

fun keepsWait :: "nat set \<Rightarrow> CtrlOp \<Rightarrow> bool" where
  "keepsWait I (DmaWaitOp w) \<longleftrightarrow> set (asyncTokens w) \<inter> I = {}"
| "keepsWait I _ \<longleftrightarrow> True"

definition annotate :: "chain_list \<Rightarrow> code \<Rightarrow> code" where
  "annotate A cs = annotateOps A (filter (keepsWait (innerIds A)) cs)"

lemma setChain_sel [simp]: "dmaId (setChain c h) = dmaId h" "lowered (setChain c h) = lowered h" "keyOf (setChain c h) = keyOf h"
    "bdOf (setChain c h) = bdOf h" "nextBd (setChain c h) = nextIn (dmaId h) (snd c)" "startBd (setChain c h) = fst c"
    "dmaScope (setChain c h) = dmaScope h" "repeatCount n (setChain c h) = repeatCount n h"
  by (simp_all add: setChain_def lowered_def keyOf_def bdOf_def repeatCount_def split: list.split)

lemma annotateDma_sel [simp]: "dmaId (annotateDma A h) = dmaId h" "lowered (annotateDma A h) = lowered h"
    "keyOf (annotateDma A h) = keyOf h" "bdOf (annotateDma A h) = bdOf h" "repeatCount n (annotateDma A h) = repeatCount n h"
  by (simp_all add: annotateDma_def split: option.split)

lemma annotateOps_simps [simp]: "annotateOps A [] = []" "annotateOps A (HalfDmaOp h # cs) = HalfDmaOp (annotateDma A h) # annotateOps A cs"
    "annotateOps A (DmaWaitOp w # cs) = DmaWaitOp w # annotateOps A cs" "annotateOps A (BarrierOp # cs) = BarrierOp # annotateOps A cs"
  by (simp_all add: annotateOps_def)

lemma annotate_nil [simp]: "annotate [] cs = cs"
proof -
  have "keepsWait {} op" for op by (cases op) auto
  moreover have "annotateDma [] h = h" for h by (simp add: annotateDma_def)
  ultimately show ?thesis by (simp add: annotate_def annotateOps_def innerIds_def) (auto intro!: map_idI split: CtrlOp.split)
qed

text \<open>Chains that share no copy.\<close>

definition apart :: "(u32 option \<times> HalfDma list) set \<Rightarrow> bool" where
  "apart C \<longleftrightarrow> (\<forall>c \<in> C. \<forall>d \<in> C. idsOf (snd c) \<inter> idsOf (snd d) \<noteq> {} \<longrightarrow> c = d)"

lemma annotate_in: "apart (set A) \<Longrightarrow> c \<in> set A \<Longrightarrow> dmaId h \<in> idsOf (snd c) \<Longrightarrow> annotateDma A h = setChain c h"
proof -
  assume a: "apart (set A)" "c \<in> set A" "dmaId h \<in> idsOf (snd c)"
  then obtain d where d: "find (\<lambda>c. dmaId h \<in> idsOf (snd c)) A = Some d"
    by (cases "find (\<lambda>c. dmaId h \<in> idsOf (snd c)) A") (auto dest: find_None_props)
  then have "d \<in> set A" "dmaId h \<in> idsOf (snd d)" using find_Some_props by fastforce+
  then have "d = c" using a by (auto simp: apart_def)
  then show ?thesis using d by (simp add: annotateDma_def)
qed

lemma annotate_out: "\<forall>c \<in> set A. dmaId h \<notin> idsOf (snd c) \<Longrightarrow> annotateDma A h = h"
proof -
  assume a: "\<forall>c \<in> set A. dmaId h \<notin> idsOf (snd c)"
  then have "find (\<lambda>c. dmaId h \<in> idsOf (snd c)) A = None" by (auto simp: find_None_iff)
  then show ?thesis by (simp add: annotateDma_def)
qed

lemma find_app: "find P (xs @ ys) = (case find P xs of None \<Rightarrow> find P ys | Some x \<Rightarrow> Some x)"
  by (induction xs) auto

lemma annotate_compose:
  assumes "\<forall>c \<in> set A. \<forall>d \<in> set B. idsOf (snd c) \<inter> idsOf (snd d) = {}"
  shows "annotate A (annotate B cs) = annotate (A @ B) cs"
proof -
  have 1: "annotateDma A (annotateDma B h) = annotateDma (A @ B) h" for h
  proof (cases "find (\<lambda>c. dmaId h \<in> idsOf (snd c)) A")
    case None
    then show ?thesis by (simp add: annotateDma_def find_app split: option.split)
  next
    case (Some c)
    then have "c \<in> set A" "dmaId h \<in> idsOf (snd c)" using find_Some_props by fastforce+
    then have "annotateDma B h = h" using assms by (intro annotate_out) blast
    then show ?thesis using Some by (simp add: annotateDma_def find_app)
  qed
  have 2: "filter (keepsWait I) (annotateOps B ds) = annotateOps B (filter (keepsWait I) ds)" for I ds
    by (induction ds) (auto simp: annotateOps_def split: CtrlOp.split)
  have "keepsWait (innerIds (A @ B)) op \<longleftrightarrow> keepsWait (innerIds A) op \<and> keepsWait (innerIds B) op" for op
    by (cases op) (auto simp: innerIds_def)
  then have 3: "keepsWait (innerIds (A @ B)) = (\<lambda>op. keepsWait (innerIds A) op \<and> keepsWait (innerIds B) op)" by blast
  have 4: "annotateOps A (annotateOps B ds) = annotateOps (A @ B) ds" for ds
    by (auto simp: annotateOps_def 1 split: CtrlOp.split)
  show ?thesis by (simp add: annotate_def 2 3 4 conj_commute)
qed

lemma chainDmas_annotates:
  assumes "ms \<noteq> []" and "\<forall>h \<in> set ms. dmaScope h = scope" and "distinct (map dmaId ms)"
  shows "chainDmas start scope ms cs = (True, annotate [(start, ms)] cs)"
  using assms
proof (induction start scope ms cs rule: chainDmas.induct)
  case (1 start scope g h hs cs)
  have "chainDmas start scope (g # h # hs) cs = (True, annotate [(start, h # hs)]
      (eraseUsers (dmaId g) (replaceDma (dmaId g) (\<lambda>p. p\<lparr>dmaToken := False, nextBd := bdOf h, startBd := start\<rparr>) cs)))"
    using 1 by simp
  also have "annotate [(start, h # hs)]
      (eraseUsers (dmaId g) (replaceDma (dmaId g) (\<lambda>p. p\<lparr>dmaToken := False, nextBd := bdOf h, startBd := start\<rparr>) cs))
      = annotate [(start, g # h # hs)] cs"
  proof (induction cs)
    case (Cons op cs)
    have d: "dmaId g \<notin> idsOf (h # hs)" "dmaId g \<noteq> dmaId (last (h # hs))" using 1(4) by (auto simp: idsOf_def)
    show ?case
    proof (cases op)
      case (HalfDmaOp p)
      have "annotateDma [(start, h # hs)] (if dmaId p = dmaId g then p\<lparr>dmaToken := False, nextBd := bdOf h, startBd := start\<rparr> else p)
          = annotateDma [(start, g # h # hs)] p"
        using d by (auto simp: annotateDma_def setChain_def idsOf_def)
      then show ?thesis using Cons by (simp add: HalfDmaOp annotate_def eraseUsers_def replaceDma_def)
    next
      case (DmaWaitOp w)
      then show ?thesis using Cons by (auto simp: annotate_def eraseUsers_def replaceDma_def innerIds_def idsOf_def)
    next
      case BarrierOp
      then show ?thesis using Cons by (simp add: annotate_def eraseUsers_def replaceDma_def)
    qed
  qed (simp add: annotate_def eraseUsers_def replaceDma_def)
  finally show ?case .
next
  case (2 start scope h cs)
  have "replaceDma (dmaId h) (\<lambda>p. p\<lparr>nextBd := None, startBd := start\<rparr>) cs = annotate [(start, [h])] cs"
  proof (induction cs)
    case (Cons op cs)
    then show ?case
      by (cases op) (auto simp: annotate_def replaceDma_def innerIds_def idsOf_def annotateDma_def setChain_def)
  qed (simp add: annotate_def replaceDma_def)
  then show ?case using 2 by simp
qed simp

lemma update_annotates:
  assumes "\<forall>h \<in> set ms. dmaScope h = scope" and "distinct (map dmaId ms)"
  shows "updateChainOperands ms cs = (True, annotate (if length ms < 2 then [] else [(bdOf (hd ms), ms)]) cs)"
proof (cases "length ms < 2")
  case False
  then have ms: "ms \<noteq> []" by auto
  then have "dmaScope (hd ms) = scope" using assms(1) by simp
  then show ?thesis using False chainDmas_annotates [OF ms assms] by (simp add: updateChainOperands_def)
qed (simp add: updateChainOperands_def)

section \<open>The walk keeps its chains coherent\<close>

text \<open>
  What the program must be like: fresh copies of one scope, whose descriptors belong to one queue each, and
  whose queues do not mix copies with and without repetition.
\<close>

definition chainable :: "u8 \<Rightarrow> HalfDma \<Rightarrow> bool" where
  "chainable n h \<longleftrightarrow> lowered h \<and> repeatCount n h \<le> 1"

definition freshDma :: "nat \<Rightarrow> HalfDma \<Rightarrow> bool" where
  "freshDma scope h \<longleftrightarrow> nextBd h = None \<and> startOf h = bdOf h \<and> keyOf h \<noteq> None \<and> dmaScope h = scope"

definition ownDescriptors :: "HalfDma list \<Rightarrow> bool" where
  "ownDescriptors hs \<longleftrightarrow> (\<forall>g \<in> set hs. \<forall>h \<in> set hs. \<forall>k l. keyOf g = Some k \<and> keyOf h = Some l \<and> fst k = fst l \<and> bdOf g = bdOf h \<longrightarrow> k = l)"

definition evenQueues :: "u8 \<Rightarrow> HalfDma list \<Rightarrow> bool" where
  "evenQueues n hs \<longleftrightarrow> (\<forall>g \<in> set hs. \<forall>h \<in> set hs. keyOf g = keyOf h \<longrightarrow> chainable n g = chainable n h)"

definition lowereds :: "code \<Rightarrow> HalfDma list" where
  "lowereds cs = filter lowered (dmasOf cs)"

definition chainReady :: "u8 \<Rightarrow> nat \<Rightarrow> code \<Rightarrow> bool" where
  "chainReady n scope cs \<longleftrightarrow> distinct (map dmaId (dmasOf cs)) \<and> list_all (\<lambda>h. dmaChannel h \<noteq> None) (dmasOf cs)
     \<and> list_all (freshDma scope) (lowereds cs)
     \<and> ownDescriptors (lowereds cs) \<and> evenQueues n (lowereds cs)"

text \<open>The chains at a point of the walk, in program order.\<close>

definition openChain :: "ChainState \<Rightarrow> dma_key \<Rightarrow> HalfDma list" where
  "openChain st k = rev (chainOps st k)"

definition openList :: "open_chains \<Rightarrow> ChainState \<Rightarrow> chain_list" where
  "openList opn st = map (\<lambda>k. (if opn k = [] then bdOf (hd (openChain st k)) else bdOf (hd (opn k)), openChain st k))
     (filter (\<lambda>k. opn k \<noteq> [] \<or> 2 \<le> length (openChain st k)) (map fst (chainBds st)))"

definition statesOk :: "u8 \<Rightarrow> code \<Rightarrow> ChainState \<Rightarrow> bool" where
  "statesOk n cs st \<longleftrightarrow> distinct (map fst (chainBds st)) \<and> distinct (chainsToBreak st)
     \<and> (\<forall>k. openChain st k \<noteq> [] \<longleftrightarrow> k \<in> fst ` set (chainBds st))
     \<and> (\<forall>(k, ids) \<in> set (chainBds st). Some ` set ids = bdOf ` set (openChain st k))
     \<and> (\<forall>k. distinct (map dmaId (openChain st k))
         \<and> (\<forall>h \<in> set (openChain st k). keyOf h = Some k \<and> h \<in> set (dmasOf cs) \<and> chainable n h))"

text \<open>Chains of the program before this point that the walk may still extend.\<close>

definition continues :: "code \<Rightarrow> ChainState \<Rightarrow> open_chains \<Rightarrow> bool" where
  "continues whole st opn \<longleftrightarrow> (\<forall>k. opn k \<noteq> [] \<longrightarrow>
     k \<in> fst ` set (chainBds st) \<and> k \<notin> set (chainsToBreak st) \<and> nextBd (last (opn k)) = bdOf (hd (openChain st k))
     \<and> bdOf ` set (opn k) \<inter> bdOf ` set (openChain st k) = {}
     \<and> (\<forall>m \<in> set (opn k). \<exists>g \<in> set (lowereds whole). keyOf g = Some k \<and> bdOf g = bdOf m))"

definition closedOk :: "code \<Rightarrow> chain_list \<Rightarrow> bool" where
  "closedOk cs K \<longleftrightarrow> (\<forall>c \<in> set K. distinct (map dmaId (snd c)) \<and> (\<forall>h \<in> set (snd c). h \<in> set (dmasOf cs) \<and> lowered h)) \<and> apart (set K)"

definition separate :: "chain_list \<Rightarrow> ChainState \<Rightarrow> bool" where
  "separate K st \<longleftrightarrow> (\<forall>c \<in> set K. \<forall>k. idsOf (snd c) \<inter> idsOf (openChain st k) = {})"

lemma openList_in:
  "c \<in> set (openList opn st) \<longleftrightarrow> (\<exists>k \<in> fst ` set (chainBds st). (opn k \<noteq> [] \<or> 2 \<le> length (openChain st k))
     \<and> c = (if opn k = [] then bdOf (hd (openChain st k)) else bdOf (hd (opn k)), openChain st k))"
  unfolding openList_def set_map set_filter image_iff [of c] mem_Collect_eq by blast

lemma openList_chain: "c \<in> set (openList opn st) \<Longrightarrow> \<exists>k. snd c = openChain st k"
  by (auto simp: openList_in)

lemma open_disjoint:
  assumes "statesOk n cs st" and "distinct (map dmaId (dmasOf cs))" and "idsOf (openChain st k) \<inter> idsOf (openChain st l) \<noteq> {}"
  shows "k = l"
proof -
  obtain g h where gh: "g \<in> set (openChain st k)" "h \<in> set (openChain st l)" "dmaId g = dmaId h"
    using assms(3) by (auto simp: idsOf_def)
  then have "g \<in> set (dmasOf cs)" "h \<in> set (dmasOf cs)" "keyOf g = Some k" "keyOf h = Some l"
    using assms(1) by (auto simp: statesOk_def)
  moreover from this gh(3) have "g = h" using assms(2) by (auto simp: distinct_map dest: inj_onD)
  ultimately show ?thesis by simp
qed

lemma apart_all:
  assumes "statesOk n cs st" and "distinct (map dmaId (dmasOf cs))" and "closedOk cs K" and "separate K st"
  shows "apart (set (K @ openList opn st))"
  unfolding apart_def
proof (intro ballI impI)
  fix c d assume c: "c \<in> set (K @ openList opn st)" and d: "d \<in> set (K @ openList opn st)" and i: "idsOf (snd c) \<inter> idsOf (snd d) \<noteq> {}"
  consider "c \<in> set K" "d \<in> set K" | "c \<in> set K" "d \<in> set (openList opn st)" | "c \<in> set (openList opn st)" "d \<in> set K"
    | "c \<in> set (openList opn st)" "d \<in> set (openList opn st)" using c d by auto
  then show "c = d"
  proof cases
    case 1
    then show ?thesis using assms(3) i by (auto simp: closedOk_def apart_def)
  next
    case 2
    then obtain k where "snd d = openChain st k" using openList_chain by blast
    then show ?thesis using assms(4) i 2 by (auto simp: separate_def)
  next
    case 3
    then obtain k where "snd c = openChain st k" using openList_chain by blast
    then show ?thesis using assms(4) i 3 by (auto simp: separate_def)
  next
    case 4
    then obtain k l where "c = (if opn k = [] then bdOf (hd (openChain st k)) else bdOf (hd (opn k)), openChain st k)"
        "d = (if opn l = [] then bdOf (hd (openChain st l)) else bdOf (hd (opn l)), openChain st l)"
      unfolding openList_in by blast
    moreover from this i have "k = l" using open_disjoint [OF assms(1,2)] by simp
    ultimately show ?thesis by simp
  qed
qed

text \<open>Two lists of chains that say the same of the copies of a program.\<close>

lemma annotate_agree:
  assumes "apart (set A)" and "apart (set B)" and "h \<in> set (dmasOf cs)"
    and "\<forall>c \<in> set A. dmaId h \<in> idsOf (snd c) \<longrightarrow> (\<exists>d \<in> set B. dmaId h \<in> idsOf (snd d) \<and> setChain c h = setChain d h)"
    and "\<forall>d \<in> set B. dmaId h \<in> idsOf (snd d) \<longrightarrow> (\<exists>c \<in> set A. dmaId h \<in> idsOf (snd c))"
  shows "annotateDma A h = annotateDma B h"
proof (cases "\<exists>c \<in> set A. dmaId h \<in> idsOf (snd c)")
  case True
  then obtain c d where "c \<in> set A" "dmaId h \<in> idsOf (snd c)" "d \<in> set B" "dmaId h \<in> idsOf (snd d)" "setChain c h = setChain d h"
    using assms(4) by blast
  then show ?thesis using annotate_in [OF assms(1)] annotate_in [OF assms(2)] by simp
next
  case False
  then show ?thesis using annotate_out [of A h] annotate_out [of B h] assms(5) by auto
qed

lemma annotateOps_agree: "(\<And>h. h \<in> set (dmasOf cs) \<Longrightarrow> annotateDma A h = annotateDma B h) \<Longrightarrow> annotateOps A cs = annotateOps B cs"
proof (induction cs)
  case (Cons op cs)
  then show ?case by (cases op) auto
qed simp

lemma coherent_kept: "coherent closing opn (annotateOps A (filter (keepsWait I) cs)) = coherent closing opn (annotateOps A cs)"
proof (induction cs arbitrary: opn)
  case (Cons op cs)
  show ?case
  proof (cases op)
    case (DmaWaitOp w)
    then show ?thesis using Cons.IH by simp
  next
    case (HalfDmaOp h)
    then show ?thesis by (cases "lowered h") (simp_all add: Cons.IH fun_upd_def split del: if_split)
  qed (simp add: Cons.IH)
qed simp

lemma coherent_waits: "coherent closing opn (annotate A cs) = coherent closing opn (annotateOps A cs)"
  by (simp add: annotate_def coherent_kept)

text \<open>Breaking chains links what they hold.\<close>

definition brokenList :: "ChainState \<Rightarrow> dma_key set \<Rightarrow> (u32 option \<times> HalfDma list) set" where
  "brokenList st T = {(bdOf (hd (openChain st k)), openChain st k) |k. k \<in> T \<and> 2 \<le> length (openChain st k)}"

definition broken :: "dma_key set \<Rightarrow> ChainState \<Rightarrow> ChainState" where
  "broken T st = st\<lparr>chainBds := filter (\<lambda>e. fst e \<notin> T) (chainBds st), chainOps := (\<lambda>k. if k \<in> T then [] else chainOps st k)\<rparr>"

lemma openChain_broken [simp]: "openChain (broken T st) k = (if k \<in> T then [] else openChain st k)"
  by (simp add: openChain_def broken_def)

lemma chainBds_broken [simp]: "chainBds (broken T st) = filter (\<lambda>e. fst e \<notin> T) (chainBds st)"
    "chainsToBreak (broken T st) = chainsToBreak st"
  by (simp_all add: broken_def)

lemma fold_break:
  assumes "\<forall>k. distinct (map dmaId (openChain st k)) \<and> (\<forall>h \<in> set (openChain st k). dmaScope h = scope)"
    and "\<forall>k l. k \<noteq> l \<longrightarrow> idsOf (openChain st k) \<inter> idsOf (openChain st l) = {}"
  shows "\<exists>K. fold breakChain T (st, c) = (broken (set T) st, annotate K c) \<and> set K = brokenList st (set T)"
  using assms
proof (induction T arbitrary: st c)
  case Nil
  have "fold breakChain [] (st, c) = (broken (set []) st, annotate [] c) \<and> set [] = brokenList st (set [])"
    by (simp add: broken_def brokenList_def)
  then show ?case by blast
next
  case (Cons t T)
  let ?A = "if length (openChain st t) < 2 then [] else [(bdOf (hd (openChain st t)), openChain st t)]"
  let ?st = "broken {t} st"
  have b: "breakChain t (st, c) = (?st, annotate ?A c)"
    using update_annotates [of "openChain st t" scope c] Cons.prems(1)
    by (simp add: breakChain_def openChain_def broken_def fun_upd_def)
  have p: "\<forall>k. distinct (map dmaId (openChain ?st k)) \<and> (\<forall>h \<in> set (openChain ?st k). dmaScope h = scope)"
      "\<forall>k l. k \<noteq> l \<longrightarrow> idsOf (openChain ?st k) \<inter> idsOf (openChain ?st l) = {}"
    using Cons.prems by (auto simp: idsOf_def)
  obtain K where K: "fold breakChain T (?st, annotate ?A c) = (broken (set T) ?st, annotate K (annotate ?A c))" "set K = brokenList ?st (set T)"
    using Cons.IH [OF p, of "annotate ?A c"] by blast
  have "annotate K (annotate ?A c) = annotate (K @ ?A) c"
  proof (rule annotate_compose, intro ballI)
    fix x y assume x: "x \<in> set K" and y: "y \<in> set ?A"
    then obtain k where "k \<noteq> t" "snd x = openChain st k" using K(2) by (auto simp: brokenList_def split: if_splits)
    moreover have "snd y = openChain st t" using y by (auto split: if_splits)
    ultimately show "idsOf (snd x) \<inter> idsOf (snd y) = {}" using Cons.prems(2) by metis
  qed
  moreover have "broken (set T) ?st = broken (set (t # T)) st"
    by (rule ChainState.equality) (simp_all add: broken_def fun_eq_iff)
  moreover have "set (K @ ?A) = brokenList st (set (t # T))"
  proof -
    have "brokenList ?st (set T) = brokenList st (set T - {t})" unfolding brokenList_def by (rule Collect_cong) auto
    moreover have "set ?A = brokenList st {t}" by (auto simp: brokenList_def)
    moreover have "brokenList st M \<union> brokenList st N = brokenList st (M \<union> N)" for M N unfolding brokenList_def by blast
    ultimately show ?thesis using K(2) by (simp add: insert_absorb Un_commute)
  qed
  ultimately have "fold breakChain (t # T) (st, c) = (broken (set (t # T)) st, annotate (K @ ?A) c) \<and> set (K @ ?A) = brokenList st (set (t # T))"
    using b K(1) by simp
  then show ?case by blast
qed

lemma add_domain: "fst ` set (chainBds (addToChain k b h st)) = insert k (fst ` set (chainBds st))"
proof (cases "map_of (chainBds st) k")
  case (Some ids)
  then have "k \<in> fst ` set (chainBds st)" by (metis image_eqI fst_conv map_of_SomeD)
  moreover have "fst ` set (chainBds (addToChain k b h st)) = fst ` set (chainBds st)"
    using Some by (simp add: addToChain_def image_image)
  ultimately show ?thesis by blast
qed (simp add: addToChain_def)

lemma add_distinct: "distinct (map fst (chainBds st)) \<Longrightarrow> distinct (map fst (chainBds (addToChain k b h st)))"
proof (cases "map_of (chainBds st) k")
  case (Some ids)
  then show "distinct (map fst (chainBds st)) \<Longrightarrow> ?thesis" by (simp add: addToChain_def comp_def)
next
  case None
  then have "k \<notin> fst ` set (chainBds st)" by (simp add: map_of_eq_None_iff)
  then show "distinct (map fst (chainBds st)) \<Longrightarrow> ?thesis" using None by (simp add: addToChain_def)
qed

lemma openChain_add [simp]: "openChain (addToChain k b h st) l = (if l = k then h # openChain st k else openChain st l)"
  by (simp add: openChain_def addToChain_def)

lemma break_add [simp]: "chainsToBreak (addToChain k b h st) = chainsToBreak st"
  by (simp add: addToChain_def)

lemma openChain_unbroken [simp]: "openChain (st\<lparr>chainsToBreak := xs\<rparr>) l = openChain st l"
  by (simp add: openChain_def)

lemma add_ids:
  assumes "distinct (map fst (chainBds st))" and "(l, ids) \<in> set (chainBds (addToChain k b h st))"
  shows "if l = k then set ids = insert b (\<Union>(set ` {js. (k, js) \<in> set (chainBds st)})) else (l, ids) \<in> set (chainBds st)"
proof (cases "map_of (chainBds st) k")
  case None
  then have "k \<notin> fst ` set (chainBds st)" by (simp add: map_of_eq_None_iff)
  then show ?thesis using assms(2) None by (force simp: addToChain_def)
next
  case (Some js)
  then have "js' = js" if "(k, js') \<in> set (chainBds st)" for js' using assms(1) that by (simp add: map_of_eq_Some_iff)
  moreover have "(k, js) \<in> set (chainBds st)" using Some by (rule map_of_SomeD)
  ultimately have "{js. (k, js) \<in> set (chainBds st)} = {js}" by blast
  moreover obtain e where "e \<in> set (chainBds st)" "l = fst e" "ids = (if fst e = k then sv_insert b js else snd e)"
    using assms(2) Some by (auto simp: addToChain_def)
  ultimately show ?thesis by (cases e) auto
qed

lemma keyOf_bd: "keyOf g = Some k \<Longrightarrow> \<exists>b. bdOf g = Some b"
  by (auto simp: keyOf_def bdOf_def split: option.splits)

lemma states_chain:
  assumes st: "statesOk n cs st" and h: "keyOf h = Some k" "bdOf h = Some b" "chainable n h" and new: "dmaId h \<notin> dmaId ` set (dmasOf cs)"
  shows "statesOk n (HalfDmaOp h # cs) (addToChain k b h ((broken T st)\<lparr>chainsToBreak := []\<rparr>))"
    (is "statesOk n _ (addToChain k b h ?s)")
proof -
  have d: "distinct (map fst (chainBds st))" "\<And>l. openChain st l \<noteq> [] \<longleftrightarrow> l \<in> fst ` set (chainBds st)"
    "\<And>l ids. (l, ids) \<in> set (chainBds st) \<Longrightarrow> Some ` set ids = bdOf ` set (openChain st l)"
    "\<And>l. distinct (map dmaId (openChain st l))"
    "\<And>l g. g \<in> set (openChain st l) \<Longrightarrow> keyOf g = Some l \<and> g \<in> set (dmasOf cs) \<and> chainable n g"
    using st unfolding statesOk_def by blast+
  have ds: "distinct (map fst (chainBds ?s))" using d(1) by (simp add: distinct_map_filter)
  have dom: "fst ` set (chainBds ?s) = fst ` set (chainBds st) - T" by auto
  have "Some ` set ids = bdOf ` set (openChain (addToChain k b h ?s) l)" if "(l, ids) \<in> set (chainBds (addToChain k b h ?s))" for l ids
  proof (cases "l = k")
    case False
    then have "(l, ids) \<in> set (chainBds ?s)" using add_ids [OF ds that] by simp
    then show ?thesis using d(3) False by auto
  next
    case True
    have i: "set ids = insert b (\<Union>(set ` {js. (k, js) \<in> set (chainBds ?s)}))" using add_ids [OF ds that] True by simp
    have "Some ` (\<Union>(set ` {js. (k, js) \<in> set (chainBds ?s)})) = bdOf ` set (openChain ?s k)"
    proof (cases "k \<in> fst ` set (chainBds ?s)")
      case True
      then have "\<exists>js. (k, js) \<in> set (chainBds ?s)" by force
      moreover have "Some ` set js = bdOf ` set (openChain ?s k)" if "(k, js) \<in> set (chainBds ?s)" for js
        using d(3) [of k js] that by auto
      ultimately show ?thesis by (auto simp: image_UN)
    next
      case False
      then have "{js. (k, js) \<in> set (chainBds ?s)} = {}" by force
      moreover have "openChain ?s k = []" using False d(2) [of k] dom by auto
      ultimately show ?thesis by (simp only: image_empty Sup_empty list.set)
    qed
    then show ?thesis using i True h(2) by (simp add: image_insert)
  qed
  moreover have "distinct (map dmaId (h # openChain ?s k))" using d(4) [of k] d(5) [of _ k] new by auto
  moreover have "openChain (addToChain k b h ?s) l \<noteq> [] \<longleftrightarrow> l \<in> fst ` set (chainBds (addToChain k b h ?s))" for l
    using d(2) [of l] dom unfolding add_domain by auto
  moreover have "distinct (map dmaId (openChain (addToChain k b h ?s) l))
      \<and> (\<forall>g \<in> set (openChain (addToChain k b h ?s) l). keyOf g = Some l \<and> g \<in> set (dmasOf (HalfDmaOp h # cs)) \<and> chainable n g)" for l
  proof (cases "l = k")
    case True
    then show ?thesis using \<open>distinct (map dmaId (h # openChain ?s k))\<close> d(5) [of _ k] h by auto
  next
    case False
    then show ?thesis using d(4) [of l] d(5) [of _ l] by auto
  qed
  ultimately show ?thesis
    unfolding statesOk_def using add_distinct [OF ds] by (simp del: openChain_add) blast
qed


definition closing :: "u8 \<Rightarrow> (nat \<Rightarrow> bool option) \<Rightarrow> HalfDma \<Rightarrow> bool" where
  "closing n isPacketFlow h \<longleftrightarrow> (\<exists>k. keyOf h = Some k \<and> isPacketFlow (snd k) = Some True) \<and> repeatCount n h \<le> 1"

lemma closing_annotated [simp]: "closing n pf (annotateDma A h) = closing n pf h"
  by (simp add: closing_def)

definition walkInv :: "u8 \<Rightarrow> (nat \<Rightarrow> bool option) \<Rightarrow> code \<Rightarrow> code \<Rightarrow> ChainState \<Rightarrow> code \<Rightarrow> bool" where
  "walkInv n pf whole cs st c \<longleftrightarrow> statesOk n cs st \<and> (\<exists>K. c = annotate K whole \<and> closedOk cs K \<and> separate K st
     \<and> (\<forall>opn. continues whole st opn \<longrightarrow> coherent (closing n pf) opn (annotateOps (K @ openList opn st) cs)))"

lemma nextIn_cons: "dmaId g \<noteq> x \<Longrightarrow> ms \<noteq> [] \<Longrightarrow> nextIn x (g # ms) = nextIn x ms"
  by (cases ms) auto

lemma nextIn_hd: "nextIn (dmaId g) (g # ms) = (if ms = [] then None else bdOf (hd ms))"
  by (cases ms) auto

lemma openList_member:
  assumes "statesOk n cs st" and "opn k \<noteq> [] \<or> 2 \<le> length (openChain st k)" and "openChain st k \<noteq> []"
  shows "(if opn k = [] then bdOf (hd (openChain st k)) else bdOf (hd (opn k)), openChain st k) \<in> set (openList opn st)"
proof -
  have "k \<in> fst ` set (chainBds st)" using assms(1,3) unfolding statesOk_def by blast
  then show ?thesis using assms(2) unfolding openList_in by blast
qed

lemma openList_elim:
  assumes "x \<in> set (openList opn st)"
  obtains k where "k \<in> fst ` set (chainBds st)" and "opn k \<noteq> [] \<or> 2 \<le> length (openChain st k)" and "snd x = openChain st k"
  using assms unfolding openList_in by (metis snd_conv)

text \<open>The chains after a copy was added.\<close>

lemma walk_chain:
  assumes ready: "chainReady n scope whole" and whole: "whole = pre @ HalfDmaOp h # cs"
    and inv: "walkInv n pf whole cs st c"
    and h: "chainable n h" "keyOf h = Some k0" "bdOf h = Some b"
    and T: "set (chainsToBreak st) \<subseteq> set T" "closing n pf h \<Longrightarrow> fst ` set (chainBds st) - {k0} \<subseteq> set T"
      "k0 \<notin> set T \<Longrightarrow> Some b \<notin> bdOf ` set (openChain st k0)"
  obtains c' where "fold breakChain T (st, c) = (broken (set T) st, c')"
    and "walkInv n pf whole (HalfDmaOp h # cs) (addToChain k0 b h ((broken (set T) st)\<lparr>chainsToBreak := []\<rparr>)) c'"
proof -
  let ?st = "addToChain k0 b h ((broken (set T) st)\<lparr>chainsToBreak := []\<rparr>)"
  from inv obtain K where ok: "statesOk n cs st" and c: "c = annotate K whole" and K: "closedOk cs K" "separate K st"
    and coh: "\<And>opn. continues whole st opn \<Longrightarrow> coherent (closing n pf) opn (annotateOps (K @ openList opn st) cs)"
    unfolding walkInv_def by blast
  have ids: "distinct (map dmaId (dmasOf cs))" and new: "dmaId h \<notin> dmaId ` set (dmasOf cs)"
    using ready whole by (auto simp: chainReady_def)
  have mem: "keyOf g = Some k \<and> g \<in> set (dmasOf cs) \<and> chainable n g" if "g \<in> set (openChain st k)" for g k
    using ok that unfolding statesOk_def by blast
  have dom: "openChain st k \<noteq> [] \<longleftrightarrow> k \<in> fst ` set (chainBds st)" for k using ok unfolding statesOk_def by blast
  have low: "g \<in> set (lowereds whole)" if "g \<in> set (openChain st k)" for g k
    using mem [OF that] whole by (auto simp: lowereds_def chainable_def)
  have hlow: "h \<in> set (lowereds whole)" using h(1) whole by (auto simp: lowereds_def chainable_def)
  have hfresh: "nextBd h = None" "startOf h = bdOf h" using ready hlow by (auto simp: chainReady_def list_all_iff freshDma_def)
  have sc: "\<forall>k. distinct (map dmaId (openChain st k)) \<and> (\<forall>g \<in> set (openChain st k). dmaScope g = scope)"
  proof (intro allI conjI ballI)
    fix k show "distinct (map dmaId (openChain st k))" using ok unfolding statesOk_def by blast
    fix g assume "g \<in> set (openChain st k)"
    from low [OF this] show "dmaScope g = scope" using ready by (auto simp: chainReady_def list_all_iff freshDma_def)
  qed
  have dj: "\<forall>k l. k \<noteq> l \<longrightarrow> idsOf (openChain st k) \<inter> idsOf (openChain st l) = {}" using open_disjoint [OF ok ids] by blast
  obtain K' where K': "fold breakChain T (st, c) = (broken (set T) st, annotate K' c)" "set K' = brokenList st (set T)"
    using fold_break [OF sc dj, of T c] by blast
  have sub: "set (K' @ K) \<subseteq> set (K @ openList (\<lambda>_. []) st)"
  proof
    fix x assume "x \<in> set (K' @ K)"
    then consider "x \<in> set K" | k where "x = (bdOf (hd (openChain st k)), openChain st k)" "2 \<le> length (openChain st k)"
      using K'(2) by (auto simp: brokenList_def)
    then show "x \<in> set (K @ openList (\<lambda>_. []) st)"
    proof cases
      case 2
      then have "openChain st k \<noteq> []" by auto
      then show ?thesis using openList_member [OF ok, of "\<lambda>_. []" k] 2 by simp
    qed simp
  qed
  have cl: "closedOk cs (K' @ K)"
    unfolding closedOk_def
  proof
    show "apart (set (K' @ K))" using apart_all [OF ok ids K, of "\<lambda>_. []"] sub unfolding apart_def by blast
    show "\<forall>x \<in> set (K' @ K). distinct (map dmaId (snd x)) \<and> (\<forall>g \<in> set (snd x). g \<in> set (dmasOf cs) \<and> lowered g)"
      using K(1) K'(2) mem sc by (auto simp: closedOk_def brokenList_def chainable_def)
  qed
  have c': "annotate K' c = annotate (K' @ K) whole"
    unfolding c
  proof (rule annotate_compose, intro ballI)
    fix x y assume "x \<in> set K'" "y \<in> set K"
    then show "idsOf (snd x) \<inter> idsOf (snd y) = {}" using K(2) K'(2) by (fastforce simp: brokenList_def separate_def)
  qed
  have idcs: "x \<noteq> dmaId h" if xi: "x \<in> idsOf (openChain st k)" for x k
  proof -
    obtain g where g: "g \<in> set (openChain st k)" "x = dmaId g" using xi by (auto simp: idsOf_def)
    then have "g \<in> set (dmasOf cs)" using mem by blast
    then show ?thesis using new g(2) by (metis image_eqI)
  qed
  have sep: "separate (K' @ K) ?st"
    unfolding separate_def
  proof (intro ballI allI)
    fix x k assume x: "x \<in> set (K' @ K)"
    have xh: "dmaId h \<notin> idsOf (snd x)" using cl x new by (force simp: closedOk_def idsOf_def)
    have rest: "idsOf (snd x) \<inter> idsOf (openChain (broken (set T) st) k) = {}"
    proof (cases "x \<in> set K")
      case True
      then show ?thesis using K(2) by (auto simp: separate_def idsOf_def)
    next
      case False
      then obtain l where l: "l \<in> set T" "snd x = openChain st l" using x K'(2) by (auto simp: brokenList_def)
      show ?thesis
      proof (cases "k \<in> set T")
        case False
        then have "l \<noteq> k" using l(1) by auto
        then have "idsOf (openChain st l) \<inter> idsOf (openChain st k) = {}" by (rule dj [rule_format])
        then show ?thesis using l(2) False by simp
      qed (simp add: idsOf_def)
    qed
    have "idsOf (openChain ?st k) \<subseteq> insert (dmaId h) (idsOf (openChain (broken (set T) st) k))"
      by (cases "k = k0") (auto simp: idsOf_def simp del: openChain_broken)
    then show "idsOf (snd x) \<inter> idsOf (openChain ?st k) = {}" using xh rest by blast
  qed
  have ok': "statesOk n (HalfDmaOp h # cs) ?st" by (rule states_chain [OF ok h(2,3,1) new])
  have cl': "closedOk (HalfDmaOp h # cs) (K' @ K)" using cl by (auto simp: closedOk_def)
  have coh': "coherent (closing n pf) opn (annotateOps ((K' @ K) @ openList opn ?st) (HalfDmaOp h # cs))"
    if cont: "continues whole ?st opn" for opn
  proof -
    let ?Y = "if k0 \<in> set T then [] else openChain st k0" and ?A = "(K' @ K) @ openList opn ?st"
    let ?h = "annotateDma ?A h" and ?s = "if opn k0 = [] then bdOf h else bdOf (hd (opn k0))"
    have oc: "openChain ?st k = (if k = k0 then h # ?Y else if k \<in> set T then [] else openChain st k)" for k by simp
    have apA: "apart (set ?A)" by (rule apart_all [OF ok' _ cl' sep]) (use ids new in simp)
    have cd: "k \<in> fst ` set (chainBds ?st)" "nextBd (last (opn k)) = bdOf (hd (openChain ?st k))"
        "bdOf ` set (opn k) \<inter> bdOf ` set (openChain ?st k) = {}"
        "\<And>m. m \<in> set (opn k) \<Longrightarrow> \<exists>g \<in> set (lowereds whole). keyOf g = Some k \<and> bdOf g = bdOf m" if "opn k \<noteq> []" for k
      using cont that unfolding continues_def by blast+
    have cdom: "k \<in> fst ` set (chainBds st) \<and> k \<notin> set T" if "opn k \<noteq> []" "k \<noteq> k0" for k
      using cd(1) [OF that(1)] that(2) unfolding add_domain by auto
    have bdm: "\<exists>x. bdOf m = Some x" if mk: "m \<in> set (opn k)" for m k
    proof -
      obtain g where "keyOf g = Some k" "bdOf g = bdOf m" using cd(4) [of k m] mk by (cases "opn k = []") auto
      then show ?thesis using keyOf_bd [of g k] by simp
    qed
    obtain s where s: "?s = Some s" using h(3) bdm [of "hd (opn k0)" k0] by (cases "opn k0 = []") auto
    have hh: "nextBd ?h = (if ?Y = [] then None else bdOf (hd ?Y)) \<and> startOf ?h = ?s"
    proof (cases "opn k0 \<noteq> [] \<or> 2 \<le> length (openChain ?st k0)")
      case True
      have ne: "openChain ?st k0 \<noteq> []" and hd: "hd (openChain ?st k0) = h" by simp_all
      have "(?s, openChain ?st k0) \<in> set (openList opn ?st)"
        using openList_member [where n = n and opn = opn and k = k0, OF ok' True ne] unfolding hd .
      then have "(?s, openChain ?st k0) \<in> set ?A" unfolding set_append Un_iff by blast
      then have "?h = setChain (?s, openChain ?st k0) h" by (rule annotate_in [OF apA]) (simp add: oc idsOf_def)
      then show ?thesis using s by (simp add: oc nextIn_hd startOf_def del: openChain_add openChain_broken openChain_unbroken)
    next
      case False
      then have "opn k0 = []" "?Y = []" by (cases "openChain st k0"; auto simp: oc split: if_splits)+
      moreover have "?h = h"
      proof (rule annotate_out, intro ballI notI)
        fix x assume x: "x \<in> set ?A" and i: "dmaId h \<in> idsOf (snd x)"
        show False
        proof (cases "x \<in> set (K' @ K)")
          case True
          then show ?thesis using cl i new by (force simp: closedOk_def idsOf_def)
        next
          case False
          then have "x \<in> set (openList opn ?st)" using x unfolding set_append Un_iff by blast
          then obtain k where k: "snd x = openChain ?st k" "opn k \<noteq> [] \<or> 2 \<le> length (openChain ?st k)" by (rule openList_elim)
          have "k = k0" using i k(1) idcs by (fastforce simp: oc idsOf_def split: if_splits)
          then show ?thesis using k(2) \<open>\<not> (opn k0 \<noteq> [] \<or> 2 \<le> length (openChain ?st k0))\<close> by blast
        qed
      qed
      ultimately show ?thesis using hfresh by simp
    qed
    let ?O = "opn(k0 := if nextBd ?h = None then [] else opn k0 @ [?h])"
    have nY: "nextBd ?h = None \<longleftrightarrow> ?Y = []"
    proof (cases "?Y = []")
      case False
      then obtain g where "g \<in> set ?Y" "hd ?Y = g" by (metis hd_in_set)
      then have "\<exists>x. bdOf (hd ?Y) = Some x" using mem keyOf_bd by (auto split: if_splits)
      then show ?thesis using hh False by auto
    qed (use hh in simp)
    have hd1: "startOf ?h = (if opn k0 = [] then Some b else bdOf (hd (opn k0)))" using hh h(3) by simp
    have hd2: "opn k0 \<noteq> [] \<longrightarrow> nextBd (last (opn k0)) = Some b" using cd(2) [of k0] h(3) by (simp add: oc)
    have hd3: "\<forall>k. fst k = fst k0 \<longrightarrow> Some b \<notin> bdOf ` set (opn k)"
    proof (intro allI impI notI)
      fix k assume k: "fst k = fst k0" "Some b \<in> bdOf ` set (opn k)"
      then obtain m where m: "m \<in> set (opn k)" "bdOf m = Some b" by auto
      then obtain g where g: "g \<in> set (lowereds whole)" "keyOf g = Some k" "bdOf g = Some b" using cd(4) [of k m] by (cases "opn k = []") auto
      then have "k = k0" using ready hlow h k(1) unfolding chainReady_def ownDescriptors_def by metis
      then have "Some b \<in> bdOf ` set (openChain ?st k)" using h(3) by (simp add: oc)
      then show False using cd(3) [of k] m by (cases "opn k = []") auto
    qed
    have hd4: "closing n pf ?h \<longrightarrow> (\<forall>k. k \<noteq> k0 \<longrightarrow> opn k = [])"
    proof (intro impI allI)
      fix k assume "closing n pf ?h" and k: "k \<noteq> k0"
      then have sub: "fst ` set (chainBds st) - {k0} \<subseteq> set T" using T(2) by simp
      show "opn k = []"
      proof (rule ccontr)
        assume "opn k \<noteq> []"
        from cdom [OF this k] show False using sub k by blast
      qed
    qed
    have O: "continues whole st ?O"
      unfolding continues_def
    proof (intro allI impI)
      fix k assume Ok: "?O k \<noteq> []"
      show "k \<in> fst ` set (chainBds st) \<and> k \<notin> set (chainsToBreak st) \<and> nextBd (last (?O k)) = bdOf (hd (openChain st k))
        \<and> bdOf ` set (?O k) \<inter> bdOf ` set (openChain st k) = {}
        \<and> (\<forall>m \<in> set (?O k). \<exists>g \<in> set (lowereds whole). keyOf g = Some k \<and> bdOf g = bdOf m)"
      proof (cases "k = k0")
        case False
        then have "opn k \<noteq> []" "?O k = opn k" using Ok by auto
        then show ?thesis using cd [of k] cdom [of k] False T(1) by (auto simp: oc)
      next
        case True
        then have n: "nextBd ?h \<noteq> None" "?O k = opn k0 @ [?h]" using Ok by (auto split: if_splits)
        then have Y: "k0 \<notin> set T" "openChain st k0 \<noteq> []" "?Y = openChain st k0" using nY by (auto split: if_splits)
        have "bdOf ` set (opn k0) \<inter> bdOf ` set (openChain st k0) = {}" using cd(3) [of k0] Y(1) by (cases "opn k0 = []") (auto simp: oc)
        moreover have "Some b \<notin> bdOf ` set (openChain st k0)" using T(3) Y(1) .
        moreover have "\<forall>m \<in> set (opn k0). \<exists>g \<in> set (lowereds whole). keyOf g = Some k0 \<and> bdOf g = bdOf m"
          using cd(4) [of k0] by (cases "opn k0 = []") auto
        moreover have "\<exists>g \<in> set (lowereds whole). keyOf g = Some k0 \<and> bdOf g = bdOf ?h" using hlow h(2) by auto
        moreover have "nextBd ?h = bdOf (hd (openChain st k0))" using hh Y by simp
        moreover have "k0 \<in> fst ` set (chainBds st)" using Y(2) dom by blast
        ultimately show ?thesis using True n(2) T(1) Y(1) h(3) by auto
      qed
    qed
    have Ok0: "?O k0 = (if ?Y = [] then [] else opn k0 @ [?h])" using nY by simp
    have Oin: "x \<in> set (openList ?O st)"
      if "x = (if ?O k = [] then bdOf (hd (openChain st k)) else bdOf (hd (?O k)), openChain st k)" "?O k \<noteq> [] \<or> 2 \<le> length (openChain st k)"
        "openChain st k \<noteq> []" for x k
      using openList_member [where n = n and opn = ?O and k = k, OF ok that(2,3)] that(1) by simp
    have agree: "annotateOps ?A cs = annotateOps (K @ openList ?O st) cs"
    proof (rule annotateOps_agree, rule annotate_agree [OF apA apart_all [OF ok ids K]], assumption; intro ballI impI)
      fix g x assume g: "g \<in> set (dmasOf cs)" and x: "x \<in> set ?A" and i: "dmaId g \<in> idsOf (snd x)"
      have gh: "dmaId h \<noteq> dmaId g" using g new by auto
      show "\<exists>d \<in> set (K @ openList ?O st). dmaId g \<in> idsOf (snd d) \<and> setChain x g = setChain d g"
      proof -
        from x consider "x \<in> set K" | "x \<in> brokenList st (set T)" | "x \<in> set (openList opn ?st)" using K'(2) by auto
        then show ?thesis
        proof cases
          case 1
          then show ?thesis using i by auto
        next
          case 2
          then obtain k where k: "k \<in> set T" "2 \<le> length (openChain st k)" "x = (bdOf (hd (openChain st k)), openChain st k)"
            by (auto simp: brokenList_def)
          then have "?O k = []" using cdom [of k] Ok0 by (cases "k = k0") auto
          then have "x \<in> set (openList ?O st)" using k(2,3) by (intro Oin) auto
          then show ?thesis using i by auto
        next
          case 3
          then obtain k where k: "k \<in> fst ` set (chainBds ?st)" "opn k \<noteq> [] \<or> 2 \<le> length (openChain ?st k)"
              "x = (if opn k = [] then bdOf (hd (openChain ?st k)) else bdOf (hd (opn k)), openChain ?st k)"
            unfolding openList_in by blast
          show ?thesis
          proof (cases "k = k0")
            case False
            then have kT: "k \<notin> set T" using k(1) unfolding add_domain by auto
            then have oc': "openChain ?st k = openChain st k" "?O k = opn k" using False by (simp_all add: oc)
            have "openChain st k \<noteq> []" using k(1) False unfolding add_domain dom by auto
            then have "x \<in> set (openList ?O st)" using k(2,3) unfolding oc' by (intro Oin) (use oc'(2) in auto)
            then show ?thesis using i by auto
          next
            case True
            then have xs: "snd x = h # ?Y" "fst x = ?s" using k(3) by (simp_all add: oc)
            then have Y: "?Y \<noteq> []" using i gh by (auto simp: idsOf_def)
            then have Y': "?Y = openChain st k0" by (auto split: if_splits)
            let ?d = "(?s, openChain st k0)"
            have "?d \<in> set (openList ?O st)" by (rule Oin [where k = k0]) (use Ok0 Y Y' in auto)
            moreover have "dmaId g \<in> idsOf (snd ?d)" using i xs(1) gh Y' by (auto simp: idsOf_def)
            moreover have "setChain x g = setChain ?d g"
              using xs Y Y' nextIn_cons [OF gh, of "openChain st k0"] by (simp add: setChain_def)
            ultimately show ?thesis unfolding set_append by (intro bexI [of _ ?d] conjI UnI2)
          qed
        qed
      qed
    next
      fix g x assume g: "g \<in> set (dmasOf cs)" and x: "x \<in> set (K @ openList ?O st)" and i: "dmaId g \<in> idsOf (snd x)"
      show "\<exists>c \<in> set ?A. dmaId g \<in> idsOf (snd c)"
      proof (cases "x \<in> set K")
        case True
        then show ?thesis using i by auto
      next
        case False
        then have "x \<in> set (openList ?O st)" using x unfolding set_append Un_iff by blast
        then obtain k where k: "k \<in> fst ` set (chainBds st)" "?O k \<noteq> [] \<or> 2 \<le> length (openChain st k)" "snd x = openChain st k"
          by (rule openList_elim)
        have ne: "openChain st k \<noteq> []" using k(1) dom by blast
        show ?thesis
        proof (cases "k \<in> set T")
          case True
          then have "?O k = []" using cdom [of k] Ok0 by (cases "k = k0") auto
          then have "(bdOf (hd (openChain st k)), openChain st k) \<in> set ?A" using True k(2) K'(2) by (auto simp: brokenList_def)
          then show ?thesis using i k(3) by force
        next
          case kT: False
          have m: "opn k \<noteq> [] \<or> 2 \<le> length (openChain ?st k)" "openChain ?st k \<noteq> []" "set (openChain st k) \<subseteq> set (openChain ?st k)"
            using k(2) kT ne by (cases "k = k0"; cases "openChain st k"; auto simp: oc)+
          have "(if opn k = [] then bdOf (hd (openChain ?st k)) else bdOf (hd (opn k)), openChain ?st k) \<in> set (openList opn ?st)"
            using openList_member [where n = n and opn = opn and k = k, OF ok' m(1,2)] .
          then have "(if opn k = [] then bdOf (hd (openChain ?st k)) else bdOf (hd (opn k)), openChain ?st k) \<in> set ?A"
            unfolding set_append Un_iff by blast
          moreover have "idsOf (openChain st k) \<subseteq> idsOf (openChain ?st k)" unfolding idsOf_def using m(3) by (rule image_mono)
          then have "dmaId g \<in> idsOf (openChain ?st k)" using i k(3) by auto
          ultimately show ?thesis by (metis snd_conv)
        qed
      qed
    qed
    have "coherent (closing n pf) ?O (annotateOps ?A cs)" unfolding agree by (rule coh [OF O])
    then show ?thesis using h hd1 hd2 hd3 hd4 by (auto simp: chainable_def simp del: annotateOps_def)
  qed
  show thesis
    by (rule that [OF K'(1) [unfolded c']])
      (use ok' cl' sep coh' in \<open>unfold walkInv_def, blast\<close>)
qed


section \<open>The whole walk\<close>

lemma fresh_out:
  assumes "statesOk n cs st" and "closedOk cs K" and "dmaId h \<notin> dmaId ` set (dmasOf cs)"
  shows "annotateDma (K @ openList opn st) h = h"
proof (rule annotate_out, intro ballI notI)
  fix x assume x: "x \<in> set (K @ openList opn st)" and i: "dmaId h \<in> idsOf (snd x)"
  have "\<forall>g \<in> set (snd x). g \<in> set (dmasOf cs)"
  proof (cases "x \<in> set K")
    case True
    then show ?thesis using assms(2) by (auto simp: closedOk_def)
  next
    case False
    then have "x \<in> set (openList opn st)" using x unfolding set_append Un_iff by blast
    then obtain k where "snd x = openChain st k" by (rule openList_elim)
    then show ?thesis using assms(1) unfolding statesOk_def by auto
  qed
  then show False using i assms(3) by (auto simp: idsOf_def)
qed

lemma duplicates_broken:
  assumes ok: "statesOk n cs st" and walk: "\<And>xs. mset (walk xs) = mset xs" and k: "k \<notin> set (checkForChainsWithDuplicateBdId walk b k (chainBds st) br)"
  shows "Some b \<notin> bdOf ` set (openChain st k)"
proof
  assume b: "Some b \<in> bdOf ` set (openChain st k)"
  then have "openChain st k \<noteq> []" by auto
  then obtain ids where ids: "(k, ids) \<in> set (chainBds st)" using ok unfolding statesOk_def by force
  then have "Some ` set ids = bdOf ` set (openChain st k)" using ok unfolding statesOk_def by blast
  then have "b \<in> set ids" using b by auto
  moreover have "(k, ids) \<in> set (walk (chainBds st))" using ids walk by (metis set_mset_mset)
  ultimately obtain l js where "find (\<lambda>(l, ids). fst l = fst k \<and> b \<in> set ids) (walk (chainBds st)) = Some (l, js)"
    by (cases "find (\<lambda>(l, ids). fst l = fst k \<and> b \<in> set ids) (walk (chainBds st))") (auto dest: find_None_props)
  then show False using k by (auto simp: checkForChainsWithDuplicateBdId_def split: if_splits)
qed

lemma duplicates_more:
  "distinct br \<Longrightarrow> distinct (checkForChainsWithDuplicateBdId walk b k bds br)"
  "set br \<subseteq> set (checkForChainsWithDuplicateBdId walk b k bds br)"
  by (auto simp: checkForChainsWithDuplicateBdId_def split: option.splits if_splits)

lemma walk_step:
  assumes ready: "chainReady n scope whole" and whole: "whole = pre @ op # cs" and walk: "\<And>xs. mset (walk xs) = mset xs"
    and inv: "walkInv n pf whole cs st c"
  obtains st' c' where "chainStep n walk pf op (st, c) = Inr (st', c')" and "walkInv n pf whole (op # cs) st' c'"
proof -
  from inv obtain K where ok: "statesOk n cs st" and c: "c = annotate K whole" and K: "closedOk cs K" "separate K st"
    and coh: "\<And>opn. continues whole st opn \<Longrightarrow> coherent (closing n pf) opn (annotateOps (K @ openList opn st) cs)"
    unfolding walkInv_def by blast
  show thesis
  proof (cases op)
    case (DmaWaitOp w)
    have "walkInv n pf whole (op # cs) st c"
      unfolding walkInv_def using ok c K coh by (auto simp: DmaWaitOp statesOk_def closedOk_def)
    then show ?thesis using that by (simp add: chainStep_def DmaWaitOp)
  next
    case BarrierOp
    let ?st = "st\<lparr>chainsToBreak := sv_insert_all (map fst (walk (chainBds st))) (chainsToBreak st)\<rparr>"
    have all: "fst ` set (chainBds st) \<subseteq> set (chainsToBreak ?st)" using walk by (simp add: mset_eq_setD [OF walk])
    have none: "opn = (\<lambda>_. [])" if "continues whole ?st opn" for opn
    proof
      fix k show "opn k = []" using that all unfolding continues_def by (metis (no_types, lifting) ChainState.select_convs(1) ChainState.update_convs(3) ChainState.surjective subsetD)
    qed
    have same: "openChain ?st = openChain st" "chainBds ?st = chainBds st" by (simp_all add: fun_eq_iff)
    have "walkInv n pf whole (op # cs) ?st c"
      unfolding walkInv_def
    proof (intro conjI exI [of _ K] allI impI)
      show "statesOk n (op # cs) ?st" using ok unfolding statesOk_def same by (simp add: BarrierOp)
      show "closedOk (op # cs) K" "separate K ?st" using K by (auto simp: closedOk_def separate_def BarrierOp)
      fix opn assume "continues whole ?st opn"
      then have o: "opn = (\<lambda>_. [])" by (rule none)
      have "openList opn ?st = openList opn st" by (simp add: openList_def same)
      moreover have "continues whole st opn" using o by (simp add: continues_def)
      ultimately show "coherent (closing n pf) opn (annotateOps (K @ openList opn ?st) (op # cs))"
        using coh [of opn] o by (simp add: BarrierOp)
    qed (use c in simp)
    then show ?thesis using that by (simp add: chainStep_def BarrierOp)
  next
    case (HalfDmaOp h)
    have new: "dmaId h \<notin> dmaId ` set (dmasOf cs)" using ready whole HalfDmaOp by (auto simp: chainReady_def)
    have ch: "dmaChannel h \<noteq> None" using ready whole HalfDmaOp by (auto simp: chainReady_def)
    have kept: "statesOk n (op # cs) st" "closedOk (op # cs) K" using ok K(1) by (auto simp: statesOk_def closedOk_def HalfDmaOp)
    show ?thesis
    proof (cases "lowered h")
      case False
      have "walkInv n pf whole (op # cs) st c"
        unfolding walkInv_def using kept c K coh False by (auto simp: HalfDmaOp)
      moreover have "chainStep n walk pf op (st, c) = Inr (st, c)"
        using False ch by (auto simp: chainStep_def HalfDmaOp lowered_def)
      ultimately show ?thesis using that by blast
    next
      case True
      then have hl: "h \<in> set (lowereds whole)" using whole HalfDmaOp by (simp add: lowereds_def)
      then have fresh: "nextBd h = None" "startOf h = bdOf h" "keyOf h \<noteq> None"
        using ready by (auto simp: chainReady_def list_all_iff freshDma_def)
      then obtain t cn b where key: "dmaBd h = Some (Some t, b)" "dmaConnection h = Some cn"
        by (auto simp: keyOf_def split: option.splits)
      then have kb: "keyOf h = Some (t, cn)" "bdOf h = Some b" by (simp_all add: keyOf_def bdOf_def)
      have low: "dmaMemorySpace h = 0" "dmaChannel h = Some DMA" using True by (auto simp: lowered_def)
      show ?thesis
      proof (cases "repeatCount n h > 1")
        case rep: True
        have nochain: "(t, cn) \<notin> fst ` set (chainBds st)"
        proof
          assume "(t, cn) \<in> fst ` set (chainBds st)"
          then have "openChain st (t, cn) \<noteq> []" using ok unfolding statesOk_def by blast
          then obtain g where "g \<in> set (openChain st (t, cn))" by (meson last_in_set)
          then have g: "keyOf g = Some (t, cn)" "g \<in> set (dmasOf cs)" "chainable n g" using ok unfolding statesOk_def by auto
          then have "g \<in> set (lowereds whole)" using whole HalfDmaOp by (auto simp: lowereds_def chainable_def)
          then have "chainable n h" using ready hl g(1,3) kb(1) unfolding chainReady_def evenQueues_def by metis
          then show False using rep by (simp add: chainable_def)
        qed
        have "coherent (closing n pf) opn (annotateOps (K @ openList opn st) (op # cs))" if cont: "continues whole st opn" for opn
        proof -
          have o: "opn (t, cn) = []" using cont nochain unfolding continues_def by blast
          have free: "Some b \<notin> bdOf ` set (opn k)" if k: "fst k = t" for k
          proof
            assume "Some b \<in> bdOf ` set (opn k)"
            then obtain m where m: "m \<in> set (opn k)" "bdOf m = Some b" by auto
            then have "opn k \<noteq> []" by auto
            then obtain g where g: "g \<in> set (lowereds whole)" "keyOf g = Some k" "bdOf g = Some b"
              using cont m unfolding continues_def by metis
            have "k = (t, cn)"
              using ready hl g kb k unfolding chainReady_def ownDescriptors_def by (metis fst_conv)
            then show False using o m by simp
          qed
          have "opn((t, cn) := []) = opn" using o by auto
          then show ?thesis using coh [OF cont] True kb fresh o free rep fresh_out [OF ok K(1) new]
            by (auto simp: HalfDmaOp closing_def)
        qed
        then have "walkInv n pf whole (op # cs) st c" unfolding walkInv_def using kept c K by blast
        moreover have "chainStep n walk pf op (st, c) = Inr (st, c)" using rep low key by (simp add: chainStep_def HalfDmaOp)
        ultimately show ?thesis using that by blast
      next
        case rep: False
        then have chn: "chainable n h" using True by (simp add: chainable_def)
        let ?B = "if pf cn = Some True
          then sv_insert_all (filter (\<lambda>k. k \<noteq> (t, cn)) (map fst (walk (chainBds st)))) (chainsToBreak st) else chainsToBreak st"
        let ?T = "checkForChainsWithDuplicateBdId walk b (t, cn) (chainBds st) ?B"
        have T1: "set ?B \<subseteq> set ?T" by (rule duplicates_more)
        have "set (chainsToBreak st) \<subseteq> set ?B" by auto
        then have T0: "set (chainsToBreak st) \<subseteq> set ?T" using T1 by blast
        have T2: "fst ` set (chainBds st) - {(t, cn)} \<subseteq> set ?T" if "closing n pf h"
        proof -
          have "pf cn = Some True" using that kb(1) by (auto simp: closing_def)
          then have "fst ` set (chainBds st) - {(t, cn)} \<subseteq> set ?B" by (auto simp: mset_eq_setD [OF walk] image_iff)
          then show ?thesis using T1 by blast
        qed
        have T3: "Some b \<notin> bdOf ` set (openChain st (t, cn))" if "(t, cn) \<notin> set ?T" using duplicates_broken [OF ok walk that] .
        obtain c' where c': "fold breakChain ?T (st, c) = (broken (set ?T) st, c')"
            "walkInv n pf whole (HalfDmaOp h # cs) (addToChain (t, cn) b h ((broken (set ?T) st)\<lparr>chainsToBreak := []\<rparr>)) c'"
          using walk_chain [OF ready whole [unfolded HalfDmaOp] inv chn kb T0 T2 T3] by blast
        have "chainStep n walk pf op (st, c) = Inr (addToChain (t, cn) b h ((broken (set ?T) st)\<lparr>chainsToBreak := []\<rparr>), c')"
          using c'(1) rep low key by (simp add: chainStep_def HalfDmaOp Let_def)
        then show ?thesis using c'(2) that HalfDmaOp by blast
      qed
    qed
  qed
qed

lemma whole_walk:
  assumes ready: "chainReady n scope whole" and walk: "\<And>xs. mset (walk xs) = mset xs" and "whole = pre @ cs"
  shows "\<exists>st c. chainWalk n walk pf cs (\<lparr>chainBds = [], chainOps = (\<lambda>_. []), chainsToBreak = []\<rparr>, whole) = Inr (st, c)
    \<and> walkInv n pf whole cs st c"
  using assms(3)
proof (induction cs arbitrary: pre)
  case Nil
  let ?st = "\<lparr>chainBds = [], chainOps = (\<lambda>_. []), chainsToBreak = []\<rparr> :: ChainState"
  have "walkInv n pf whole [] ?st whole"
    unfolding walkInv_def
  proof (intro conjI exI [of _ "[]"] allI impI)
    show "statesOk n [] ?st" by (simp add: statesOk_def openChain_def)
    fix opn assume "continues whole ?st opn"
    then have "opn k = []" for k unfolding continues_def by force
    then show "coherent (closing n pf) opn (annotateOps ([] @ openList opn ?st) [])" by simp
  qed (auto simp: closedOk_def separate_def apart_def)
  then show ?case by auto
next
  case (Cons op cs)
  then obtain st c where st: "chainWalk n walk pf cs (\<lparr>chainBds = [], chainOps = (\<lambda>_. []), chainsToBreak = []\<rparr>, whole) = Inr (st, c)"
      "walkInv n pf whole cs st c" by (metis append.assoc append_Cons append_Nil)
  obtain st' c' where "chainStep n walk pf op (st, c) = Inr (st', c')" "walkInv n pf whole (op # cs) st' c'"
    using walk_step [OF ready Cons.prems walk st(2)] by blast
  then show ?case using st(1) by simp
qed

lemma build_chains:
  assumes "\<forall>k. distinct (map dmaId (openChain st k)) \<and> (\<forall>h \<in> set (openChain st k). dmaScope h = scope)"
    and "\<forall>k l. k \<noteq> l \<longrightarrow> idsOf (openChain st k) \<inter> idsOf (openChain st l) = {}" and "distinct ks"
  shows "\<exists>K. buildChains (map (openChain st) ks) c = Inr (annotate K c) \<and> set K = brokenList st (set ks)"
  using assms(3)
proof (induction ks arbitrary: c)
  case Nil
  have "buildChains (map (openChain st) []) c = Inr (annotate [] c) \<and> set [] = brokenList st (set [])" by (simp add: brokenList_def)
  then show ?case by blast
next
  case (Cons k ks)
  let ?A = "if length (openChain st k) < 2 then [] else [(bdOf (hd (openChain st k)), openChain st k)]"
  have u: "updateChainOperands (openChain st k) c = (True, annotate ?A c)"
    using assms(1) update_annotates [of "openChain st k" scope c] by blast
  have d: "distinct ks" "k \<notin> set ks" using Cons.prems by simp_all
  from Cons.IH [OF d(1), of "annotate ?A c"] obtain K
    where K: "buildChains (map (openChain st) ks) (annotate ?A c) = Inr (annotate K (annotate ?A c))" "set K = brokenList st (set ks)" by blast
  have "annotate K (annotate ?A c) = annotate (K @ ?A) c"
  proof (rule annotate_compose, intro ballI)
    fix x y assume x: "x \<in> set K" and y: "y \<in> set ?A"
    then obtain l where l: "l \<in> set ks" "snd x = openChain st l" using K(2) by (auto simp: brokenList_def)
    then have "l \<noteq> k" using d(2) by auto
    moreover have "snd y = openChain st k" using y by (auto split: if_splits)
    ultimately show "idsOf (snd x) \<inter> idsOf (snd y) = {}" using assms(2) l(2) by metis
  qed
  moreover have "set (K @ ?A) = brokenList st (set (k # ks))"
  proof -
    have "set ?A = brokenList st {k}" by (auto simp: brokenList_def)
    moreover have "brokenList st M \<union> brokenList st N = brokenList st (M \<union> N)" for M N unfolding brokenList_def by blast
    ultimately show ?thesis using K(2) by simp
  qed
  ultimately have "buildChains (map (openChain st) (k # ks)) c = Inr (annotate (K @ ?A) c) \<and> set (K @ ?A) = brokenList st (set (k # ks))"
    using u K(1) by simp
  then show ?case by blast
qed

text \<open>The result: the program with chains that do not share copies, and coherent.\<close>

lemma chains_inserted:
  assumes cfg: "mk_DmaDimConfig False m 0 = Inr cfg" and ready: "chainReady (maxNbDims cfg) scope whole"
    and walk: "\<And>xs. mset (walk xs) = mset xs"
  obtains A where "insertDmaBdChain m walk pf whole = Inr (annotate A whole)" and "apart (set A)"
    and "\<And>x. x \<in> set A \<Longrightarrow> distinct (map dmaId (snd x)) \<and> (\<forall>h \<in> set (snd x). h \<in> set (lowereds whole))"
    and "coherent (closing (maxNbDims cfg) pf) (\<lambda>_. []) (annotate A whole)"
proof -
  let ?n = "maxNbDims cfg"
  from whole_walk [OF ready walk, of "[]" whole pf] obtain st c
    where w: "chainWalk ?n walk pf whole (\<lparr>chainBds = [], chainOps = (\<lambda>_. []), chainsToBreak = []\<rparr>, whole) = Inr (st, c)"
      and inv: "walkInv ?n pf whole whole st c" by auto
  from inv obtain K where ok: "statesOk ?n whole st" and c: "c = annotate K whole" and K: "closedOk whole K" "separate K st"
    and coh: "\<And>opn. continues whole st opn \<Longrightarrow> coherent (closing ?n pf) opn (annotateOps (K @ openList opn st) whole)"
    unfolding walkInv_def by blast
  have ids: "distinct (map dmaId (dmasOf whole))" using ready by (simp add: chainReady_def)
  have mem: "keyOf g = Some k \<and> g \<in> set (dmasOf whole) \<and> chainable ?n g" if "g \<in> set (openChain st k)" for g k
    using ok that unfolding statesOk_def by blast
  have sc: "\<forall>k. distinct (map dmaId (openChain st k)) \<and> (\<forall>g \<in> set (openChain st k). dmaScope g = scope)"
  proof (intro allI conjI ballI)
    fix k show "distinct (map dmaId (openChain st k))" using ok unfolding statesOk_def by blast
    fix g assume "g \<in> set (openChain st k)"
    from mem [OF this] show "dmaScope g = scope"
      using ready by (auto simp: chainReady_def list_all_iff freshDma_def lowereds_def chainable_def)
  qed
  have dj: "\<forall>k l. k \<noteq> l \<longrightarrow> idsOf (openChain st k) \<inter> idsOf (openChain st l) = {}" using open_disjoint [OF ok ids] by blast
  let ?ks = "map fst (walk (chainBds st))"
  have ks: "set ?ks = fst ` set (chainBds st)" using mset_eq_setD [OF walk] by simp
  have "mset ?ks = mset (map fst (chainBds st))" by (simp add: walk)
  moreover have "distinct (map fst (chainBds st))" using ok unfolding statesOk_def by blast
  ultimately have dk: "distinct ?ks" by (metis mset_eq_imp_distinct_iff)
  obtain K' where K': "buildChains (map (openChain st) ?ks) c = Inr (annotate K' c)" "set K' = brokenList st (set ?ks)"
    using build_chains [OF sc dj dk, of c] by blast
  have opn: "openList (\<lambda>_. []) st = map (\<lambda>k. (bdOf (hd (openChain st k)), openChain st k)) (filter (\<lambda>k. 2 \<le> length (openChain st k)) (map fst (chainBds st)))"
    by (simp add: openList_def)
  have sets: "set (K' @ K) = set (K @ openList (\<lambda>_. []) st)"
    unfolding opn set_append K'(2) ks brokenList_def by auto
  have ap: "apart (set (K' @ K))" unfolding sets by (rule apart_all [OF ok ids K])
  have c': "annotate K' c = annotate (K' @ K) whole"
    unfolding c
  proof (rule annotate_compose, intro ballI)
    fix x y assume "x \<in> set K'" "y \<in> set K"
    then show "idsOf (snd x) \<inter> idsOf (snd y) = {}" using K(2) K'(2) by (fastforce simp: brokenList_def separate_def)
  qed
  have members: "distinct (map dmaId (snd x)) \<and> (\<forall>h \<in> set (snd x). h \<in> set (lowereds whole))" if "x \<in> set (K' @ K)" for x
    using that K(1) K'(2) sc mem by (auto simp: closedOk_def brokenList_def lowereds_def chainable_def)
  have "annotateOps (K' @ K) whole = annotateOps (K @ openList (\<lambda>_. []) st) whole"
  proof (rule annotateOps_agree)
    fix h
    show "annotateDma (K' @ K) h = annotateDma (K @ openList (\<lambda>_. []) st) h"
      using annotate_in [OF ap, of _ h] annotate_in [OF ap [unfolded sets], of _ h] annotate_out [of _ h] sets by metis
  qed
  moreover have "continues whole st (\<lambda>_. [])" by (simp add: continues_def)
  ultimately have "coherent (closing ?n pf) (\<lambda>_. []) (annotate (K' @ K) whole)" using coh by (simp add: coherent_waits)
  moreover have "insertDmaBdChain m walk pf whole = Inr (annotate (K' @ K) whole)"
    using cfg w K'(1) c' by (simp add: insertDmaBdChain_def openChain_def [abs_def] comp_def case_prod_beta' )
  ultimately show thesis using that [OF _ ap members] by blast
qed

section \<open>What the chains do\<close>

lemma fresh_coherent:
  assumes "list_all (freshDma scope) (lowereds cs)" shows "coherent (\<lambda>_. False) (\<lambda>_. []) cs"
  using assms
proof (induction cs)
  case (Cons op cs)
  show ?case
  proof (cases op)
    case (HalfDmaOp h)
    show ?thesis
    proof (cases "lowered h")
      case True
      then obtain k where f: "nextBd h = None" "startOf h = bdOf h" "keyOf h = Some k" and rest: "coherent (\<lambda>_. False) (\<lambda>_. []) cs"
        using Cons HalfDmaOp by (auto simp: lowereds_def freshDma_def)
      moreover obtain b where "bdOf h = Some b" using keyOf_bd [OF f(3)] by blast
      moreover have "(\<lambda>_. [])(k := []) = (\<lambda>_. [] :: HalfDma list)" by (simp add: fun_eq_iff)
      ultimately show ?thesis using True by (simp add: HalfDmaOp)
    next
      case False
      then show ?thesis using Cons HalfDmaOp by (simp add: lowereds_def)
    qed
  qed (use Cons in \<open>simp_all add: lowereds_def\<close>)
qed simp

lemma copies_annotated: "copiesOf P (annotate A cs) = copiesOf P cs"
proof -
  have "copiesOf P (annotateOps A (filter (keepsWait I) cs)) = copiesOf P cs" for I
  proof (induction cs)
    case (Cons op cs)
    then show ?case by (cases op) auto
  qed simp
  then show ?thesis by (simp add: annotate_def)
qed

lemma annotate_shorter: "length (annotate A cs) \<le> length cs"
  by (simp add: annotate_def annotateOps_def)

lemma lowereds_annotated:
  assumes "g \<in> set (dmasOf (annotate A cs))" obtains h where "h \<in> set (dmasOf cs)" and "g = annotateDma A h"
proof -
  have "set (dmasOf (annotateOps A (filter (keepsWait I) cs))) \<subseteq> annotateDma A ` set (dmasOf cs)" for I
  proof (induction cs)
    case (Cons op cs)
    then show ?case by (cases op) auto
  qed simp
  then show thesis using assms that by (auto simp: annotate_def)
qed

lemma coherent_pushes: "coherent cl (\<lambda>_. []) cs \<Longrightarrow> length cs \<le> n \<Longrightarrow> pushes n cs (\<lambda>_. None) = Some (chainPushes (\<lambda>_. []) cs)"
  by (rule pushes_coherent) (simp_all add: written_def)



lemma dmas_annotated: "dmasOf (annotate A cs) = map (annotateDma A) (dmasOf cs)"
proof -
  have "dmasOf (annotateOps A (filter (keepsWait I) cs)) = map (annotateDma A) (dmasOf cs)" for I
  proof (induction cs)
    case (Cons op cs)
    then show ?case by (cases op) auto
  qed simp
  then show ?thesis by (simp add: annotate_def)
qed

lemma nextIn_None:
  assumes "distinct (map dmaId ms)" and "\<forall>h \<in> set ms. bdOf h \<noteq> None"
  shows "nextIn x ms = None \<longleftrightarrow> x \<notin> idsOf (butlast ms)"
  using assms by (induction x ms rule: nextIn.induct) (auto simp: idsOf_def)

lemma wait_annotated: "DmaWaitOp w \<in> set (annotate A cs) \<longleftrightarrow> DmaWaitOp w \<in> set cs \<and> set (asyncTokens w) \<inter> innerIds A = {}"
proof -
  have "DmaWaitOp w \<in> set (annotateOps A xs) \<longleftrightarrow> DmaWaitOp w \<in> set xs" for xs
  proof (induction xs)
    case (Cons op xs)
    then show ?case by (cases op) simp_all
  qed simp
  then show ?thesis unfolding annotate_def set_filter by simp
qed

text \<open>
  C25. The waits that are left are exactly the waits of the program before that name no copy with a next
  descriptor, and a copy at the end of its chain has the token it had before: no wait names a copy that
  issues no token any more, and none is lost whose copies all push.
\<close>

theorem waits_of_tails:
  assumes "mk_DmaDimConfig False m 0 = Inr cfg" and "chainReady (maxNbDims cfg) scope cs" and "\<And>xs. mset (walk xs) = mset xs"
  shows "\<exists>cs'. insertDmaBdChain m walk pf cs = Inr cs'
    \<and> (\<forall>w. DmaWaitOp w \<in> set cs' \<longleftrightarrow> DmaWaitOp w \<in> set cs
        \<and> (\<forall>h \<in> set (lowereds cs'). dmaId h \<in> set (asyncTokens w) \<longrightarrow> nextBd h = None))
    \<and> list_all2 (\<lambda>h h'. dmaId h' = dmaId h \<and> (dmaToken h' \<longleftrightarrow> dmaToken h \<and> nextBd h' = None)) (lowereds cs) (lowereds cs')"
proof -
  obtain A where A: "insertDmaBdChain m walk pf cs = Inr (annotate A cs)" "apart (set A)"
    and mem: "\<And>x. x \<in> set A \<Longrightarrow> distinct (map dmaId (snd x)) \<and> (\<forall>h \<in> set (snd x). h \<in> set (lowereds cs))"
    by (rule chains_inserted [OF assms, of pf]) blast
  have fresh: "freshDma scope h" if "h \<in> set (lowereds cs)" for h
    using assms(2) that unfolding chainReady_def list_all_iff by blast
  have nx: "nextBd h = None" if "h \<in> set (lowereds cs)" for h using fresh [OF that] by (simp add: freshDma_def)
  have bd: "bdOf h \<noteq> None" if h: "h \<in> set (lowereds cs)" for h
  proof -
    obtain k where "keyOf h = Some k" using fresh [OF h] by (auto simp: freshDma_def)
    then show ?thesis using keyOf_bd by fastforce
  qed
  have inner: "nextBd (annotateDma A h) = None \<longleftrightarrow> dmaId h \<notin> innerIds A"
    and tok: "dmaToken (annotateDma A h) \<longleftrightarrow> dmaToken h \<and> nextBd (annotateDma A h) = None" if h: "h \<in> set (lowereds cs)" for h
  proof -
    have "(nextBd (annotateDma A h) = None \<longleftrightarrow> dmaId h \<notin> innerIds A)
      \<and> (dmaToken (annotateDma A h) \<longleftrightarrow> dmaToken h \<and> nextBd (annotateDma A h) = None)"
    proof (cases "\<exists>c \<in> set A. dmaId h \<in> idsOf (snd c)")
      case True
      then obtain c where c: "c \<in> set A" "dmaId h \<in> idsOf (snd c)" by blast
      have n: "nextIn (dmaId h) (snd c) = None \<longleftrightarrow> dmaId h \<notin> idsOf (butlast (snd c))"
        using mem [OF c(1)] bd by (intro nextIn_None) auto
      have "d = c" if "d \<in> set A" "dmaId h \<in> idsOf (butlast (snd d))" for d
        using A(2) c that unfolding apart_def idsOf_def by (metis (no_types, lifting) IntI empty_iff image_iff in_set_butlastD)
      then have i: "dmaId h \<in> innerIds A \<longleftrightarrow> dmaId h \<in> idsOf (butlast (snd c))" using c(1) by (auto simp: innerIds_def)
      have ne: "snd c \<noteq> []" using c(2) by (auto simp: idsOf_def)
      then have "idsOf (snd c) = insert (dmaId (last (snd c))) (idsOf (butlast (snd c)))"
        by (metis (no_types, lifting) append_butlast_last_id idsOf_def image_insert list.simps(15) rotate1.simps(2) set_rotate1)
      moreover have "dmaId (last (snd c)) \<notin> idsOf (butlast (snd c))"
      proof -
        have "distinct (map dmaId (butlast (snd c) @ [last (snd c)]))" using mem [OF c(1)] ne by simp
        then show ?thesis by (auto simp: idsOf_def)
      qed
      ultimately have "dmaId h = dmaId (last (snd c)) \<longleftrightarrow> dmaId h \<notin> idsOf (butlast (snd c))" using c(2) by auto
      then show ?thesis using annotate_in [OF A(2) c] n i by (simp add: setChain_def)
    next
      case False
      then have "annotateDma A h = h" by (intro annotate_out) blast
      moreover have "dmaId h \<notin> innerIds A" using False by (auto simp: innerIds_def idsOf_def dest: in_set_butlastD)
      ultimately show ?thesis using nx [OF h] by simp
    qed
    then show "nextBd (annotateDma A h) = None \<longleftrightarrow> dmaId h \<notin> innerIds A"
      "dmaToken (annotateDma A h) \<longleftrightarrow> dmaToken h \<and> nextBd (annotateDma A h) = None" by blast+
  qed
  have low: "lowereds (annotate A cs) = map (annotateDma A) (lowereds cs)"
    by (simp add: lowereds_def dmas_annotated filter_map comp_def)
  have "innerIds A \<subseteq> dmaId ` set (lowereds cs)" using mem by (force simp: innerIds_def idsOf_def dest: in_set_butlastD)
  then have "set (asyncTokens w) \<inter> innerIds A = {} \<longleftrightarrow>
      (\<forall>h \<in> set (lowereds (annotate A cs)). dmaId h \<in> set (asyncTokens w) \<longrightarrow> nextBd h = None)" for w
    using inner by (auto simp: low)
  moreover have "list_all2 (\<lambda>h h'. dmaId h' = dmaId h \<and> (dmaToken h' \<longleftrightarrow> dmaToken h \<and> nextBd h' = None)) (lowereds cs) (lowereds (annotate A cs))"
    using tok by (auto simp: low list_all2_map2 list_all2_same)
  ultimately show ?thesis using A(1) by (auto simp: wait_annotated)
qed

section \<open>Samples\<close>

text \<open>A copy of the shim with its wait, of a queue of the first tile.\<close>

definition sampleDma :: "nat \<Rightarrow> nat \<Rightarrow> u32 \<Rightarrow> HalfDma" where
  "sampleDma x conn b = \<lparr>dmaId = x, dmaToken = True, dmaScope = 0, dmaConnection = Some conn, dmaMemorySpace = 0,
     dmaChannel = Some DMA, dmaSizes = [], dmaStrides = [], dmaBd = Some (Some (TileLoc 0 0), b), nextBd = None, startBd = Some b\<rparr>"

definition dmaAndWait :: "HalfDma \<Rightarrow> code" where
  "dmaAndWait h = [HalfDmaOp h, DmaWaitOp \<lparr>waitId = dmaId h, waitScope = 0, asyncTokens = [dmaId h]\<rparr>]"

definition twoQueues :: code where
  "twoQueues = concat (map dmaAndWait [sampleDma 0 0 0, sampleDma 1 1 4, sampleDma 2 0 1, sampleDma 3 1 5, sampleDma 4 0 0])"

lemma sample_config: "\<exists>cfg. mk_DmaDimConfig False (sampleModel npu1) 0 = Inr cfg \<and> maxNbDims cfg = 5"
  by (simp add: mk_DmaDimConfig_def getDmaProp_def sample_defs)


lemma ownDescriptors_code [code]: "ownDescriptors hs \<longleftrightarrow> list_all (\<lambda>g. list_all (\<lambda>h. case (keyOf g, keyOf h) of
    (Some k, Some l) \<Rightarrow> fst k \<noteq> fst l \<or> bdOf g \<noteq> bdOf h \<or> k = l | _ \<Rightarrow> True) hs) hs"
  unfolding ownDescriptors_def list_all_iff by (intro ball_cong refl) (auto split: option.split)

lemma two_queues_ready: "chainReady 5 0 twoQueues"
  by code_simp



theorem waits_of_tails_witness:
  "\<exists>cs'. insertDmaBdChain (sampleModel npu1) rev (\<lambda>_. Some False) twoQueues = Inr cs'
    \<and> list_all2 (\<lambda>h h'. dmaId h' = dmaId h \<and> (dmaToken h' \<longleftrightarrow> dmaToken h \<and> nextBd h' = None)) (lowereds twoQueues) (lowereds cs')"
proof -
  obtain cfg where cfg: "mk_DmaDimConfig False (sampleModel npu1) 0 = Inr cfg" "maxNbDims cfg = 5" using sample_config by blast
  show ?thesis using waits_of_tails [OF cfg(1), of 0 twoQueues rev "\<lambda>_. Some False"] by (simp add: cfg(2) two_queues_ready) blast
qed

text \<open>
  Two queues of a tile that share descriptors, as the assignment of identifiers reuses them: the copy 1 holds
  the chain of its queue open while the copy 2 breaks the chain of the other one, and the check of the copy 3
  no longer knows of the descriptor 0 of the first chain.
\<close>

definition sharedDescriptors :: code where
  "sharedDescriptors = concat (map dmaAndWait [sampleDma 0 0 0, sampleDma 1 1 5, sampleDma 2 1 0, sampleDma 3 1 5, sampleDma 4 0 1])"


text \<open>
  A queue can transfer other data than before where two queues of a tile share descriptors: a descriptor
  of a chain that is still open is written anew, because a broken chain of another queue made the pass
  forget it: the queue 0 transfers the copies 2 and 3 of the queue 1 where the program has the copies 0 and 4.
\<close>

theorem shared_descriptors_overwritten:
  "\<exists>cs' ps ps'. insertDmaBdChain (sampleModel npu1) id (\<lambda>_. Some False) sharedDescriptors = Inr cs'
    \<and> pushes (length sharedDescriptors) sharedDescriptors (\<lambda>_. None) = Some ps \<and> pushes (length sharedDescriptors) cs' (\<lambda>_. None) = Some ps'
    \<and> transfers (\<lambda>j. j = (TileLoc 0 0, 0)) ps = [0, 4] \<and> transfers (\<lambda>j. j = (TileLoc 0 0, 0)) ps' = [2, 3]"
proof -
  have "case insertDmaBdChain (sampleModel npu1) id (\<lambda>_. Some False) sharedDescriptors of Inl _ \<Rightarrow> False
    | Inr cs' \<Rightarrow> (case (pushes 10 sharedDescriptors (\<lambda>_. None), pushes 10 cs' (\<lambda>_. None)) of
        (Some ps, Some ps') \<Rightarrow> transfers (\<lambda>j. j = (TileLoc 0 0, 0)) ps = [0, 4] \<and> transfers (\<lambda>j. j = (TileLoc 0 0, 0)) ps' = [2, 3]
      | _ \<Rightarrow> False)" by code_simp
  moreover have "length sharedDescriptors = 10" by (simp add: sharedDescriptors_def dmaAndWait_def)
  ultimately show ?thesis by (auto split: sum.splits option.splits)
qed

end
