(* ===== verification/Spec2Isabelle.thy ===== *)
theory Spec2Isabelle
  imports Channel_Generator Lock_Id_Generator Dma_Dim_Config Packet_Routing AMSel_Generator Router_Emit Router_Build Command_Chain Buffer_Address Loop_Subsumption Control_Packets Async_Queue_Drain Bd_Chain
begin

text \<open>
  A verification library for iree-amd-aie, the IREE compiler plugin and the IREE drivers for the AI engines
  of AMD. Paths are relative to src/; \<open>aie_runtime\<close> stands for runtime/src/iree-amd-aie/aie_runtime,
  \<open>driver\<close> for runtime/src/iree-amd-aie/driver/amdxdna, and \<open>Transforms\<close> for
  compiler/plugins/target/AMD-AIE/iree-amd-aie/Transforms.

  \<^bold>\<open>The program.\<close> The compiler turns a dispatch into a configuration of the array (locks, buffers,
  descriptors, routes of the stream switches) and into control code, a sequence of descriptors, waits and
  register writes that the controller of the array runs. The resource generators of \<open>aie_runtime\<close>
  hand out channels, descriptors and locks; the router finds routes for the flows, and the packet rules and
  arbiter settings follow from the routes. The passes of \<open>Transforms\<close> bring access patterns into the form
  that the DMAs take, place buffers, fold loops into descriptors and turn the configuration into control
  packets. The driver patches addresses into the control code, accumulates commands into chains and
  runs the operations of a device in the order their semaphores allow.

  \<^bold>\<open>Prelude and contracts.\<close>
  \<^item> \<open>AIE_Prelude\<close>: word types, results with the errors of the sources, insertion-ordered sets,
    collections of rewrite rules.
  \<^item> \<open>Id_Pool\<close>: the locale \<open>id_pool\<close>, what every generator of identifiers promises to its clients; it is
    interpreted by the three generators.
  \<^item> \<open>Device_Types\<close>, \<open>Device_Model\<close>, \<open>Device_Ops\<close>, \<open>Legacy_Target\<close>: enumerations and structs,
    \<open>AMDAIEDeviceModel\<close> (iree_aie_runtime.cc) and the tables of mlir_aie_legacy.cc. The locale
    \<open>switch_tables\<close> is interpreted by both legacy devices.

  \<^bold>\<open>Generators\<close> (\<open>aie_runtime/Utils\<close>).
  \<^item> \<open>Channel_Generator\<close>, \<open>Bd_Id_Generator\<close>, \<open>Lock_Id_Generator\<close>: the classes of the same names; their
    fields are records, their methods definitions. Identifiers are valid and not in use.

  \<^bold>\<open>Router\<close> (iree_aie_router.cc, amsel_generator.h and .cc, d_ary_heap.h).
  \<^item> \<open>Dary_Heap\<close>: the indirect heap, with the locale \<open>keyed_queue\<close> it is an instance of.
  \<^item> \<open>Router_Graph\<close>, \<open>Router_Build\<close>: \<open>initialize\<close>, \<open>addFlow\<close> and the fixed connections, and the
    invariant that every order of these calls keeps.
  \<^item> \<open>Router_Dijkstra\<close>, \<open>Router_Find_Paths\<close>: shortest paths, and the rounds of rip-up and rerouting. A result
    shares no channel beyond its capacity, reaches all destinations, and exists for every bound on rounds.
  \<^item> \<open>Router_Emit\<close>: the connections of the switchboxes and the search for a path through them.
  \<^item> \<open>Packet_Routing\<close>, \<open>AMSel_Generator\<close>: groups and masks of packet ids per slave port, and the arbiters
    and msels of the master ports: every id is matched by the rule of its own group only.

  \<^bold>\<open>Access patterns and passes\<close> (\<open>Transforms\<close>).
  \<^item> \<open>Access_Pattern\<close>, \<open>Access_Folding\<close>, \<open>Dma_Dim_Config\<close>: \<open>Utils/AMDAIEDmaUtils\<close>. A pattern denotes the
    sequence of addresses it visits; rewrites keep the sequence (locale \<open>pattern_pass\<close>).
  \<^item> \<open>Loop_Subsumption\<close>: AMDAIEDmaLoopSubsumption.cpp; the operation before the loop visits what the
    loop's iterations visit.
  \<^item> \<open>Buffer_Address\<close>: the two copies of the pass that places the buffers of a tile.
  \<^item> \<open>Transaction\<close>: the patch table derived from a serialized transaction (AMDAIETransactionBuilder.cpp).
  \<^item> \<open>Control_Packets\<close>: the configuration as control packets, their splitting, and the transfers that carry
    them; sending them does to the registers what the transaction does.
  \<^item> \<open>Control_Code\<close>: the copies, waits and barriers of the control code and the queues that run them.
  \<^item> \<open>Bd_Chain\<close>: AMDAIEInsertDmaBdChain.cpp, which links the copies of a queue; every queue runs the same
    transfers as before, if no two queues of a tile share a descriptor, and an example of the contrary.

  \<^bold>\<open>Driver\<close> (\<open>driver\<close>).
  \<^item> \<open>Host_Patch\<close>: the patches of direct_command_buffer.cc on the bytes of the control code; composed with
    \<open>Transaction\<close> they put every argument's address into its descriptor.
  \<^item> \<open>Command_Chain\<close>: recording and flushing of dispatches, against running them at once.
  \<^item> \<open>Async_Queue\<close>, \<open>Async_Queue_Drain\<close>: async_queue.cc as an inductive set of reachable states of all its
    threads. Every operation ends once and is released once, runs only after its waits, in the order of the
    pushes; destroy ends after a bounded number of steps with nothing left behind.

  \<^bold>\<open>Interactions.\<close> The device model is an argument of the generators, the router and the passes. The router uses
  the heap, \<open>Router_Emit\<close> and \<open>Packet_Routing\<close> read its solution. \<open>Host_Patch\<close> reads the table that
  \<open>Transaction\<close> derives. \<open>Loop_Subsumption\<close> and \<open>Dma_Dim_Config\<close> rest on the sequences of addresses of
  \<open>Access_Pattern\<close>.

  \<^bold>\<open>Loops and bounds.\<close> Loops of the sources that may not end for all inputs are partial functions
  (\<open>search\<close> of Dijkstra, \<open>traceBack\<close>, \<open>anyPath\<close>, \<open>collect\<close>, \<open>flush_group\<close>, \<open>splitLoop\<close>), each with a theorem
  that it returns. The rounds of \<open>findPaths\<close> are bounded by its argument. The chain of descriptors in
  \<open>Control_Code\<close> is followed for at most as many descriptors as the program has operations, which is enough
  for a chain whose descriptors were written by different operations.

  \<^bold>\<open>Assumptions.\<close> Assertions are compiled out. aie-rt and the native layer of the driver are not part of the
  sources: their answers are parameters, and the native layer succeeds. Weights of the router are a
  parameter with the laws of addition and order that the proofs name, instantiated by extended naturals.
  \<open>int64_t\<close> sizes and strides of access patterns are integers. The order that \<open>std::sort\<close> gives to equal
  elements, and the order of a walk over a hash map, are parameters. The asynchronous queue is not used
  during or after its destruction.

  \<^bold>\<open>Not modelled.\<close> The drivers of tiling, packing, vectorization and bufferization, the passes that look up
  users and create operations without a decision of their own, dialect definitions, the
  vector code generation, micro kernels and the target backend: almost every line of them is a call of
  MLIR, LLVM or IREE, whose code is not under src/. The same holds of the register contents that aie-rt
  computes, the Linux shim (system calls), the XRT driver, and the parts of the driver that forward the IREE
  HAL. Walks over the IR that collect what a modelled routine works on are arguments of the routine.
\<close>

end
